(* ===== verification/Nyx_Prelude.thy ===== *)
theory Nyx_Prelude
  imports Main "HOL-Library.Word"
begin

unbundle bit_operations_syntax

text \<open>
  Shared vocabulary of the development: the machine types of
  \<^verbatim>\<open>src/src/common/types.h\<close>, the \<open>Result\<close> type of
  \<^verbatim>\<open>src/src/common/result.h\<close>, little-endian integer codecs, bit maps stored in byte
  vectors, block copies inside byte vectors, and the list lemmas the components share.
  The collection \<open>codec_simps\<close> gathers round-trip equations of codecs, \<open>bitmap_simps\<close>
  the equations of the bit maps and \<open>blit_simps\<close> those of block copies.
\<close>

named_theorems codec_simps "round trips of byte codecs"
named_theorems bitmap_simps "reading a bit map after an update"
named_theorems blit_simps "reading a byte vector after a block copy"

section \<open>Machine types and results\<close>

type_synonym u8 = "8 word"
type_synonym u16 = "16 word"
type_synonym u32 = "32 word"
type_synonym u64 = "64 word"
type_synonym i32 = "32 word"
type_synonym i64 = "64 word"
type_synonym f64 = "64 word"

text \<open>
  Signed integers are words read with \<^const>\<open>sint\<close>; a double is its IEEE 754 bit pattern.
  \<open>Result<T>\<close> is a sum: \<open>Inl\<close> carries the message of \<open>Error\<close>, \<open>Inr\<close> the value.
\<close>

type_synonym 'a result = "string + 'a"

abbreviation ok :: "'a \<Rightarrow> 'a result" where
  "ok \<equiv> Inr"

abbreviation err :: "string \<Rightarrow> 'a result" where
  "err \<equiv> Inl"

fun is_ok :: "'a result \<Rightarrow> bool" where
  "is_ok (Inl _) = False"
| "is_ok (Inr _) = True"

lemma is_ok_iff: "is_ok r \<longleftrightarrow> (\<exists>x. r = ok x)"
  by (cases r) auto

text \<open>\<open>std::to_string\<close> on unsigned values, used in the error messages.\<close>

fun to_string :: "nat \<Rightarrow> string" where
  "to_string n =
     (if n < 10 then [char_of (48 + n)] else to_string (n div 10) @ [char_of (48 + n mod 10)])"

declare to_string.simps [simp del]

section \<open>Bytes of a string\<close>

definition byte_of_char :: "char \<Rightarrow> u8" where
  "byte_of_char c = word_of_nat (of_char c)"

definition char_of_byte :: "u8 \<Rightarrow> char" where
  "char_of_byte b = char_of (unat b)"

lemma char_of_byte_of_char [simp, codec_simps]: "char_of_byte (byte_of_char c) = c"
proof -
  have "unat (word_of_nat (of_char c) :: u8) = take_bit 8 (of_char c)"
    by (simp only: unat_of_nat) (simp add: take_bit_eq_mod)
  then show ?thesis
    by (simp add: byte_of_char_def char_of_byte_def char_of_take_bit_eq)
qed

lemma map_char_of_byte_of_char [simp, codec_simps]:
  "map (char_of_byte \<circ> byte_of_char) s = s" "map char_of_byte (map byte_of_char s) = s"
  by (simp_all add: map_idI)

lemma inj_byte_of_char: "inj byte_of_char"
  by (metis char_of_byte_of_char injI)

section \<open>Little-endian integers\<close>

text \<open>
  \<open>memcpy\<close> between an integer and a byte buffer on the little-endian targets the program
  is built for, and the shift-and-mask loops of the codecs, both store byte \<open>i\<close> as bits
  \<open>8 i\<close> to \<open>8 i + 7\<close>.
\<close>

definition le_bytes :: "nat \<Rightarrow> 'a::len word \<Rightarrow> u8 list" where
  "le_bytes n v = map (\<lambda>i. ucast (drop_bit (8 * i) v AND 0xFF)) [0..<n]"

definition le_word :: "u8 list \<Rightarrow> 'a::len word" where
  "le_word bs = foldr (\<lambda>b acc. ucast b OR push_bit 8 acc) bs 0"

lemma length_le_bytes [simp]: "length (le_bytes n v) = n"
  by (simp add: le_bytes_def)

lemma bit_byte_mask: "bit (0xFF :: 'a::len word) n \<longleftrightarrow> n < 8 \<and> n < LENGTH('a)"
proof -
  have "(0xFF :: 'a::len word) = mask 8" by (simp add: mask_eq_exp_minus_1)
  then show ?thesis by (simp only: bit_mask_iff) auto
qed

lemma bit_byte_mask_int: "bit (0xFF :: int) n \<longleftrightarrow> n < 8"
proof -
  have "(0xFF :: int) = mask 8" by (simp add: mask_eq_exp_minus_1)
  then show ?thesis by (simp only: bit_mask_iff) auto
qed

lemmas byte_bits = bit_simps bit_byte_mask bit_byte_mask_int

lemma bit_le_word:
  "bit (le_word bs :: 'a::len word) n \<longleftrightarrow>
     n < LENGTH('a) \<and> n div 8 < length bs \<and> bit (bs ! (n div 8)) (n mod 8)"
proof (induction bs arbitrary: n)
  case Nil
  then show ?case by (simp add: le_word_def)
next
  case (Cons b bs)
  have eq: "le_word (b # bs) = (ucast b OR push_bit 8 (le_word bs) :: 'a word)"
    by (simp add: le_word_def)
  show ?case
  proof (cases "n < 8")
    case True
    then show ?thesis by (auto simp: eq bit_simps)
  next
    case False
    then obtain m where m: "n = m + 8" by (metis add.commute le_Suc_ex not_less)
    have "(m + 8) div 8 = Suc (m div 8)" by simp
    then show ?thesis using Cons.IH[of m]
      by (auto simp: eq bit_simps m dest: bit_imp_le_length)
  qed
qed

lemma le_word_le_bytes [codec_simps]:
  assumes "LENGTH('a) = 8 * n"
  shows "le_word (le_bytes n v) = (v :: 'a::len word)"
proof (rule bit_word_eqI)
  fix k assume k: "k < LENGTH('a)"
  then have "k div 8 < n" using assms by simp
  with k show "bit (le_word (le_bytes n v) :: 'a word) k = bit v k"
    by (auto simp: bit_le_word le_bytes_def byte_bits simp del: bit_numeral_simps)
qed

lemma le_bytes_le_word [codec_simps]:
  assumes "LENGTH('a) = 8 * length bs"
  shows "le_bytes (length bs) (le_word bs :: 'a::len word) = bs"
  using assms
  by (auto intro!: nth_equalityI bit_word_eqI
      simp: le_bytes_def bit_le_word byte_bits simp del: bit_numeral_simps)

lemma le_word_2 [simp]: "le_word (le_bytes 2 v) = (v :: u16)"
  and le_word_4 [simp]: "le_word (le_bytes 4 w) = (w :: u32)"
  and le_word_8 [simp]: "le_word (le_bytes 8 x) = (x :: u64)"
  by (simp_all add: le_word_le_bytes)

lemma le_bytes_inject:
  fixes v w :: "'a::len word"
  assumes "LENGTH('a) = 8 * n"
  shows "le_bytes n v = le_bytes n w \<longleftrightarrow> v = w"
  using assms by (metis le_word_le_bytes)

section \<open>Bit maps in byte vectors\<close>

text \<open>\<open>(bm[i / 8] >> (i % 8)) & 1u\<close>, \<open>bm[i / 8] |= 1u << (i % 8)\<close> and
  \<open>bm[i / 8] &= ~(1u << (i % 8))\<close>.\<close>

definition bm_get :: "u8 list \<Rightarrow> nat \<Rightarrow> bool" where
  "bm_get bm i \<longleftrightarrow> drop_bit (i mod 8) (bm ! (i div 8)) AND 1 \<noteq> 0"

definition bm_set :: "u8 list \<Rightarrow> nat \<Rightarrow> u8 list" where
  "bm_set bm i = bm[i div 8 := bm ! (i div 8) OR push_bit (i mod 8) 1]"

definition bm_clear :: "u8 list \<Rightarrow> nat \<Rightarrow> u8 list" where
  "bm_clear bm i = bm[i div 8 := bm ! (i div 8) AND NOT (push_bit (i mod 8) 1)]"

lemma bm_get_bit: "bm_get bm i \<longleftrightarrow> bit (bm ! (i div 8)) (i mod 8)"
  by (simp add: bm_get_def and_one_eq bit_iff_odd_drop_bit odd_iff_mod_2_eq_one)

lemma length_bm_set [simp]: "length (bm_set bm i) = length bm"
  and length_bm_clear [simp]: "length (bm_clear bm i) = length bm"
  by (simp_all add: bm_set_def bm_clear_def)

lemma div_mod_8_inject: "i div 8 = j div 8 \<Longrightarrow> i mod 8 = j mod 8 \<Longrightarrow> i = (j :: nat)"
  by (metis div_mult_mod_eq)

lemma bm_get_set [bitmap_simps]:
  assumes "i div 8 < length bm" shows "bm_get (bm_set bm i) j \<longleftrightarrow> i = j \<or> bm_get bm j"
proof (cases "j div 8 = i div 8")
  case True
  then have "i = j \<longleftrightarrow> i mod 8 = j mod 8" by (metis div_mod_8_inject)
  with True assms show ?thesis by (auto simp: bm_get_bit bm_set_def bit_simps)
next
  case False
  then show ?thesis by (auto simp: bm_get_bit bm_set_def)
qed

lemma bm_get_clear [bitmap_simps]:
  assumes "i div 8 < length bm" shows "bm_get (bm_clear bm i) j \<longleftrightarrow> i \<noteq> j \<and> bm_get bm j"
proof (cases "j div 8 = i div 8")
  case True
  then have "i = j \<longleftrightarrow> i mod 8 = j mod 8" by (metis div_mod_8_inject)
  with True assms show ?thesis by (auto simp: bm_get_bit bm_clear_def bit_simps)
next
  case False
  then show ?thesis by (auto simp: bm_get_bit bm_clear_def)
qed

lemma bm_get_replicate_0 [simp]: "i div 8 < n \<Longrightarrow> \<not> bm_get (replicate n 0) i"
  by (simp add: bm_get_bit)

lemma bm_get_append1: "i div 8 < length bm \<Longrightarrow> bm_get (bm @ bs) i = bm_get bm i"
  by (simp add: bm_get_bit nth_append)

text \<open>A vector of \<open>(n + 7) / 8\<close> bytes has a bit for each of \<open>n\<close> rows.\<close>

lemma bytes_for_bits:
  assumes "i < n"
  shows "i div 8 < (n + 7) div (8 :: nat)"
proof -
  have "(i + 8) div 8 \<le> (n + 7) div 8"
    using assms by (intro div_le_mono) simp
  then show ?thesis by simp
qed

section \<open>Block copies\<close>

text \<open>\<open>memcpy(dst + off, src, n)\<close> and reading \<open>n\<close> bytes at \<open>off\<close>.\<close>

definition blit :: "nat \<Rightarrow> 'a list \<Rightarrow> 'a list \<Rightarrow> 'a list" where
  "blit off src dst = take off dst @ src @ drop (off + length src) dst"

definition slice :: "nat \<Rightarrow> nat \<Rightarrow> 'a list \<Rightarrow> 'a list" where
  "slice off n xs = take n (drop off xs)"

lemma length_blit [simp]: "off + length src \<le> length dst \<Longrightarrow> length (blit off src dst) = length dst"
  by (simp add: blit_def)

lemma slice_blit_same [blit_simps]:
  "off + length src \<le> length dst \<Longrightarrow> n = length src \<Longrightarrow> slice off n (blit off src dst) = src"
  by (simp add: blit_def slice_def)

lemma slice_blit_before [blit_simps]:
  "p + n \<le> off \<Longrightarrow> off + length src \<le> length dst \<Longrightarrow>
     slice p n (blit off src dst) = slice p n dst"
  by (simp add: blit_def slice_def take_drop min_def add.commute)

lemma slice_blit_after [blit_simps]:
  "off + length src \<le> p \<Longrightarrow> off + length src \<le> length dst \<Longrightarrow>
     slice p n (blit off src dst) = slice p n dst"
  by (simp add: blit_def slice_def)

lemma slice_update_before [blit_simps]: "j < off \<Longrightarrow> slice off n (xs[j := x]) = slice off n xs"
  by (simp add: slice_def)

lemma length_slice [simp]: "length (slice off n xs) = min n (length xs - off)"
  by (simp add: slice_def min.commute)

section \<open>Words\<close>

lemma unat_u16_less: "unat (w :: u16) < 65536"
  and unat_u32_less: "unat (x :: u32) < 4294967296"
  using unsigned_less[of w, where 'a = nat] unsigned_less[of x, where 'a = nat] by simp_all

lemma unat_of_nat_u16: "n < 65536 \<Longrightarrow> unat (word_of_nat n :: u16) = n"
  and unat_of_nat_u32: "n < 4294967296 \<Longrightarrow> unat (word_of_nat n :: u32) = n"
  and unat_of_nat_u64: "n < 18446744073709551616 \<Longrightarrow> unat (word_of_nat n :: u64) = n"
  and unat_of_nat_u8: "n < 256 \<Longrightarrow> unat (word_of_nat n :: u8) = n"
  by (simp_all add: unat_of_nat)

lemma unat_inc:
  fixes w c :: "'a::len word"
  assumes "w < c"
  shows "unat (w + 1) = Suc (unat w)"
proof -
  have "unat w < unat c" using assms by (simp add: word_less_nat_alt)
  moreover have "unat c < 2 ^ LENGTH('a)" by simp
  ultimately have "Suc (unat w) < 2 ^ LENGTH('a)" by linarith
  then show ?thesis by (simp add: unat_word_ariths)
qed

section \<open>Lists\<close>

lemma take_Suc_nth_append: "i < length xs \<Longrightarrow> take (Suc i) xs = take i xs @ [xs ! i]"
  by (rule take_Suc_conv_app_nth)

lemma insert_at_append:
  "length xs = i \<Longrightarrow> take i (xs @ ys) @ [z] @ drop i (xs @ ys) = xs @ z # ys"
  by simp

end
