(* ===== verification/Values.thy ===== *)
theory Values
  imports Nyx_Prelude
begin

text \<open>
  The data model of \<^verbatim>\<open>src/src/storage/disk/type_id.h\<close>, \<^verbatim>\<open>value.h\<close> and
  \<^verbatim>\<open>schema.h\<close>: type identifiers with their byte codes, the width of a stored value,
  the variant \<open>Value\<close>, the columns of a schema, and IEEE 754 comparison on the bit patterns
  that stand for doubles.
\<close>

section \<open>Type identifiers\<close>

text \<open>
  \<open>enum class TypeId : u8\<close>. A \<open>static_cast\<close> from a byte read from disk may give a
  value that is none of the enumerators: \<open>TypeByte\<close> holds those.
\<close>

datatype type_id =
    INVALID | INT32 | INT64 | DOUBLE | VARCHAR | BOOL | DATE | TIMESTAMP | TypeByte u8

fun type_id_byte :: "type_id \<Rightarrow> u8" where
  "type_id_byte INVALID = 0"
| "type_id_byte INT32 = 1"
| "type_id_byte INT64 = 2"
| "type_id_byte DOUBLE = 3"
| "type_id_byte VARCHAR = 4"
| "type_id_byte BOOL = 5"
| "type_id_byte DATE = 6"
| "type_id_byte TIMESTAMP = 7"
| "type_id_byte (TypeByte b) = b"

definition type_id_of_byte :: "u8 \<Rightarrow> type_id" where
  "type_id_of_byte b =
     (if b = 0 then INVALID else if b = 1 then INT32 else if b = 2 then INT64
      else if b = 3 then DOUBLE else if b = 4 then VARCHAR else if b = 5 then BOOL
      else if b = 6 then DATE else if b = 7 then TIMESTAMP else TypeByte b)"

definition enumerator :: "type_id \<Rightarrow> bool" where
  "enumerator t \<longleftrightarrow> (case t of TypeByte _ \<Rightarrow> False | _ \<Rightarrow> True)"

lemma type_id_of_byte_inverse [simp, codec_simps]:
  "enumerator t \<Longrightarrow> type_id_of_byte (type_id_byte t) = t"
  by (cases t) (simp_all add: type_id_of_byte_def enumerator_def)

lemma type_id_byte_inverse [simp, codec_simps]: "type_id_byte (type_id_of_byte b) = b"
  by (simp add: type_id_of_byte_def)

lemma type_id_of_byte_eq_iff [simp]:
  "type_id_of_byte b = INT32 \<longleftrightarrow> b = 1" "type_id_of_byte b = INT64 \<longleftrightarrow> b = 2"
  "type_id_of_byte b = DOUBLE \<longleftrightarrow> b = 3" "type_id_of_byte b = VARCHAR \<longleftrightarrow> b = 4"
  "type_id_of_byte b = BOOL \<longleftrightarrow> b = 5" "type_id_of_byte b = DATE \<longleftrightarrow> b = 6"
  "type_id_of_byte b = TIMESTAMP \<longleftrightarrow> b = 7"
  by (auto simp: type_id_of_byte_def)

text \<open>\<open>type_size\<close>: bytes of one stored value, 0 for a type that cannot be stored.\<close>

fun type_size :: "type_id \<Rightarrow> u16 \<Rightarrow> nat" where
  "type_size INT32 max_len = 4"
| "type_size INT64 max_len = 8"
| "type_size DOUBLE max_len = 8"
| "type_size VARCHAR max_len = (if max_len > 0 then unat max_len + 2 else 0)"
| "type_size BOOL max_len = 1"
| "type_size DATE max_len = 4"
| "type_size TIMESTAMP max_len = 8"
| "type_size _ max_len = 0"

section \<open>Values and schemas\<close>

text \<open>\<open>std::variant<std::monostate, i32, i64, f64, std::string, bool, Date, Timestamp>\<close>.\<close>

datatype val =
    VNull | VI32 i32 | VI64 i64 | VF64 f64 | VStr string | VBool bool | VDate i32
  | VTimestamp i64

fun is_null :: "val \<Rightarrow> bool" where
  "is_null VNull = True"
| "is_null _ = False"

record column =
  col_name :: string
  col_type :: type_id
  col_nullable :: bool
  col_max_len :: u16
  col_default :: "val option"

type_synonym schema = "column list"

text \<open>The alternative a column of a type stores: \<open>std::holds_alternative\<close> of the append paths.\<close>

fun holds_type :: "type_id \<Rightarrow> val \<Rightarrow> bool" where
  "holds_type INT32 (VI32 _) = True"
| "holds_type INT64 (VI64 _) = True"
| "holds_type DOUBLE (VF64 _) = True"
| "holds_type VARCHAR (VStr _) = True"
| "holds_type BOOL (VBool _) = True"
| "holds_type DATE (VDate _) = True"
| "holds_type TIMESTAMP (VTimestamp _) = True"
| "holds_type _ _ = False"

section \<open>Comparison of doubles\<close>

text \<open>
  The C++ operators \<open><\<close> and \<open>==\<close> on \<open>double\<close>, on bit patterns: a NaN is unordered,
  the two zeros are equal, other values are ordered by sign and magnitude.
\<close>

definition f64_is_nan :: "f64 \<Rightarrow> bool" where
  "f64_is_nan w \<longleftrightarrow>
     w AND 0x7FF0000000000000 = 0x7FF0000000000000 \<and> w AND 0x000FFFFFFFFFFFFF \<noteq> 0"

definition f64_rank :: "f64 \<Rightarrow> int" where
  "f64_rank w =
     (if bit w 63 then - uint (w AND 0x7FFFFFFFFFFFFFFF) else uint (w AND 0x7FFFFFFFFFFFFFFF))"

definition f64_lt :: "f64 \<Rightarrow> f64 \<Rightarrow> bool" where
  "f64_lt a b \<longleftrightarrow> \<not> f64_is_nan a \<and> \<not> f64_is_nan b \<and> f64_rank a < f64_rank b"

definition f64_eq :: "f64 \<Rightarrow> f64 \<Rightarrow> bool" where
  "f64_eq a b \<longleftrightarrow> \<not> f64_is_nan a \<and> \<not> f64_is_nan b \<and> f64_rank a = f64_rank b"

lemma f64_lt_irrefl: "\<not> f64_lt a a"
  by (simp add: f64_lt_def)

lemma f64_lt_trans: "f64_lt a b \<Longrightarrow> f64_lt b c \<Longrightarrow> f64_lt a c"
  by (simp add: f64_lt_def)

lemma f64_trichotomy:
  "\<not> f64_is_nan a \<Longrightarrow> \<not> f64_is_nan b \<Longrightarrow> f64_lt a b \<or> f64_eq a b \<or> f64_lt b a"
  by (auto simp: f64_lt_def f64_eq_def)

section \<open>Comparison of strings\<close>

text \<open>\<open>std::string\<close> compares its characters as unsigned bytes.\<close>

fun str_less :: "string \<Rightarrow> string \<Rightarrow> bool" where
  "str_less _ [] = False"
| "str_less [] (_ # _) = True"
| "str_less (a # as) (b # bs) =
     (byte_of_char a < byte_of_char b \<or> (a = b \<and> str_less as bs))"

lemma str_less_irrefl: "\<not> str_less a a"
  by (induction a) auto

lemma str_less_asym: "str_less a b \<Longrightarrow> \<not> str_less b a"
  by (induction a b rule: str_less.induct) auto

lemma str_less_total: "\<not> str_less a b \<Longrightarrow> \<not> str_less b a \<Longrightarrow> a = b"
  by (induction a b rule: str_less.induct)
     (auto elim: str_less.elims simp: not_less_iff_gr_or_eq dest: injD[OF inj_byte_of_char])

lemma str_less_trans: "str_less a b \<Longrightarrow> str_less b c \<Longrightarrow> str_less a c"
proof (induction a b arbitrary: c rule: str_less.induct)
  case (2 b bs)
  then show ?case by (cases c) auto
next
  case (3 a as b bs)
  then show ?case by (cases c) auto
qed simp

section \<open>Operators\<close>

text \<open>A three-way comparison from a strict order, and the kinds of binary operators of
  \<^verbatim>\<open>src/src/executor/expression.h\<close>.\<close>

definition cmp_val :: "('a \<Rightarrow> 'a \<Rightarrow> bool) \<Rightarrow> 'a \<Rightarrow> 'a \<Rightarrow> int" where
  "cmp_val lt a b = (if lt a b then -1 else if lt b a then 1 else 0)"

datatype binary_op_kind = ADD | SUB | MUL | DIV | LT | LE | EQ | GE | GT | NE

datatype logical_op_kind = LOGICAL_AND | LOGICAL_OR

datatype null_check_kind = IS_NULL | IS_NOT_NULL

end
