(* ===== verification/Column_Page.thy ===== *)
theory Column_Page
  imports Values
begin

text \<open>
  \<^verbatim>\<open>src/src/storage/disk/column_page.h\<close> and \<^verbatim>\<open>column_page.cpp\<close>: one 8 KB page of one
  column. The header \<open>ColumnPageHeader\<close> is the record \<open>column_page\<close>; its last field
  \<open>cp_area\<close> is the rest of the payload, the null bit map followed by the value slots,
  which the code addresses with pointer arithmetic. The theory proves that the layout chosen
  by \<open>column_page_capacity\<close> fits the page, that the operations refine appending to,
  reading from and truncating a list of optional cells, and that the page's minimum and
  maximum always bound its non-null values.
\<close>

section \<open>Layout\<close>

definition PAGE_SIZE :: nat where [simp]: "PAGE_SIZE = 8192"
definition PAGE_HEADER_SIZE :: nat where [simp]: "PAGE_HEADER_SIZE = 24"
definition PAGE_PAYLOAD_SIZE :: nat where [simp]: "PAGE_PAYLOAD_SIZE = PAGE_SIZE - PAGE_HEADER_SIZE"
definition COL_PAGE_HEADER_SIZE :: nat where [simp]: "COL_PAGE_HEADER_SIZE = 32"

definition COL_PAGE_FLAG_NULLABLE :: u8 where "COL_PAGE_FLAG_NULLABLE = 0x01"
definition COL_PAGE_FLAG_HAS_NULLS :: u8 where "COL_PAGE_FLAG_HAS_NULLS = 0x02"

definition column_page_capacity :: "type_id \<Rightarrow> bool \<Rightarrow> u16 \<Rightarrow> nat" where
  "column_page_capacity t nullable max_len =
     (let elem = type_size t max_len
      in if elem = 0 then 0
         else let budget = PAGE_PAYLOAD_SIZE - COL_PAGE_HEADER_SIZE
              in if nullable then budget * 8 div (elem * 8 + 1) else budget div elem)"

record column_page =
  cp_type :: type_id
  cp_flags :: u8
  cp_value_count :: u16
  cp_capacity :: u16
  cp_null_bitmap_bytes :: u16
  cp_min_bytes :: "u8 list"
  cp_max_bytes :: "u8 list"
  cp_null_count :: u16
  cp_max_len :: u16
  cp_area :: "u8 list"

section \<open>Operations\<close>

definition cp_init :: "type_id \<Rightarrow> bool \<Rightarrow> u16 \<Rightarrow> column_page \<Rightarrow> column_page" where
  "cp_init t nullable max_len p =
     (let cap = word_of_nat (column_page_capacity t nullable max_len) :: u16
      in p\<lparr>cp_type := t,
           cp_flags := (if nullable then COL_PAGE_FLAG_NULLABLE else 0),
           cp_value_count := 0,
           cp_capacity := cap,
           cp_null_bitmap_bytes := (if nullable then word_of_nat ((unat cap + 7) div 8) else 0),
           cp_null_count := 0,
           cp_max_len := max_len,
           cp_min_bytes := replicate 8 0,
           cp_max_bytes := replicate 8 0\<rparr>)"

definition cp_nullable :: "column_page \<Rightarrow> bool" where
  "cp_nullable p \<longleftrightarrow> cp_flags p AND COL_PAGE_FLAG_NULLABLE \<noteq> 0"

definition cp_has_nulls :: "column_page \<Rightarrow> bool" where
  "cp_has_nulls p \<longleftrightarrow> cp_flags p AND COL_PAGE_FLAG_HAS_NULLS \<noteq> 0"

definition cp_is_full :: "column_page \<Rightarrow> bool" where
  "cp_is_full p \<longleftrightarrow> cp_value_count p \<ge> cp_capacity p"

text \<open>The null bit map starts at the area, the values after its \<open>null_bitmap_bytes\<close> bytes.\<close>

definition cp_is_null :: "column_page \<Rightarrow> nat \<Rightarrow> bool" where
  "cp_is_null p slot =
     (if cp_null_bitmap_bytes p = 0 then False
      else if slot \<ge> unat (cp_value_count p) then False
      else bm_get (cp_area p) slot)"

definition cp_truncate_to :: "nat \<Rightarrow> column_page \<Rightarrow> column_page" where
  "cp_truncate_to new_count p =
     (if new_count \<ge> unat (cp_value_count p) then p
      else
        let p1 =
          (if cp_nullable p then
             let nc = length (filter (bm_get (cp_area p)) [0..<new_count])
             in p\<lparr>cp_null_count := word_of_nat nc,
                  cp_flags := (if nc = 0 then cp_flags p AND NOT COL_PAGE_FLAG_HAS_NULLS
                               else cp_flags p)\<rparr>
           else p)
        in p1\<lparr>cp_value_count := word_of_nat new_count\<rparr>)"

definition cp_update_min_max ::
  "('a::len word \<Rightarrow> 'a word \<Rightarrow> bool) \<Rightarrow> 'a word \<Rightarrow> column_page \<Rightarrow> column_page" where
  "cp_update_min_max lt v p =
     (let n = LENGTH('a) div 8;
          non_null_count = cp_value_count p - cp_null_count p
      in if non_null_count = 0
         then p\<lparr>cp_min_bytes := blit 0 (le_bytes n v) (cp_min_bytes p),
                cp_max_bytes := blit 0 (le_bytes n v) (cp_max_bytes p)\<rparr>
         else
           let cur_min = le_word (slice 0 n (cp_min_bytes p));
               cur_max = le_word (slice 0 n (cp_max_bytes p));
               p1 = (if lt v cur_min
                     then p\<lparr>cp_min_bytes := blit 0 (le_bytes n v) (cp_min_bytes p)\<rparr> else p)
           in if lt cur_max v
              then p1\<lparr>cp_max_bytes := blit 0 (le_bytes n v) (cp_max_bytes p1)\<rparr> else p1)"

text \<open>Writing one cell: the bytes at the next slot; the bit in the null map and the count follow.\<close>

definition cp_put_slot :: "u8 list \<Rightarrow> column_page \<Rightarrow> column_page" where
  "cp_put_slot bs p =
     p\<lparr>cp_area := blit (unat (cp_null_bitmap_bytes p) + unat (cp_value_count p) * length bs) bs
                    (cp_area p)\<rparr>"

definition cp_clear_null_bit :: "column_page \<Rightarrow> column_page" where
  "cp_clear_null_bit p =
     (if cp_null_bitmap_bytes p > 0
      then p\<lparr>cp_area := bm_clear (cp_area p) (unat (cp_value_count p))\<rparr> else p)"

definition cp_bump_count :: "column_page \<Rightarrow> column_page" where
  "cp_bump_count p = p\<lparr>cp_value_count := cp_value_count p + 1\<rparr>"

definition cp_append_typed ::
  "('a::len word \<Rightarrow> 'a word \<Rightarrow> bool) \<Rightarrow> type_id \<Rightarrow> 'a word \<Rightarrow> column_page \<Rightarrow>
   unit result \<times> column_page" where
  "cp_append_typed lt expected v p =
     (if cp_type p \<noteq> expected then (err ''append: type mismatch'', p)
      else if cp_value_count p \<ge> cp_capacity p then (err ''append: page full'', p)
      else (ok (), cp_bump_count (cp_clear_null_bit (cp_update_min_max lt v
              (cp_put_slot (le_bytes (LENGTH('a) div 8) v) p)))))"

definition cp_append_i32 :: "i32 \<Rightarrow> column_page \<Rightarrow> unit result \<times> column_page" where
  "cp_append_i32 v p = cp_append_typed (\<lambda>x y. sint x < sint y) INT32 v p"

definition cp_append_i64 :: "i64 \<Rightarrow> column_page \<Rightarrow> unit result \<times> column_page" where
  "cp_append_i64 v p = cp_append_typed (\<lambda>x y. sint x < sint y) INT64 v p"

definition cp_append_f64 :: "f64 \<Rightarrow> column_page \<Rightarrow> unit result \<times> column_page" where
  "cp_append_f64 v p = cp_append_typed f64_lt DOUBLE v p"

definition cp_append_date :: "i32 \<Rightarrow> column_page \<Rightarrow> unit result \<times> column_page" where
  "cp_append_date v p = cp_append_typed (\<lambda>x y. sint x < sint y) DATE v p"

definition cp_append_timestamp :: "i64 \<Rightarrow> column_page \<Rightarrow> unit result \<times> column_page" where
  "cp_append_timestamp v p = cp_append_typed (\<lambda>x y. sint x < sint y) TIMESTAMP v p"

definition cp_append_bool :: "bool \<Rightarrow> column_page \<Rightarrow> unit result \<times> column_page" where
  "cp_append_bool v p =
     (if cp_type p \<noteq> BOOL then (err ''append_bool: type mismatch'', p)
      else if cp_value_count p \<ge> cp_capacity p then (err ''append_bool: page full'', p)
      else (ok (), cp_bump_count (cp_clear_null_bit (cp_put_slot [if v then 1 else 0] p))))"

definition cp_append_null :: "column_page \<Rightarrow> unit result \<times> column_page" where
  "cp_append_null p =
     (if cp_null_bitmap_bytes p = 0 then (err ''append_null: column is not nullable'', p)
      else if cp_value_count p \<ge> cp_capacity p then (err ''append_null: page full'', p)
      else (ok (), cp_bump_count
              (p\<lparr>cp_area := bm_set (cp_area p) (unat (cp_value_count p)),
                 cp_null_count := cp_null_count p + 1,
                 cp_flags := cp_flags p OR COL_PAGE_FLAG_HAS_NULLS\<rparr>)))"

text \<open>The slot of a string: its length in two bytes, its bytes, zeros up to \<open>max_len\<close>.\<close>

definition str_slot :: "u16 \<Rightarrow> string \<Rightarrow> u8 list" where
  "str_slot max_len s =
     le_bytes 2 (word_of_nat (length s) :: u16) @ map byte_of_char s
       @ replicate (unat max_len - length s) 0"

definition cp_append_str :: "string \<Rightarrow> column_page \<Rightarrow> unit result \<times> column_page" where
  "cp_append_str s p =
     (if cp_type p \<noteq> VARCHAR then (err ''append_str: column is not VARCHAR'', p)
      else if cp_value_count p \<ge> cp_capacity p then (err ''append_str: page full'', p)
      else if length s > unat (cp_max_len p)
      then (err (''string of length '' @ to_string (length s) @ '' exceeds VARCHAR(''
                 @ to_string (unat (cp_max_len p)) @ '')''), p)
      else (ok (), cp_bump_count (cp_clear_null_bit (cp_put_slot (str_slot (cp_max_len p) s) p))))"

definition cp_get_typed :: "type_id \<Rightarrow> nat \<Rightarrow> column_page \<Rightarrow> 'a::len word result" where
  "cp_get_typed expected slot p =
     (if cp_type p \<noteq> expected then err ''get: type mismatch''
      else if slot \<ge> unat (cp_value_count p) then err ''get: slot out of range''
      else if cp_is_null p slot then err ''get: value is null''
      else let n = LENGTH('a) div 8
           in ok (le_word (slice (unat (cp_null_bitmap_bytes p) + slot * n) n (cp_area p))))"

definition cp_get_i32 :: "nat \<Rightarrow> column_page \<Rightarrow> i32 result" where
  "cp_get_i32 slot p = cp_get_typed INT32 slot p"

definition cp_get_i64 :: "nat \<Rightarrow> column_page \<Rightarrow> i64 result" where
  "cp_get_i64 slot p = cp_get_typed INT64 slot p"

definition cp_get_f64 :: "nat \<Rightarrow> column_page \<Rightarrow> f64 result" where
  "cp_get_f64 slot p = cp_get_typed DOUBLE slot p"

definition cp_get_date :: "nat \<Rightarrow> column_page \<Rightarrow> i32 result" where
  "cp_get_date slot p = cp_get_typed DATE slot p"

definition cp_get_timestamp :: "nat \<Rightarrow> column_page \<Rightarrow> i64 result" where
  "cp_get_timestamp slot p = cp_get_typed TIMESTAMP slot p"

definition cp_get_bool :: "nat \<Rightarrow> column_page \<Rightarrow> bool result" where
  "cp_get_bool slot p =
     (if cp_type p \<noteq> BOOL then err ''get_bool: type mismatch''
      else if slot \<ge> unat (cp_value_count p) then err ''get_bool: slot out of range''
      else if cp_is_null p slot then err ''get_bool: value is null''
      else ok (cp_area p ! (unat (cp_null_bitmap_bytes p) + slot) \<noteq> 0))"

definition cp_get_str :: "nat \<Rightarrow> column_page \<Rightarrow> string" where
  "cp_get_str slot p =
     (let ptr = unat (cp_null_bitmap_bytes p) + slot * (unat (cp_max_len p) + 2);
          len = unat (le_word (slice ptr 2 (cp_area p)) :: u16)
      in map char_of_byte (slice (ptr + 2) len (cp_area p)))"

definition cp_read_min :: "type_id \<Rightarrow> column_page \<Rightarrow> 'a::len word option" where
  "cp_read_min expected p =
     (if cp_type p \<noteq> expected then None
      else if unat (cp_value_count p) = unat (cp_null_count p) then None
      else Some (le_word (slice 0 (LENGTH('a) div 8) (cp_min_bytes p))))"

definition cp_read_max :: "type_id \<Rightarrow> column_page \<Rightarrow> 'a::len word option" where
  "cp_read_max expected p =
     (if cp_type p \<noteq> expected then None
      else if unat (cp_value_count p) = unat (cp_null_count p) then None
      else Some (le_word (slice 0 (LENGTH('a) div 8) (cp_max_bytes p))))"

section \<open>The layout fits the page\<close>

lemma nullable_capacity_fits:
  fixes b e c :: nat
  assumes "c = b * 8 div (e * 8 + 1)"
  shows "(c + 7) div 8 + c * e \<le> b"
proof -
  have "c * (e * 8 + 1) \<le> b * 8"
    unfolding assms by (rule div_times_less_eq_dividend)
  then have "c + 8 * (c * e) \<le> 8 * b" by (simp add: algebra_simps)
  then have "c + 7 + 8 * (c * e) < 8 * (b + 1)" by simp
  then have "(c + 7 + 8 * (c * e)) div 8 < b + 1" by (simp add: div_less_iff_less_mult mult.commute)
  then show ?thesis by simp
qed

lemma capacity_le_budget: "column_page_capacity t nullable max_len \<le> 8136"
proof (cases "type_size t max_len = 0")
  case True
  then show ?thesis by (simp add: column_page_capacity_def)
next
  case False
  have "8136 div type_size t max_len \<le> 8136" by simp
  moreover have "65088 div (type_size t max_len * 8 + 1) \<le> 65088 div 8"
    using False by (intro div_le_mono2) simp_all
  ultimately show ?thesis using False by (simp add: column_page_capacity_def Let_def)
qed

lemma capacity_fits:
  assumes "type_size t max_len > 0" "c = column_page_capacity t nullable max_len"
  shows "(if nullable then (c + 7) div 8 else 0) + c * type_size t max_len \<le> 8136"
proof (cases nullable)
  case True
  then show ?thesis using assms nullable_capacity_fits[of c 8136 "type_size t max_len"]
    by (simp add: column_page_capacity_def Let_def)
next
  case False
  then show ?thesis using assms
    by (simp add: column_page_capacity_def Let_def div_times_less_eq_dividend)
qed

section \<open>Well-formed pages and their cells\<close>

definition cp_elem :: "column_page \<Rightarrow> nat" where
  "cp_elem p = type_size (cp_type p) (cp_max_len p)"

definition cp_cells :: "column_page \<Rightarrow> u8 list option list" where
  "cp_cells p = map (\<lambda>i. if cp_is_null p i then None
       else Some (slice (unat (cp_null_bitmap_bytes p) + i * cp_elem p) (cp_elem p) (cp_area p)))
     [0..<unat (cp_value_count p)]"

definition cp_layout :: "column_page \<Rightarrow> bool" where
  "cp_layout p \<longleftrightarrow>
     0 < cp_elem p \<and> 0 < cp_capacity p \<and> cp_value_count p \<le> cp_capacity p
     \<and> length (cp_area p) = 8136
     \<and> unat (cp_null_bitmap_bytes p) + unat (cp_capacity p) * cp_elem p \<le> 8136
     \<and> (cp_null_bitmap_bytes p = 0 \<or> unat (cp_capacity p) \<le> 8 * unat (cp_null_bitmap_bytes p))
     \<and> length (cp_min_bytes p) = 8 \<and> length (cp_max_bytes p) = 8"

definition cp_nulls_ok :: "column_page \<Rightarrow> bool" where
  "cp_nulls_ok p \<longleftrightarrow>
     (cp_nullable p \<longleftrightarrow> cp_null_bitmap_bytes p \<noteq> 0)
     \<and> unat (cp_null_count p) = length (filter (\<lambda>c. c = None) (cp_cells p))
     \<and> (cp_has_nulls p \<longleftrightarrow> None \<in> set (cp_cells p))"

definition cp_inv :: "column_page \<Rightarrow> bool" where
  "cp_inv p \<longleftrightarrow> cp_layout p \<and> cp_nulls_ok p"

lemma length_cp_cells [simp]: "length (cp_cells p) = unat (cp_value_count p)"
  by (simp add: cp_cells_def)

lemma cp_count_Suc:
  assumes "cp_layout p" "\<not> cp_value_count p \<ge> cp_capacity p"
  shows "unat (cp_value_count p + 1) = Suc (unat (cp_value_count p))"
    and "unat (cp_value_count p) < unat (cp_capacity p)"
    and "cp_value_count p + 1 \<le> cp_capacity p"
proof -
  have lt: "cp_value_count p < cp_capacity p" using assms by simp
  then show "unat (cp_value_count p + 1) = Suc (unat (cp_value_count p))"
    by (rule unat_inc)
  show "unat (cp_value_count p) < unat (cp_capacity p)" using lt by (simp add: word_less_nat_alt)
  show "cp_value_count p + 1 \<le> cp_capacity p" using lt by (metis inc_le add.commute)
qed

lemma slot_in_area:
  assumes "cp_layout p" "i < unat (cp_capacity p)"
  shows "unat (cp_null_bitmap_bytes p) + i * cp_elem p + cp_elem p \<le> length (cp_area p)"
proof -
  have "Suc i * cp_elem p \<le> unat (cp_capacity p) * cp_elem p"
    using assms(2) by (intro mult_le_mono1) simp
  then show ?thesis using assms(1) by (simp add: cp_layout_def)
qed

lemma bit_in_map:
  assumes "cp_layout p" "i < unat (cp_capacity p)" "cp_null_bitmap_bytes p \<noteq> 0"
  shows "i div 8 < unat (cp_null_bitmap_bytes p)"
  using assms by (auto simp: cp_layout_def div_less_iff_less_mult mult.commute)

lemma slot_step: "i < j \<Longrightarrow> i * e + e \<le> j * (e::nat)"
  by (metis add.commute mult_Suc Suc_leI mult_le_mono1)


section \<open>Effect of the operations on the cells\<close>

lemma cp_update_min_max_fields [simp]:
  "cp_type (cp_update_min_max lt v p) = cp_type p"
  "cp_flags (cp_update_min_max lt v p) = cp_flags p"
  "cp_value_count (cp_update_min_max lt v p) = cp_value_count p"
  "cp_capacity (cp_update_min_max lt v p) = cp_capacity p"
  "cp_null_bitmap_bytes (cp_update_min_max lt v p) = cp_null_bitmap_bytes p"
  "cp_null_count (cp_update_min_max lt v p) = cp_null_count p"
  "cp_max_len (cp_update_min_max lt v p) = cp_max_len p"
  "cp_area (cp_update_min_max lt v p) = cp_area p"
  by (simp_all add: cp_update_min_max_def Let_def)

lemma cp_put_slot_fields [simp]:
  "cp_type (cp_put_slot bs p) = cp_type p" "cp_flags (cp_put_slot bs p) = cp_flags p"
  "cp_value_count (cp_put_slot bs p) = cp_value_count p"
  "cp_capacity (cp_put_slot bs p) = cp_capacity p"
  "cp_null_bitmap_bytes (cp_put_slot bs p) = cp_null_bitmap_bytes p"
  "cp_null_count (cp_put_slot bs p) = cp_null_count p"
  "cp_max_len (cp_put_slot bs p) = cp_max_len p"
  "cp_min_bytes (cp_put_slot bs p) = cp_min_bytes p"
  "cp_max_bytes (cp_put_slot bs p) = cp_max_bytes p"
  by (simp_all add: cp_put_slot_def)

lemma cp_clear_null_bit_fields [simp]:
  "cp_type (cp_clear_null_bit p) = cp_type p" "cp_flags (cp_clear_null_bit p) = cp_flags p"
  "cp_value_count (cp_clear_null_bit p) = cp_value_count p"
  "cp_capacity (cp_clear_null_bit p) = cp_capacity p"
  "cp_null_bitmap_bytes (cp_clear_null_bit p) = cp_null_bitmap_bytes p"
  "cp_null_count (cp_clear_null_bit p) = cp_null_count p"
  "cp_max_len (cp_clear_null_bit p) = cp_max_len p"
  "cp_min_bytes (cp_clear_null_bit p) = cp_min_bytes p"
  "cp_max_bytes (cp_clear_null_bit p) = cp_max_bytes p"
  by (simp_all add: cp_clear_null_bit_def)

lemma cp_bump_count_fields [simp]:
  "cp_type (cp_bump_count p) = cp_type p" "cp_flags (cp_bump_count p) = cp_flags p"
  "cp_value_count (cp_bump_count p) = cp_value_count p + 1"
  "cp_capacity (cp_bump_count p) = cp_capacity p"
  "cp_null_bitmap_bytes (cp_bump_count p) = cp_null_bitmap_bytes p"
  "cp_null_count (cp_bump_count p) = cp_null_count p"
  "cp_max_len (cp_bump_count p) = cp_max_len p"
  "cp_min_bytes (cp_bump_count p) = cp_min_bytes p"
  "cp_max_bytes (cp_bump_count p) = cp_max_bytes p"
  "cp_area (cp_bump_count p) = cp_area p"
  by (simp_all add: cp_bump_count_def)

text \<open>
  The area after a value is written at slot \<open>n\<close>: the earlier slots and null bits are
  unchanged, the new slot holds the bytes and its null bit is clear.
\<close>

lemma slot_area:
  assumes lay: "cp_layout p" and n: "n < unat (cp_capacity p)" and len: "length bs = cp_elem p"
  defines "a \<equiv> blit (unat (cp_null_bitmap_bytes p) + n * cp_elem p) bs (cp_area p)"
  shows "length a = length (cp_area p)"
    and "slice (unat (cp_null_bitmap_bytes p) + n * cp_elem p) (cp_elem p) a = bs"
    and "i < n \<Longrightarrow> slice (unat (cp_null_bitmap_bytes p) + i * cp_elem p) (cp_elem p) a
          = slice (unat (cp_null_bitmap_bytes p) + i * cp_elem p) (cp_elem p) (cp_area p)"
    and "j < unat (cp_null_bitmap_bytes p) \<Longrightarrow> a ! j = cp_area p ! j"
proof -
  have fit: "unat (cp_null_bitmap_bytes p) + n * cp_elem p + length bs \<le> length (cp_area p)"
    using slot_in_area[OF lay n] len by simp
  show "length a = length (cp_area p)" using fit by (simp add: a_def)
  show "slice (unat (cp_null_bitmap_bytes p) + n * cp_elem p) (cp_elem p) a = bs"
    unfolding a_def by (rule slice_blit_same) (use fit len in auto)
  show "slice (unat (cp_null_bitmap_bytes p) + i * cp_elem p) (cp_elem p) a
          = slice (unat (cp_null_bitmap_bytes p) + i * cp_elem p) (cp_elem p) (cp_area p)" if "i < n"
    unfolding a_def
    by (rule slice_blit_before) (use fit slot_step[OF that, of "cp_elem p"] in auto)
  show "a ! j = cp_area p ! j" if "j < unat (cp_null_bitmap_bytes p)"
    using that fit by (simp add: a_def blit_def nth_append)
qed


lemma cells_append_value:
  assumes lay: "cp_layout p" and room: "\<not> cp_value_count p \<ge> cp_capacity p"
    and len: "length bs = cp_elem p"
    and q: "cp_type q = cp_type p" "cp_max_len q = cp_max_len p"
      "cp_null_bitmap_bytes q = cp_null_bitmap_bytes p" "cp_value_count q = cp_value_count p + 1"
      "cp_area q = cp_area (cp_clear_null_bit (cp_put_slot bs p))"
  shows "cp_cells q = cp_cells p @ [Some bs]" and "length (cp_area q) = length (cp_area p)"
proof -
  define n where "n = unat (cp_value_count p)"
  define nb where "nb = unat (cp_null_bitmap_bytes p)"
  define a where "a = blit (nb + n * cp_elem p) bs (cp_area p)"
  have n: "n < unat (cp_capacity p)" and cnt: "unat (cp_value_count q) = Suc n"
    using cp_count_Suc[OF lay room] q by (simp_all add: n_def)
  note sa = slot_area[OF lay n len, folded nb_def, folded a_def]
  have el: "cp_elem q = cp_elem p" using q by (simp add: cp_elem_def)
  have aq: "cp_area q = (if nb > 0 then bm_clear a n else a)"
    using q len by (simp add: cp_clear_null_bit_def cp_put_slot_def a_def nb_def n_def
        word_less_nat_alt cp_elem_def)
  show "length (cp_area q) = length (cp_area p)" using aq sa(1) by simp
  have bit: "i div 8 < nb" if "i \<le> n" "nb > 0" for i
    using bit_in_map[OF lay, of i] that n by (auto simp: nb_def unat_eq_zero[symmetric])
  have lena: "nb \<le> length a" using sa(1) lay by (simp add: cp_layout_def nb_def)
  have sl: "slice (nb + i * cp_elem p) k (cp_area q) = slice (nb + i * cp_elem p) k a" for i k
    using bit[of n] by (auto simp: aq bm_clear_def intro!: slice_update_before)
  have nul: "cp_is_null q i \<longleftrightarrow> i < n \<and> cp_is_null p i" if "i \<le> n" for i
  proof (cases "nb > 0")
    case True
    have "bm_get a i = bm_get (cp_area p) i"
      using sa(4)[OF bit[OF that True]] by (simp add: bm_get_bit)
    moreover have "n div 8 < length a" using bit[of n] True lena by simp
    ultimately show ?thesis
      using True that q(1-4) cnt by (auto simp: cp_is_null_def aq bm_get_clear n_def nb_def
          unat_eq_zero[symmetric])
  next
    case False
    then show ?thesis using q by (simp add: cp_is_null_def nb_def unat_eq_zero)
  qed
  show "cp_cells q = cp_cells p @ [Some bs]"
    unfolding cp_cells_def cnt el
    using sl nul sa(2,3) by (simp add: q(3) nb_def[symmetric] n_def[symmetric])
qed


lemma cells_append_null:
  assumes lay: "cp_layout p" and room: "\<not> cp_value_count p \<ge> cp_capacity p"
    and nb: "cp_null_bitmap_bytes p \<noteq> 0"
    and q: "cp_type q = cp_type p" "cp_max_len q = cp_max_len p"
      "cp_null_bitmap_bytes q = cp_null_bitmap_bytes p" "cp_value_count q = cp_value_count p + 1"
      "cp_area q = bm_set (cp_area p) (unat (cp_value_count p))"
  shows "cp_cells q = cp_cells p @ [None]" and "length (cp_area q) = length (cp_area p)"
proof -
  define n where "n = unat (cp_value_count p)"
  have n: "n < unat (cp_capacity p)" and cnt: "unat (cp_value_count q) = Suc n"
    using cp_count_Suc[OF lay room] q by (simp_all add: n_def)
  have el: "cp_elem q = cp_elem p" using q by (simp add: cp_elem_def)
  show "length (cp_area q) = length (cp_area p)" using q by simp
  have byte: "n div 8 < unat (cp_null_bitmap_bytes p)" by (rule bit_in_map[OF lay n nb])
  then have inr: "n div 8 < length (cp_area p)"
    using lay by (simp add: cp_layout_def)
  have sl: "slice (unat (cp_null_bitmap_bytes p) + i * e) k (cp_area q)
       = slice (unat (cp_null_bitmap_bytes p) + i * e) k (cp_area p)" for i k e
    using byte by (auto simp: q(5) bm_set_def n_def[symmetric] intro!: slice_update_before)
  have nul: "cp_is_null q i \<longleftrightarrow> i = n \<or> cp_is_null p i" if "i \<le> n" for i
    using that nb inr cnt by (auto simp: cp_is_null_def q n_def[symmetric] bm_get_set)
  have old: "\<not> cp_is_null p n" by (simp add: cp_is_null_def n_def)
  show "cp_cells q = cp_cells p @ [None]"
    unfolding cp_cells_def cnt el
    using sl nul by (simp add: q(3) n_def[symmetric])
qed

lemma cells_truncate:
  assumes "cp_layout p"
  shows "cp_cells (cp_truncate_to k p) = take k (cp_cells p)"
proof (cases "k \<ge> unat (cp_value_count p)")
  case True
  then show ?thesis by (simp add: cp_truncate_to_def)
next
  case False
  define q where "q = cp_truncate_to k p"
  have k: "k < unat (cp_value_count p)" using False by simp
  moreover have "unat (cp_value_count p) < 2 ^ 16" using unsigned_less[of "cp_value_count p"] by simp
  ultimately have "unat (word_of_nat k :: u16) = k"
    by (simp add: unat_of_nat)
  then have q: "unat (cp_value_count q) = k" "cp_type q = cp_type p" "cp_max_len q = cp_max_len p"
    "cp_null_bitmap_bytes q = cp_null_bitmap_bytes p" "cp_area q = cp_area p"
    using k by (simp_all add: q_def cp_truncate_to_def Let_def)
  have "cp_is_null q i = cp_is_null p i" if "i < k" for i
    using that k q by (simp add: cp_is_null_def)
  moreover have "[0..<unat (cp_value_count p)] = [0..<k] @ [k..<unat (cp_value_count p)]"
    using k by (metis le_add_diff_inverse less_imp_le_nat upt_add_eq_append zero_le)
  ultimately show ?thesis
    by (simp add: q_def[symmetric] cp_cells_def cp_elem_def q take_map)
qed


section \<open>Invariant of the null bookkeeping\<close>

lemma bit_has_nulls_flag: "bit COL_PAGE_FLAG_HAS_NULLS i \<longleftrightarrow> i = 1"
proof -
  have "COL_PAGE_FLAG_HAS_NULLS = push_bit 1 1" by (simp add: COL_PAGE_FLAG_HAS_NULLS_def)
  moreover have "bit (push_bit 1 (1 :: u8)) i \<longleftrightarrow> i = 1"
    by (subst bit_push_bit_iff) (auto simp: bit_1_iff)
  ultimately show ?thesis by (simp only:)
qed

lemma flag_bits [simp]:
  "(f :: u8) AND COL_PAGE_FLAG_NULLABLE \<noteq> 0 \<longleftrightarrow> bit f 0"
  "f AND COL_PAGE_FLAG_HAS_NULLS \<noteq> 0 \<longleftrightarrow> bit f 1"
proof -
  show "(f :: u8) AND COL_PAGE_FLAG_NULLABLE \<noteq> 0 \<longleftrightarrow> bit f 0"
    by (simp add: COL_PAGE_FLAG_NULLABLE_def and_one_eq odd_iff_mod_2_eq_one bit_0)
  have "bit (f AND COL_PAGE_FLAG_HAS_NULLS) i \<longleftrightarrow> i = 1 \<and> bit f 1" for i
    by (auto simp: bit_and_iff bit_has_nulls_flag)
  then show "f AND COL_PAGE_FLAG_HAS_NULLS \<noteq> 0 \<longleftrightarrow> bit f 1"
    by (simp add: bit_eq_iff[of "f AND COL_PAGE_FLAG_HAS_NULLS" 0])
qed

lemma cp_nullable_bit: "cp_nullable p \<longleftrightarrow> bit (cp_flags p) 0"
  and cp_has_nulls_bit: "cp_has_nulls p \<longleftrightarrow> bit (cp_flags p) 1"
  by (simp_all add: cp_nullable_def cp_has_nulls_def)

lemma has_nulls_set: "bit (f OR COL_PAGE_FLAG_HAS_NULLS) 0 \<longleftrightarrow> bit f 0" 
  "bit ((f :: u8) OR COL_PAGE_FLAG_HAS_NULLS) (Suc 0)"
  "bit (f AND NOT COL_PAGE_FLAG_HAS_NULLS) 0 \<longleftrightarrow> bit f 0" 
  "\<not> bit ((f :: u8) AND NOT COL_PAGE_FLAG_HAS_NULLS) (Suc 0)"
  by (auto simp: bit_or_iff bit_and_iff bit_not_iff bit_has_nulls_flag)

lemma cp_layout_append:
  assumes "cp_layout p" "\<not> cp_value_count p \<ge> cp_capacity p"
    and "cp_type q = cp_type p" "cp_max_len q = cp_max_len p" "cp_capacity q = cp_capacity p"
      "cp_null_bitmap_bytes q = cp_null_bitmap_bytes p" "cp_value_count q = cp_value_count p + 1"
      "length (cp_area q) = length (cp_area p)"
      "length (cp_min_bytes q) = 8" "length (cp_max_bytes q) = 8"
  shows "cp_layout q"
  using assms cp_count_Suc[OF assms(1,2)] by (simp add: cp_layout_def cp_elem_def)

lemma null_count_le: "cp_nulls_ok p \<Longrightarrow> unat (cp_null_count p) \<le> unat (cp_value_count p)"
  using length_filter_le[of "\<lambda>c. c = None" "cp_cells p"] by (simp add: cp_nulls_ok_def)

lemma cp_inv_append_value:
  assumes inv: "cp_inv p" and room: "\<not> cp_value_count p \<ge> cp_capacity p"
    and len: "length bs = cp_elem p"
    and q: "cp_type q = cp_type p" "cp_max_len q = cp_max_len p" "cp_capacity q = cp_capacity p"
      "cp_flags q = cp_flags p" "cp_null_count q = cp_null_count p"
      "cp_null_bitmap_bytes q = cp_null_bitmap_bytes p" "cp_value_count q = cp_value_count p + 1"
      "cp_area q = cp_area (cp_clear_null_bit (cp_put_slot bs p))"
      "length (cp_min_bytes q) = 8" "length (cp_max_bytes q) = 8"
  shows "cp_inv q \<and> cp_cells q = cp_cells p @ [Some bs]"
proof -
  have lay: "cp_layout p" using inv by (simp add: cp_inv_def)
  note c = cells_append_value[OF lay room len q(1,2,6,7,8)]
  have "cp_layout q" by (rule cp_layout_append[OF lay room]) (use q c in auto)
  moreover have "cp_nulls_ok q"
    using inv c(1) q by (simp add: cp_inv_def cp_nulls_ok_def cp_nullable_bit cp_has_nulls_bit)
  ultimately show ?thesis using c by (simp add: cp_inv_def)
qed

lemma cp_inv_append_null:
  assumes inv: "cp_inv p" and okr: "cp_append_null p = (ok (), q)"
  shows "cp_inv q \<and> cp_cells q = cp_cells p @ [None]"
proof -
  have lay: "cp_layout p" and nulls: "cp_nulls_ok p" using inv by (simp_all add: cp_inv_def)
  have nb: "cp_null_bitmap_bytes p \<noteq> 0" and room: "\<not> cp_value_count p \<ge> cp_capacity p"
    and q: "q = cp_bump_count (p\<lparr>cp_area := bm_set (cp_area p) (unat (cp_value_count p)),
                 cp_null_count := cp_null_count p + 1,
                 cp_flags := cp_flags p OR COL_PAGE_FLAG_HAS_NULLS\<rparr>)"
    using okr by (auto simp: cp_append_null_def split: if_splits)
  have c: "cp_cells q = cp_cells p @ [None]" "length (cp_area q) = length (cp_area p)"
    by (rule cells_append_null[OF lay room nb]; simp add: q)+
  have "cp_layout q"
    by (rule cp_layout_append[OF lay room]) (use lay c in \<open>auto simp: q cp_layout_def\<close>)
  moreover have "cp_null_count p < cp_capacity p"
    using null_count_le[OF nulls] room by (simp add: word_le_nat_alt word_less_nat_alt)
  then have "unat (cp_null_count p + 1) = Suc (unat (cp_null_count p))" by (rule unat_inc)
  then have "cp_nulls_ok q"
    using nulls c(1) by (simp add: cp_nulls_ok_def cp_nullable_bit cp_has_nulls_bit q has_nulls_set)
  ultimately show ?thesis using c by (simp add: cp_inv_def)
qed

lemma null_bits_are_cells:
  assumes "cp_layout p" "k \<le> unat (cp_value_count p)" "cp_null_bitmap_bytes p \<noteq> 0"
  shows "length (filter (bm_get (cp_area p)) [0..<k])
       = length (filter (\<lambda>c. c = None) (take k (cp_cells p)))"
proof -
  have "take k (cp_cells p) = map (\<lambda>i. if bm_get (cp_area p) i then None
       else Some (slice (unat (cp_null_bitmap_bytes p) + i * cp_elem p) (cp_elem p) (cp_area p))) [0..<k]"
    using assms by (auto simp: cp_cells_def take_map take_upt cp_is_null_def)
  then show ?thesis by (simp add: filter_map comp_def)
qed


lemma filter_no_None: "None \<notin> set cs \<Longrightarrow> filter (\<lambda>c. c = None) cs = []"
  by (metis (mono_tags, lifting) filter_False)

lemma cp_inv_truncate:
  assumes inv: "cp_inv p"
  shows "cp_inv (cp_truncate_to k p)"
proof (cases "k \<ge> unat (cp_value_count p)")
  case True
  then show ?thesis using inv by (simp add: cp_truncate_to_def)
next
  case False
  have lay: "cp_layout p" and nulls: "cp_nulls_ok p" using inv by (simp_all add: cp_inv_def)
  define q where "q = cp_truncate_to k p"
  have k: "k < unat (cp_value_count p)" using False by simp
  moreover have vc: "unat (cp_value_count p) < 2 ^ 16"
    using unsigned_less[of "cp_value_count p"] by simp
  ultimately have uk: "unat (word_of_nat k :: u16) = k" by (simp add: unat_of_nat)
  have cells: "cp_cells q = take k (cp_cells p)" unfolding q_def by (rule cells_truncate[OF lay])
  have "cp_layout q"
    using lay k uk by (auto simp: q_def cp_truncate_to_def Let_def cp_layout_def cp_elem_def
        word_le_nat_alt)
  moreover have "cp_nulls_ok q"
  proof (cases "cp_nullable p")
    case True
    define nc where "nc = length (filter (bm_get (cp_area p)) [0..<k])"
    have "cp_null_bitmap_bytes p \<noteq> 0" using True nulls by (simp add: cp_nulls_ok_def)
    then have nc: "nc = length (filter (\<lambda>c. c = None) (take k (cp_cells p)))"
      unfolding nc_def by (rule null_bits_are_cells[OF lay less_imp_le[OF k]])
    then have "nc \<le> k" by (metis length_filter_le length_take min.boundedE)
    then have "unat (word_of_nat nc :: u16) = nc" using k vc by (simp add: unat_of_nat)
    moreover have "q = p\<lparr>cp_null_count := word_of_nat nc,
                  cp_flags := (if nc = 0 then cp_flags p AND NOT COL_PAGE_FLAG_HAS_NULLS
                               else cp_flags p), cp_value_count := word_of_nat k\<rparr>"
      using True k by (simp add: q_def cp_truncate_to_def Let_def nc_def)
    moreover have "nc = 0 \<longleftrightarrow> None \<notin> set (take k (cp_cells p))"
      by (metis (mono_tags, lifting) nc filter_empty_conv length_0_conv)
    moreover have "None \<in> set (take k (cp_cells p)) \<Longrightarrow> None \<in> set (cp_cells p)"
      by (rule in_set_takeD)
    ultimately show ?thesis
      using nulls cells nc
      by (auto simp: cp_nulls_ok_def cp_nullable_bit cp_has_nulls_bit has_nulls_set)
  next
    case nn: False
    then have "None \<notin> set (cp_cells p)"
      using nulls by (auto simp: cp_nulls_ok_def cp_cells_def cp_is_null_def)
    moreover from this have "None \<notin> set (take k (cp_cells p))" by (auto dest: in_set_takeD)
    moreover have "q = p\<lparr>cp_value_count := word_of_nat k\<rparr>"
      using nn k by (simp add: q_def cp_truncate_to_def)
    ultimately show ?thesis
      using nulls cells by (simp add: cp_nulls_ok_def cp_nullable_bit cp_has_nulls_bit filter_no_None)
  qed
  ultimately show ?thesis by (simp add: cp_inv_def q_def)
qed

lemma cp_inv_init:
  assumes "0 < column_page_capacity t nullable max_len" "length (cp_area p) = 8136"
  shows "cp_inv (cp_init t nullable max_len p)" "cp_cells (cp_init t nullable max_len p) = []"
proof -
  define c where "c = column_page_capacity t nullable max_len"
  define q where "q = cp_init t nullable max_len p"
  have c: "c \<le> 8136" using capacity_le_budget by (simp add: c_def)
  then have uc: "unat (word_of_nat c :: u16) = c" by (simp add: unat_of_nat)
  have "(c + 7) div 8 \<le> (8136 + 7) div 8" using c by (intro div_le_mono) simp
  then have ub: "unat (word_of_nat ((c + 7) div 8) :: u16) = (c + 7) div 8"
    by (simp add: unat_of_nat)
  have c0: "0 < c" using assms(1) by (simp add: c_def)
  have size0: "0 < type_size t max_len"
    using assms(1) by (simp add: column_page_capacity_def Let_def split: if_splits)
  have nb: "0 < (c + 7) div 8" using c0 bytes_for_bits[of 0 c] by simp
  show cells: "cp_cells (cp_init t nullable max_len p) = []"
    by (simp add: cp_cells_def cp_init_def Let_def)
  have "c \<le> 8 * ((c + 7) div 8)" by linarith
  then have "cp_layout q"
    using assms capacity_fits[OF size0 c_def] c0 size0 uc ub
    by (simp add: q_def cp_init_def Let_def cp_layout_def cp_elem_def c_def[symmetric]
        word_less_nat_alt split: if_splits)
  moreover have "cp_nulls_ok q"
    using ub nb cells uc
    by (auto simp: q_def cp_init_def Let_def cp_nulls_ok_def cp_nullable_def cp_has_nulls_def
        COL_PAGE_FLAG_NULLABLE_def COL_PAGE_FLAG_HAS_NULLS_def c_def[symmetric]
        simp del: flag_bits)
  ultimately show "cp_inv (cp_init t nullable max_len p)" by (simp add: cp_inv_def q_def)
qed


section \<open>Values\<close>

definition cell_val :: "type_id \<Rightarrow> u8 list \<Rightarrow> val" where
  "cell_val t bs = (case t of
       INT32 \<Rightarrow> VI32 (le_word bs) | INT64 \<Rightarrow> VI64 (le_word bs) | DOUBLE \<Rightarrow> VF64 (le_word bs)
     | BOOL \<Rightarrow> VBool (bs ! 0 \<noteq> 0) | DATE \<Rightarrow> VDate (le_word bs) | TIMESTAMP \<Rightarrow> VTimestamp (le_word bs)
     | _ \<Rightarrow> VStr (map char_of_byte (slice 2 (unat (le_word (slice 0 2 bs) :: u16)) bs)))"

fun val_cell :: "u16 \<Rightarrow> val \<Rightarrow> u8 list" where
  "val_cell max_len (VI32 v) = le_bytes 4 v"
| "val_cell max_len (VI64 v) = le_bytes 8 v"
| "val_cell max_len (VF64 v) = le_bytes 8 v"
| "val_cell max_len (VStr s) = str_slot max_len s"
| "val_cell max_len (VBool b) = [if b then 1 else 0]"
| "val_cell max_len (VDate v) = le_bytes 4 v"
| "val_cell max_len (VTimestamp v) = le_bytes 8 v"
| "val_cell max_len VNull = []"

fun fits_len :: "u16 \<Rightarrow> val \<Rightarrow> bool" where
  "fits_len max_len (VStr s) = (length s \<le> unat max_len)"
| "fits_len max_len _ = True"

definition storable :: "type_id \<Rightarrow> u16 \<Rightarrow> val \<Rightarrow> bool" where
  "storable t max_len v \<longleftrightarrow> holds_type t v \<and> fits_len max_len v"

definition cp_vals :: "column_page \<Rightarrow> val list" where
  "cp_vals p = map (case_option VNull (cell_val (cp_type p))) (cp_cells p)"

lemma length_cp_vals [simp]: "length (cp_vals p) = unat (cp_value_count p)"
  by (simp add: cp_vals_def)

lemma str_slot_roundtrip:
  assumes "length s \<le> unat max_len"
  shows "length (str_slot max_len s) = unat max_len + 2"
    and "unat (le_word (slice 0 2 (str_slot max_len s)) :: u16) = length s"
    and "slice 2 (length s) (str_slot max_len s) = map byte_of_char s"
proof -
  show "length (str_slot max_len s) = unat max_len + 2" using assms by (simp add: str_slot_def)
  have "length s < 65536" using assms unat_u16_less[of max_len] by simp
  then have "unat (word_of_nat (length s) :: u16) = length s" by (rule unat_of_nat_u16)
  then show "unat (le_word (slice 0 2 (str_slot max_len s)) :: u16) = length s"
    by (simp add: str_slot_def slice_def)
  show "slice 2 (length s) (str_slot max_len s) = map byte_of_char s"
    by (simp add: str_slot_def slice_def)
qed

lemma val_cell_roundtrip:
  assumes "storable t max_len v" "0 < type_size t max_len"
  shows "length (val_cell max_len v) = type_size t max_len" "cell_val t (val_cell max_len v) = v"
  using assms
  by (cases v; cases t; auto simp: storable_def cell_val_def str_slot_roundtrip split: if_splits)+

text \<open>The dispatch of \<open>ColumnFile::append_bulk\<close> on the column type and the variant.\<close>

definition cp_append_value :: "type_id \<Rightarrow> val \<Rightarrow> column_page \<Rightarrow> unit result \<times> column_page" where
  "cp_append_value t v p =
     (case (v, t) of
        (VNull, _) \<Rightarrow> cp_append_null p
      | (VI32 x, INT32) \<Rightarrow> cp_append_i32 x p
      | (VI64 x, INT64) \<Rightarrow> cp_append_i64 x p
      | (VF64 x, DOUBLE) \<Rightarrow> cp_append_f64 x p
      | (VStr s, VARCHAR) \<Rightarrow> cp_append_str s p
      | (VBool b, BOOL) \<Rightarrow> cp_append_bool b p
      | (VDate d, DATE) \<Rightarrow> cp_append_date d p
      | (VTimestamp x, TIMESTAMP) \<Rightarrow> cp_append_timestamp x p
      | _ \<Rightarrow> (err ''append_bulk: value type does not match column type'', p))"

lemmas cp_append_defs = cp_append_i32_def cp_append_i64_def cp_append_f64_def cp_append_date_def
  cp_append_timestamp_def cp_append_bool_def cp_append_str_def cp_append_typed_def

text \<open>A successful append of a non-null value writes exactly its cell.\<close>

lemma cp_update_min_max_lengths:
  assumes "length (cp_min_bytes p) = 8" "length (cp_max_bytes p) = 8" "LENGTH('a::len) \<le> 64"
  shows "length (cp_min_bytes (cp_update_min_max lt (v :: 'a word) p)) = 8"
    and "length (cp_max_bytes (cp_update_min_max lt v p)) = 8"
proof -
  have "LENGTH('a) div 8 \<le> 8" using assms(3) by simp
  then show "length (cp_min_bytes (cp_update_min_max lt (v :: 'a word) p)) = 8"
    and "length (cp_max_bytes (cp_update_min_max lt v p)) = 8"
    using assms(1,2) by (simp_all add: cp_update_min_max_def Let_def)
qed

lemma cp_append_value_area:
  assumes "storable t (cp_max_len p) v" "cp_type p = t" "\<not> cp_value_count p \<ge> cp_capacity p"
    and "length (cp_min_bytes p) = 8" "length (cp_max_bytes p) = 8"
  shows "\<exists>q. cp_append_value t v p = (ok (), q) \<and> cp_type q = cp_type p \<and> cp_max_len q = cp_max_len p
     \<and> cp_capacity q = cp_capacity p \<and> cp_flags q = cp_flags p \<and> cp_null_count q = cp_null_count p
     \<and> cp_null_bitmap_bytes q = cp_null_bitmap_bytes p \<and> cp_value_count q = cp_value_count p + 1
     \<and> cp_area q = cp_area (cp_clear_null_bit (cp_put_slot (val_cell (cp_max_len p) v) p))
     \<and> length (cp_min_bytes q) = 8 \<and> length (cp_max_bytes q) = 8"
  using assms
  by (cases v; cases t;
      auto simp: storable_def cp_append_value_def cp_append_defs cp_update_min_max_lengths
        cp_clear_null_bit_def)

lemma cp_append_value_ok:
  assumes inv: "cp_inv p" and t: "cp_type p = t" and room: "\<not> cp_value_count p \<ge> cp_capacity p"
    and v: "storable t (cp_max_len p) v"
  shows "\<exists>q. cp_append_value t v p = (ok (), q) \<and> cp_inv q \<and> cp_vals q = cp_vals p @ [v]
     \<and> cp_cells q = cp_cells p @ [Some (val_cell (cp_max_len p) v)] \<and> cp_type q = t"
proof -
  have lay: "cp_layout p" using inv by (simp add: cp_inv_def)
  then have mm: "length (cp_min_bytes p) = 8" "length (cp_max_bytes p) = 8"
    and sz: "0 < type_size t (cp_max_len p)" using t by (simp_all add: cp_layout_def cp_elem_def)
  obtain q where q: "cp_append_value t v p = (ok (), q)" and f:
    "cp_type q = cp_type p" "cp_max_len q = cp_max_len p" "cp_capacity q = cp_capacity p"
    "cp_flags q = cp_flags p" "cp_null_count q = cp_null_count p"
    "cp_null_bitmap_bytes q = cp_null_bitmap_bytes p" "cp_value_count q = cp_value_count p + 1"
    "cp_area q = cp_area (cp_clear_null_bit (cp_put_slot (val_cell (cp_max_len p) v) p))"
    "length (cp_min_bytes q) = 8" "length (cp_max_bytes q) = 8"
    using cp_append_value_area[OF v t room mm] by auto
  have "length (val_cell (cp_max_len p) v) = cp_elem p"
    using val_cell_roundtrip(1)[OF v sz] t by (simp add: cp_elem_def)
  then have "cp_inv q \<and> cp_cells q = cp_cells p @ [Some (val_cell (cp_max_len p) v)]"
    by (rule cp_inv_append_value[OF inv room _ f])
  moreover have "cell_val t (val_cell (cp_max_len p) v) = v" by (rule val_cell_roundtrip(2)[OF v sz])
  ultimately show ?thesis using q f(1) t by (auto simp: cp_vals_def)
qed

lemma cp_append_value_err: "cp_append_value t v p = (err e, q) \<Longrightarrow> q = p"
  by (cases v; cases t;
      simp add: cp_append_value_def cp_append_defs cp_append_null_def split: if_splits)

lemma cp_append_value_rejects:
  assumes "cp_type p = t" "v \<noteq> VNull"
    and "\<not> storable t (cp_max_len p) v \<or> cp_value_count p \<ge> cp_capacity p"
  shows "\<exists>e. cp_append_value t v p = (err e, p)"
  using assms
  by (cases v; cases t; auto simp: cp_append_value_def cp_append_defs storable_def)

section \<open>Zone maps\<close>

text \<open>
  The minimum and maximum kept in the header. For any comparison that is irreflexive and
  transitive, as \<open><\<close> is on signed integers and, NaN included, on doubles, no value of the
  page is below the recorded minimum or above the recorded maximum.
\<close>

definition cp_zone :: "('a::len word \<Rightarrow> 'a word \<Rightarrow> bool) \<Rightarrow> column_page \<Rightarrow> bool" where
  "cp_zone lt p \<longleftrightarrow>
     (\<forall>bs. Some bs \<in> set (cp_cells p) \<longrightarrow>
        \<not> lt (le_word bs) (le_word (slice 0 (LENGTH('a) div 8) (cp_min_bytes p)))
      \<and> \<not> lt (le_word (slice 0 (LENGTH('a) div 8) (cp_max_bytes p))) (le_word bs))"

locale zone_order =
  fixes lt :: "'a::len word \<Rightarrow> 'a word \<Rightarrow> bool"
  assumes lt_irrefl: "\<not> lt a a"
    and lt_trans: "lt a b \<Longrightarrow> lt b c \<Longrightarrow> lt a c"
    and whole_bytes: "LENGTH('a) = 8 * (LENGTH('a) div 8)"
    and fits_header: "LENGTH('a) div 8 \<le> 8"
begin

lemma header_roundtrip:
  assumes "length b = 8"
  shows "le_word (slice 0 (LENGTH('a) div 8) (blit 0 (le_bytes (LENGTH('a) div 8) v) b)) = (v :: 'a word)"
proof -
  have "slice 0 (LENGTH('a) div 8) (blit 0 (le_bytes (LENGTH('a) div 8) v) b) = le_bytes (LENGTH('a) div 8) v"
    by (rule slice_blit_same) (use assms fits_header in auto)
  then show ?thesis by (simp only: le_word_le_bytes[OF whole_bytes])
qed

lemma min_after:
  fixes v :: "'a word"
  assumes "length (cp_min_bytes p) = 8"
  defines "m \<equiv> le_word (slice 0 (LENGTH('a) div 8) (cp_min_bytes p)) :: 'a word"
  shows "le_word (slice 0 (LENGTH('a) div 8) (cp_min_bytes (cp_update_min_max lt v p)))
       = (if cp_value_count p = cp_null_count p \<or> lt v m then v else m)"
  using assms by (simp add: cp_update_min_max_def Let_def header_roundtrip m_def)

lemma max_after:
  fixes v :: "'a word"
  assumes "length (cp_max_bytes p) = 8"
  defines "m \<equiv> le_word (slice 0 (LENGTH('a) div 8) (cp_max_bytes p)) :: 'a word"
  shows "le_word (slice 0 (LENGTH('a) div 8) (cp_max_bytes (cp_update_min_max lt v p)))
       = (if cp_value_count p = cp_null_count p \<or> lt m v then v else m)"
  using assms by (simp add: cp_update_min_max_def Let_def header_roundtrip m_def)

lemma zone_append:
  assumes z: "cp_zone lt p" and lens: "length (cp_min_bytes p) = 8" "length (cp_max_bytes p) = 8"
    and empty: "cp_value_count p = cp_null_count p \<longleftrightarrow> (\<forall>c\<in>set (cp_cells p). c = None)"
    and q: "cp_min_bytes q = cp_min_bytes (cp_update_min_max lt v p)"
      "cp_max_bytes q = cp_max_bytes (cp_update_min_max lt v p)"
      "cp_cells q = cp_cells p @ [Some (le_bytes (LENGTH('a) div 8) v)]"
  shows "cp_zone lt q"
proof -
  let ?m = "le_word (slice 0 (LENGTH('a) div 8) (cp_min_bytes p)) :: 'a word"
  let ?x = "le_word (slice 0 (LENGTH('a) div 8) (cp_max_bytes p)) :: 'a word"
  have v: "le_word (le_bytes (LENGTH('a) div 8) v) = v"
    by (rule le_word_le_bytes[OF whole_bytes])
  have old: "\<not> lt (le_word bs) ?m" "\<not> lt ?x (le_word bs)" "cp_value_count p \<noteq> cp_null_count p"
    if "Some bs \<in> set (cp_cells p)" for bs
    using z that empty by (auto simp: cp_zone_def)
  have "\<not> lt (le_word bs) (if cp_value_count p = cp_null_count p \<or> lt v ?m then v else ?m)
      \<and> \<not> lt (if cp_value_count p = cp_null_count p \<or> lt ?x v then v else ?x) (le_word bs)"
    if "Some bs \<in> set (cp_cells p) \<or> bs = le_bytes (LENGTH('a) div 8) v" for bs
    using that old[of bs] lt_irrefl[of v] lt_trans[of "le_word bs" v ?m] lt_trans[of ?x v "le_word bs"]
    by (cases "bs = le_bytes (LENGTH('a) div 8) v") (auto simp: v)
  then show ?thesis
    unfolding cp_zone_def q min_after[OF lens(1)] max_after[OF lens(2)] by auto
qed

lemma zone_subset:
  "cp_zone lt p \<Longrightarrow> set (cp_cells q) \<subseteq> set (cp_cells p) \<union> {None} \<Longrightarrow>
     cp_min_bytes q = cp_min_bytes p \<Longrightarrow> cp_max_bytes q = cp_max_bytes p \<Longrightarrow> cp_zone lt q"
  by (fastforce simp: cp_zone_def)

end

interpretation zi32: zone_order "\<lambda>x y :: i32. sint x < sint y"
  by unfold_locales auto

interpretation zi64: zone_order "\<lambda>x y :: i64. sint x < sint y"
  by unfold_locales auto

interpretation zf64: zone_order f64_lt
  by unfold_locales (auto simp: f64_lt_irrefl intro: f64_lt_trans)


section \<open>Reading\<close>

lemma nth_cp_cells:
  "i < unat (cp_value_count p) \<Longrightarrow>
     cp_cells p ! i = (if cp_is_null p i then None
       else Some (slice (unat (cp_null_bitmap_bytes p) + i * cp_elem p) (cp_elem p) (cp_area p)))"
  by (simp add: cp_cells_def)

lemma cp_get_typed_cell:
  assumes "i < unat (cp_value_count p)" "cp_type p = t" "cp_elem p = LENGTH('a::len) div 8"
  shows "(cp_get_typed t i p :: 'a word result) =
     (case cp_cells p ! i of None \<Rightarrow> err ''get: value is null'' | Some bs \<Rightarrow> ok (le_word bs))"
  using assms by (simp add: cp_get_typed_def nth_cp_cells Let_def)

fun cp_reads_as :: "column_page \<Rightarrow> nat \<Rightarrow> val \<Rightarrow> bool" where
  "cp_reads_as p i VNull = cp_is_null p i"
| "cp_reads_as p i (VI32 v) = (cp_get_i32 i p = ok v)"
| "cp_reads_as p i (VI64 v) = (cp_get_i64 i p = ok v)"
| "cp_reads_as p i (VF64 v) = (cp_get_f64 i p = ok v)"
| "cp_reads_as p i (VStr s) = (cp_get_str i p = s)"
| "cp_reads_as p i (VBool b) = (cp_get_bool i p = ok b)"
| "cp_reads_as p i (VDate v) = (cp_get_date i p = ok v)"
| "cp_reads_as p i (VTimestamp v) = (cp_get_timestamp i p = ok v)"

lemma slice_slice: "i + m \<le> n \<Longrightarrow> slice i m (slice off n xs) = slice (off + i) m xs"
  by (simp add: slice_def take_drop min_def) (simp add: add.commute)

definition cp_cells_ok :: "column_page \<Rightarrow> bool" where
  "cp_cells_ok p \<longleftrightarrow> (\<forall>bs. Some bs \<in> set (cp_cells p) \<longrightarrow>
     (\<exists>v. storable (cp_type p) (cp_max_len p) v \<and> bs = val_cell (cp_max_len p) v))"

text \<open>Every page type reads its values back through its own getter.\<close>

lemma cp_reads_back:
  assumes lay: "cp_layout p" and i: "i < unat (cp_value_count p)" and okc: "cp_cells_ok p"
  shows "cp_reads_as p i (cp_vals p ! i)"
proof (cases "cp_is_null p i")
  case True
  then show ?thesis using i by (simp add: cp_vals_def nth_cp_cells)
next
  case nn: False
  define off where "off = unat (cp_null_bitmap_bytes p) + i * cp_elem p"
  define bs where "bs = slice off (cp_elem p) (cp_area p)"
  have cell: "cp_cells p ! i = Some bs"
    using nn i by (simp add: nth_cp_cells bs_def off_def)
  then have "Some bs \<in> set (cp_cells p)" using i by (metis length_cp_cells nth_mem)
  then obtain v where v: "storable (cp_type p) (cp_max_len p) v" "bs = val_cell (cp_max_len p) v"
    using okc by (auto simp: cp_cells_ok_def)
  have pos: "0 < type_size (cp_type p) (cp_max_len p)"
    using lay by (simp add: cp_layout_def cp_elem_def)
  have val: "cp_vals p ! i = v"
    using i cell val_cell_roundtrip(2)[OF v(1) pos] v(2) by (simp add: cp_vals_def)
  have inside: "off + cp_elem p \<le> length (cp_area p)"
    using slot_in_area[OF lay] i lay by (simp add: off_def cp_layout_def word_le_nat_alt)
  show ?thesis
  proof (cases "\<exists>s. v = VStr s")
    case True
    then obtain s where s: "v = VStr s" by blast
    then have t: "cp_type p = VARCHAR" and ls: "length s \<le> unat (cp_max_len p)"
      using v(1) by (cases "cp_type p"; simp add: storable_def)+
    have e: "cp_elem p = unat (cp_max_len p) + 2"
      using t pos by (simp add: cp_elem_def split: if_splits)
    have "slice off 2 (cp_area p) = slice 0 2 bs"
      "slice (off + 2) (length s) (cp_area p) = slice 2 (length s) bs"
      using e ls by (simp_all add: bs_def slice_slice)
    then show ?thesis using val s v(2) e str_slot_roundtrip[OF ls]
      by (simp add: cp_get_str_def Let_def off_def)
  next
    case False
    have "bs ! 0 = cp_area p ! off"
      using inside pos by (simp add: bs_def slice_def cp_elem_def)
    then show ?thesis
      using False v i nn cell val
      by (cases v; cases "cp_type p";
          simp add: storable_def cp_get_i32_def cp_get_i64_def cp_get_f64_def cp_get_date_def
            cp_get_timestamp_def cp_get_typed_cell cp_get_bool_def cp_elem_def off_def
            split: if_splits)
  qed
qed

section \<open>Runs of operations\<close>

text \<open>
  A page after any sequence of appends and truncations, successful or not, holds the values
  that the same sequence leaves in a bounded list.
\<close>

datatype page_op = PAppend val | PTruncate nat

fun cp_apply :: "type_id \<Rightarrow> page_op \<Rightarrow> column_page \<Rightarrow> column_page" where
  "cp_apply t (PAppend v) p = snd (cp_append_value t v p)"
| "cp_apply t (PTruncate k) p = cp_truncate_to k p"

fun page_spec :: "type_id \<Rightarrow> bool \<Rightarrow> u16 \<Rightarrow> page_op \<Rightarrow> val list \<Rightarrow> val list" where
  "page_spec t nullable max_len (PAppend v) vs =
     (if length vs < column_page_capacity t nullable max_len
         \<and> (if v = VNull then nullable else storable t max_len v)
      then vs @ [v] else vs)"
| "page_spec t nullable max_len (PTruncate k) vs = take k vs"

definition cp_of :: "type_id \<Rightarrow> bool \<Rightarrow> u16 \<Rightarrow> column_page \<Rightarrow> bool" where
  "cp_of t nullable max_len p \<longleftrightarrow>
     cp_inv p \<and> cp_cells_ok p \<and> cp_type p = t \<and> cp_max_len p = max_len
     \<and> unat (cp_capacity p) = column_page_capacity t nullable max_len
     \<and> (cp_null_bitmap_bytes p \<noteq> 0 \<longleftrightarrow> nullable)"

lemma cp_of_init:
  assumes "0 < column_page_capacity t nullable max_len" "length (cp_area p) = 8136"
  shows "cp_of t nullable max_len (cp_init t nullable max_len p)"
    "cp_vals (cp_init t nullable max_len p) = []"
proof -
  define c where "c = column_page_capacity t nullable max_len"
  have "c \<le> 8136" using capacity_le_budget by (simp add: c_def)
  then have "unat (word_of_nat c :: u16) = c" by (simp add: unat_of_nat_u16)
  then have "unat (cp_capacity (cp_init t nullable max_len p)) = c"
    by (simp add: cp_init_def Let_def c_def)
  moreover have "cp_nullable (cp_init t nullable max_len p) \<longleftrightarrow> nullable"
    by (simp add: cp_init_def Let_def cp_nullable_def COL_PAGE_FLAG_NULLABLE_def del: flag_bits)
  ultimately show "cp_of t nullable max_len (cp_init t nullable max_len p)"
    "cp_vals (cp_init t nullable max_len p) = []"
    using cp_inv_init[OF assms]
    by (auto simp: cp_of_def cp_cells_ok_def c_def cp_inv_def cp_nulls_ok_def cp_vals_def)
      (simp_all add: cp_init_def Let_def)
qed


definition cp_zone_ok :: "column_page \<Rightarrow> bool" where
  "cp_zone_ok p \<longleftrightarrow>
     (cp_type p \<in> {INT32, DATE} \<longrightarrow> cp_zone (\<lambda>x y :: i32. sint x < sint y) p)
     \<and> (cp_type p \<in> {INT64, TIMESTAMP} \<longrightarrow> cp_zone (\<lambda>x y :: i64. sint x < sint y) p)
     \<and> (cp_type p = DOUBLE \<longrightarrow> cp_zone f64_lt p)"

lemma cp_append_typed_header:
  "cp_append_typed lt t v p = (ok (), q) \<Longrightarrow>
     cp_min_bytes q = cp_min_bytes (cp_update_min_max lt v p)
     \<and> cp_max_bytes q = cp_max_bytes (cp_update_min_max lt v p)"
  by (auto simp: cp_append_typed_def cp_update_min_max_def Let_def split: if_splits)

lemma all_null_iff:
  assumes "cp_nulls_ok p"
  shows "cp_value_count p = cp_null_count p \<longleftrightarrow> (\<forall>c\<in>set (cp_cells p). c = None)"
proof -
  have "cp_value_count p = cp_null_count p \<longleftrightarrow>
      length (cp_cells p) = length (filter (\<lambda>c. c = None) (cp_cells p))"
    using assms by (simp add: cp_nulls_ok_def word_unat_eq_iff)
  also have "\<dots> \<longleftrightarrow> (\<forall>c\<in>set (cp_cells p). c = None)"
    by (metis (mono_tags, lifting) filter_True length_filter_less less_irrefl_nat)
  finally show ?thesis .
qed

lemma cp_zone_append:
  assumes inv: "cp_inv p" and z: "cp_zone_ok p" and t: "cp_type p = t"
    and r: "cp_append_value t v p = (ok (), q)" and tq: "cp_type q = t"
    and c: "cp_cells q = cp_cells p @ [Some (val_cell (cp_max_len p) v)]" and v: "v \<noteq> VNull"
  shows "cp_zone_ok q"
proof -
  have l: "length (cp_min_bytes p) = 8" "length (cp_max_bytes p) = 8"
    and n: "cp_nulls_ok p" using inv by (simp_all add: cp_inv_def cp_layout_def)
  note za = zi32.zone_append[OF _ l all_null_iff[OF n]] zi64.zone_append[OF _ l all_null_iff[OF n]]
    zf64.zone_append[OF _ l all_null_iff[OF n]]
  show ?thesis
    using r c v z t tq
    by (cases v; cases t;
        auto simp: cp_append_value_def cp_append_i32_def cp_append_i64_def cp_append_f64_def
          cp_append_date_def cp_append_timestamp_def cp_zone_ok_def
          dest!: cp_append_typed_header intro!: za)
qed

lemma cp_zone_keep:
  assumes "cp_zone_ok p" "cp_type q = cp_type p" "set (cp_cells q) \<subseteq> set (cp_cells p) \<union> {None}"
    "cp_min_bytes q = cp_min_bytes p" "cp_max_bytes q = cp_max_bytes p"
  shows "cp_zone_ok q"
  using assms by (auto simp: cp_zone_ok_def intro: zi32.zone_subset zi64.zone_subset zf64.zone_subset)

lemma cp_truncate_to_fields [simp]:
  "cp_type (cp_truncate_to k p) = cp_type p" "cp_max_len (cp_truncate_to k p) = cp_max_len p"
  "cp_capacity (cp_truncate_to k p) = cp_capacity p"
  "cp_null_bitmap_bytes (cp_truncate_to k p) = cp_null_bitmap_bytes p"
  "cp_min_bytes (cp_truncate_to k p) = cp_min_bytes p"
  "cp_max_bytes (cp_truncate_to k p) = cp_max_bytes p"
  by (simp_all add: cp_truncate_to_def Let_def)

lemma cp_append_null_fields:
  "cp_append_null p = (r, q) \<Longrightarrow> cp_type q = cp_type p \<and> cp_max_len q = cp_max_len p
     \<and> cp_capacity q = cp_capacity p \<and> cp_null_bitmap_bytes q = cp_null_bitmap_bytes p
     \<and> cp_min_bytes q = cp_min_bytes p \<and> cp_max_bytes q = cp_max_bytes p"
  by (auto simp: cp_append_null_def split: if_splits)

lemma cp_append_value_fields:
  "cp_append_value t v p = (r, q) \<Longrightarrow> cp_type q = cp_type p \<and> cp_max_len q = cp_max_len p
     \<and> cp_capacity q = cp_capacity p \<and> cp_null_bitmap_bytes q = cp_null_bitmap_bytes p"
  by (cases v; cases t;
      auto simp: cp_append_value_def cp_append_defs cp_append_null_def split: if_splits)


lemma cp_append_null_step:
  assumes of: "cp_of t nullable max_len p" and z: "cp_zone_ok p"
  defines "q \<equiv> snd (cp_append_null p)"
  shows "cp_of t nullable max_len q \<and> cp_zone_ok q
     \<and> cp_vals q = page_spec t nullable max_len (PAppend VNull) (cp_vals p)"
proof -
  have inv: "cp_inv p" and cap: "unat (cp_capacity p) = column_page_capacity t nullable max_len"
    and nb: "cp_null_bitmap_bytes p \<noteq> 0 \<longleftrightarrow> nullable"
    using of by (simp_all add: cp_of_def)
  show ?thesis
  proof (cases "cp_null_bitmap_bytes p = 0 \<or> cp_value_count p \<ge> cp_capacity p")
    case True
    then have "q = p" by (auto simp: q_def cp_append_null_def)
    then show ?thesis using True of z cap nb by (auto simp: word_le_nat_alt)
  next
    case False
    then have r: "cp_append_null p = (ok (), q)" by (simp add: q_def cp_append_null_def)
    note c = cp_inv_append_null[OF inv r] and f = cp_append_null_fields[OF r]
    have "cp_zone_ok q" by (rule cp_zone_keep[OF z]) (use c f in auto)
    moreover have "cp_of t nullable max_len q"
      using of c f by (auto simp: cp_of_def cp_cells_ok_def)
    moreover have "cp_vals q = cp_vals p @ [VNull]" using c f by (simp add: cp_vals_def)
    ultimately show ?thesis using False cap nb by (auto simp: word_le_nat_alt)
  qed
qed

lemma cp_append_step:
  assumes of: "cp_of t nullable max_len p" and z: "cp_zone_ok p" and v: "v \<noteq> VNull"
  defines "q \<equiv> snd (cp_append_value t v p)"
  shows "cp_of t nullable max_len q \<and> cp_zone_ok q
     \<and> cp_vals q = page_spec t nullable max_len (PAppend v) (cp_vals p)"
proof -
  have inv: "cp_inv p" and t: "cp_type p = t" and ml: "cp_max_len p = max_len"
    and cap: "unat (cp_capacity p) = column_page_capacity t nullable max_len"
    using of by (simp_all add: cp_of_def)
  show ?thesis
  proof (cases "storable t max_len v \<and> \<not> cp_value_count p \<ge> cp_capacity p")
    case False
    then obtain e where "cp_append_value t v p = (err e, p)"
      using cp_append_value_rejects[OF t v] ml by auto
    then show ?thesis using False of z v cap by (auto simp: q_def word_le_nat_alt)
  next
    case True
    then have r: "cp_append_value t v p = (ok (), q)" and c: "cp_inv q" "cp_vals q = cp_vals p @ [v]"
      "cp_cells q = cp_cells p @ [Some (val_cell (cp_max_len p) v)]" "cp_type q = t"
      using cp_append_value_ok[OF inv t, of v] ml by (auto simp: q_def)
    have "cp_zone_ok q" by (rule cp_zone_append[OF inv z t r c(4,3) v])
    moreover have "cp_of t nullable max_len q"
      using of c True cp_append_value_fields[OF r] by (auto simp: cp_of_def cp_cells_ok_def)
    ultimately show ?thesis using True c v cap by (simp add: word_le_nat_alt)
  qed
qed

lemma cp_truncate_step:
  assumes of: "cp_of t nullable max_len p" and z: "cp_zone_ok p" and q_def: "q = cp_truncate_to k p"
  shows "cp_of t nullable max_len q \<and> cp_zone_ok q \<and> cp_vals q = take k (cp_vals p)"
proof -
  have inv: "cp_inv p" using of by (simp add: cp_of_def)
  have c: "cp_cells q = take k (cp_cells p)"
    unfolding q_def using inv by (intro cells_truncate) (simp add: cp_inv_def)
  have sub: "set (cp_cells q) \<subseteq> set (cp_cells p)" using c by (auto dest: in_set_takeD)
  have "cp_zone_ok q" by (rule cp_zone_keep[OF z]) (use sub in \<open>auto simp: q_def\<close>)
  moreover have "cp_of t nullable max_len q"
    using of cp_inv_truncate[OF inv, of k] sub
    by (auto simp: cp_of_def cp_cells_ok_def q_def[symmetric]) (auto simp: q_def)
  ultimately show ?thesis using c by (simp add: cp_vals_def take_map q_def)
qed

lemma cp_step:
  assumes "cp_of t nullable max_len p" "cp_zone_ok p"
  shows "cp_of t nullable max_len (cp_apply t op p) \<and> cp_zone_ok (cp_apply t op p)
     \<and> cp_vals (cp_apply t op p) = page_spec t nullable max_len op (cp_vals p)"
proof (cases op)
  case (PAppend v)
  then show ?thesis
    using cp_append_null_step[OF assms] cp_append_step[OF assms, of v]
    by (cases "v = VNull") (auto simp: cp_append_value_def)
next
  case (PTruncate k)
  then show ?thesis using cp_truncate_step[OF assms] by simp
qed

lemma cp_run:
  assumes "cp_of t nullable max_len p" "cp_zone_ok p"
  shows "cp_of t nullable max_len (fold (cp_apply t) ops p) \<and> cp_zone_ok (fold (cp_apply t) ops p)
     \<and> cp_vals (fold (cp_apply t) ops p) = fold (page_spec t nullable max_len) ops (cp_vals p)"
  using assms
proof (induction ops arbitrary: p)
  case Nil
  then show ?case by simp
next
  case (Cons op ops)
  note st = cp_step[OF Cons.prems, of op]
  then show ?case using Cons.IH[of "cp_apply t op p"] by simp
qed

definition cp_after :: "type_id \<Rightarrow> bool \<Rightarrow> u16 \<Rightarrow> column_page \<Rightarrow> page_op list \<Rightarrow> column_page" where
  "cp_after t nullable max_len p ops = fold (cp_apply t) ops (cp_init t nullable max_len p)"

lemma cp_after_props:
  assumes "0 < column_page_capacity t nullable max_len" "length (cp_area p) = 8136"
  shows "cp_of t nullable max_len (cp_after t nullable max_len p ops)"
    and "cp_zone_ok (cp_after t nullable max_len p ops)"
    and "cp_vals (cp_after t nullable max_len p ops) = fold (page_spec t nullable max_len) ops []"
proof -
  note i = cp_of_init[OF assms]
  have "cp_zone_ok (cp_init t nullable max_len p)"
    using i(2) by (simp add: cp_zone_ok_def cp_zone_def cp_vals_def)
  from cp_run[OF i(1) this, of ops] show "cp_of t nullable max_len (cp_after t nullable max_len p ops)"
    and "cp_zone_ok (cp_after t nullable max_len p ops)"
    and "cp_vals (cp_after t nullable max_len p ops) = fold (page_spec t nullable max_len) ops []"
    using i(2) by (simp_all add: cp_after_def)
qed

text \<open>The accessors \<open>min_i32\<close> to \<open>max_timestamp\<close>, by the type of the page.\<close>

definition cp_min_val :: "column_page \<Rightarrow> val option" where
  "cp_min_val p = (case cp_type p of
       INT32 \<Rightarrow> map_option VI32 (cp_read_min INT32 p)
     | INT64 \<Rightarrow> map_option VI64 (cp_read_min INT64 p)
     | DOUBLE \<Rightarrow> map_option VF64 (cp_read_min DOUBLE p)
     | DATE \<Rightarrow> map_option VDate (cp_read_min DATE p)
     | TIMESTAMP \<Rightarrow> map_option VTimestamp (cp_read_min TIMESTAMP p)
     | _ \<Rightarrow> None)"

definition cp_max_val :: "column_page \<Rightarrow> val option" where
  "cp_max_val p = (case cp_type p of
       INT32 \<Rightarrow> map_option VI32 (cp_read_max INT32 p)
     | INT64 \<Rightarrow> map_option VI64 (cp_read_max INT64 p)
     | DOUBLE \<Rightarrow> map_option VF64 (cp_read_max DOUBLE p)
     | DATE \<Rightarrow> map_option VDate (cp_read_max DATE p)
     | TIMESTAMP \<Rightarrow> map_option VTimestamp (cp_read_max TIMESTAMP p)
     | _ \<Rightarrow> None)"

fun val_lt :: "val \<Rightarrow> val \<Rightarrow> bool" where
  "val_lt (VI32 a) (VI32 b) = (sint a < sint b)"
| "val_lt (VI64 a) (VI64 b) = (sint a < sint b)"
| "val_lt (VF64 a) (VF64 b) = f64_lt a b"
| "val_lt (VDate a) (VDate b) = (sint a < sint b)"
| "val_lt (VTimestamp a) (VTimestamp b) = (sint a < sint b)"
| "val_lt _ _ = False"

lemma zone_val_bounds:
  assumes z: "cp_zone_ok p" and v: "v \<in> set (cp_vals p)" "v \<noteq> VNull"
  shows "(\<forall>m. cp_min_val p = Some m \<longrightarrow> \<not> val_lt v m) \<and> (\<forall>m. cp_max_val p = Some m \<longrightarrow> \<not> val_lt m v)"
proof -
  obtain bs where bs: "Some bs \<in> set (cp_cells p)" "v = cell_val (cp_type p) bs"
    using v by (auto simp: cp_vals_def split: option.splits)
  show ?thesis
    using z bs
    by (cases "cp_type p"; auto simp: cp_zone_ok_def cp_zone_def cp_min_val_def cp_max_val_def
        cp_read_min_def cp_read_max_def cell_val_def split: if_splits)
qed

section \<open>Properties\<close>

text \<open>
  C37 (bounds). For every storable type, the null bit map and all the slots that
  \<open>column_page_capacity\<close> promises lie inside the page payload behind the column header,
  and the capacity is exact: one more slot, with its null bit, would not fit.
\<close>

theorem capacity_exact:
  assumes "0 < type_size t max_len"
  shows "COL_PAGE_HEADER_SIZE
           + (if nullable then (column_page_capacity t nullable max_len + 7) div 8 else 0)
           + column_page_capacity t nullable max_len * type_size t max_len \<le> PAGE_PAYLOAD_SIZE
       \<and> (PAGE_PAYLOAD_SIZE - COL_PAGE_HEADER_SIZE) * 8
           < (if nullable then Suc (column_page_capacity t nullable max_len) else 0)
             + Suc (column_page_capacity t nullable max_len) * type_size t max_len * 8"
proof -
  define c where "c = column_page_capacity t nullable max_len"
  define e where "e = type_size t max_len"
  have "8136 * 8 < (if nullable then Suc c else 0) + Suc c * e * 8"
  proof (cases nullable)
    case True
    then have "c = 65088 div (e * 8 + 1)"
      using assms by (simp add: c_def e_def column_page_capacity_def Let_def)
    then have "65088 < Suc c * (e * 8 + 1)"
      by (metis dividend_less_div_times add.commute mult_Suc zero_less_Suc Suc_eq_plus1)
    then show ?thesis using True by (simp add: algebra_simps)
  next
    case False
    then have "c = 8136 div e"
      using assms by (simp add: c_def e_def column_page_capacity_def Let_def)
    then have "8136 < Suc c * e"
      using assms by (metis dividend_less_div_times add.commute mult_Suc e_def)
    then show ?thesis using False by simp
  qed
  then show ?thesis
    using capacity_fits[OF assms c_def] unfolding c_def[symmetric] e_def[symmetric] by simp
qed

theorem capacity_exact_witness:
  "column_page_capacity INT32 True 0 = 1972
     \<and> COL_PAGE_HEADER_SIZE + (1972 + 7) div 8 + 1972 * 4 \<le> PAGE_PAYLOAD_SIZE"
proof -
  have h: "0 < type_size INT32 0" by simp
  have c: "column_page_capacity INT32 True 0 = 1972" by (simp add: column_page_capacity_def)
  show ?thesis using capacity_exact[OF h, of True] by (simp add: c)
qed

text \<open>
  C9 (refinement). Whatever sequence of appends, null appends and truncations a page goes
  through after \<open>init\<close>, rejected ones included, its stored values are those that the same
  sequence leaves in a list bounded by the capacity: an append adds its value at the end when
  there is room and the value is admissible for the column and otherwise changes nothing, a
  truncation keeps a prefix.
\<close>

theorem page_run_refines:
  assumes "0 < column_page_capacity t nullable max_len"
    and "length (cp_area p) = PAGE_PAYLOAD_SIZE - COL_PAGE_HEADER_SIZE"
  shows "cp_vals (cp_after t nullable max_len p ops) = fold (page_spec t nullable max_len) ops []"
  using cp_after_props(3)[OF assms(1)] assms(2) by simp

definition blank_page :: column_page where
  "blank_page = \<lparr>cp_type = INVALID, cp_flags = 0, cp_value_count = 0, cp_capacity = 0,
     cp_null_bitmap_bytes = 0, cp_min_bytes = replicate 8 0, cp_max_bytes = replicate 8 0,
     cp_null_count = 0, cp_max_len = 0,
     cp_area = replicate (PAGE_PAYLOAD_SIZE - COL_PAGE_HEADER_SIZE) 0\<rparr>"

theorem page_run_refines_witness:
  "cp_vals (cp_after INT32 True 0 blank_page
      [PAppend (VI32 7), PAppend VNull, PAppend (VI64 1), PAppend (VI32 9), PTruncate 2])
   = [VI32 7, VNull]"
proof -
  have h: "0 < column_page_capacity INT32 True 0" by (simp add: column_page_capacity_def)
  have a: "length (cp_area blank_page) = PAGE_PAYLOAD_SIZE - COL_PAGE_HEADER_SIZE"
    by (simp add: blank_page_def)
  show ?thesis
    unfolding page_run_refines[OF h a]
    by (simp add: column_page_capacity_def storable_def)
qed

text \<open>
  C25 (round trip). After any such sequence, reading slot \<open>i\<close> of the page with the getter
  of its type returns the \<open>i\<close>-th stored value bit for bit, strings included, and a stored
  NULL is seen by \<open>is_null\<close>.
\<close>

theorem page_reads_back:
  assumes "0 < column_page_capacity t nullable max_len"
    and "length (cp_area p) = PAGE_PAYLOAD_SIZE - COL_PAGE_HEADER_SIZE"
    and "i < length (cp_vals (cp_after t nullable max_len p ops))"
  shows "cp_reads_as (cp_after t nullable max_len p ops) i
           (cp_vals (cp_after t nullable max_len p ops) ! i)"
  using cp_after_props(1)[OF assms(1), of p ops] assms(2,3) cp_reads_back
  by (simp add: cp_of_def cp_inv_def)

theorem page_reads_back_witness:
  "cp_get_str 1 (cp_after VARCHAR False 5 blank_page [PAppend (VStr ''a''), PAppend (VStr ''nyx'')])
   = ''nyx''"
proof -
  let ?ops = "[PAppend (VStr ''a''), PAppend (VStr ''nyx'')]"
  have h: "0 < column_page_capacity VARCHAR False 5" by (simp add: column_page_capacity_def)
  have a: "length (cp_area blank_page) = PAGE_PAYLOAD_SIZE - COL_PAGE_HEADER_SIZE"
    by (simp add: blank_page_def)
  have v: "cp_vals (cp_after VARCHAR False 5 blank_page ?ops) = [VStr ''a'', VStr ''nyx'']"
    using cp_after_props(3)[OF h, of blank_page ?ops] a
    by (simp add: column_page_capacity_def storable_def)
  show ?thesis using page_reads_back[OF h a, of 1 ?ops] by (simp add: v)
qed

text \<open>
  C17 (safety). The minimum and maximum that the page header reports for numeric, date and
  timestamp columns are sound after any sequence of appends and truncations: no stored
  non-null value compares below the minimum or above the maximum, in the order of its C++
  type, NaN included for doubles; and the header reports them whenever a non-null value of
  such a type is stored.
\<close>

theorem zone_map_sound:
  assumes "0 < column_page_capacity t nullable max_len"
    and "length (cp_area p) = PAGE_PAYLOAD_SIZE - COL_PAGE_HEADER_SIZE"
    and "v \<in> set (cp_vals (cp_after t nullable max_len p ops))" and "v \<noteq> VNull"
    and "t \<in> {INT32, INT64, DOUBLE, DATE, TIMESTAMP}"
  shows "\<exists>lo hi. cp_min_val (cp_after t nullable max_len p ops) = Some lo
           \<and> cp_max_val (cp_after t nullable max_len p ops) = Some hi
           \<and> \<not> val_lt v lo \<and> \<not> val_lt hi v"
proof -
  define q where "q = cp_after t nullable max_len p ops"
  have of: "cp_of t nullable max_len q" and z: "cp_zone_ok q"
    using cp_after_props[OF assms(1), of p ops] assms(2) by (simp_all add: q_def)
  have "\<not> (\<forall>c\<in>set (cp_cells q). c = None)"
    using assms(3,4) by (fastforce simp: q_def[symmetric] cp_vals_def split: option.splits)
  then have "cp_value_count q \<noteq> cp_null_count q"
    using all_null_iff of by (auto simp: cp_of_def cp_inv_def)
  then have "unat (cp_value_count q) \<noteq> unat (cp_null_count q)" by (simp add: word_unat_eq_iff)
  then have "cp_min_val q \<noteq> None \<and> cp_max_val q \<noteq> None"
    using of assms(5) by (auto simp: cp_of_def cp_min_val_def cp_max_val_def cp_read_min_def
        cp_read_max_def)
  then obtain lo hi where "cp_min_val q = Some lo" "cp_max_val q = Some hi" by blast
  then show ?thesis
    using zone_val_bounds[OF z, of v] assms(3,4) by (auto simp: q_def)
qed

theorem zone_map_sound_witness:
  "\<exists>lo hi. cp_min_val (cp_after INT64 False 0 blank_page [PAppend (VI64 3), PAppend (VI64 (-4))]) = Some lo
     \<and> cp_max_val (cp_after INT64 False 0 blank_page [PAppend (VI64 3), PAppend (VI64 (-4))]) = Some hi
     \<and> \<not> val_lt (VI64 (-4)) lo \<and> \<not> val_lt hi (VI64 (-4))"
proof -
  let ?ops = "[PAppend (VI64 3), PAppend (VI64 (-4))]"
  have h: "0 < column_page_capacity INT64 False 0" by (simp add: column_page_capacity_def)
  have a: "length (cp_area blank_page) = PAGE_PAYLOAD_SIZE - COL_PAGE_HEADER_SIZE"
    by (simp add: blank_page_def)
  have "cp_vals (cp_after INT64 False 0 blank_page ?ops) = [VI64 3, VI64 (-4)]"
    using cp_after_props(3)[OF h, of blank_page ?ops] a
    by (simp add: column_page_capacity_def storable_def)
  then have m: "VI64 (-4) \<in> set (cp_vals (cp_after INT64 False 0 blank_page ?ops))" by simp
  show ?thesis by (rule zone_map_sound[OF h a m]) simp_all
qed

end
