(* ===== verification/Xxhash.thy ===== *)
theory Xxhash
  imports Nyx_Prelude
begin

unbundle bit_operations_syntax

text \<open>
  \<^verbatim>\<open>src/src/common/xxhash.h\<close>: the 64-bit xxHash that guards pages and log records. The
  pointers \<open>p\<close> and \<open>end\<close> become the list of bytes not consumed yet. The theory
  shows that every step after the 32-byte stripes is a bijection of the accumulator, and with
  it that no single-byte corruption behind the last full stripe goes unnoticed.
\<close>

section \<open>The hash\<close>

definition XXH_PRIME1 :: u64 where "XXH_PRIME1 = 0x9E3779B185EBCA87"
definition XXH_PRIME2 :: u64 where "XXH_PRIME2 = 0xC2B2AE3D27D4EB4F"
definition XXH_PRIME3 :: u64 where "XXH_PRIME3 = 0x165667B19E3779F9"
definition XXH_PRIME4 :: u64 where "XXH_PRIME4 = 0x85EBCA77C2B2AE63"
definition XXH_PRIME5 :: u64 where "XXH_PRIME5 = 0x27D4EB2F165667C5"

definition rotl64 :: "u64 \<Rightarrow> nat \<Rightarrow> u64" where
  "rotl64 x r = push_bit r x OR drop_bit (64 - r) x"

definition read64 :: "u8 list \<Rightarrow> u64" where
  "read64 p = le_word (take 8 p)"

definition read32 :: "u8 list \<Rightarrow> u32" where
  "read32 p = le_word (take 4 p)"

definition xxh_round :: "u64 \<Rightarrow> u64 \<Rightarrow> u64" where
  "xxh_round acc input = rotl64 (acc + input * XXH_PRIME2) 31 * XXH_PRIME1"

definition xxh_merge_round :: "u64 \<Rightarrow> u64 \<Rightarrow> u64" where
  "xxh_merge_round acc v = (acc XOR xxh_round 0 v) * XXH_PRIME1 + XXH_PRIME4"

text \<open>The \<open>do ... while (p <= limit)\<close> loop over 32-byte stripes.\<close>

fun xxh_stripes :: "u64 \<times> u64 \<times> u64 \<times> u64 \<Rightarrow> u8 list \<Rightarrow> (u64 \<times> u64 \<times> u64 \<times> u64) \<times> u8 list"
  where
  "xxh_stripes (v1, v2, v3, v4) p =
     (if length p < 32 then ((v1, v2, v3, v4), p)
      else xxh_stripes
             (xxh_round v1 (read64 p), xxh_round v2 (read64 (drop 8 p)),
              xxh_round v3 (read64 (drop 16 p)), xxh_round v4 (read64 (drop 24 p)))
             (drop 32 p))"

definition xxh_head :: "u8 list \<Rightarrow> u64 \<Rightarrow> u64 \<times> u8 list" where
  "xxh_head p seed =
     (if length p \<ge> 32 then
        case xxh_stripes (seed + XXH_PRIME1 + XXH_PRIME2, seed + XXH_PRIME2, seed,
                          seed - XXH_PRIME1) p
        of ((v1, v2, v3, v4), q) \<Rightarrow>
          let h = rotl64 v1 1 + rotl64 v2 7 + rotl64 v3 12 + rotl64 v4 18;
              h = xxh_merge_round h v1;
              h = xxh_merge_round h v2;
              h = xxh_merge_round h v3;
              h = xxh_merge_round h v4
          in (h, q)
      else (seed + XXH_PRIME5, p))"

definition xxh_step8 :: "u64 \<Rightarrow> u8 list \<Rightarrow> u64" where
  "xxh_step8 h p = rotl64 (h XOR xxh_round 0 (read64 p)) 27 * XXH_PRIME1 + XXH_PRIME4"

definition xxh_step4 :: "u64 \<Rightarrow> u8 list \<Rightarrow> u64" where
  "xxh_step4 h p = rotl64 (h XOR (ucast (read32 p) * XXH_PRIME1)) 23 * XXH_PRIME2 + XXH_PRIME3"

definition xxh_step1 :: "u64 \<Rightarrow> u8 \<Rightarrow> u64" where
  "xxh_step1 h b = rotl64 (h XOR (ucast b * XXH_PRIME5)) 11 * XXH_PRIME1"

fun xxh_tail8 :: "u64 \<Rightarrow> u8 list \<Rightarrow> u64 \<times> u8 list" where
  "xxh_tail8 h p = (if length p < 8 then (h, p) else xxh_tail8 (xxh_step8 h p) (drop 8 p))"

definition xxh_tail4 :: "u64 \<Rightarrow> u8 list \<Rightarrow> u64 \<times> u8 list" where
  "xxh_tail4 h p = (if length p < 4 then (h, p) else (xxh_step4 h p, drop 4 p))"

fun xxh_tail1 :: "u64 \<Rightarrow> u8 list \<Rightarrow> u64" where
  "xxh_tail1 h [] = h"
| "xxh_tail1 h (b # p) = xxh_tail1 (xxh_step1 h b) p"

definition xxh_avalanche :: "u64 \<Rightarrow> u64" where
  "xxh_avalanche h =
     (let h = h XOR drop_bit 33 h;
          h = h * XXH_PRIME2;
          h = h XOR drop_bit 29 h;
          h = h * XXH_PRIME3
      in h XOR drop_bit 32 h)"

definition xxhash64 :: "u8 list \<Rightarrow> u64 \<Rightarrow> u64" where
  "xxhash64 data seed =
     (case xxh_head data seed of (h, p) \<Rightarrow>
        case xxh_tail8 (h + word_of_nat (length data)) p of (h, p) \<Rightarrow>
          case xxh_tail4 h p of (h, p) \<Rightarrow> xxh_avalanche (xxh_tail1 h p))"

declare xxh_stripes.simps [simp del] xxh_tail8.simps [simp del]

section \<open>The steps are bijections\<close>

lemma mult_inverse_inj:
  fixes p q :: "'a::len word"
  assumes "p * q = 1"
  shows "x * p = y * p \<longleftrightarrow> x = y"
  using assms by (metis mult.assoc mult.right_neutral)

lemma prime_inverses:
  "XXH_PRIME1 * 0x887493432BADB37 = 1" "XXH_PRIME2 * 0xBA79078168D4BAF = 1"
  "XXH_PRIME3 * 0xE9E9F4C41D6DF849 = 1" "XXH_PRIME5 * 0xC592C09FDFBA7F0D = 1"
  by (simp_all add: XXH_PRIME1_def XXH_PRIME2_def XXH_PRIME3_def XXH_PRIME5_def)

lemmas prime_mult_inj [simp] = prime_inverses[THEN mult_inverse_inj]

lemma rotl64_inverse:
  assumes "0 < r" "r < 64"
  shows "rotl64 (rotl64 x r) (64 - r) = x"
  using assms by (auto intro!: bit_word_eqI simp: rotl64_def bit_simps)

lemma rotl64_inj: "0 < r \<Longrightarrow> r < 64 \<Longrightarrow> rotl64 x r = rotl64 y r \<longleftrightarrow> x = y"
  by (metis rotl64_inverse)

lemma xor_word_cancel:
  fixes a :: "'a::len word"
  shows "a XOR x = a XOR y \<longleftrightarrow> x = y" "x XOR a = y XOR a \<longleftrightarrow> x = y"
  by (metis xor.assoc xor.left_neutral xor_self_eq)
     (metis xor.assoc xor.right_neutral xor_self_eq)

lemma xor_shift_inj:
  fixes x y :: "'a::len word"
  assumes eq: "x XOR drop_bit s x = y XOR drop_bit s y" and s: "0 < s"
  shows "x = y"
proof -
  have "bit x n = bit y n" for n
  proof (induction "LENGTH('a) - n" arbitrary: n rule: less_induct)
    case less
    show ?case
    proof (cases "n < LENGTH('a)")
      case True
      then have "bit x (s + n) = bit y (s + n)" using less[of "s + n"] s by simp
      moreover have "bit (x XOR drop_bit s x) n = bit (y XOR drop_bit s y) n" by (simp only: eq)
      ultimately show ?thesis by (auto simp: bit_simps)
    qed (auto dest: bit_imp_le_length)
  qed
  then show ?thesis by (auto intro: bit_word_eqI)
qed

lemma xxh_round_inj: "xxh_round acc x = xxh_round acc y \<longleftrightarrow> x = y"
  by (simp add: xxh_round_def rotl64_inj)

lemma xxh_step8_inj: "xxh_step8 h p = xxh_step8 h' p \<longleftrightarrow> h = h'"
  and xxh_step4_inj: "xxh_step4 h p = xxh_step4 h' p \<longleftrightarrow> h = h'"
  and xxh_step1_inj: "xxh_step1 h b = xxh_step1 h' b \<longleftrightarrow> h = h'"
  by (simp_all add: xxh_step8_def xxh_step4_def xxh_step1_def rotl64_inj xor_word_cancel)

lemma xxh_avalanche_inj: "xxh_avalanche h = xxh_avalanche h' \<longleftrightarrow> h = h'"
proof
  define a where "a x = x XOR drop_bit 33 x" for x :: u64
  define c where "c x = a x * XXH_PRIME2 XOR drop_bit 29 (a x * XXH_PRIME2)" for x
  assume "xxh_avalanche h = xxh_avalanche h'"
  then have "c h * XXH_PRIME3 XOR drop_bit 32 (c h * XXH_PRIME3) =
             c h' * XXH_PRIME3 XOR drop_bit 32 (c h' * XXH_PRIME3)"
    by (simp only: xxh_avalanche_def Let_def a_def c_def)
  then have "c h * XXH_PRIME3 = c h' * XXH_PRIME3" by (rule xor_shift_inj) simp
  then have "c h = c h'" by simp
  then have "a h * XXH_PRIME2 = a h' * XXH_PRIME2" unfolding c_def by (rule xor_shift_inj) simp
  then have "a h = a h'" by simp
  then show "h = h'" unfolding a_def by (rule xor_shift_inj) simp
qed simp

section \<open>Corruption behind the last stripe\<close>

lemma le_word_update:
  assumes "length bs = n" "LENGTH('a) = 8 * n" "i < n" "b \<noteq> bs ! i"
  shows "le_word (bs[i := b]) \<noteq> (le_word bs :: 'a::len word)"
proof
  assume "le_word (bs[i := b]) = (le_word bs :: 'a word)"
  then have "bs[i := b] = bs"
    using assms le_bytes_le_word[where 'a = 'a, of bs] le_bytes_le_word[where 'a = 'a, of "bs[i := b]"]
    by simp
  with assms show False by (metis nth_list_update_eq)
qed

lemma ucast_u64_inj:
  fixes a c :: "'a::len word"
  assumes "LENGTH('a) \<le> 64"
  shows "(ucast a :: u64) = ucast c \<longleftrightarrow> a = c"
proof
  assume "(ucast a :: u64) = ucast c"
  then have "bit (ucast a :: u64) n = bit (ucast c :: u64) n" for n by simp
  then have "bit a n = bit c n" if "n < LENGTH('a)" for n
    using that assms by (simp add: bit_simps) (meson less_le_trans)
  then show "a = c" by (auto intro: bit_word_eqI)
qed simp

lemma xxh_step8_corrupt:
  assumes "8 \<le> length p" "i < 8" "b \<noteq> p ! i"
  shows "xxh_step8 h (p[i := b]) \<noteq> xxh_step8 h p"
  using le_word_update[of "take 8 p" 8 i b, where 'a = 64] assms
  by (simp add: xxh_step8_def read64_def rotl64_inj xor_word_cancel xxh_round_inj take_update_swap)

lemma xxh_step4_corrupt:
  assumes "4 \<le> length p" "i < 4" "b \<noteq> p ! i"
  shows "xxh_step4 h (p[i := b]) \<noteq> xxh_step4 h p"
  using le_word_update[of "take 4 p" 4 i b, where 'a = 32] assms
  by (simp add: xxh_step4_def read32_def rotl64_inj xor_word_cancel take_update_swap ucast_u64_inj)

lemma xxh_step1_corrupt: "b \<noteq> c \<Longrightarrow> xxh_step1 h b \<noteq> xxh_step1 h c"
  by (simp add: xxh_step1_def rotl64_inj xor_word_cancel ucast_u64_inj)

definition xxh_finish :: "u64 \<Rightarrow> u8 list \<Rightarrow> u64" where
  "xxh_finish h p = (case xxh_tail8 h p of (h, p) \<Rightarrow>
     case xxh_tail4 h p of (h, p) \<Rightarrow> xxh_avalanche (xxh_tail1 h p))"

lemma xxh_tail1_inj: "xxh_tail1 h p = xxh_tail1 h' p \<longleftrightarrow> h = h'"
  by (induction p arbitrary: h h') (auto simp: xxh_step1_inj)

lemma xxh_finish_step: "8 \<le> length p \<Longrightarrow> xxh_finish h p = xxh_finish (xxh_step8 h p) (drop 8 p)"
  by (simp add: xxh_finish_def xxh_tail8.simps[of h p])

lemma xxh_finish_short:
  "length p < 8 \<Longrightarrow> xxh_finish h p =
     xxh_avalanche (if length p < 4 then xxh_tail1 h p else xxh_tail1 (xxh_step4 h p) (drop 4 p))"
  by (simp add: xxh_finish_def xxh_tail8.simps xxh_tail4_def)

lemma xxh_finish_inj: "xxh_finish h p = xxh_finish h' p \<longleftrightarrow> h = h'"
proof (induction "length p" arbitrary: h h' p rule: less_induct)
  case less
  show ?case
  proof (cases "8 \<le> length p")
    case True
    then show ?thesis using less[of "drop 8 p"] by (simp add: xxh_finish_step xxh_step8_inj)
  next
    case False
    then show ?thesis
      by (simp add: xxh_finish_short xxh_avalanche_inj xxh_tail1_inj xxh_step4_inj)
  qed
qed

lemma xxh_tail1_corrupt: "i < length p \<Longrightarrow> b \<noteq> p ! i \<Longrightarrow> xxh_tail1 h (p[i := b]) \<noteq> xxh_tail1 h p"
proof (induction p arbitrary: h i)
  case (Cons c p)
  then show ?case
    by (cases i) (auto simp: xxh_tail1_inj xxh_step1_inj dest: xxh_step1_corrupt)
qed simp

lemma xxh_finish_corrupt: "i < length p \<Longrightarrow> b \<noteq> p ! i \<Longrightarrow> xxh_finish h (p[i := b]) \<noteq> xxh_finish h p"
proof (induction "length p" arbitrary: h i p rule: less_induct)
  case less
  consider "8 \<le> length p" "i < 8" | "8 \<le> length p" "8 \<le> i" | "length p < 8" by linarith
  then show ?case
  proof cases
    case 1
    then show ?thesis using xxh_step8_corrupt[of p i b h] less.prems
      by (simp add: xxh_finish_step xxh_finish_inj)
  next
    case 2
    moreover have "xxh_step8 h (p[i := b]) = xxh_step8 h p"
      using 2 by (simp add: xxh_step8_def read64_def)
    ultimately show ?thesis
      using less.hyps[of "drop 8 p" "i - 8" "xxh_step8 h p"] less.prems
      by (simp add: xxh_finish_step drop_update_swap)
  next
    case 3
    have low: "xxh_step4 h (p[i := b]) \<noteq> xxh_step4 h p" if "4 \<le> length p" "i < 4"
      using xxh_step4_corrupt that less.prems by simp
    have high: "xxh_step4 h (p[i := b]) = xxh_step4 h p" if "4 \<le> i"
      using that by (simp add: xxh_step4_def read32_def)
    show ?thesis
      using 3 low high less.prems xxh_tail1_corrupt[of i p b h]
        xxh_tail1_corrupt[of "i - 4" "drop 4 p" b "xxh_step4 h p"]
      by (cases "4 \<le> i") (auto simp: xxh_finish_short xxh_avalanche_inj xxh_tail1_inj drop_update_swap)
  qed
qed

lemma xxh_stripes_corrupt:
  "32 * (length p div 32) \<le> i \<Longrightarrow>
     xxh_stripes v (p[i := b]) =
       (fst (xxh_stripes v p), (snd (xxh_stripes v p))[i - 32 * (length p div 32) := b])"
proof (induction v p arbitrary: i rule: xxh_stripes.induct)
  case (1 v1 v2 v3 v4 p)
  show ?case
  proof (cases "length p < 32")
    case True
    then show ?thesis by (simp add: xxh_stripes.simps)
  next
    case False
    then have len: "32 \<le> length p" by simp
    then have d: "length p div 32 = Suc ((length p - 32) div 32)" by (simp add: le_div_geq)
    then have i: "32 \<le> i" using 1(2) by simp
    have sub: "i - 32 - 32 * ((length p - 32) div 32) = i - 32 * (length p div 32)"
      by (simp add: d)
    have reads: "read64 (p[i := b]) = read64 p" "read64 ((drop 8 p)[i - 8 := b]) = read64 (drop 8 p)"
      "read64 ((drop 16 p)[i - 16 := b]) = read64 (drop 16 p)"
      "read64 ((drop 24 p)[i - 24 := b]) = read64 (drop 24 p)"
      using i by (simp_all add: read64_def)
    show ?thesis
      using 1(1)[of "i - 32"] 1(2) False i d len
      by (simp add: xxh_stripes.simps[of v1 v2 v3 v4 p]
          xxh_stripes.simps[of v1 v2 v3 v4 "p[i := b]"] reads drop_update_swap sub)
  qed
qed

lemma xxh_stripes_rest: "snd (xxh_stripes v p) = drop (32 * (length p div 32)) p"
proof (induction v p rule: xxh_stripes.induct)
  case (1 v1 v2 v3 v4 p)
  show ?case
  proof (cases "length p < 32")
    case False
    then have "length p div 32 = Suc ((length p - 32) div 32)" by (simp add: le_div_geq)
    with False 1 show ?thesis
      by (simp add: xxh_stripes.simps[of v1 v2 v3 v4 p] add.commute)
  qed (simp add: xxh_stripes.simps)
qed

lemma xxhash64_finish:
  "xxhash64 data seed =
     xxh_finish (fst (xxh_head data seed) + word_of_nat (length data)) (snd (xxh_head data seed))"
  by (simp add: xxhash64_def xxh_finish_def split: prod.splits)

lemma xxh_head_rest: "snd (xxh_head data seed) = drop (32 * (length data div 32)) data"
  using xxh_stripes_rest[of "(seed + XXH_PRIME1 + XXH_PRIME2, seed + XXH_PRIME2, seed,
                          seed - XXH_PRIME1)" data]
  by (auto simp: xxh_head_def Let_def split: prod.splits)

lemma xxh_head_corrupt:
  assumes "32 * (length data div 32) \<le> i"
  shows "fst (xxh_head (data[i := b]) seed) = fst (xxh_head data seed)"
  using xxh_stripes_corrupt[OF assms, of "(seed + XXH_PRIME1 + XXH_PRIME2, seed + XXH_PRIME2, seed,
                          seed - XXH_PRIME1)" b]
  by (simp add: xxh_head_def Let_def split: prod.splits)

text \<open>
  C30: a checksum notices every corruption of a single byte behind the last full 32-byte stripe.
  For a record of less than 32 bytes that is every byte.
\<close>

theorem xxhash64_detects_corruption:
  assumes "32 * (length data div 32) \<le> i" "i < length data" "b \<noteq> data ! i"
  shows "xxhash64 (data[i := b]) seed \<noteq> xxhash64 data seed"
proof -
  define k where "k = 32 * (length data div 32)"
  have "xxh_finish h ((drop k data)[i - k := b]) \<noteq> xxh_finish h (drop k data)" for h
    using assms by (intro xxh_finish_corrupt) (auto simp: k_def)
  then show ?thesis
    using assms by (simp add: xxhash64_finish xxh_head_rest xxh_head_corrupt k_def drop_update_swap)
qed

theorem xxhash64_detects_corruption_witness:
  "xxhash64 ([1, 2, 3][1 := 7]) 0 \<noteq> xxhash64 [1, 2, 3] 0"
  by (rule xxhash64_detects_corruption) simp_all

end
