(* ===== verification/Disk_Manager.thy ===== *)
theory Disk_Manager
  imports Column_Page Xxhash
begin

unbundle bit_operations_syntax

text \<open>
  \<^verbatim>\<open>src/src/storage/disk/page.h\<close> and \<^verbatim>\<open>disk_manager.cpp\<close>: pages and the file of pages.
  The file is its bytes; the operating system is a script of outcomes, one per system call, so
  that short reads, torn writes and failing calls are inputs of every theorem. The byte offset
  of a page is the 64-bit product \<open>id * PAGE_SIZE\<close> of the source, which wraps; read as the
  signed \<open>off_t\<close> it is negative from \<open>2 ^ 63\<close> on, and the system calls refuse it.
\<close>

section \<open>Pages\<close>

definition INVALID_PAGE_ID :: u64 where "INVALID_PAGE_ID = - 1"

record page =
  pg_pin_count :: i32
  pg_dirty :: bool
  pg_page_id :: u64
  pg_checksum :: u64
  pg_flags :: u8
  pg_reserved :: "u8 list"
  pg_payload :: "u8 list"

definition page_wf :: "page \<Rightarrow> bool" where
  "page_wf p \<longleftrightarrow> length (pg_reserved p) = 7 \<and> length (pg_payload p) = PAGE_PAYLOAD_SIZE"

text \<open>The array \<open>data\<close> that the header and the payload are views of.\<close>

definition page_data :: "page \<Rightarrow> u8 list" where
  "page_data p = le_bytes 8 (pg_page_id p) @ le_bytes 8 (pg_checksum p) @ [pg_flags p]
     @ pg_reserved p @ pg_payload p"

definition page_set_data :: "u8 list \<Rightarrow> page \<Rightarrow> page" where
  "page_set_data d p =
     p\<lparr>pg_page_id := le_word (slice 0 8 d), pg_checksum := le_word (slice 8 8 d),
       pg_flags := d ! 16, pg_reserved := slice 17 7 d,
       pg_payload := slice PAGE_HEADER_SIZE PAGE_PAYLOAD_SIZE d\<rparr>"

definition page_new :: page where
  "page_new = \<lparr>pg_pin_count = 0, pg_dirty = False, pg_page_id = INVALID_PAGE_ID, pg_checksum = 0,
     pg_flags = 0, pg_reserved = replicate 7 0, pg_payload = replicate PAGE_PAYLOAD_SIZE 0\<rparr>"

definition page_reset :: "u64 \<Rightarrow> page \<Rightarrow> page" where
  "page_reset pid p =
     (page_set_data (replicate PAGE_SIZE 0) (p\<lparr>pg_pin_count := 0, pg_dirty := False\<rparr>))
       \<lparr>pg_page_id := pid\<rparr>"

section \<open>The file and the system calls\<close>

datatype io_outcome = IoDone | IoShort nat | IoFail string

record disk_manager =
  dm_path :: string
  dm_file :: "u8 list"
  dm_next_page_id :: u64
  dm_faults :: "io_outcome list"

definition next_outcome :: "disk_manager \<Rightarrow> io_outcome \<times> disk_manager" where
  "next_outcome dm = (case dm_faults dm of
     [] \<Rightarrow> (IoDone, dm)
   | f # fs \<Rightarrow> (f, dm\<lparr>dm_faults := fs\<rparr>))"

fun transferred :: "io_outcome \<Rightarrow> nat \<Rightarrow> nat" where
  "transferred IoDone n = n"
| "transferred (IoShort m) n = min m n"
| "transferred (IoFail _) n = 0"

text \<open>Writing past the end of a file fills the gap with zeros.\<close>

definition file_write :: "nat \<Rightarrow> u8 list \<Rightarrow> u8 list \<Rightarrow> u8 list" where
  "file_write off bs f =
     (if bs = [] then f
      else blit off bs (f @ replicate (off + length bs - length f) 0))"

text \<open>A negative offset is EINVAL: nothing is transferred.\<close>

definition off_valid :: "u64 \<Rightarrow> bool" where
  "off_valid off \<longleftrightarrow> 0 \<le> sint off"

definition sys_pread :: "nat \<Rightarrow> u64 \<Rightarrow> disk_manager \<Rightarrow> u8 list \<times> disk_manager" where
  "sys_pread n off dm = (case next_outcome dm of (out, dm1) \<Rightarrow>
     (if off_valid off then slice (unat off) (transferred out n) (dm_file dm1) else [], dm1))"

definition sys_pwrite :: "u8 list \<Rightarrow> u64 \<Rightarrow> disk_manager \<Rightarrow> nat \<times> disk_manager" where
  "sys_pwrite bs off dm = (case next_outcome dm of (out, dm1) \<Rightarrow>
     let n = (if off_valid off then transferred out (length bs) else 0)
     in (n, dm1\<lparr>dm_file := file_write (unat off) (take n bs) (dm_file dm1)\<rparr>))"

section \<open>The disk manager\<close>

definition dm_off_t :: "u64 \<Rightarrow> u64" where
  "dm_off_t pid = pid * word_of_nat PAGE_SIZE"

text \<open>The constructor opens the file, or creates an empty one, and counts its whole pages.\<close>

definition dm_open :: "string \<Rightarrow> u8 list \<Rightarrow> io_outcome list \<Rightarrow> disk_manager result" where
  "dm_open path file faults =
     (case faults of
        IoFail e # _ \<Rightarrow> err (''DiskManager: cannot open '' @ path @ '': '' @ e)
      | _ \<Rightarrow> ok \<lparr>dm_path = path, dm_file = file,
                 dm_next_page_id = word_of_nat (length file div PAGE_SIZE),
                 dm_faults = drop 1 faults\<rparr>)"

definition dm_read_page :: "u64 \<Rightarrow> page \<Rightarrow> disk_manager \<Rightarrow> unit result \<times> page \<times> disk_manager" where
  "dm_read_page pid out dm =
     (if pid \<ge> dm_next_page_id dm
      then (err (''read_page: page '' @ to_string (unat pid) @ '' out of range''), out, dm)
      else case sys_pread PAGE_SIZE (dm_off_t pid) dm of (got, dm1) \<Rightarrow>
        let out1 = page_set_data (got @ drop (length got) (page_data out)) out
        in if length got \<noteq> PAGE_SIZE
           then (err (''read_page: short read on page '' @ to_string (unat pid)), out1, dm1)
           else if pg_page_id out1 \<noteq> pid
           then (err (''read_page: page_id mismatch on page '' @ to_string (unat pid)), out1, dm1)
           else if pg_checksum out1 \<noteq> xxhash64 (pg_payload out1) 0
           then (err (''read_page: checksum mismatch on page '' @ to_string (unat pid)), out1, dm1)
           else (ok (), out1, dm1))"

definition dm_seal :: "page \<Rightarrow> page" where
  "dm_seal p = p\<lparr>pg_checksum := xxhash64 (pg_payload p) 0\<rparr>"

definition dm_write_page :: "page \<Rightarrow> disk_manager \<Rightarrow> unit result \<times> disk_manager" where
  "dm_write_page p dm =
     (let pid = pg_page_id p
      in if pid = INVALID_PAGE_ID then (err ''write_page: page has INVALID_PAGE_ID'', dm)
         else case sys_pwrite (page_data (dm_seal p)) (dm_off_t pid) dm of (n, dm1) \<Rightarrow>
           if n \<noteq> PAGE_SIZE
           then (err (''write_page: short write on page '' @ to_string (unat pid)), dm1)
           else (ok (), dm1))"

definition dm_allocate_page :: "disk_manager \<Rightarrow> u64 result \<times> disk_manager" where
  "dm_allocate_page dm =
     (let pid = dm_next_page_id dm;
          blank = page_reset pid page_new
      in case dm_write_page blank (dm\<lparr>dm_next_page_id := pid + 1\<rparr>) of
           (Inl e, dm1) \<Rightarrow> (err e, dm1)
         | (Inr _, dm1) \<Rightarrow> (ok pid, dm1))"

definition dm_reserve_page_id :: "disk_manager \<Rightarrow> u64 \<times> disk_manager" where
  "dm_reserve_page_id dm =
     (dm_next_page_id dm, dm\<lparr>dm_next_page_id := dm_next_page_id dm + 1\<rparr>)"

definition dm_truncate :: "u64 \<Rightarrow> disk_manager \<Rightarrow> unit result \<times> disk_manager" where
  "dm_truncate page_count dm = (case next_outcome dm of
     (IoFail e, dm1) \<Rightarrow> (err (''truncate: '' @ e), dm1)
   | (_, dm1) \<Rightarrow>
       if \<not> off_valid (dm_off_t page_count) then (err ''truncate: Invalid argument'', dm1)
       else
         let n = unat (dm_off_t page_count)
         in (ok (), dm1\<lparr>dm_file := take n (dm_file dm1) @ replicate (n - length (dm_file dm1)) 0,
                        dm_next_page_id := page_count\<rparr>))"

definition dm_fsync :: "disk_manager \<Rightarrow> unit result \<times> disk_manager" where
  "dm_fsync dm = (case next_outcome dm of
     (IoFail e, dm1) \<Rightarrow> (err (''fsync failed: '' @ e), dm1)
   | (_, dm1) \<Rightarrow> (ok (), dm1))"

section \<open>What the file stores\<close>

text \<open>The page that a read without faults finds at an id.\<close>

definition dm_offset :: "u64 \<Rightarrow> nat" where
  "dm_offset pid = unat (dm_off_t pid)"

definition dm_block :: "u8 list \<Rightarrow> u64 \<Rightarrow> u8 list" where
  "dm_block f pid = (if off_valid (dm_off_t pid) then slice (dm_offset pid) PAGE_SIZE f else [])"

definition dm_stored :: "u8 list \<Rightarrow> u64 \<Rightarrow> page option" where
  "dm_stored f pid =
     (let p = page_set_data (dm_block f pid) page_new
      in if length (dm_block f pid) = PAGE_SIZE \<and> pg_page_id p = pid
            \<and> pg_checksum p = xxhash64 (pg_payload p) 0
         then Some p else None)"

lemma length_page_data [simp]: "page_wf p \<Longrightarrow> length (page_data p) = PAGE_SIZE"
  by (simp add: page_data_def page_wf_def)

lemma page_set_data_data:
  assumes "page_wf p"
  shows "page_set_data (page_data p) q
           = p\<lparr>pg_pin_count := pg_pin_count q, pg_dirty := pg_dirty q\<rparr>"
proof -
  obtain a b where r: "length (pg_reserved p) = 7" "length (pg_payload p) = 8168"
    using assms by (auto simp: page_wf_def)
  have "page_data p ! 16 = pg_flags p"
    by (simp add: page_data_def nth_append)
  moreover have "slice 0 8 (page_data p) = le_bytes 8 (pg_page_id p)"
    "slice 8 8 (page_data p) = le_bytes 8 (pg_checksum p)"
    "slice 17 7 (page_data p) = pg_reserved p"
    "slice 24 8168 (page_data p) = pg_payload p"
    using r by (simp_all add: page_data_def slice_def)
  ultimately show ?thesis by (simp add: page_set_data_def)
qed

lemma page_wf_set_data [simp]: "length d = PAGE_SIZE \<Longrightarrow> page_wf (page_set_data d p)"
  by (simp add: page_wf_def page_set_data_def)

lemma page_wf_new [simp]: "page_wf page_new"
  by (simp add: page_wf_def page_new_def)

lemma page_wf_reset [simp]: "page_wf (page_reset pid p)"
  by (simp add: page_wf_def page_reset_def page_set_data_def)

lemma page_wf_seal [simp]: "page_wf (dm_seal p) = page_wf p"
  by (simp add: page_wf_def dm_seal_def)

lemma page_set_data_page_id [simp]: "pg_page_id (page_reset pid p) = pid"
  by (simp add: page_reset_def)

lemma file_write_Nil [simp]: "file_write off [] f = f"
  by (simp add: file_write_def)

lemma length_file_write:
  "bs \<noteq> [] \<Longrightarrow> length (file_write off bs f) = max (length f) (off + length bs)"
  by (simp add: file_write_def max_def)

lemma file_write_same:
  "bs \<noteq> [] \<Longrightarrow> n = length bs \<Longrightarrow> slice off n (file_write off bs f) = bs"
  by (simp add: file_write_def slice_blit_same)

lemma slice_append_short: "p + n \<le> length f \<Longrightarrow> slice p n (f @ g) = slice p n f"
  by (simp add: slice_def)

lemma file_write_other:
  assumes "p + n \<le> off \<or> off + length bs \<le> p" "p + n \<le> length f"
  shows "slice p n (file_write off bs f) = slice p n f"
  using assms
  by (auto simp: file_write_def slice_blit_before slice_blit_after slice_append_short)

text \<open>Below \<open>2 ^ 51\<close> the product does not wrap; below \<open>2 ^ 50\<close> it is not negative either.\<close>

lemma dm_offset_nowrap: "pid < 2 ^ 51 \<Longrightarrow> dm_offset pid = unat pid * PAGE_SIZE"
  by (simp add: dm_offset_def dm_off_t_def unat_word_ariths word_less_nat_alt)

lemma off_valid_nat: "off_valid off \<longleftrightarrow> unat off < 2 ^ 63"
proof -
  have "off_valid off \<longleftrightarrow> even (uint off div 2 ^ 63)"
    by (simp add: off_valid_def sint_uint signed_take_bit_nonnegative_iff bit_iff_odd)
  also have "\<dots> \<longleftrightarrow> uint off < 2 ^ 63"
  proof (cases "uint off < 2 ^ 63")
    case False
    then have "uint off div 2 ^ 63 = 1"
      using uint_bounded[of off] by (intro int_div_pos_eq[of _ _ _ "uint off - 2 ^ 63"]) simp_all
    then show ?thesis using False by simp
  qed simp
  also have "\<dots> \<longleftrightarrow> int (unat off) < int (2 ^ 63)"
    by (simp only: uint_nat of_nat_power of_nat_numeral)
  also have "\<dots> \<longleftrightarrow> unat off < 2 ^ 63" by (rule of_nat_less_iff)
  finally show ?thesis .
qed

lemma off_valid_dm: "pid < 2 ^ 51 \<Longrightarrow> off_valid (dm_off_t pid) \<longleftrightarrow> pid < 2 ^ 50"
  using dm_offset_nowrap[of pid]
  by (simp add: off_valid_nat word_less_nat_alt flip: dm_offset_def)

lemma dm_offset_apart:
  assumes "i \<noteq> j" "i < 2 ^ 51" "j < 2 ^ 51"
  shows "dm_offset i + PAGE_SIZE \<le> dm_offset j \<or> dm_offset j + PAGE_SIZE \<le> dm_offset i"
proof -
  have "unat i \<noteq> unat j" using assms(1) by (simp add: word_unat_eq_iff)
  then show ?thesis using assms(2,3) by (auto simp: dm_offset_nowrap)
qed

text \<open>The bound is sharp: the page with id \<open>2 ^ 51\<close> lies where page 0 does.\<close>

lemma dm_offset_wraps: "dm_offset (2 ^ 51) = dm_offset 0" "off_valid (dm_off_t (2 ^ 51))"
  by (simp_all add: dm_offset_def dm_off_t_def off_valid_def)

lemma dm_block_write_other:
  assumes "i \<noteq> j" "length bs \<le> PAGE_SIZE" "dm_offset j + PAGE_SIZE \<le> length f"
    "i < 2 ^ 51" "j < 2 ^ 51"
  shows "dm_block (file_write (dm_offset i) bs f) j = dm_block f j"
  using assms dm_offset_apart[OF assms(1)]
  by (auto simp: dm_block_def intro!: file_write_other)

lemma dm_stored_cong: "dm_block f i = dm_block g i \<Longrightarrow> dm_stored f i = dm_stored g i"
  by (simp add: dm_stored_def)

lemma next_outcome_file [simp]:
  "next_outcome dm = (out, dm1) \<Longrightarrow> dm_file dm1 = dm_file dm"
  "next_outcome dm = (out, dm1) \<Longrightarrow> dm_next_page_id dm1 = dm_next_page_id dm"
  by (auto simp: next_outcome_def split: list.splits)

lemma next_outcome_Nil [simp]: "dm_faults dm = [] \<Longrightarrow> next_outcome dm = (IoDone, dm)"
  by (simp add: next_outcome_def)

text \<open>The effect of a write on the file, whatever the system call did.\<close>

lemma dm_write_page_file:
  assumes "dm_write_page p dm = (r, dm')" "page_wf p"
  obtains n where "n \<le> PAGE_SIZE" "is_ok r \<Longrightarrow> n = PAGE_SIZE"
    "0 < n \<Longrightarrow> off_valid (dm_off_t (pg_page_id p))"
    "dm_file dm' = file_write (dm_offset (pg_page_id p)) (take n (page_data (dm_seal p))) (dm_file dm)"
    "dm_next_page_id dm' = dm_next_page_id dm"
proof (cases "pg_page_id p = INVALID_PAGE_ID")
  case True
  with assms that[of 0] show ?thesis by (auto simp: dm_write_page_def file_write_def)
next
  case False
  obtain out dm1 where o: "next_outcome dm = (out, dm1)" by fastforce
  let ?n = "if off_valid (dm_off_t (pg_page_id p)) then transferred out PAGE_SIZE else 0"
  have "?n \<le> PAGE_SIZE" by (cases out) simp_all
  then show ?thesis
    using that[of ?n] False assms o
    by (auto simp: dm_write_page_def sys_pwrite_def dm_offset_def Let_def split: if_splits)
qed

lemma dm_write_page_stored:
  assumes "dm_write_page p dm = (ok (), dm')" "page_wf p"
  shows "dm_block (dm_file dm') (pg_page_id p) = page_data (dm_seal p)"
    "dm_next_page_id dm' = dm_next_page_id dm"
    "length (dm_file dm') = max (length (dm_file dm)) (dm_offset (pg_page_id p) + PAGE_SIZE)"
    "off_valid (dm_off_t (pg_page_id p))"
proof -
  obtain n where n: "n = PAGE_SIZE" "dm_next_page_id dm' = dm_next_page_id dm"
    "dm_file dm' = file_write (dm_offset (pg_page_id p)) (take n (page_data (dm_seal p))) (dm_file dm)"
    "0 < n \<Longrightarrow> off_valid (dm_off_t (pg_page_id p))"
    using dm_write_page_file[OF assms] by auto
  show v: "off_valid (dm_off_t (pg_page_id p))" using n(1,4) by simp
  have l: "length (page_data (dm_seal p)) = PAGE_SIZE" using assms(2) by simp
  then have ne: "page_data (dm_seal p) \<noteq> []" by auto
  have t: "take n (page_data (dm_seal p)) = page_data (dm_seal p)" using n(1) l by simp
  show "dm_block (dm_file dm') (pg_page_id p) = page_data (dm_seal p)"
    unfolding n(3) t dm_block_def using ne l v by (simp add: file_write_same)
  show "length (dm_file dm') = max (length (dm_file dm)) (dm_offset (pg_page_id p) + PAGE_SIZE)"
    unfolding n(3) t length_file_write[OF ne] l ..
  show "dm_next_page_id dm' = dm_next_page_id dm" by fact
qed

lemma dm_read_page_ok:
  assumes "dm_faults dm = []" "pid < dm_next_page_id dm"
    "dm_block (dm_file dm) pid = page_data (dm_seal p)" "page_wf p" "pg_page_id p = pid"
  shows "dm_read_page pid out dm =
           (ok (), (dm_seal p)\<lparr>pg_pin_count := pg_pin_count out, pg_dirty := pg_dirty out\<rparr>, dm)"
proof -
  have s: "sys_pread 8192 (dm_off_t pid) dm = (page_data (dm_seal p), dm)"
    using assms length_page_data[of "dm_seal p"]
    by (auto simp: sys_pread_def dm_block_def dm_offset_def split: if_splits)
  have b: "page_set_data (page_data (dm_seal p) @ r) out = page_set_data (page_data (dm_seal p)) out"
    for r
    using assms(4) by (simp add: page_set_data_def slice_append_short nth_append)
  show ?thesis
    using assms page_set_data_data[of "dm_seal p" out]
    by (simp add: dm_read_page_def s b Let_def not_le) (simp add: dm_seal_def)
qed

text \<open>
  C28: a page that was written comes back. When a write of a page whose id is below the page
  count reports success and no fault intervenes, reading the page yields the payload and the
  flags that were written, under its id and with its checksum, whatever the buffer held before.
  (\<open>write_page\<close> itself does not look at the page count: a page with an id that was never
  allocated is written, and the read then refuses it as out of range.)
\<close>

theorem disk_write_read:
  assumes "dm_write_page p dm = (ok (), dm')" "page_wf p"
    and "dm_faults dm' = []" "pg_page_id p < dm_next_page_id dm'"
  shows "dm_read_page (pg_page_id p) out dm' =
    (ok (), (dm_seal p)\<lparr>pg_pin_count := pg_pin_count out, pg_dirty := pg_dirty out\<rparr>, dm')"
  using dm_read_page_ok[OF assms(3,4) dm_write_page_stored(1)[OF assms(1,2)] assms(2) refl] .

theorem disk_write_read_witness:
  "let dm = \<lparr>dm_path = ''f'', dm_file = [], dm_next_page_id = 1, dm_faults = []\<rparr>;
       p = page_reset 0 page_new
   in dm_read_page 0 page_new (snd (dm_write_page p dm)) =
     (ok (), dm_seal p, snd (dm_write_page p dm))"
proof -
  define dm where "dm = \<lparr>dm_path = ''f'', dm_file = [], dm_next_page_id = 1, dm_faults = []\<rparr>"
  define p where "p = page_reset 0 page_new"
  have w: "dm_write_page p dm = (ok (), snd (dm_write_page p dm))"
    "dm_faults (snd (dm_write_page p dm)) = []" "dm_next_page_id (snd (dm_write_page p dm)) = 1"
    by (simp_all add: dm_write_page_def sys_pwrite_def dm_def p_def INVALID_PAGE_ID_def
        next_outcome_def off_valid_def dm_off_t_def)
  have pins: "pg_pin_count (dm_seal p) = 0" "\<not> pg_dirty (dm_seal p)"
    by (simp_all add: p_def page_reset_def dm_seal_def page_set_data_def)
  have "pg_page_id p = 0" "page_wf p" by (simp_all add: p_def)
  with disk_write_read[OF w(1), of page_new] w pins show ?thesis
    unfolding Let_def dm_def[symmetric] p_def[symmetric]
    by (simp add: page_new_def)
qed

text \<open>The writes that are accepted and do not come back: past the page count, and past \<open>2 ^ 51\<close>.\<close>

lemma dm_write_unallocated:
  assumes "dm_write_page p dm = (ok (), dm')" "page_wf p" "dm_next_page_id dm \<le> pg_page_id p"
  shows "dm_read_page (pg_page_id p) out dm' =
    (err (''read_page: page '' @ to_string (unat (pg_page_id p)) @ '' out of range''), out, dm')"
  using assms dm_write_page_stored(2)[OF assms(1,2)] by (simp add: dm_read_page_def)

lemma dm_write_wrapped:
  assumes "dm_write_page p dm = (ok (), dm')" "page_wf p" "pg_page_id p = 2 ^ 51"
  shows "dm_block (dm_file dm') 0 = page_data (dm_seal p)"
proof -
  have "dm_off_t 0 = dm_off_t (2 ^ 51)" by (simp add: dm_off_t_def)
  then have "dm_block f 0 = dm_block f (2 ^ 51)" for f by (simp add: dm_block_def dm_offset_def)
  then show ?thesis using dm_write_page_stored(1)[OF assms(1,2)] by (simp add: assms(3))
qed

text \<open>One operation on the file, and the pages it may write.\<close>

datatype dm_op =
  DmRead u64 page | DmWrite page | DmAllocate | DmReserve | DmTruncate u64 | DmFsync

fun dm_apply :: "dm_op \<Rightarrow> disk_manager \<Rightarrow> disk_manager" where
  "dm_apply (DmRead pid out) dm = snd (snd (dm_read_page pid out dm))"
| "dm_apply (DmWrite p) dm = snd (dm_write_page p dm)"
| "dm_apply DmAllocate dm = snd (dm_allocate_page dm)"
| "dm_apply DmReserve dm = snd (dm_reserve_page_id dm)"
| "dm_apply (DmTruncate n) dm = snd (dm_truncate n dm)"
| "dm_apply DmFsync dm = snd (dm_fsync dm)"

fun dm_touches :: "dm_op \<Rightarrow> disk_manager \<Rightarrow> u64 \<Rightarrow> bool" where
  "dm_touches (DmWrite p) dm j \<longleftrightarrow> j = pg_page_id p"
| "dm_touches DmAllocate dm j \<longleftrightarrow> j = dm_next_page_id dm"
| "dm_touches (DmTruncate n) dm j \<longleftrightarrow> j \<ge> n"
| "dm_touches _ dm j \<longleftrightarrow> False"

text \<open>The ids whose byte offset an operation computes to write or to cut.\<close>

fun dm_op_ids :: "dm_op \<Rightarrow> disk_manager \<Rightarrow> u64 list" where
  "dm_op_ids (DmWrite p) dm = (if pg_page_id p = INVALID_PAGE_ID then [] else [pg_page_id p])"
| "dm_op_ids DmAllocate dm = [dm_next_page_id dm]"
| "dm_op_ids (DmTruncate n) dm = [n]"
| "dm_op_ids _ dm = []"

fun dm_op_wf :: "dm_op \<Rightarrow> bool" where
  "dm_op_wf (DmWrite p) = page_wf p"
| "dm_op_wf _ = True"

definition dm_complete :: "u8 list \<Rightarrow> u64 \<Rightarrow> bool" where
  "dm_complete f j \<longleftrightarrow> dm_offset j + PAGE_SIZE \<le> length f"

lemma dm_write_page_frame:
  assumes "page_wf p" "j \<noteq> pg_page_id p" "dm_complete (dm_file dm) j"
    "j < 2 ^ 51" "pg_page_id p < 2 ^ 51"
  shows "dm_block (dm_file (snd (dm_write_page p dm))) j = dm_block (dm_file dm) j"
    "dm_complete (dm_file (snd (dm_write_page p dm))) j"
proof -
  obtain r dm' where w: "dm_write_page p dm = (r, dm')" by fastforce
  from dm_write_page_file[OF w assms(1)] obtain n where n: "n \<le> PAGE_SIZE"
    "dm_file dm' = file_write (dm_offset (pg_page_id p)) (take n (page_data (dm_seal p))) (dm_file dm)"
    by auto
  then show "dm_block (dm_file (snd (dm_write_page p dm))) j = dm_block (dm_file dm) j"
    using assms by (simp add: w dm_complete_def) (intro dm_block_write_other, auto)
  show "dm_complete (dm_file (snd (dm_write_page p dm))) j"
    using assms(3) n
    by (cases "take n (page_data (dm_seal p)) = []")
       (auto simp: w dm_complete_def length_file_write)
qed

lemma dm_read_page_file [simp]:
  "dm_file (snd (snd (dm_read_page pid out dm))) = dm_file dm"
  "dm_next_page_id (snd (snd (dm_read_page pid out dm))) = dm_next_page_id dm"
  by (auto simp: dm_read_page_def sys_pread_def Let_def split: prod.splits)

lemma dm_truncate_frame:
  assumes "j < n" "dm_complete (dm_file dm) j" "n < 2 ^ 51"
  shows "dm_block (dm_file (snd (dm_truncate n dm))) j = dm_block (dm_file dm) j
         \<and> dm_complete (dm_file (snd (dm_truncate n dm))) j"
proof -
  have j: "j < 2 ^ 51" using assms(1,3) by (rule less_trans)
  have "Suc (unat j) \<le> unat n" using assms(1) by (simp add: word_less_nat_alt)
  then have "Suc (unat j) * 8192 \<le> unat n * 8192" by (rule mult_le_mono1)
  then have le: "dm_offset j + PAGE_SIZE \<le> dm_offset n"
    using assms(3) j by (simp add: dm_offset_nowrap)
  have b: "dm_block (take (dm_offset n) f @ g) j = dm_block f j" if "dm_complete f j" for f g
    using that le by (simp add: dm_block_def slice_def dm_complete_def take_drop min_def)
  show ?thesis
    using assms le b[OF assms(2)]
    by (auto simp: dm_truncate_def Let_def dm_complete_def simp flip: dm_offset_def
        split: prod.splits io_outcome.splits)
qed

text \<open>
  C29: operations do not disturb other pages. Whatever the system calls do (short reads, torn
  writes, failures), an operation changes what the file stores only at the page it writes, at
  the fresh id it allocates, or behind the size it truncates to. The ids involved (the page
  looked at, the page written or allocated, the page count truncated to) are below \<open>2 ^ 51\<close>,
  from where on the byte offset of a page wraps around and its write lands on another page.
\<close>

theorem disk_op_frame:
  assumes "dm_op_wf x" "\<not> dm_touches x dm j" "dm_complete (dm_file dm) j"
    and "\<forall>i \<in> set (j # dm_op_ids x dm). i < 2 ^ 51"
  shows "dm_stored (dm_file (dm_apply x dm)) j = dm_stored (dm_file dm) j
         \<and> dm_complete (dm_file (dm_apply x dm)) j"
proof (cases x)
  case DmAllocate
  have "snd (dm_allocate_page dm) = snd (dm_write_page (page_reset (dm_next_page_id dm) page_new)
          (dm\<lparr>dm_next_page_id := dm_next_page_id dm + 1\<rparr>))"
    by (simp add: dm_allocate_page_def Let_def split: prod.splits sum.splits)
  then show ?thesis
    using DmAllocate assms dm_write_page_frame[of "page_reset (dm_next_page_id dm) page_new" j
        "dm\<lparr>dm_next_page_id := dm_next_page_id dm + 1\<rparr>"]
    by (auto intro: dm_stored_cong)
next
  case (DmTruncate n)
  then show ?thesis using assms dm_truncate_frame[of j n dm] by (auto intro: dm_stored_cong)
next
  case (DmWrite p)
  have "dm_block (dm_file (dm_apply x dm)) j = dm_block (dm_file dm) j
      \<and> dm_complete (dm_file (dm_apply x dm)) j"
  proof (cases "pg_page_id p = INVALID_PAGE_ID")
    case True
    then show ?thesis using DmWrite assms(3) by (simp add: dm_write_page_def)
  next
    case False
    then show ?thesis using DmWrite assms dm_write_page_frame[of p j dm] by simp
  qed
  then show ?thesis by (auto intro: dm_stored_cong)
next
  case DmFsync
  then show ?thesis
    using assms by (auto simp: dm_fsync_def split: prod.splits io_outcome.splits)
qed (use assms in \<open>auto simp: dm_reserve_page_id_def\<close>)

theorem disk_op_frame_witness:
  "let dm = \<lparr>dm_path = ''f'', dm_file = replicate 16384 0, dm_next_page_id = 2,
             dm_faults = [IoShort 100]\<rparr>;
       x = DmWrite (page_reset 1 page_new)
   in dm_stored (dm_file (dm_apply x dm)) 0 = dm_stored (dm_file dm) 0"
proof -
  define dm where "dm = \<lparr>dm_path = ''f'', dm_file = replicate 16384 0, dm_next_page_id = 2,
             dm_faults = [IoShort 100]\<rparr>"
  have "dm_complete (dm_file dm) 0"
    by (simp add: dm_def dm_complete_def dm_offset_def dm_off_t_def)
  with disk_op_frame[of "DmWrite (page_reset 1 page_new)" dm 0] show ?thesis
    unfolding Let_def dm_def[symmetric] by (simp add: INVALID_PAGE_ID_def)
qed

end
