(* ===== verification/Lru_K.thy ===== *)
theory Lru_K
  imports Nyx_Prelude "HOL-Library.Extended_Nat"
begin

text \<open>
  \<^verbatim>\<open>src/src/storage/memory/replacer.h\<close> and \<^verbatim>\<open>lru_k_replacer.cpp\<close>. The abstract class
  \<open>Replacer\<close> is a record of its virtual functions, its contract the locale \<open>replacer\<close>;
  \<open>LRUKReplacer\<close> interprets it. \<open>victim\<close> returns \<open>None\<close> for \<open>false\<close>. A refinement
  against the log of all accesses shows that the victim is the evictable frame with the largest
  backward k-distance.
\<close>

section \<open>The interface\<close>

record 'r replacer_ops =
  rp_victim :: "'r \<Rightarrow> (nat \<times> 'r) option"
  rp_pin :: "nat \<Rightarrow> 'r \<Rightarrow> 'r"
  rp_unpin :: "nat \<Rightarrow> 'r \<Rightarrow> 'r"
  rp_record_access :: "nat \<Rightarrow> 'r \<Rightarrow> 'r"
  rp_remove :: "nat \<Rightarrow> 'r \<Rightarrow> 'r"
  rp_size :: "'r \<Rightarrow> nat"

locale replacer =
  fixes rops :: "'r replacer_ops"
    and rinv :: "'r \<Rightarrow> bool"
    and frames :: "'r \<Rightarrow> nat"
    and tracked :: "'r \<Rightarrow> nat set"
    and evictable :: "'r \<Rightarrow> nat set"
  assumes evictable_tracked: "rinv r \<Longrightarrow> evictable r \<subseteq> tracked r"
    and tracked_frames: "rinv r \<Longrightarrow> tracked r \<subseteq> {..<frames r}"
    and victim_None: "rinv r \<Longrightarrow> rp_victim rops r = None \<longleftrightarrow> evictable r = {}"
    and victim_Some: "rinv r \<Longrightarrow> rp_victim rops r = Some (f, r') \<Longrightarrow>
      f \<in> evictable r \<and> rinv r' \<and> frames r' = frames r
      \<and> tracked r' = tracked r - {f} \<and> evictable r' = evictable r - {f}"
    and pin: "rinv r \<Longrightarrow> f < frames r \<Longrightarrow>
      rinv (rp_pin rops f r) \<and> frames (rp_pin rops f r) = frames r
      \<and> tracked (rp_pin rops f r) = tracked r \<and> evictable (rp_pin rops f r) = evictable r - {f}"
    and unpin: "rinv r \<Longrightarrow> f < frames r \<Longrightarrow>
      rinv (rp_unpin rops f r) \<and> frames (rp_unpin rops f r) = frames r
      \<and> tracked (rp_unpin rops f r) = tracked r
      \<and> evictable (rp_unpin rops f r) = evictable r \<union> ({f} \<inter> tracked r)"
    and record_access: "rinv r \<Longrightarrow> f < frames r \<Longrightarrow>
      rinv (rp_record_access rops f r) \<and> frames (rp_record_access rops f r) = frames r
      \<and> tracked (rp_record_access rops f r) = insert f (tracked r)
      \<and> evictable (rp_record_access rops f r) = evictable r"
    and remove: "rinv r \<Longrightarrow> f < frames r \<Longrightarrow>
      rinv (rp_remove rops f r) \<and> frames (rp_remove rops f r) = frames r
      \<and> tracked (rp_remove rops f r) = tracked r - {f}
      \<and> evictable (rp_remove rops f r) = evictable r - {f}"
    and size_card: "rinv r \<Longrightarrow> rp_size rops r = card (evictable r)"
begin

text \<open>Touching a frame the way the pool does on a fetch: tracked and no longer evictable.\<close>

lemma access_pin:
  assumes "rinv r" "f < frames r"
  shows "rinv (rp_pin rops f (rp_record_access rops f r))"
    "frames (rp_pin rops f (rp_record_access rops f r)) = frames r"
    "tracked (rp_pin rops f (rp_record_access rops f r)) = insert f (tracked r)"
    "evictable (rp_pin rops f (rp_record_access rops f r)) = evictable r - {f}"
  using record_access[OF assms] pin[of "rp_record_access rops f r" f] assms by auto

end

section \<open>The LRU-K replacer\<close>

record frame_data =
  fd_history :: "u64 list"
  fd_evictable :: bool
  fd_tracked :: bool

record lruk =
  lk_k :: nat
  lk_counter :: u64
  lk_evictable_count :: nat
  lk_frames :: "frame_data list"

definition lk_new :: "nat \<Rightarrow> nat \<Rightarrow> lruk" where
  "lk_new num_frames k =
     \<lparr>lk_k = k, lk_counter = 0, lk_evictable_count = 0,
      lk_frames = replicate num_frames \<lparr>fd_history = [], fd_evictable = False, fd_tracked = False\<rparr>\<rparr>"

definition lk_remove :: "nat \<Rightarrow> lruk \<Rightarrow> lruk" where
  "lk_remove i s =
     (let f = lk_frames s ! i
      in if \<not> fd_tracked f then s
         else s\<lparr>lk_evictable_count :=
                  (if fd_evictable f then lk_evictable_count s - 1 else lk_evictable_count s),
                lk_frames := (lk_frames s)
                  [i := f\<lparr>fd_evictable := False, fd_tracked := False, fd_history := []\<rparr>]\<rparr>)"

text \<open>
  The scan keeps the best frame with fewer than \<open>k\<close> accesses and the best one with \<open>k\<close>:
  \<open>None\<close> while \<open>has_under_k\<close>, resp. \<open>has_k\<close>, is false, else the frame and the front of
  its history.
\<close>

definition lk_better :: "nat \<Rightarrow> u64 \<Rightarrow> (nat \<times> u64) option \<Rightarrow> (nat \<times> u64) option" where
  "lk_better i front best = (case best of
     None \<Rightarrow> Some (i, front)
   | Some (j, ts) \<Rightarrow> if front < ts then Some (i, front) else best)"

fun lk_scan ::
  "nat \<Rightarrow> nat \<Rightarrow> frame_data list \<Rightarrow> (nat \<times> u64) option \<Rightarrow> (nat \<times> u64) option \<Rightarrow>
   (nat \<times> u64) option \<times> (nat \<times> u64) option" where
  "lk_scan k i [] ub kb = (ub, kb)"
| "lk_scan k i (f # fs) ub kb =
     (if \<not> fd_tracked f \<or> \<not> fd_evictable f then lk_scan k (Suc i) fs ub kb
      else if length (fd_history f) < k
      then lk_scan k (Suc i) fs (lk_better i (hd (fd_history f)) ub) kb
      else lk_scan k (Suc i) fs ub (lk_better i (hd (fd_history f)) kb))"

definition lk_victim :: "lruk \<Rightarrow> (nat \<times> lruk) option" where
  "lk_victim s =
     (if lk_evictable_count s = 0 then None
      else let out = (case lk_scan (lk_k s) 0 (lk_frames s) None None of
                        (Some (i, _), _) \<Rightarrow> i
                      | (None, Some (i, _)) \<Rightarrow> i
                      | (None, None) \<Rightarrow> 0)
           in Some (out, lk_remove out s))"

definition lk_pin :: "nat \<Rightarrow> lruk \<Rightarrow> lruk" where
  "lk_pin i s =
     (let f = lk_frames s ! i
      in if \<not> fd_tracked f then s
         else if fd_evictable f
         then s\<lparr>lk_frames := (lk_frames s)[i := f\<lparr>fd_evictable := False\<rparr>],
                lk_evictable_count := lk_evictable_count s - 1\<rparr>
         else s)"

definition lk_unpin :: "nat \<Rightarrow> lruk \<Rightarrow> lruk" where
  "lk_unpin i s =
     (let f = lk_frames s ! i
      in if \<not> fd_tracked f then s
         else if \<not> fd_evictable f
         then s\<lparr>lk_frames := (lk_frames s)[i := f\<lparr>fd_evictable := True\<rparr>],
                lk_evictable_count := lk_evictable_count s + 1\<rparr>
         else s)"

definition lk_record_access :: "nat \<Rightarrow> lruk \<Rightarrow> lruk" where
  "lk_record_access i s =
     (let f = lk_frames s ! i;
          c = lk_counter s + 1;
          h = fd_history f @ [c];
          h = (if length h > lk_k s then tl h else h)
      in s\<lparr>lk_counter := c,
           lk_frames := (lk_frames s)[i := f\<lparr>fd_tracked := True, fd_history := h\<rparr>]\<rparr>)"

definition lk_size :: "lruk \<Rightarrow> nat" where
  "lk_size s = lk_evictable_count s"

definition lruk_ops :: "lruk replacer_ops" where
  "lruk_ops = \<lparr>rp_victim = lk_victim, rp_pin = lk_pin, rp_unpin = lk_unpin,
     rp_record_access = lk_record_access, rp_remove = lk_remove, rp_size = lk_size\<rparr>"

section \<open>The contract holds\<close>

definition lk_tracked :: "lruk \<Rightarrow> nat set" where
  "lk_tracked s = {i. i < length (lk_frames s) \<and> fd_tracked (lk_frames s ! i)}"

definition lk_evictable :: "lruk \<Rightarrow> nat set" where
  "lk_evictable s = {i. i < length (lk_frames s) \<and> fd_evictable (lk_frames s ! i)}"

definition lk_inv :: "lruk \<Rightarrow> bool" where
  "lk_inv s \<longleftrightarrow> lk_k s > 0 \<and> lk_evictable_count s = card (lk_evictable s)
     \<and> (\<forall>i < length (lk_frames s). fd_evictable (lk_frames s ! i) \<longrightarrow> fd_tracked (lk_frames s ! i))
     \<and> (\<forall>i < length (lk_frames s). fd_tracked (lk_frames s ! i) \<longleftrightarrow> fd_history (lk_frames s ! i) \<noteq> [])"

abbreviation lk_frame_count :: "lruk \<Rightarrow> nat" where
  "lk_frame_count s \<equiv> length (lk_frames s)"

lemma finite_lk_evictable [simp]: "finite (lk_evictable s)"
  by (simp add: lk_evictable_def)

lemma lk_evictable_update:
  "i < length (lk_frames s) \<Longrightarrow>
   {j. j < length (lk_frames s) \<and> fd_evictable ((lk_frames s)[i := f] ! j)} =
     (if fd_evictable f then insert i (lk_evictable s) else lk_evictable s - {i})"
  by (auto simp: lk_evictable_def nth_list_update)

lemma lk_inv_new: "k > 0 \<Longrightarrow> lk_inv (lk_new n k)"
  by (auto simp: lk_inv_def lk_new_def lk_evictable_def)

lemma lk_remove_law:
  assumes "lk_inv s" "i < lk_frame_count s"
  shows "lk_inv (lk_remove i s) \<and> lk_frame_count (lk_remove i s) = lk_frame_count s
    \<and> lk_tracked (lk_remove i s) = lk_tracked s - {i}
    \<and> lk_evictable (lk_remove i s) = lk_evictable s - {i}"
proof -
  have e: "lk_evictable (lk_remove i s) = lk_evictable s - {i}"
    using assms
    by (auto simp: lk_remove_def lk_evictable_def lk_inv_def Let_def nth_list_update)
  have "fd_evictable (lk_frames s ! i) \<longleftrightarrow> i \<in> lk_evictable s"
    using assms by (simp add: lk_evictable_def)
  then have "lk_evictable_count (lk_remove i s) = card (lk_evictable s - {i})"
    using assms by (auto simp: lk_remove_def lk_inv_def Let_def)
  with e assms show ?thesis
    by (auto simp: lk_remove_def lk_inv_def lk_tracked_def Let_def nth_list_update split: if_splits)
qed

lemma lk_pin_law:
  assumes "lk_inv s" "i < lk_frame_count s"
  shows "lk_inv (lk_pin i s) \<and> lk_frame_count (lk_pin i s) = lk_frame_count s
    \<and> lk_tracked (lk_pin i s) = lk_tracked s
    \<and> lk_evictable (lk_pin i s) = lk_evictable s - {i}"
proof -
  have e: "lk_evictable (lk_pin i s) = lk_evictable s - {i}"
    using assms by (auto simp: lk_pin_def lk_evictable_def lk_inv_def Let_def nth_list_update)
  have "fd_evictable (lk_frames s ! i) \<longleftrightarrow> i \<in> lk_evictable s"
    using assms by (simp add: lk_evictable_def)
  then have "lk_evictable_count (lk_pin i s) = card (lk_evictable s - {i})"
    using assms by (auto simp: lk_pin_def lk_inv_def Let_def)
  with e assms show ?thesis
    by (auto simp: lk_pin_def lk_inv_def lk_tracked_def Let_def nth_list_update split: if_splits)
qed

lemma lk_unpin_law:
  assumes "lk_inv s" "i < lk_frame_count s"
  shows "lk_inv (lk_unpin i s) \<and> lk_frame_count (lk_unpin i s) = lk_frame_count s
    \<and> lk_tracked (lk_unpin i s) = lk_tracked s
    \<and> lk_evictable (lk_unpin i s) = lk_evictable s \<union> ({i} \<inter> lk_tracked s)"
proof -
  have e: "lk_evictable (lk_unpin i s) = lk_evictable s \<union> ({i} \<inter> lk_tracked s)"
    using assms
    by (auto simp: lk_unpin_def lk_evictable_def lk_tracked_def lk_inv_def Let_def nth_list_update)
  have "fd_evictable (lk_frames s ! i) \<longleftrightarrow> i \<in> lk_evictable s"
    "fd_tracked (lk_frames s ! i) \<longleftrightarrow> i \<in> lk_tracked s"
    using assms by (simp_all add: lk_evictable_def lk_tracked_def)
  then have "lk_evictable_count (lk_unpin i s) = card (lk_evictable s \<union> ({i} \<inter> lk_tracked s))"
    using assms by (auto simp: lk_unpin_def lk_inv_def Let_def insert_absorb)
  with e assms show ?thesis
    by (auto simp: lk_unpin_def lk_inv_def lk_tracked_def Let_def nth_list_update split: if_splits)
qed

lemma lk_record_access_law:
  assumes "lk_inv s" "i < lk_frame_count s"
  shows "lk_inv (lk_record_access i s) \<and> lk_frame_count (lk_record_access i s) = lk_frame_count s
    \<and> lk_tracked (lk_record_access i s) = insert i (lk_tracked s)
    \<and> lk_evictable (lk_record_access i s) = lk_evictable s"
proof -
  have e: "lk_evictable (lk_record_access i s) = lk_evictable s"
    using assms by (auto simp: lk_record_access_def lk_evictable_def Let_def nth_list_update)
  have h: "tl (h @ [c]) = [] \<longleftrightarrow> h = []" for h :: "u64 list" and c
    by (cases h) auto
  have k: "lk_k s > 0" using assms(1) by (simp add: lk_inv_def)
  have "(if length (h @ [c]) > lk_k s then tl (h @ [c]) else h @ [c]) \<noteq> []" for h :: "u64 list" and c
    using k h[of h c] by auto
  with e assms show ?thesis
    by (auto simp: lk_record_access_def lk_inv_def lk_tracked_def Let_def nth_list_update
        simp del: length_append split: if_splits)
qed

text \<open>The two results of the scan are minima over the frames with fewer than, resp. with, \<open>k\<close> accesses.\<close>

definition lk_cands :: "(frame_data \<Rightarrow> bool) \<Rightarrow> nat \<Rightarrow> frame_data list \<Rightarrow> (nat \<times> u64) list" where
  "lk_cands P i fs =
     map (\<lambda>(j, f). (j, hd (fd_history f)))
       (filter (\<lambda>(j, f). fd_tracked f \<and> fd_evictable f \<and> P f) (List.enumerate i fs))"

lemma lk_cands_simps [simp]:
  "lk_cands P i [] = []"
  "lk_cands P i (f # fs) =
     (if fd_tracked f \<and> fd_evictable f \<and> P f then [(i, hd (fd_history f))] else [])
       @ lk_cands P (Suc i) fs"
  by (simp_all add: lk_cands_def)

lemma set_lk_cands:
  "(j, t) \<in> set (lk_cands P 0 fs) \<longleftrightarrow>
     j < length fs \<and> fd_tracked (fs ! j) \<and> fd_evictable (fs ! j) \<and> P (fs ! j)
     \<and> t = hd (fd_history (fs ! j))"
  by (force simp: lk_cands_def in_set_enumerate_eq image_iff)

definition lk_best :: "(nat \<times> u64) option \<Rightarrow> (nat \<times> u64) list \<Rightarrow> (nat \<times> u64) option" where
  "lk_best b xs = foldl (\<lambda>b (j, t). lk_better j t b) b xs"

lemma lk_scan_best:
  "lk_scan k i fs ub kb =
     (lk_best ub (lk_cands (\<lambda>f. length (fd_history f) < k) i fs),
      lk_best kb (lk_cands (\<lambda>f. \<not> length (fd_history f) < k) i fs))"
  by (induction k i fs ub kb rule: lk_scan.induct) (auto simp: lk_best_def)

lemma lk_best_Some: "lk_best (Some a) xs = Some c \<Longrightarrow> c \<in> set (a # xs) \<and> (\<forall>x \<in> set (a # xs). snd c \<le> snd x)"
proof (induction xs arbitrary: a)
  case (Cons x xs)
  obtain j t where x: "x = (j, t)" by fastforce
  show ?case
    using Cons.IH[of "if t < snd a then x else a"] Cons.prems
    by (auto simp: lk_best_def lk_better_def x split: prod.splits if_splits)
qed (simp add: lk_best_def)

lemma lk_best_not_None: "lk_best (Some a) xs \<noteq> None"
  by (induction xs arbitrary: a) (auto simp: lk_best_def lk_better_def)

lemma lk_best_None: "lk_best None xs = None \<longleftrightarrow> xs = []"
  using lk_best_not_None by (cases xs) (auto simp: lk_best_def lk_better_def)

lemma lk_best_min:
  assumes "lk_best None xs = Some c"
  shows "c \<in> set xs" "x \<in> set xs \<Longrightarrow> snd c \<le> snd x"
proof -
  from assms obtain y ys where xs: "xs = y # ys" by (cases xs) (auto simp: lk_best_def)
  with assms have "lk_best (Some y) ys = Some c" by (cases y) (simp add: lk_best_def lk_better_def)
  from lk_best_Some[OF this] show "c \<in> set xs" "x \<in> set xs \<Longrightarrow> snd c \<le> snd x" by (auto simp: xs)
qed

text \<open>The frame that \<open>victim\<close> chooses, before it is removed.\<close>

lemma lk_victim_choice:
  assumes inv: "lk_inv s" and v: "lk_victim s = Some (i, s')"
  shows "i \<in> lk_evictable s \<and> s' = lk_remove i s
    \<and> (\<forall>j \<in> lk_evictable s.
         if length (fd_history (lk_frames s ! i)) < lk_k s
         then length (fd_history (lk_frames s ! j)) < lk_k s \<longrightarrow>
              hd (fd_history (lk_frames s ! i)) \<le> hd (fd_history (lk_frames s ! j))
         else \<not> length (fd_history (lk_frames s ! j)) < lk_k s
              \<and> hd (fd_history (lk_frames s ! i)) \<le> hd (fd_history (lk_frames s ! j)))"
proof -
  define U where "U = lk_cands (\<lambda>f. length (fd_history f) < lk_k s) 0 (lk_frames s)"
  define K where "K = lk_cands (\<lambda>f. \<not> length (fd_history f) < lk_k s) 0 (lk_frames s)"
  have ev: "j \<in> lk_evictable s \<longleftrightarrow> j < length (lk_frames s) \<and> fd_tracked (lk_frames s ! j)
              \<and> fd_evictable (lk_frames s ! j)" for j
    using inv by (auto simp: lk_evictable_def lk_inv_def)
  have U: "(j, t) \<in> set U \<longleftrightarrow> j \<in> lk_evictable s \<and> length (fd_history (lk_frames s ! j)) < lk_k s
              \<and> t = hd (fd_history (lk_frames s ! j))" for j t
    by (auto simp: U_def set_lk_cands ev)
  have K: "(j, t) \<in> set K \<longleftrightarrow> j \<in> lk_evictable s \<and> \<not> length (fd_history (lk_frames s ! j)) < lk_k s
              \<and> t = hd (fd_history (lk_frames s ! j))" for j t
    by (auto simp: K_def set_lk_cands ev)
  have ne: "lk_evictable s \<noteq> {}"
    using v inv by (auto simp: lk_victim_def lk_inv_def split: if_splits)
  note scan = lk_scan_best[of "lk_k s" 0 "lk_frames s" None None, folded U_def K_def]
  show ?thesis
  proof (cases "lk_best None U")
    case None
    then have "set U = {}" by (simp add: lk_best_None)
    then have full: "\<not> length (fd_history (lk_frames s ! j)) < lk_k s" if "j \<in> lk_evictable s" for j
      using that U by fastforce
    then have "K \<noteq> []" using ne K by fastforce
    then obtain c t where c: "lk_best None K = Some (c, t)" using lk_best_None[of K] by fastforce
    with None v have i: "i = c" "s' = lk_remove c s"
      by (auto simp: lk_victim_def scan Let_def split: if_splits)
    with full lk_best_min[OF c] K show ?thesis by fastforce
  next
    case (Some ct)
    then obtain c t where c: "lk_best None U = Some (c, t)" by (cases ct) simp
    with v have i: "i = c" "s' = lk_remove c s"
      by (auto simp: lk_victim_def scan Let_def split: if_splits)
    with lk_best_min[OF c] U show ?thesis by fastforce
  qed
qed

lemma lk_victim_None: "lk_inv s \<Longrightarrow> lk_victim s = None \<longleftrightarrow> lk_evictable s = {}"
  by (simp add: lk_victim_def lk_inv_def Let_def)

lemma lk_evictable_less: "i \<in> lk_evictable s \<Longrightarrow> i < lk_frame_count s"
  by (simp add: lk_evictable_def)

interpretation lruk: replacer lruk_ops lk_inv lk_frame_count lk_tracked lk_evictable
proof
  fix s f s'
  assume "lk_inv s" "rp_victim lruk_ops s = Some (f, s')"
  then show "f \<in> lk_evictable s \<and> lk_inv s' \<and> lk_frame_count s' = lk_frame_count s
    \<and> lk_tracked s' = lk_tracked s - {f} \<and> lk_evictable s' = lk_evictable s - {f}"
    using lk_victim_choice[of s f s'] lk_remove_law[of s f] lk_evictable_less[of f s]
    by (simp add: lruk_ops_def)
qed (auto simp: lruk_ops_def lk_victim_None lk_pin_law lk_unpin_law lk_record_access_law
      lk_remove_law lk_size_def, auto simp: lk_inv_def lk_evictable_def lk_tracked_def)

section \<open>The victim has the largest backward k-distance\<close>

text \<open>
  The specification keeps, for every frame, the instants of its accesses since it was last
  removed; the clock counts all accesses.
\<close>

record access_log =
  al_now :: nat
  al_log :: "nat \<Rightarrow> nat list"
  al_evictable :: "nat set"

datatype lk_op = LkAccess nat | LkPin nat | LkUnpin nat | LkRemove nat

fun lk_apply :: "lk_op \<Rightarrow> lruk \<Rightarrow> lruk" where
  "lk_apply (LkAccess i) s = lk_record_access i s"
| "lk_apply (LkPin i) s = lk_pin i s"
| "lk_apply (LkUnpin i) s = lk_unpin i s"
| "lk_apply (LkRemove i) s = lk_remove i s"

fun log_apply :: "lk_op \<Rightarrow> access_log \<Rightarrow> access_log" where
  "log_apply (LkAccess i) a =
     a\<lparr>al_now := al_now a + 1, al_log := (al_log a)(i := al_log a i @ [al_now a + 1])\<rparr>"
| "log_apply (LkPin i) a = a\<lparr>al_evictable := al_evictable a - {i}\<rparr>"
| "log_apply (LkUnpin i) a =
     (if al_log a i = [] then a else a\<lparr>al_evictable := insert i (al_evictable a)\<rparr>)"
| "log_apply (LkRemove i) a =
     a\<lparr>al_evictable := al_evictable a - {i}, al_log := (al_log a)(i := [])\<rparr>"

definition log_empty :: access_log where
  "log_empty = \<lparr>al_now = 0, al_log = (\<lambda>_. []), al_evictable = {}\<rparr>"

fun lk_op_frame :: "lk_op \<Rightarrow> nat" where
  "lk_op_frame (LkAccess i) = i"
| "lk_op_frame (LkPin i) = i"
| "lk_op_frame (LkUnpin i) = i"
| "lk_op_frame (LkRemove i) = i"

text \<open>Backward k-distance: time since the k-th last access, infinite if there are fewer.\<close>

definition k_distance :: "nat \<Rightarrow> access_log \<Rightarrow> nat \<Rightarrow> enat" where
  "k_distance k a i =
     (if length (al_log a i) < k then \<infinity>
      else enat (al_now a - al_log a i ! (length (al_log a i) - k)))"

definition last_k :: "nat \<Rightarrow> 'a list \<Rightarrow> 'a list" where
  "last_k k xs = drop (length xs - k) xs"

lemma last_k_Nil_iff: "k > 0 \<Longrightarrow> last_k k xs = [] \<longleftrightarrow> xs = []"
  by (cases xs) (auto simp: last_k_def)

lemma last_k_snoc:
  "last_k k (xs @ [x]) =
     (if length (last_k k xs @ [x]) > k then tl (last_k k xs @ [x]) else last_k k xs @ [x])"
proof (cases "length xs < k")
  case False
  then show ?thesis
  proof (cases k)
    case (Suc n)
    with False have "length xs - n = Suc (length xs - Suc n)" by (simp add: Suc_diff_Suc)
    then have "drop (length xs - n) xs = tl (drop (length xs - Suc n) xs)"
      by (simp add: drop_Suc tl_drop)
    with False Suc show ?thesis by (auto simp: last_k_def Suc_diff_le tl_append2)
  qed (simp add: last_k_def)
qed (auto simp: last_k_def)

definition log_rel :: "lruk \<Rightarrow> access_log \<Rightarrow> bool" where
  "log_rel s a \<longleftrightarrow> lk_inv s \<and> lk_counter s = word_of_nat (al_now a)
     \<and> al_evictable a = lk_evictable s
     \<and> (\<forall>i < lk_frame_count s. fd_history (lk_frames s ! i) = map word_of_nat (last_k (lk_k s) (al_log a i)))
     \<and> (\<forall>i. sorted (al_log a i) \<and> (\<forall>t \<in> set (al_log a i). t \<le> al_now a))"

lemma log_rel_access:
  assumes "log_rel s a" "i < lk_frame_count s"
  shows "log_rel (lk_record_access i s) (log_apply (LkAccess i) a)"
proof -
  let ?s = "lk_record_access i s" and ?a = "log_apply (LkAccess i) a"
  have i: "fd_history (lk_frames s ! i) = map word_of_nat (last_k (lk_k s) (al_log a i))"
    and c: "lk_counter s = word_of_nat (al_now a)" and inv: "lk_inv s"
    using assms by (auto simp: log_rel_def)
  have "fd_history (lk_frames ?s ! j) = map word_of_nat (last_k (lk_k ?s) (al_log ?a j))"
    if "j < lk_frame_count ?s" for j
  proof (cases "j = i")
    case True
    then show ?thesis
      using assms(2) by (simp add: lk_record_access_def Let_def i c last_k_snoc map_tl add.commute)
  next
    case False
    then show ?thesis using assms that by (simp add: lk_record_access_def Let_def log_rel_def)
  qed
  with assms lk_record_access_law[OF inv assms(2)] show ?thesis
    by (auto simp: log_rel_def lk_record_access_def Let_def sorted_append add.commute
        intro: le_SucI)
qed

lemma log_rel_step:
  assumes r: "log_rel s a" and f: "lk_op_frame x < lk_frame_count s"
  shows "log_rel (lk_apply x s) (log_apply x a)
    \<and> lk_frame_count (lk_apply x s) = lk_frame_count s \<and> lk_k (lk_apply x s) = lk_k s"
proof (cases x)
  case (LkAccess i)
  then show ?thesis
    using log_rel_access[OF r, of i] f by (simp add: lk_record_access_def Let_def)
next
  case (LkPin i)
  have "fd_history (lk_frames (lk_pin i s) ! j) = fd_history (lk_frames s ! j)"
    if "j < lk_frame_count s" for j using that
    by (cases "j = i") (auto simp: lk_pin_def Let_def)
  with LkPin f r lk_pin_law[of s i] show ?thesis
    by (auto simp: log_rel_def) (auto simp: lk_pin_def Let_def)
next
  case (LkUnpin i)
  have h: "fd_history (lk_frames (lk_unpin i s) ! j) = fd_history (lk_frames s ! j)"
    if "j < lk_frame_count s" for j using that
    by (cases "j = i") (auto simp: lk_unpin_def Let_def)
  have "lk_k s > 0" "i < lk_frame_count s" using LkUnpin f r by (auto simp: log_rel_def lk_inv_def)
  then have "i \<in> lk_tracked s \<longleftrightarrow> al_log a i \<noteq> []"
    using r by (auto simp: log_rel_def lk_inv_def lk_tracked_def last_k_Nil_iff)
  with h LkUnpin f r lk_unpin_law[of s i] show ?thesis
    by (auto simp: log_rel_def) (auto simp: lk_unpin_def Let_def)
next
  case (LkRemove i)
  have i: "fd_history (lk_frames (lk_remove i s) ! i) = []" 
    using LkRemove f r by (auto simp: lk_remove_def Let_def log_rel_def lk_inv_def)
  have h: "fd_history (lk_frames (lk_remove i s) ! j) = fd_history (lk_frames s ! j)"
    if "j < lk_frame_count s" "j \<noteq> i" for j using that
    by (auto simp: lk_remove_def Let_def nth_list_update)
  have k: "lk_counter (lk_remove i s) = lk_counter s" "lk_k (lk_remove i s) = lk_k s"
    by (simp_all add: lk_remove_def Let_def)
  with i h LkRemove f r lk_remove_law[of s i] show ?thesis
    by (auto simp: log_rel_def last_k_def)
qed

lemma log_rel_run:
  assumes "\<forall>x \<in> set xs. lk_op_frame x < n" "log_rel s a" "lk_frame_count s = n" "lk_k s = k"
  shows "log_rel (fold lk_apply xs s) (fold log_apply xs a) \<and> lk_k (fold lk_apply xs s) = k
    \<and> al_now (fold log_apply xs a) \<le> al_now a + length xs"
  using assms
proof (induction xs arbitrary: s a)
  case (Cons x xs)
  have "al_now (log_apply x a) \<le> al_now a + 1" by (cases x) auto
  with Cons.IH[of "lk_apply x s" "log_apply x a"] Cons.prems log_rel_step[of s a x] show ?case
    by fastforce
qed simp

lemma log_rel_new: "k > 0 \<Longrightarrow> log_rel (lk_new n k) log_empty"
  using lk_inv_new[of k n]
  by (auto simp: log_rel_def log_empty_def lk_new_def last_k_def lk_evictable_def)

lemma hd_last_k:
  "xs \<noteq> [] \<Longrightarrow> k > 0 \<Longrightarrow> hd (last_k k xs) = (if length xs < k then hd xs else xs ! (length xs - k))"
  by (auto simp: last_k_def hd_drop_conv_nth hd_conv_nth)

text \<open>
  C27: LRU-K. After any sequence of accesses, pins, unpins and removals, \<open>victim\<close> picks an
  evictable frame whose backward k-distance is maximal among the evictable frames; among the
  frames with fewer than \<open>k\<close> accesses it picks the one whose first access is the oldest.
\<close>

theorem lru_k_victim:
  assumes "\<forall>x \<in> set xs. lk_op_frame x < n" "k > 0" "length xs < 2 ^ 64"
    and "lk_victim (fold lk_apply xs (lk_new n k)) = Some (f, s')"
    and "a = fold log_apply xs log_empty"
  shows "f \<in> al_evictable a \<and> (\<forall>g \<in> al_evictable a.
     k_distance k a g \<le> k_distance k a f
     \<and> (k_distance k a g = \<infinity> \<longrightarrow> hd (al_log a f) \<le> hd (al_log a g)))"
proof -
  define s where "s = fold lk_apply xs (lk_new n k)"
  have rel: "log_rel s a" and k: "lk_k s = k" and now: "al_now a < 2 ^ 64"
    using log_rel_run[OF assms(1) log_rel_new[OF assms(2)], of n] assms(3)
    by (auto simp: s_def assms(5) lk_new_def log_empty_def)
  have inv: "lk_inv s" and ev: "al_evictable a = lk_evictable s" using rel by (auto simp: log_rel_def)
  have hist: "fd_history (lk_frames s ! i) = map word_of_nat (last_k k (al_log a i))
      \<and> al_log a i \<noteq> []" if "i \<in> lk_evictable s" for i
    using that rel k assms(2) 
    by (auto simp: log_rel_def lk_inv_def lk_evictable_def last_k_def)
  have len: "length (fd_history (lk_frames s ! i)) < k \<longleftrightarrow> length (al_log a i) < k"
    if "i \<in> lk_evictable s" for i using hist[OF that] by (auto simp: last_k_def)
  define key where "key i = hd (last_k k (al_log a i))" for i
  have key: "key i \<in> set (al_log a i)" if "i \<in> lk_evictable s" for i
    using hist[OF that] assms(2) hd_last_k[of "al_log a i" k] by (auto simp: key_def)
  have keynow: "key i \<le> al_now a" if "i \<in> lk_evictable s" for i
    using key[OF that] rel by (auto simp: log_rel_def)
  have front: "hd (fd_history (lk_frames s ! i)) = word_of_nat (key i)" if "i \<in> lk_evictable s" for i
    using hist[OF that] assms(2) by (simp add: key_def hd_map last_k_Nil_iff)
  have cmp: "hd (fd_history (lk_frames s ! i)) \<le> hd (fd_history (lk_frames s ! j)) \<longleftrightarrow> key i \<le> key j"
    if "i \<in> lk_evictable s" "j \<in> lk_evictable s" for i j
    using that keynow[OF that(1)] keynow[OF that(2)] now
    by (simp add: front word_le_nat_alt unat_of_nat)
  have keyd: "key i = (if length (al_log a i) < k then hd (al_log a i)
                else al_log a i ! (length (al_log a i) - k))" if "i \<in> lk_evictable s" for i
    using hist[OF that] assms(2) by (simp add: key_def hd_last_k)
  note choice = lk_victim_choice[OF inv, of f s'] assms(4)[folded s_def]
  then have f: "f \<in> lk_evictable s" by simp
  show ?thesis
  proof (intro conjI ballI impI)
    show "f \<in> al_evictable a" using f ev by simp
    fix g assume "g \<in> al_evictable a"
    then have g: "g \<in> lk_evictable s" by (simp add: ev)
    have "if length (al_log a f) < k then length (al_log a g) < k \<longrightarrow> key f \<le> key g
          else \<not> length (al_log a g) < k \<and> key f \<le> key g"
      using choice g cmp[OF f g] len[OF f] len[OF g] by (auto simp: k split: if_splits)
    then show "k_distance k a g \<le> k_distance k a f"
      "k_distance k a g = \<infinity> \<Longrightarrow> hd (al_log a f) \<le> hd (al_log a g)"
      using keyd[OF f] keyd[OF g] by (auto simp: k_distance_def split: if_splits)
  qed
qed

theorem lru_k_victim_witness:
  "let xs = [LkAccess 0, LkAccess 1, LkAccess 0, LkAccess 2, LkAccess 1, LkUnpin 0, LkUnpin 1];
       a = fold log_apply xs log_empty
   in 0 \<in> al_evictable a \<and> (\<forall>g \<in> al_evictable a. k_distance 2 a g \<le> k_distance 2 a 0)"
proof -
  let ?xs = "[LkAccess 0, LkAccess 1, LkAccess 0, LkAccess 2, LkAccess 1, LkUnpin 0, LkUnpin 1]"
  have "map_option fst (lk_victim (fold lk_apply ?xs (lk_new 3 2))) = Some 0" by code_simp
  then obtain s' where "lk_victim (fold lk_apply ?xs (lk_new 3 2)) = Some (0, s')" by auto
  from lru_k_victim[OF _ _ _ this refl] show ?thesis by simp
qed

end
