(* ===== verification/Buffer_Pool.thy ===== *)
theory Buffer_Pool
  imports Disk_Manager Lru_K
begin

text \<open>
  \<^verbatim>\<open>src/src/storage/memory/buffer_pool.cpp\<close>: the read cache in front of a file of pages.
  Page pointers are indices into the slab that owns the pages, so that aliasing between the
  slots, the free queue and the callers' handles is explicit. The pool is generic in its
  replacer, as in the code; its lemmas are proved once for every replacer that keeps the
  contract and hold for \<open>LRUKReplacer\<close> by interpretation.
\<close>

section \<open>The pool\<close>

record 'r buffer_pool =
  bp_slab :: "page list"
  bp_fresh_slots :: "nat option list"
  bp_fresh_free :: "nat list"
  bp_page_free :: "nat list"
  bp_page_table :: "u64 \<rightharpoonup> nat"
  bp_replacer :: 'r

definition bp_new :: "nat \<Rightarrow> 'r \<Rightarrow> 'r buffer_pool" where
  "bp_new fresh_capacity r =
     \<lparr>bp_slab = replicate fresh_capacity page_new, bp_fresh_slots = replicate fresh_capacity None,
      bp_fresh_free = [0..<fresh_capacity], bp_page_free = [0..<fresh_capacity],
      bp_page_table = Map.empty, bp_replacer = r\<rparr>"

definition bp_acquire_fresh_slot ::
  "'r replacer_ops \<Rightarrow> 'r buffer_pool \<Rightarrow> nat result \<times> 'r buffer_pool" where
  "bp_acquire_fresh_slot rops bp =
     (case bp_fresh_free bp of
        slot # rest \<Rightarrow> (ok slot, bp\<lparr>bp_fresh_free := rest\<rparr>)
      | [] \<Rightarrow>
          (case rp_victim rops (bp_replacer bp) of
             None \<Rightarrow> (err ''acquire_fresh_slot: fresh pool full, no evictable frame'', bp)
           | Some (v, r) \<Rightarrow>
               let p = the (bp_fresh_slots bp ! v)
               in (ok v, bp\<lparr>bp_replacer := r,
                            bp_page_table := (bp_page_table bp)(pg_page_id (bp_slab bp ! p) := None),
                            bp_fresh_slots := (bp_fresh_slots bp)[v := None],
                            bp_slab := (bp_slab bp)[p := page_reset INVALID_PAGE_ID (bp_slab bp ! p)],
                            bp_page_free := bp_page_free bp @ [p]\<rparr>)))"

text \<open>The tail shared by a hit and a completed load: the frame is accessed and pinned.\<close>

definition bp_touch :: "'r replacer_ops \<Rightarrow> nat \<Rightarrow> 'r buffer_pool \<Rightarrow> 'r buffer_pool" where
  "bp_touch rops slot bp =
     bp\<lparr>bp_replacer := rp_pin rops slot (rp_record_access rops slot (bp_replacer bp))\<rparr>"

definition bp_fetch_page ::
  "'r replacer_ops \<Rightarrow> u64 \<Rightarrow> 'r buffer_pool \<Rightarrow> disk_manager \<Rightarrow>
   nat result \<times> 'r buffer_pool \<times> disk_manager" where
  "bp_fetch_page rops pid bp dm =
     (case bp_page_table bp pid of
        Some slot \<Rightarrow>
          let p = the (bp_fresh_slots bp ! slot);
              pg = bp_slab bp ! p
          in (ok p, bp_touch rops slot
                (bp\<lparr>bp_slab := (bp_slab bp)[p := pg\<lparr>pg_pin_count := pg_pin_count pg + 1\<rparr>]\<rparr>), dm)
      | None \<Rightarrow>
          (case bp_acquire_fresh_slot rops bp of
             (Inl e, bp1) \<Rightarrow> (err e, bp1, dm)
           | (Inr slot, bp1) \<Rightarrow>
               let p = hd (bp_page_free bp1);
                   bp2 = bp1\<lparr>bp_page_free := tl (bp_page_free bp1)\<rparr>
               in case dm_read_page pid (bp_slab bp2 ! p) dm of
                    (Inl e, pg, dm1) \<Rightarrow>
                      (err e, bp2\<lparr>bp_slab := (bp_slab bp2)[p := pg],
                                  bp_page_free := bp_page_free bp2 @ [p],
                                  bp_fresh_free := bp_fresh_free bp2 @ [slot]\<rparr>, dm1)
                  | (Inr _, pg, dm1) \<Rightarrow>
                      (ok p, bp_touch rops slot
                         (bp2\<lparr>bp_fresh_slots := (bp_fresh_slots bp2)[slot := Some p],
                              bp_slab := (bp_slab bp2)[p := pg\<lparr>pg_pin_count := 1\<rparr>],
                              bp_page_table := (bp_page_table bp2)(pid \<mapsto> slot)\<rparr>), dm1)))"

definition bp_unpin_page ::
  "'r replacer_ops \<Rightarrow> u64 \<Rightarrow> 'r buffer_pool \<Rightarrow> unit result \<times> 'r buffer_pool" where
  "bp_unpin_page rops pid bp =
     (case bp_page_table bp pid of
        None \<Rightarrow> (err (''unpin_page: page '' @ to_string (unat pid) @ '' not in pool''), bp)
      | Some slot \<Rightarrow>
          let p = the (bp_fresh_slots bp ! slot);
              pg = bp_slab bp ! p
          in if sint (pg_pin_count pg) \<le> 0
             then (err (''unpin_page: page '' @ to_string (unat pid) @ '' not pinned''), bp)
             else let c = pg_pin_count pg - 1;
                      bp1 = bp\<lparr>bp_slab := (bp_slab bp)[p := pg\<lparr>pg_pin_count := c\<rparr>]\<rparr>
                  in (ok (), if c = 0
                             then bp1\<lparr>bp_replacer := rp_unpin rops slot (bp_replacer bp1)\<rparr>
                             else bp1))"

section \<open>The invariant\<close>

text \<open>
  \<open>bp_inv H T E f bp\<close>: \<open>H\<close> are the slots taken from the free queue and not filled yet,
  \<open>T\<close> and \<open>E\<close> the frames the replacer tracks and may evict, \<open>f\<close> the contents of the
  file. A used slot owns its page, is found through the page table under the id in the page's
  header, is tracked, is evictable exactly when nobody has it pinned, and holds what the file
  stores.
\<close>

definition page_content :: "page \<Rightarrow> page" where
  "page_content pg = pg\<lparr>pg_pin_count := 0, pg_dirty := False\<rparr>"

definition bp_used_ok ::
  "nat set \<Rightarrow> nat set \<Rightarrow> u8 list \<Rightarrow> 'r buffer_pool \<Rightarrow> nat \<Rightarrow> nat \<Rightarrow> bool" where
  "bp_used_ok T E f bp s p \<longleftrightarrow>
     p < length (bp_slab bp) \<and> p \<notin> set (bp_page_free bp) \<and> s \<in> T
     \<and> bp_page_table bp (pg_page_id (bp_slab bp ! p)) = Some s
     \<and> sint (pg_pin_count (bp_slab bp ! p)) \<ge> 0
     \<and> (s \<in> E \<longleftrightarrow> pg_pin_count (bp_slab bp ! p) = 0)
     \<and> dm_stored f (pg_page_id (bp_slab bp ! p)) = Some (page_content (bp_slab bp ! p))"

definition bp_inv ::
  "nat set \<Rightarrow> nat set \<Rightarrow> nat set \<Rightarrow> u8 list \<Rightarrow> 'r buffer_pool \<Rightarrow> bool" where
  "bp_inv H T E f bp \<longleftrightarrow>
     length (bp_fresh_slots bp) = length (bp_slab bp)
     \<and> (\<forall>s < length (bp_slab bp). case bp_fresh_slots bp ! s of
          None \<Rightarrow> s \<notin> T \<and> (s \<in> H \<longleftrightarrow> s \<notin> set (bp_fresh_free bp))
        | Some p \<Rightarrow> bp_used_ok T E f bp s p \<and> s \<notin> H \<and> s \<notin> set (bp_fresh_free bp))
     \<and> (\<forall>pid s. bp_page_table bp pid = Some s \<longrightarrow> s < length (bp_slab bp)
          \<and> (\<exists>p. bp_fresh_slots bp ! s = Some p \<and> pg_page_id (bp_slab bp ! p) = pid))
     \<and> distinct (bp_fresh_free bp) \<and> set (bp_fresh_free bp) \<subseteq> {..<length (bp_slab bp)}
     \<and> distinct (bp_page_free bp) \<and> set (bp_page_free bp) \<subseteq> {..<length (bp_slab bp)}
     \<and> finite H \<and> length (bp_page_free bp) = length (bp_fresh_free bp) + card H
     \<and> T \<subseteq> {..<length (bp_slab bp)} \<and> E \<subseteq> T
     \<and> (\<forall>pg \<in> set (bp_slab bp). page_wf pg)"

text \<open>What a client sees: where a page is, and how often it is pinned.\<close>

definition bp_where :: "'r buffer_pool \<Rightarrow> u64 \<Rightarrow> nat option" where
  "bp_where bp pid = Option.bind (bp_page_table bp pid) (\<lambda>s. bp_fresh_slots bp ! s)"

definition bp_pins :: "'r buffer_pool \<Rightarrow> u64 \<Rightarrow> int" where
  "bp_pins bp pid =
     (case bp_where bp pid of None \<Rightarrow> 0 | Some p \<Rightarrow> sint (pg_pin_count (bp_slab bp ! p)))"

text \<open>The pin count is a 32-bit \<open>int\<close>; away from the ends of its range it counts.\<close>

definition PIN_MAX :: int where [simp]: "PIN_MAX = 2 ^ 31 - 1"

lemma sint_pin_inc:
  assumes "0 \<le> sint c" "sint c < PIN_MAX"
  shows "sint (c + 1 :: i32) = sint c + 1"
  using assms by (simp add: sint_word_ariths signed_take_bit_int_eq_self)

lemma sint_pin_dec:
  assumes "0 < sint c"
  shows "sint (c - 1 :: i32) = sint c - 1"
  using assms sint_less[of c] by (simp add: sint_word_ariths signed_take_bit_int_eq_self)

lemma sint_pin_0: "sint (c :: i32) = 0 \<longleftrightarrow> c = 0"
  by (rule signed_eq_0_iff)

lemma bp_inv_new: "bp_inv {} {} {} f (bp_new n r)"
  by (auto simp: bp_inv_def bp_new_def)

lemma bp_inv_used:
  assumes "bp_inv H T E f bp" "bp_fresh_slots bp ! s = Some p" "s < length (bp_slab bp)"
  shows "bp_used_ok T E f bp s p" "s \<notin> H" "s \<notin> set (bp_fresh_free bp)"
  using assms by (auto simp: bp_inv_def)

lemma bp_inv_found:
  assumes "bp_inv H T E f bp" "bp_page_table bp pid = Some s"
  obtains p where "s < length (bp_slab bp)" "bp_fresh_slots bp ! s = Some p"
    "pg_page_id (bp_slab bp ! p) = pid" "bp_used_ok T E f bp s p"
  using assms bp_inv_used[OF assms(1)] unfolding bp_inv_def by metis

lemma bp_inv_owner:
  assumes "bp_inv H T E f bp" "bp_fresh_slots bp ! s = Some p" "s < length (bp_slab bp)"
    "bp_fresh_slots bp ! s' = Some p" "s' < length (bp_slab bp)"
  shows "s = s'"
  using bp_inv_used(1)[OF assms(1,2,3)] bp_inv_used(1)[OF assms(1,4,5)]
  by (simp add: bp_used_ok_def)

lemma bp_invI:
  assumes "length (bp_fresh_slots bp) = length (bp_slab bp)"
    and "\<And>s p. s < length (bp_slab bp) \<Longrightarrow> bp_fresh_slots bp ! s = Some p \<Longrightarrow>
           bp_used_ok T E f bp s p \<and> s \<notin> H \<and> s \<notin> set (bp_fresh_free bp)"
    and "\<And>s. s < length (bp_slab bp) \<Longrightarrow> bp_fresh_slots bp ! s = None \<Longrightarrow>
           s \<notin> T \<and> (s \<in> H \<longleftrightarrow> s \<notin> set (bp_fresh_free bp))"
    and "\<And>pid s. bp_page_table bp pid = Some s \<Longrightarrow> s < length (bp_slab bp)
           \<and> (\<exists>p. bp_fresh_slots bp ! s = Some p \<and> pg_page_id (bp_slab bp ! p) = pid)"
    and "distinct (bp_fresh_free bp)" "set (bp_fresh_free bp) \<subseteq> {..<length (bp_slab bp)}"
    and "distinct (bp_page_free bp)" "set (bp_page_free bp) \<subseteq> {..<length (bp_slab bp)}"
    and "finite H" "length (bp_page_free bp) = length (bp_fresh_free bp) + card H"
    and "T \<subseteq> {..<length (bp_slab bp)}" "E \<subseteq> T" "\<forall>pg \<in> set (bp_slab bp). page_wf pg"
  shows "bp_inv H T E f bp"
  using assms by (auto simp: bp_inv_def split: option.splits)

lemma bp_inv_free:
  assumes "bp_inv H T E f bp" "s < length (bp_slab bp)" "bp_fresh_slots bp ! s = None"
  shows "s \<notin> T" "s \<in> H \<longleftrightarrow> s \<notin> set (bp_fresh_free bp)"
  using assms by (auto simp: bp_inv_def)

text \<open>Changing the pin count of a used page.\<close>

lemma bp_inv_repin:
  assumes inv: "bp_inv H T E f bp" and s: "bp_fresh_slots bp ! s = Some p" "s < length (bp_slab bp)"
    and E: "E' - {s} = E - {s}" "s \<in> E' \<longleftrightarrow> c = 0" and c: "sint c \<ge> 0"
  shows "bp_inv H T E' f
    (bp\<lparr>bp_slab := (bp_slab bp)[p := (bp_slab bp ! p)\<lparr>pg_pin_count := c\<rparr>], bp_replacer := r\<rparr>)"
proof (rule bp_invI, goal_cases)
  case (2 s' p')
  note u = bp_inv_used[OF inv, of s' p'] and us = bp_inv_used(1)[OF inv s]
  show ?case
  proof (cases "s' = s")
    case True
    then show ?thesis using 2 u us s E c by (auto simp: bp_used_ok_def page_content_def)
  next
    case False
    then have "p' \<noteq> p" using bp_inv_owner[OF inv s, of s'] 2 by auto
    moreover have "s' \<in> E' \<longleftrightarrow> s' \<in> E" using False E(1) by blast
    ultimately show ?thesis using 2 u by (simp add: bp_used_ok_def)
  qed
next
  case (4 pid s')
  then obtain p' where "s' < length (bp_slab bp)" "bp_fresh_slots bp ! s' = Some p'"
    "pg_page_id (bp_slab bp ! p') = pid" using bp_inv_found[OF inv, of pid s'] by auto
  moreover have "p < length (bp_slab bp)" using bp_inv_used(1)[OF inv s] by (simp add: bp_used_ok_def)
  ultimately show ?case by (cases "p' = p") auto
next
  case 12
  have "s \<in> T" using bp_inv_used(1)[OF inv s] by (simp add: bp_used_ok_def)
  then show ?case using E(1) inv by (auto simp: bp_inv_def)
next
  case 13
  then show ?case
    using inv bp_inv_used(1)[OF inv s]
    by (auto simp: bp_inv_def bp_used_ok_def page_wf_def dest!: set_update_subset_insert[THEN subsetD])
qed (use inv bp_inv_free[OF inv] in \<open>auto simp: bp_inv_def\<close>)

text \<open>Taking a slot from the free queue, or from an evictable page.\<close>

lemma bp_inv_take_free:
  assumes inv: "bp_inv {} T E f bp" and free: "bp_fresh_free bp = s # rest"
  shows "bp_inv {s} T E f (bp\<lparr>bp_fresh_free := rest\<rparr>)"
    "s < length (bp_slab bp)" "bp_fresh_slots bp ! s = None"
proof -
  show s: "s < length (bp_slab bp)" using inv free by (auto simp: bp_inv_def)
  show "bp_fresh_slots bp ! s = None"
    using bp_inv_used(3)[OF inv _ s] free by (cases "bp_fresh_slots bp ! s") auto
  then show "bp_inv {s} T E f (bp\<lparr>bp_fresh_free := rest\<rparr>)"
    using inv free bp_inv_used[OF inv] bp_inv_free[OF inv]
    by (intro bp_invI) (auto simp: bp_inv_def bp_used_ok_def)
qed

lemma bp_inv_evict:
  assumes inv: "bp_inv {} T E f bp" and v: "v \<in> E" and free: "bp_fresh_free bp = []"
    and p: "p = the (bp_fresh_slots bp ! v)"
  shows "bp_inv {v} (T - {v}) (E - {v}) f
    (bp\<lparr>bp_replacer := r,
        bp_page_table := (bp_page_table bp)(pg_page_id (bp_slab bp ! p) := None),
        bp_fresh_slots := (bp_fresh_slots bp)[v := None],
        bp_slab := (bp_slab bp)[p := page_reset INVALID_PAGE_ID (bp_slab bp ! p)],
        bp_page_free := bp_page_free bp @ [p]\<rparr>)" (is "bp_inv _ _ _ _ ?bp")
    and "v < length (bp_slab bp)" "bp_fresh_slots bp ! v = Some p"
proof -
  show vl: "v < length (bp_slab bp)" using inv v by (auto simp: bp_inv_def)
  show vp: "bp_fresh_slots bp ! v = Some p"
    using bp_inv_free(1)[OF inv vl] v inv p by (cases "bp_fresh_slots bp ! v") (auto simp: bp_inv_def)
  note up = bp_inv_used(1)[OF inv vp vl]
  have len: "length (bp_fresh_slots bp) = length (bp_slab bp)" using inv by (simp add: bp_inv_def)
  have other: "p' \<noteq> p \<and> pg_page_id (bp_slab bp ! p') \<noteq> pg_page_id (bp_slab bp ! p)
      \<and> bp_used_ok T E f bp s p'"
    if "s < length (bp_slab bp)" "s \<noteq> v" "bp_fresh_slots bp ! s = Some p'" for s p'
    using bp_inv_owner[OF inv vp vl, of s] that bp_inv_used(1)[OF inv that(3,1)] up
    by (auto simp: bp_used_ok_def)
  show "bp_inv {v} (T - {v}) (E - {v}) f ?bp"
  proof (rule bp_invI, goal_cases)
    case (2 s p')
    then have "s \<noteq> v" using vl len by auto
    then show ?case using 2 other[of s p'] free by (auto simp: bp_used_ok_def)
  next
    case (3 s)
    then show ?case using bp_inv_free[OF inv, of s] free vl len by (cases "s = v") auto
  next
    case (4 pid s)
    then have t: "bp_page_table bp pid = Some s" "pid \<noteq> pg_page_id (bp_slab bp ! p)"
      by (auto split: if_splits)
    from bp_inv_found[OF inv t(1)] obtain q where q: "s < length (bp_slab bp)"
      "bp_fresh_slots bp ! s = Some q" "pg_page_id (bp_slab bp ! q) = pid" by auto
    have "s \<noteq> v" using q t(2) vp by auto
    moreover have "q \<noteq> p" using q(3) t(2) by auto
    ultimately show ?case using q by auto
  next
    case 13
    then show ?case
      using inv by (auto simp: bp_inv_def dest!: set_update_subset_insert[THEN subsetD])
  qed (use inv up in \<open>auto simp: bp_inv_def bp_used_ok_def\<close>)
qed

text \<open>Filling a held slot with a page that was read, or giving both back.\<close>

lemma bp_inv_fill:
  assumes inv: "bp_inv {s} T E f bp" and s: "s < length (bp_slab bp)" "bp_fresh_slots bp ! s = None"
    and free: "bp_page_free bp = p # rest"
    and pg: "page_wf pg" "pg_page_id pg = pid" "dm_stored f pid = Some (page_content pg)"
    and new: "bp_page_table bp pid = None"
  shows "bp_inv {} (insert s T) (E - {s}) f
    (bp\<lparr>bp_page_free := rest, bp_fresh_slots := (bp_fresh_slots bp)[s := Some p],
        bp_slab := (bp_slab bp)[p := pg\<lparr>pg_pin_count := 1\<rparr>],
        bp_page_table := (bp_page_table bp)(pid \<mapsto> s), bp_replacer := r\<rparr>)"
    (is "bp_inv _ _ _ _ ?bp")
proof (rule bp_invI, goal_cases)
  have p: "p < length (bp_slab bp)" "p \<notin> set rest" using inv free by (auto simp: bp_inv_def)
  have len: "length (bp_fresh_slots bp) = length (bp_slab bp)" using inv by (simp add: bp_inv_def)
  {
    case (2 s' p')
    show ?case
    proof (cases "s' = s")
      case True
      then have "p' = p" using 2 s len by simp
      moreover have "s \<notin> set (bp_fresh_free bp)" using bp_inv_free(2)[OF inv s] by simp
      ultimately show ?thesis using True p pg by (auto simp: bp_used_ok_def page_content_def)
    next
      case False
      then have u: "bp_used_ok T E f bp s' p'" "s' \<notin> set (bp_fresh_free bp)"
        using bp_inv_used[OF inv, of s' p'] 2 by auto
      have "p' \<noteq> p" using u(1) free by (auto simp: bp_used_ok_def)
      moreover have "pg_page_id (bp_slab bp ! p') \<noteq> pid" using u(1) new by (auto simp: bp_used_ok_def)
      ultimately show ?thesis using u free False by (auto simp: bp_used_ok_def)
    qed
  next
    case (3 s')
    then have "s' \<noteq> s" using s len by auto
    then show ?case using 3 bp_inv_free[OF inv, of s'] by auto
  next
    case (4 pid' s')
    show ?case
    proof (cases "pid' = pid")
      case True
      then show ?thesis using 4 s len p pg by auto
    next
      case False
      then obtain q where q: "s' < length (bp_slab bp)" "bp_fresh_slots bp ! s' = Some q"
        "pg_page_id (bp_slab bp ! q) = pid'" "bp_used_ok T E f bp s' q"
        using 4 bp_inv_found[OF inv, of pid' s'] by auto
      have "s' \<noteq> s" "q \<noteq> p" using q s free by (auto simp: bp_used_ok_def)
      then show ?thesis using q by auto
    qed
  next
    case 13
    then show ?case
      using inv pg(1) by (auto simp: bp_inv_def page_wf_def dest!: set_update_subset_insert[THEN subsetD])
  }
qed (use inv free s in \<open>auto simp: bp_inv_def\<close>)

lemma bp_inv_give_back:
  assumes inv: "bp_inv {s} T E f bp" and s: "s < length (bp_slab bp)" "bp_fresh_slots bp ! s = None"
    and free: "bp_page_free bp = p # rest" and pg: "page_wf pg"
  shows "bp_inv {} T E f
    (bp\<lparr>bp_page_free := rest @ [p], bp_slab := (bp_slab bp)[p := pg],
        bp_fresh_free := bp_fresh_free bp @ [s]\<rparr>)"
proof (rule bp_invI, goal_cases)
  have held: "s \<notin> set (bp_fresh_free bp)" using bp_inv_free(2)[OF inv s] by simp
  {
    case (2 s' p')
    then have u: "bp_used_ok T E f bp s' p'" "s' \<notin> set (bp_fresh_free bp)" "s' \<noteq> s"
      using bp_inv_used[OF inv, of s' p'] by auto
    moreover have "p' \<noteq> p" using u(1) free by (auto simp: bp_used_ok_def)
    ultimately show ?case using free by (auto simp: bp_used_ok_def)
  next
    case (4 pid s')
    then obtain q where q: "s' < length (bp_slab bp)" "bp_fresh_slots bp ! s' = Some q"
      "pg_page_id (bp_slab bp ! q) = pid" "bp_used_ok T E f bp s' q"
      using bp_inv_found[OF inv, of pid s'] by auto
    moreover have "q \<noteq> p" using q(4) free by (auto simp: bp_used_ok_def)
    ultimately show ?case by auto
  next
    case 5
    then show ?case using inv held by (auto simp: bp_inv_def)
  next
    case 13
    then show ?case
      using inv pg by (auto simp: bp_inv_def dest!: set_update_subset_insert[THEN subsetD])
  }
qed (use inv free s bp_inv_free[OF inv] in \<open>auto simp: bp_inv_def\<close>)

section \<open>Operations keep the invariant\<close>

lemma dm_read_page_result:
  assumes "dm_read_page pid out dm = (r, pg, dm')" "page_wf out"
  shows "page_wf pg" "dm_file dm' = dm_file dm" "dm_next_page_id dm' = dm_next_page_id dm"
    "r = ok u \<Longrightarrow> pg_page_id pg = pid \<and> dm_stored (dm_file dm) pid = Some (page_content pg)"
proof -
  show "dm_file dm' = dm_file dm" "dm_next_page_id dm' = dm_next_page_id dm"
    using dm_read_page_file[of pid out dm] assms(1) by simp_all
  obtain o1 dm1 where o: "next_outcome dm = (o1, dm1)" by fastforce
  have t: "transferred o1 8192 \<le> 8192" by (cases o1) simp_all
  let ?got = "if off_valid (dm_off_t pid)
    then slice (dm_offset pid) (transferred o1 8192) (dm_file dm) else []"
  have l: "length ?got \<le> 8192" using t by (simp add: min_le_iff_disj)
  have wf: "page_wf (page_set_data (?got @ drop (length ?got) (page_data out)) out)"
    using length_page_data[OF assms(2)] l by (intro page_wf_set_data) (simp del: length_slice)
  have full: "?got = dm_block (dm_file dm) pid" "drop (length ?got) (page_data out) = []"
    if "length ?got = 8192"
  proof -
    have "transferred o1 8192 = 8192" using that t by (simp split: if_splits)
    then show "?got = dm_block (dm_file dm) pid" by (simp add: dm_block_def)
    show "drop (length ?got) (page_data out) = []" using that assms(2) by simp
  qed
  have s: "sys_pread 8192 (dm_off_t pid) dm = (?got, dm1)"
    using o by (simp add: sys_pread_def dm_offset_def)
  have "pg = out \<or> pg = page_set_data (?got @ drop (length ?got) (page_data out)) out"
    using assms(1) by (auto simp: dm_read_page_def s Let_def simp del: length_slice split: if_splits)
  then show "page_wf pg" using wf assms(2) by auto
  assume "r = ok u"
  then have r: "length ?got = 8192" "pg_page_id pg = pid"
     "pg = page_set_data (?got @ drop (length ?got) (page_data out)) out"
     "pg_checksum pg = xxhash64 (pg_payload pg) 0"
    using assms(1) by (auto simp: dm_read_page_def s Let_def simp del: length_slice split: if_splits)
  have "?got @ drop (length ?got) (page_data out) = dm_block (dm_file dm) pid"
    using full[OF r(1)] by (metis append_Nil2)
  with r(3) have pg: "pg = page_set_data (dm_block (dm_file dm) pid) out" by (simp only:)
  then have c: "page_set_data (dm_block (dm_file dm) pid) page_new = page_content pg"
    by (simp add: page_content_def page_set_data_def page_new_def)
  have "length (dm_block (dm_file dm) pid) = 8192" using full(1)[OF r(1)] r(1) by metis
  then show "pg_page_id pg = pid \<and> dm_stored (dm_file dm) pid = Some (page_content pg)"
    using r(2,4) by (simp add: dm_stored_def Let_def c) (simp add: page_content_def)
qed

definition bp_ok ::
  "('r \<Rightarrow> bool) \<Rightarrow> ('r \<Rightarrow> nat) \<Rightarrow> ('r \<Rightarrow> nat set) \<Rightarrow> ('r \<Rightarrow> nat set) \<Rightarrow> u8 list \<Rightarrow> 'r buffer_pool \<Rightarrow> bool"
  where
  "bp_ok rinv frames tracked evictable f bp \<longleftrightarrow>
     rinv (bp_replacer bp) \<and> frames (bp_replacer bp) = length (bp_slab bp)
     \<and> bp_inv {} (tracked (bp_replacer bp)) (evictable (bp_replacer bp)) f bp"

lemma bp_pins_where: "bp_where bp q = Some p \<Longrightarrow> bp_pins bp q = sint (pg_pin_count (bp_slab bp ! p))"
  by (simp add: bp_pins_def)

lemma bp_pins_cong:
  "bp_where bp' q = bp_where bp q \<Longrightarrow>
   (\<And>p. bp_where bp q = Some p \<Longrightarrow> pg_pin_count (bp_slab bp' ! p) = pg_pin_count (bp_slab bp ! p)) \<Longrightarrow>
   bp_pins bp' q = bp_pins bp q"
  by (auto simp: bp_pins_def split: option.splits)

lemma bp_view_updates [simp]:
  "bp_where (bp\<lparr>bp_fresh_free := xs\<rparr>) = bp_where bp" "bp_pins (bp\<lparr>bp_fresh_free := xs\<rparr>) = bp_pins bp"
  "bp_where (bp\<lparr>bp_page_free := xs\<rparr>) = bp_where bp" "bp_pins (bp\<lparr>bp_page_free := xs\<rparr>) = bp_pins bp"
  "bp_where (bp\<lparr>bp_replacer := r\<rparr>) = bp_where bp" "bp_pins (bp\<lparr>bp_replacer := r\<rparr>) = bp_pins bp"
  "bp_where (bp\<lparr>bp_slab := sl\<rparr>) = bp_where bp"
  by (auto simp: bp_where_def bp_pins_def fun_eq_iff split: option.splits)

lemma bp_where_inv:
  assumes "bp_inv H T E f bp" "bp_where bp q = Some p"
  obtains s where "bp_page_table bp q = Some s" "bp_fresh_slots bp ! s = Some p"
    "s < length (bp_slab bp)" "pg_page_id (bp_slab bp ! p) = q" "bp_used_ok T E f bp s p"
proof -
  obtain s where s: "bp_page_table bp q = Some s" "bp_fresh_slots bp ! s = Some p"
    using assms(2) by (auto simp: bp_where_def bind_eq_Some_conv)
  from bp_inv_found[OF assms(1) s(1)] s show thesis by (metis option.inject that)
qed

context replacer
begin

abbreviation pool_ok :: "u8 list \<Rightarrow> 'r buffer_pool \<Rightarrow> bool" where
  "pool_ok \<equiv> bp_ok rinv frames tracked evictable"

lemma acquire_spec:
  assumes ok: "pool_ok f bp" and a: "bp_acquire_fresh_slot rops bp = (ok s, bp1)"
  shows "rinv (bp_replacer bp1)" "frames (bp_replacer bp1) = length (bp_slab bp)"
    "length (bp_slab bp1) = length (bp_slab bp)"
    "bp_inv {s} (tracked (bp_replacer bp1)) (evictable (bp_replacer bp1)) f bp1"
    "s < length (bp_slab bp)" "bp_fresh_slots bp1 ! s = None"
    "bp_page_table bp q = None \<Longrightarrow> bp_page_table bp1 q = None"
    "bp_pins bp q > 0 \<Longrightarrow> bp_where bp1 q = bp_where bp q"
    "bp_pins bp1 q = bp_pins bp q"
proof -
  let ?r = "bp_replacer bp"
  have inv: "bp_inv {} (tracked ?r) (evictable ?r) f bp" and r: "rinv ?r"
    "frames ?r = length (bp_slab bp)" using ok by (simp_all add: bp_ok_def)
  have "rinv (bp_replacer bp1) \<and> frames (bp_replacer bp1) = length (bp_slab bp)
    \<and> length (bp_slab bp1) = length (bp_slab bp)
    \<and> bp_inv {s} (tracked (bp_replacer bp1)) (evictable (bp_replacer bp1)) f bp1
    \<and> s < length (bp_slab bp) \<and> bp_fresh_slots bp1 ! s = None
    \<and> (bp_page_table bp q = None \<longrightarrow> bp_page_table bp1 q = None)
    \<and> (bp_pins bp q > 0 \<longrightarrow> bp_where bp1 q = bp_where bp q) \<and> bp_pins bp1 q = bp_pins bp q"
  proof (cases "bp_fresh_free bp")
    case (Cons s' rest)
    with a have e: "s' = s" "bp1 = bp\<lparr>bp_fresh_free := rest\<rparr>"
      by (auto simp: bp_acquire_fresh_slot_def)
    with bp_inv_take_free[OF inv Cons] r show ?thesis by simp
  next
    case Nil
    with a obtain r' where v: "rp_victim rops ?r = Some (s, r')"
      by (auto simp: bp_acquire_fresh_slot_def Let_def split: option.splits)
    note vs = victim_Some[OF r(1) v]
    define p where "p = the (bp_fresh_slots bp ! s)"
    have s: "s \<in> evictable ?r" using vs by simp
    note ev = bp_inv_evict(1)[OF inv s Nil p_def, of r'] bp_inv_evict(2,3)[OF inv s Nil p_def]
    let ?pid = "pg_page_id (bp_slab bp ! p)"
    have bp1: "bp1 = bp\<lparr>bp_replacer := r', bp_page_table := (bp_page_table bp)(?pid := None),
        bp_fresh_slots := (bp_fresh_slots bp)[s := None],
        bp_slab := (bp_slab bp)[p := page_reset INVALID_PAGE_ID (bp_slab bp ! p)],
        bp_page_free := bp_page_free bp @ [p]\<rparr>"
      using a Nil v by (simp add: bp_acquire_fresh_slot_def Let_def p_def)
    have used: "bp_used_ok (tracked ?r) (evictable ?r) f bp s p" using bp_inv_used(1)[OF inv ev(3,2)] .
    have w: "bp_where bp1 ?pid = None" "bp_where bp ?pid = Some p" "bp_pins bp ?pid = 0"
      using used ev(3) s by (auto simp: bp1 bp_where_def bp_pins_def bp_used_ok_def)
    have o: "bp_where bp1 q = bp_where bp q \<and> bp_pins bp1 q = bp_pins bp q" if "q \<noteq> ?pid"
    proof -
      have t: "t \<noteq> s \<and> t < length (bp_slab bp)" if t: "bp_page_table bp q = Some t" for t
        by (rule bp_inv_found[OF inv t]) (use ev(3) \<open>q \<noteq> ?pid\<close> in auto)
      have wq: "bp_where bp1 q = bp_where bp q"
        using that t by (auto simp: bp1 bp_where_def split: bind_splits)
      have "p' \<noteq> p" if "bp_where bp q = Some p'" for p'
        by (rule bp_where_inv[OF inv that]) (use \<open>q \<noteq> ?pid\<close> in auto)
      with wq show ?thesis by (auto simp: bp1 intro!: bp_pins_cong)
    qed
    have "bp_pins bp1 ?pid = 0" using w by (simp add: bp_pins_def)
    with o w have "bp_pins bp q > 0 \<longrightarrow> bp_where bp1 q = bp_where bp q" "bp_pins bp1 q = bp_pins bp q"
      by (cases "q = ?pid"; simp)+
    moreover have "bp_inv {s} (tracked (bp_replacer bp1)) (evictable (bp_replacer bp1)) f bp1"
      using ev(1) vs by (simp add: bp1)
    moreover have "length (bp_fresh_slots bp) = length (bp_slab bp)" using inv by (simp add: bp_inv_def)
    ultimately show ?thesis using ev(2) vs r by (simp add: bp1)
  qed
  then show "rinv (bp_replacer bp1)" "frames (bp_replacer bp1) = length (bp_slab bp)"
    "length (bp_slab bp1) = length (bp_slab bp)"
    "bp_inv {s} (tracked (bp_replacer bp1)) (evictable (bp_replacer bp1)) f bp1"
    "s < length (bp_slab bp)" "bp_fresh_slots bp1 ! s = None"
    "bp_page_table bp q = None \<Longrightarrow> bp_page_table bp1 q = None"
    "bp_pins bp q > 0 \<Longrightarrow> bp_where bp1 q = bp_where bp q"
    "bp_pins bp1 q = bp_pins bp q" by auto
qed

lemma acquire_fails:
  assumes "pool_ok f bp" "bp_acquire_fresh_slot rops bp = (err e, bp1)"
  shows "bp1 = bp" "bp_fresh_free bp = []" "evictable (bp_replacer bp) = {}"
  using assms victim_None[of "bp_replacer bp"]
  by (auto simp: bp_acquire_fresh_slot_def bp_ok_def Let_def split: list.splits option.splits)

lemma touch_ok:
  assumes "rinv (bp_replacer bp)" "frames (bp_replacer bp) = length (bp_slab bp)"
    and "s < length (bp_slab bp)"
    and "bp_inv {} (insert s (tracked (bp_replacer bp))) (evictable (bp_replacer bp) - {s}) f
      (bp\<lparr>bp_replacer := rp_pin rops s (rp_record_access rops s (bp_replacer bp))\<rparr>)"
  shows "pool_ok f (bp_touch rops s bp)"
  using assms access_pin[of "bp_replacer bp" s] by (simp add: bp_ok_def bp_touch_def)

lemma fetch_hit:
  assumes ok: "pool_ok f bp" and hit: "bp_page_table bp pid = Some s"
    and e: "bp_fetch_page rops pid bp dm = (res, bp', dm')" and room: "bp_pins bp pid < PIN_MAX"
  shows "\<exists>p. res = ok p \<and> dm' = dm \<and> pool_ok f bp' \<and> bp_where bp' = bp_where bp
    \<and> bp_where bp pid = Some p \<and> bp_pins bp' = (bp_pins bp)(pid := bp_pins bp pid + 1)
    \<and> pg_page_id (bp_slab bp' ! p) = pid \<and> dm_stored f pid = Some (page_content (bp_slab bp' ! p))"
proof -
  let ?r = "bp_replacer bp"
  have inv: "bp_inv {} (tracked ?r) (evictable ?r) f bp" and r: "rinv ?r"
    "frames ?r = length (bp_slab bp)" using ok by (simp_all add: bp_ok_def)
  from bp_inv_found[OF inv hit] obtain p where p: "s < length (bp_slab bp)"
    "bp_fresh_slots bp ! s = Some p" "pg_page_id (bp_slab bp ! p) = pid"
    "bp_used_ok (tracked ?r) (evictable ?r) f bp s p" by metis
  let ?c = "pg_pin_count (bp_slab bp ! p) + 1"
  let ?bp = "bp\<lparr>bp_slab := (bp_slab bp)[p := (bp_slab bp ! p)\<lparr>pg_pin_count := ?c\<rparr>]\<rparr>"
  have bp': "res = ok p" "dm' = dm" "bp' = bp_touch rops s ?bp"
    using e hit p(2) by (simp_all add: bp_fetch_page_def Let_def)
  have w: "bp_where bp pid = Some p" using hit p(2) by (simp add: bp_where_def)
  have pl: "p < length (bp_slab bp)" using p(4) by (simp add: bp_used_ok_def)
  have c: "sint ?c = sint (pg_pin_count (bp_slab bp ! p)) + 1" "0 < sint ?c"
    using sint_pin_inc[of "pg_pin_count (bp_slab bp ! p)"] p(4) room w
    by (simp_all add: bp_used_ok_def bp_pins_where)
  have "insert s (tracked ?r) = tracked ?r" using p(4) by (auto simp: bp_used_ok_def)
  moreover have "bp_inv {} (tracked ?r) (evictable ?r - {s}) f
     (?bp\<lparr>bp_replacer := rp_pin rops s (rp_record_access rops s ?r)\<rparr>)"
    using bp_inv_repin[OF inv p(2,1), of "evictable ?r - {s}" ?c] c(2) sint_pin_0[of ?c]
    by simp
  ultimately have ok': "pool_ok f bp'"
    unfolding bp' using touch_ok[of ?bp s f] r p(1) by simp
  have w': "bp_where bp' = bp_where bp" by (simp add: bp' bp_touch_def)
  have "bp_pins bp' q = ((bp_pins bp)(pid := bp_pins bp pid + 1)) q" for q
  proof (cases "q = pid")
    case True
    then show ?thesis using w w' pl c(1) by (simp add: bp' bp_touch_def bp_pins_def)
  next
    case False
    have "p' \<noteq> p" if "bp_where bp q = Some p'" for p'
      by (rule bp_where_inv[OF inv that]) (use False p(3) in auto)
    then show ?thesis using False by (auto simp: bp' bp_touch_def intro!: bp_pins_cong)
  qed
  moreover have "page_content (bp_slab bp' ! p) = page_content (bp_slab bp ! p)"
    "pg_page_id (bp_slab bp' ! p) = pid"
    using pl p(3) by (simp_all add: bp' bp_touch_def page_content_def)
  ultimately show ?thesis
    using bp' ok' w w' p by (auto simp: bp_used_ok_def fun_eq_iff)
qed

lemma fetch_miss:
  assumes ok: "pool_ok (dm_file dm) bp" and miss: "bp_page_table bp pid = None"
    and e: "bp_fetch_page rops pid bp dm = (res, bp', dm')"
  shows "pool_ok (dm_file dm) bp' \<and> dm_file dm' = dm_file dm
    \<and> (\<forall>q. bp_pins bp q > 0 \<longrightarrow> bp_where bp' q = bp_where bp q)
    \<and> (case res of Inl m \<Rightarrow> bp_pins bp' = bp_pins bp
       | Inr p \<Rightarrow> bp_where bp' pid = Some p \<and> bp_pins bp' = (bp_pins bp)(pid := 1)
           \<and> pg_page_id (bp_slab bp' ! p) = pid
           \<and> dm_stored (dm_file dm) pid = Some (page_content (bp_slab bp' ! p)))"
proof (cases "bp_acquire_fresh_slot rops bp")
  case (Pair ares bp1)
  show ?thesis
  proof (cases ares)
    case (Inl m)
    with Pair e miss have "res = err m" "bp' = bp1" "dm' = dm" by (auto simp: bp_fetch_page_def)
    with acquire_fails(1)[OF ok] Inl Pair ok show ?thesis by simp
  next
    case (Inr s)
    note a = acquire_spec[OF ok Pair[unfolded Inr]]
    have "bp_page_free bp1 \<noteq> []" using a(4) by (auto simp: bp_inv_def)
    then obtain p rest where free: "bp_page_free bp1 = p # rest" by (cases "bp_page_free bp1") auto
    have p: "p < length (bp_slab bp)" using a(3,4) free by (auto simp: bp_inv_def)
    have s: "s < length (bp_slab bp1)" using a(3,5) by simp
    obtain rr pg dm1 where rd: "dm_read_page pid (bp_slab bp1 ! p) dm = (rr, pg, dm1)"
      using prod_cases3 by blast
    have "page_wf (bp_slab bp1 ! p)" using a(3,4) p by (simp add: bp_inv_def)
    note rd' = dm_read_page_result[OF rd this]
    have notp: "p' \<noteq> p" if "bp_where bp1 q = Some p'" for q p'
      by (rule bp_where_inv[OF a(4) that]) (use free in \<open>auto simp: bp_used_ok_def\<close>)
    show ?thesis
    proof (cases rr)
      case (Inl m)
      let ?bp = "bp1\<lparr>bp_page_free := rest @ [p], bp_slab := (bp_slab bp1)[p := pg],
                     bp_fresh_free := bp_fresh_free bp1 @ [s]\<rparr>"
      have *: "res = err m" "bp' = ?bp" "dm' = dm1"
        using e miss Pair \<open>ares = Inr s\<close> Inl rd free by (auto simp: bp_fetch_page_def Let_def)
      have "pool_ok (dm_file dm) ?bp"
        using bp_inv_give_back[OF a(4) s a(6) free rd'(1)] a(1,2,3) by (simp add: bp_ok_def)
      moreover have "bp_where ?bp q = bp_where bp1 q" for q by simp
      moreover have "bp_pins ?bp q = bp_pins bp q" for q
        using notp[of q] a(9)[of q] by (subst bp_pins_cong[of _ q bp1]) auto
      ultimately show ?thesis using * rd'(2) a(8) by (auto simp: fun_eq_iff)
    next
      case (Inr u)
      let ?bp = "bp1\<lparr>bp_page_free := rest, bp_fresh_slots := (bp_fresh_slots bp1)[s := Some p],
        bp_slab := (bp_slab bp1)[p := pg\<lparr>pg_pin_count := 1\<rparr>],
        bp_page_table := (bp_page_table bp1)(pid \<mapsto> s)\<rparr>"
      have *: "res = ok p" "bp' = bp_touch rops s ?bp" "dm' = dm1"
        using e miss Pair \<open>ares = Inr s\<close> Inr rd free by (auto simp: bp_fetch_page_def Let_def)
      have st: "pg_page_id pg = pid" "dm_stored (dm_file dm) pid = Some (page_content pg)"
        using rd'(4)[OF Inr] by auto
      have new: "bp_page_table bp1 pid = None" by (rule a(7)[OF miss])
      have ok': "pool_ok (dm_file dm) bp'" unfolding *
        using bp_inv_fill[OF a(4) s a(6) free rd'(1) st new] a(1,2,3) s
        by (intro touch_ok) simp_all
      have len: "length (bp_fresh_slots bp1) = length (bp_slab bp1)" using a(4) by (simp add: bp_inv_def)
      have wp: "bp_where bp' pid = Some p" using s len by (simp add: * bp_touch_def bp_where_def)
      have t: "t \<noteq> s" if "bp_page_table bp1 q = Some t" for q t
        by (rule bp_inv_found[OF a(4) that]) (use a(6) in auto)
      have wq: "bp_where bp' q = bp_where bp1 q" if "q \<noteq> pid" for q
        using that t[of q] by (auto simp: * bp_touch_def bp_where_def split: bind_splits)
      have "bp_pins bp pid = 0" using miss by (simp add: bp_pins_def bp_where_def)
      moreover have "bp_pins bp' q = bp_pins bp q" if "q \<noteq> pid" for q
        using a(9)[of q] notp[of q] wq[OF that] 
        by (subst bp_pins_cong[of _ q bp1]) (auto simp: * bp_touch_def)
      moreover have "bp_pins bp' pid = 1"
        using wp p a(3) by (simp add: bp_pins_def * bp_touch_def)
      moreover have "bp_where bp' q = bp_where bp q" if "bp_pins bp q > 0" for q
        using that a(8)[OF that] wq[of q] \<open>bp_pins bp pid = 0\<close> by (cases "q = pid") auto
      moreover have "bp_slab bp' ! p = pg\<lparr>pg_pin_count := 1\<rparr>"
        using p a(3) by (simp add: * bp_touch_def)
      ultimately show ?thesis
        using ok' wp st *(1,3) rd'(2) by (auto simp: fun_eq_iff page_content_def)
    qed
  qed
qed

lemma unpin_spec:
  assumes ok: "pool_ok f bp" and e: "bp_unpin_page rops pid bp = (res, bp')"
  shows "pool_ok f bp' \<and> bp_where bp' = bp_where bp
    \<and> (if bp_pins bp pid > 0 then res = ok () \<and> bp_pins bp' = (bp_pins bp)(pid := bp_pins bp pid - 1)
       else \<not> is_ok res \<and> bp' = bp)"
proof (cases "bp_page_table bp pid")
  case None
  then show ?thesis using ok e by (auto simp: bp_unpin_page_def bp_pins_def bp_where_def)
next
  case (Some s)
  let ?r = "bp_replacer bp"
  have inv: "bp_inv {} (tracked ?r) (evictable ?r) f bp" and r: "rinv ?r"
    "frames ?r = length (bp_slab bp)" using ok by (simp_all add: bp_ok_def)
  from bp_inv_found[OF inv Some] obtain p where p: "s < length (bp_slab bp)"
    "bp_fresh_slots bp ! s = Some p" "pg_page_id (bp_slab bp ! p) = pid"
    "bp_used_ok (tracked ?r) (evictable ?r) f bp s p" by metis
  have w: "bp_where bp pid = Some p" using Some p(2) by (simp add: bp_where_def)
  then have pins: "bp_pins bp pid = sint (pg_pin_count (bp_slab bp ! p))" by (rule bp_pins_where)
  have pl: "p < length (bp_slab bp)" using p(4) by (simp add: bp_used_ok_def)
  show ?thesis
  proof (cases "sint (pg_pin_count (bp_slab bp ! p)) \<le> 0")
    case True
    then show ?thesis using ok e Some p(2) pins by (auto simp: bp_unpin_page_def Let_def)
  next
    case False
    define c where "c = pg_pin_count (bp_slab bp ! p) - 1"
    have c: "sint c = sint (pg_pin_count (bp_slab bp ! p)) - 1" "0 \<le> sint c"
      using sint_pin_dec[of "pg_pin_count (bp_slab bp ! p)"] False by (simp_all add: c_def)
    define r' where "r' = (if c = 0 then rp_unpin rops s ?r else ?r)"
    have *: "res = ok ()"
      "bp' = bp\<lparr>bp_slab := (bp_slab bp)[p := (bp_slab bp ! p)\<lparr>pg_pin_count := c\<rparr>], bp_replacer := r'\<rparr>"
      using e Some p(2) False by (auto simp: bp_unpin_page_def Let_def c_def r'_def)
    note u = unpin[OF r(1), of s]
    have s: "s \<in> tracked ?r" "s \<notin> evictable ?r" using p(4) False by (auto simp: bp_used_ok_def)
    have r': "rinv r'" "frames r' = frames ?r" "tracked r' = tracked ?r"
      "evictable r' = (if c = 0 then insert s (evictable ?r) else evictable ?r)"
      using u r p(1) s by (auto simp: r'_def)
    have "bp_inv {} (tracked r') (evictable r') f bp'"
      unfolding *(2) r'(3) using s c(2)
      by (intro bp_inv_repin[OF inv p(2,1)]) (auto simp: r'(4))
    then have ok': "pool_ok f bp'" using r' r by (simp add: bp_ok_def *)
    have w': "bp_where bp' = bp_where bp" by (simp add: *)
    have "bp_pins bp' q = ((bp_pins bp)(pid := bp_pins bp pid - 1)) q" for q
    proof (cases "q = pid")
      case True
      then show ?thesis using w w' pl c(1) by (simp add: * bp_pins_def)
    next
      case False
      have "p' \<noteq> p" if "bp_where bp q = Some p'" for p'
        by (rule bp_where_inv[OF inv that]) (use False p(3) in auto)
      then show ?thesis using False by (auto simp: * intro!: bp_pins_cong)
    qed
    then show ?thesis using ok' w' * False pins by (auto simp: fun_eq_iff)
  qed
qed

lemma fetch_spec:
  assumes ok: "pool_ok (dm_file dm) bp" and e: "bp_fetch_page rops pid bp dm = (res, bp', dm')"
    and room: "bp_pins bp pid < PIN_MAX"
  shows "pool_ok (dm_file dm') bp'" "dm_file dm' = dm_file dm"
    "bp_pins bp q > 0 \<Longrightarrow> bp_where bp' q = bp_where bp q"
    "\<not> is_ok res \<Longrightarrow> bp_pins bp' = bp_pins bp"
    "res = ok p \<Longrightarrow> bp_where bp' pid = Some p \<and> bp_pins bp' = (bp_pins bp)(pid := bp_pins bp pid + 1)
      \<and> pg_page_id (bp_slab bp' ! p) = pid
      \<and> dm_stored (dm_file dm) pid = Some (page_content (bp_slab bp' ! p))"
proof -
  have "pool_ok (dm_file dm') bp' \<and> dm_file dm' = dm_file dm \<and>
    (bp_pins bp q > 0 \<longrightarrow> bp_where bp' q = bp_where bp q) \<and>
    (\<not> is_ok res \<longrightarrow> bp_pins bp' = bp_pins bp) \<and>
    (res = ok p \<longrightarrow> bp_where bp' pid = Some p \<and> bp_pins bp' = (bp_pins bp)(pid := bp_pins bp pid + 1)
      \<and> pg_page_id (bp_slab bp' ! p) = pid
      \<and> dm_stored (dm_file dm) pid = Some (page_content (bp_slab bp' ! p)))"
  proof (cases "bp_page_table bp pid")
    case None
    then have "bp_pins bp pid = 0" by (simp add: bp_pins_def bp_where_def)
    with fetch_miss[OF ok None e] show ?thesis by (cases res) auto
  next
    case (Some s)
    from fetch_hit[OF ok Some e room] show ?thesis by auto
  qed
  then show "pool_ok (dm_file dm') bp'" "dm_file dm' = dm_file dm"
    "bp_pins bp q > 0 \<Longrightarrow> bp_where bp' q = bp_where bp q"
    "\<not> is_ok res \<Longrightarrow> bp_pins bp' = bp_pins bp"
    "res = ok p \<Longrightarrow> bp_where bp' pid = Some p \<and> bp_pins bp' = (bp_pins bp)(pid := bp_pins bp pid + 1)
      \<and> pg_page_id (bp_slab bp' ! p) = pid
      \<and> dm_stored (dm_file dm) pid = Some (page_content (bp_slab bp' ! p))"
    by blast+
qed

lemma fetch_fails:
  assumes ok: "pool_ok (dm_file dm) bp" and e: "bp_fetch_page rops pid bp dm = (err m, bp', dm')"
  shows "bp_where bp pid = None
    \<and> ((\<forall>s < length (bp_slab bp). \<exists>p. bp_fresh_slots bp ! s = Some p
          \<and> sint (pg_pin_count (bp_slab bp ! p)) > 0)
       \<or> (\<exists>out. \<not> is_ok (fst (dm_read_page pid out dm))))"
proof (cases "bp_page_table bp pid")
  case None
  let ?r = "bp_replacer bp"
  have inv: "bp_inv {} (tracked ?r) (evictable ?r) (dm_file dm) bp" using ok by (simp add: bp_ok_def)
  show ?thesis
  proof (cases "bp_acquire_fresh_slot rops bp")
    case (Pair ares bp1)
    show ?thesis
    proof (cases ares)
      case (Inl m')
      note a = acquire_fails[OF ok Pair[unfolded Inl]]
      have "\<exists>p. bp_fresh_slots bp ! s = Some p \<and> sint (pg_pin_count (bp_slab bp ! p)) > 0"
        if s: "s < length (bp_slab bp)" for s
      proof (cases "bp_fresh_slots bp ! s")
        case None
        then show ?thesis using bp_inv_free(2)[OF inv s] a(2) by simp
      next
        case (Some p)
        then show ?thesis using bp_inv_used(1)[OF inv Some s] a(3)
          by (simp add: bp_used_ok_def order_less_le eq_commute[of 0] sint_pin_0)
      qed
      then show ?thesis using None by (simp add: bp_where_def)
    next
      case (Inr s)
      then have "\<not> is_ok (fst (dm_read_page pid (bp_slab bp1 ! hd (bp_page_free bp1)) dm))"
        using e None Pair by (auto simp: bp_fetch_page_def Let_def split: prod.splits sum.splits)
      then show ?thesis using None by (auto simp: bp_where_def)
    qed
  qed
next
  case (Some s)
  then show ?thesis using e by (simp add: bp_fetch_page_def Let_def)
qed

end

section \<open>The pool with the LRU-K replacer\<close>

abbreviation lruk_pool_ok :: "u8 list \<Rightarrow> lruk buffer_pool \<Rightarrow> bool" where
  "lruk_pool_ok \<equiv> bp_ok lk_inv lk_frame_count lk_tracked lk_evictable"

definition lruk_pool :: "nat \<Rightarrow> nat \<Rightarrow> lruk buffer_pool" where
  "lruk_pool fresh_capacity k = bp_new fresh_capacity (lk_new fresh_capacity k)"

lemma lruk_pool_new: "k > 0 \<Longrightarrow> lruk_pool_ok f (lruk_pool n k)"
  using lk_inv_new[of k n] bp_inv_new[of f n "lk_new n k"]
  by (simp add: bp_ok_def lruk_pool_def lk_new_def bp_new_def lk_tracked_def lk_evictable_def
      cong: conj_cong)

datatype pool_op = PFetch u64 | PUnpin u64

fun pool_apply :: "pool_op \<Rightarrow> lruk buffer_pool \<times> disk_manager \<Rightarrow> lruk buffer_pool \<times> disk_manager"
  where
  "pool_apply (PFetch pid) (bp, dm) = snd (bp_fetch_page lruk_ops pid bp dm)"
| "pool_apply (PUnpin pid) (bp, dm) = (snd (bp_unpin_page lruk_ops pid bp), dm)"

text \<open>How often a run fetches a page: as long as the pin count of the page can hold it, it counts.\<close>

definition pool_fetches :: "pool_op list \<Rightarrow> u64 \<Rightarrow> int" where
  "pool_fetches xs q = int (length (filter (\<lambda>x. x = PFetch q) xs))"

definition pool_run_fits :: "pool_op list \<Rightarrow> bool" where
  "pool_run_fits xs \<longleftrightarrow> (\<forall>q. pool_fetches xs q < PIN_MAX)"

lemma pool_fetches_Cons:
  "pool_fetches (x # xs) q = (if x = PFetch q then 1 else 0) + pool_fetches xs q"
  by (simp add: pool_fetches_def)

lemma pool_fetches_nonneg: "0 \<le> pool_fetches xs q"
  by (simp add: pool_fetches_def)

lemma pool_apply_ok:
  assumes "lruk_pool_ok (dm_file dm) bp" "pool_apply x (bp, dm) = (bp', dm')"
    and "\<And>q. x = PFetch q \<Longrightarrow> bp_pins bp q < PIN_MAX"
  shows "lruk_pool_ok (dm_file dm') bp' \<and> dm_file dm' = dm_file dm
    \<and> bp_pins bp' q \<le> bp_pins bp q + (if x = PFetch q then 1 else 0)"
proof (cases x)
  case (PFetch pid)
  then obtain res where e: "bp_fetch_page lruk_ops pid bp dm = (res, bp', dm')"
    using assms(2) by (metis pool_apply.simps(1) prod.collapse)
  note f = lruk.fetch_spec[OF assms(1) e assms(3)[OF PFetch]]
  show ?thesis
  proof (cases res)
    case (Inr p)
    then show ?thesis using f(1,2) f(5)[OF Inr] PFetch by auto
  qed (use f(1,2,4) PFetch in auto)
next
  case (PUnpin pid)
  then obtain res where e: "bp_unpin_page lruk_ops pid bp = (res, bp')" "dm' = dm"
    using assms(2) by (metis pool_apply.simps(2) prod.collapse prod.inject)
  show ?thesis using lruk.unpin_spec[OF assms(1) e(1)] e(2) PUnpin by (auto split: if_splits)
qed

lemma pool_run_ok:
  assumes "lruk_pool_ok (dm_file dm) bp" "fold pool_apply xs (bp, dm) = (bp', dm')"
    "\<And>q. bp_pins bp q + pool_fetches xs q < PIN_MAX"
  shows "lruk_pool_ok (dm_file dm') bp' \<and> dm_file dm' = dm_file dm
    \<and> bp_pins bp' q \<le> bp_pins bp q + pool_fetches xs q"
  using assms
proof (induction xs arbitrary: bp dm)
  case Nil
  then show ?case by (simp add: pool_fetches_def)
next
  case (Cons x xs)
  obtain bp1 dm1 where 1: "pool_apply x (bp, dm) = (bp1, dm1)" by fastforce
  have room: "bp_pins bp q < PIN_MAX" for q
    using Cons.prems(3)[of q] pool_fetches_nonneg[of "x # xs" q] by linarith
  note a = pool_apply_ok[OF Cons.prems(1) 1 room]
  have "bp_pins bp1 q + pool_fetches xs q < PIN_MAX" for q
    using a[of q] Cons.prems(3)[of q] pool_fetches_Cons[of x xs q] by linarith
  then have "lruk_pool_ok (dm_file dm') bp' \<and> dm_file dm' = dm_file dm1
    \<and> bp_pins bp' q \<le> bp_pins bp1 q + pool_fetches xs q"
    by (intro Cons.IH) (use a[of q] Cons.prems(2) 1 in auto)
  then show ?case using a[of q] pool_fetches_Cons[of x xs q] by auto
qed

lemma bp_pins_new [simp]: "bp_pins (lruk_pool n k) q = 0"
  by (simp add: lruk_pool_def bp_new_def bp_pins_def bp_where_def)

lemma pool_run_new:
  assumes "k > 0" "fold pool_apply xs (lruk_pool n k, dm) = (bp, dm1)" "pool_run_fits xs"
  shows "lruk_pool_ok (dm_file dm1) bp" "dm_file dm1 = dm_file dm" "bp_pins bp q < PIN_MAX"
  using pool_run_ok[OF lruk_pool_new[OF assms(1)] assms(2), of q] assms(3)
  by (auto simp: pool_run_fits_def intro: le_less_trans)

text \<open>
  C6: the buffer pool is a transparent cache. After any sequence of fetches and unpins that
  fetches no single page \<open>2 ^ 31 - 1\<close> times or more (the pin count is a 32-bit \<open>int\<close>), under any
  behaviour of the system calls, a fetch that succeeds returns a frame that holds exactly the page
  the file stores under the requested id; it adds one pin; and every page some caller still has
  pinned stays in its frame.
\<close>

theorem pool_transparent:
  assumes "k > 0" "fold pool_apply xs (lruk_pool n k, dm) = (bp, dm1)" "pool_run_fits xs"
    and "bp_fetch_page lruk_ops pid bp dm1 = (ok p, bp', dm')"
  shows "bp_where bp' pid = Some p
    \<and> dm_stored (dm_file dm) pid = Some (page_content (bp_slab bp' ! p))
    \<and> bp_pins bp' = (bp_pins bp)(pid := bp_pins bp pid + 1)
    \<and> (\<forall>q. bp_pins bp q > 0 \<longrightarrow> bp_where bp' q = bp_where bp q)"
proof -
  note run = pool_run_new[OF assms(1-3)]
  show ?thesis using lruk.fetch_spec[OF run(1) assms(4) run(3)] run(2) by auto
qed

text \<open>A file with one written page, for the witnesses.\<close>

definition one_page_disk :: disk_manager where
  "one_page_disk = snd (dm_write_page (page_reset 0 page_new)
     \<lparr>dm_path = ''f'', dm_file = [], dm_next_page_id = 1, dm_faults = []\<rparr>)"

lemma one_page_disk_read:
  "dm_read_page 0 page_new one_page_disk = (ok (), dm_seal (page_reset 0 page_new), one_page_disk)"
proof -
  define dm where "dm = \<lparr>dm_path = ''f'', dm_file = [], dm_next_page_id = 1, dm_faults = []\<rparr>"
  have w: "dm_write_page (page_reset 0 page_new) dm = (ok (), one_page_disk)"
    "dm_faults one_page_disk = []" "dm_next_page_id one_page_disk = 1"
    by (simp_all add: dm_write_page_def sys_pwrite_def dm_def one_page_disk_def
        INVALID_PAGE_ID_def next_outcome_def off_valid_def dm_off_t_def)
  have "dm_block (dm_file one_page_disk) 0 = page_data (dm_seal (page_reset 0 page_new))"
    using dm_write_page_stored(1)[OF w(1)] by simp
  then have "dm_read_page 0 page_new one_page_disk =
      (ok (), (dm_seal (page_reset 0 page_new))\<lparr>pg_pin_count := pg_pin_count page_new,
          pg_dirty := pg_dirty page_new\<rparr>, one_page_disk)"
    using w by (intro dm_read_page_ok) simp_all
  then show ?thesis
    by (simp add: page_new_def page_reset_def dm_seal_def page_set_data_def)
qed

theorem pool_transparent_witness:
  "\<exists>bp' dm'. bp_fetch_page lruk_ops 0 (lruk_pool 1 2) one_page_disk = (ok 0, bp', dm')
     \<and> dm_stored (dm_file one_page_disk) 0 = Some (page_content (bp_slab bp' ! 0))"
proof -
  obtain bp' dm' where f: "bp_fetch_page lruk_ops 0 (lruk_pool 1 2) one_page_disk = (ok 0, bp', dm')"
    by (simp add: bp_fetch_page_def lruk_pool_def bp_new_def bp_acquire_fresh_slot_def Let_def
        one_page_disk_read upt_conv_Cons)
  have "fold pool_apply [] (lruk_pool 1 2, one_page_disk) = (lruk_pool 1 2, one_page_disk)" by simp
  from pool_transparent[OF _ this _ f] f show ?thesis
    by (auto simp: pool_run_fits_def pool_fetches_def)
qed

text \<open>
  C35: a fetch fails only for a reason. After any sequence of fetches and unpins that fetches no
  single page \<open>2 ^ 31 - 1\<close> times or more, if a fetch reports an error then the page was not
  cached, and either every frame of the pool holds a pinned page or the disk manager could not
  read the page. The pins of all pages are unchanged.
\<close>

theorem pool_fetch_error:
  assumes "k > 0" "fold pool_apply xs (lruk_pool n k, dm) = (bp, dm1)" "pool_run_fits xs"
    and "bp_fetch_page lruk_ops pid bp dm1 = (err m, bp', dm')"
  shows "bp_where bp pid = None \<and> bp_pins bp' = bp_pins bp
    \<and> ((\<forall>s < length (bp_slab bp). \<exists>p. bp_fresh_slots bp ! s = Some p
          \<and> sint (pg_pin_count (bp_slab bp ! p)) > 0)
       \<or> (\<exists>out. \<not> is_ok (fst (dm_read_page pid out dm1))))"
proof -
  note run = pool_run_new[OF assms(1-3)]
  show ?thesis
    using lruk.fetch_spec(4)[OF run(1) assms(4) run(3)] lruk.fetch_fails[OF run(1) assms(4)]
    by simp
qed

theorem pool_fetch_error_witness:
  "\<exists>m bp' dm'. bp_fetch_page lruk_ops 5 (lruk_pool 1 2) one_page_disk = (err m, bp', dm')
     \<and> bp_pins bp' = bp_pins (lruk_pool 1 2)"
proof -
  have "dm_next_page_id one_page_disk = 1"
    by (simp add: one_page_disk_def dm_write_page_def sys_pwrite_def INVALID_PAGE_ID_def
        next_outcome_def off_valid_def dm_off_t_def)
  then obtain m bp' dm'
    where f: "bp_fetch_page lruk_ops 5 (lruk_pool 1 2) one_page_disk = (err m, bp', dm')"
    by (simp add: bp_fetch_page_def lruk_pool_def bp_new_def bp_acquire_fresh_slot_def Let_def
        dm_read_page_def upt_conv_Cons)
  have "fold pool_apply [] (lruk_pool 1 2, one_page_disk) = (lruk_pool 1 2, one_page_disk)" by simp
  from pool_fetch_error[OF _ this _ f] f show ?thesis
    by (auto simp: pool_run_fits_def pool_fetches_def)
qed

text \<open>
  C38: unpinning. After any sequence of fetches and unpins that fetches no single page
  \<open>2 ^ 31 - 1\<close> times or more, unpinning a page takes away one pin if it has one and is an error
  that changes nothing if it has none; no page moves.
\<close>

theorem pool_unpin:
  assumes "k > 0" "fold pool_apply xs (lruk_pool n k, dm) = (bp, dm1)" "pool_run_fits xs"
    and "bp_unpin_page lruk_ops pid bp = (res, bp')"
  shows "bp_where bp' = bp_where bp
    \<and> (if bp_pins bp pid > 0 then res = ok () \<and> bp_pins bp' = (bp_pins bp)(pid := bp_pins bp pid - 1)
       else \<not> is_ok res \<and> bp' = bp)"
  using lruk.unpin_spec[OF pool_run_new(1)[OF assms(1-3)] assms(4)] by blast

theorem pool_unpin_witness:
  "\<exists>bp dm1 bp'. fold pool_apply [PFetch 0] (lruk_pool 1 2, one_page_disk) = (bp, dm1)
     \<and> bp_unpin_page lruk_ops 0 bp = (ok (), bp') \<and> bp_pins bp 0 = 1 \<and> bp_pins bp' 0 = 0"
proof -
  obtain bp dm1 where f: "bp_fetch_page lruk_ops 0 (lruk_pool 1 2) one_page_disk = (ok 0, bp, dm1)"
    and one: "bp_pins bp 0 = 1"
    by (simp add: bp_fetch_page_def lruk_pool_def bp_new_def bp_acquire_fresh_slot_def Let_def
        one_page_disk_read upt_conv_Cons bp_pins_def bp_where_def bp_touch_def)
  have run: "fold pool_apply [PFetch 0] (lruk_pool 1 2, one_page_disk) = (bp, dm1)"
    using f by (simp del: One_nat_def)
  obtain res bp' where u: "bp_unpin_page lruk_ops 0 bp = (res, bp')" by fastforce
  from pool_unpin[OF _ run _ u] one u run show ?thesis
    by (auto simp: pool_run_fits_def pool_fetches_def)
qed

end
