(* ===== verification/Column_File.thy ===== *)
theory Column_File
  imports Buffer_Pool
begin

unbundle bit_operations_syntax

text \<open>
  \<^verbatim>\<open>src/src/storage/disk/column_file.cpp\<close>: one column of a segment, a file of column pages
  whose last page is kept in memory and whose earlier pages are read through the buffer pool.
  \<open>ColumnPage\<close> is a view of the payload of a page: \<open>cp_view\<close> reads the packed header and
  \<open>cp_store\<close> writes it back. A \<open>PageHandle\<close> lives for one call here, so fetching and
  unpinning are one step. The theory shows that the file behaves as a list of values under
  appends, reads and truncation, whatever the system calls do, and that a flushed file reopens
  with the same values.
\<close>

section \<open>Column pages in page payloads\<close>

definition cp_view :: "u8 list \<Rightarrow> column_page" where
  "cp_view pl =
     \<lparr>cp_type = type_id_of_byte (pl ! 0), cp_flags = pl ! 1,
      cp_value_count = le_word (slice 2 2 pl), cp_capacity = le_word (slice 4 2 pl),
      cp_null_bitmap_bytes = le_word (slice 6 2 pl),
      cp_min_bytes = slice 8 8 pl, cp_max_bytes = slice 16 8 pl,
      cp_null_count = le_word (slice 24 2 pl), cp_max_len = le_word (slice 26 2 pl),
      cp_area = drop COL_PAGE_HEADER_SIZE pl\<rparr>"

definition cp_store :: "column_page \<Rightarrow> u8 list \<Rightarrow> u8 list" where
  "cp_store cp pl =
     [type_id_byte (cp_type cp), cp_flags cp] @ le_bytes 2 (cp_value_count cp)
     @ le_bytes 2 (cp_capacity cp) @ le_bytes 2 (cp_null_bitmap_bytes cp)
     @ cp_min_bytes cp @ cp_max_bytes cp @ le_bytes 2 (cp_null_count cp)
     @ le_bytes 2 (cp_max_len cp) @ slice 28 4 pl @ cp_area cp"

definition cp_sized :: "column_page \<Rightarrow> bool" where
  "cp_sized cp \<longleftrightarrow> length (cp_min_bytes cp) = 8 \<and> length (cp_max_bytes cp) = 8
     \<and> length (cp_area cp) = PAGE_PAYLOAD_SIZE - COL_PAGE_HEADER_SIZE \<and> enumerator (cp_type cp)"

lemma cp_view_store:
  assumes "cp_sized cp" "length pl = PAGE_PAYLOAD_SIZE"
  shows "cp_view (cp_store cp pl) = cp" "length (cp_store cp pl) = PAGE_PAYLOAD_SIZE"
proof -
  have l: "length (cp_min_bytes cp) = 8" "length (cp_max_bytes cp) = 8"
    "length (cp_area cp) = 8136" "length (slice 28 4 pl) = 4"
    using assms by (simp_all add: cp_sized_def)
  then show "length (cp_store cp pl) = PAGE_PAYLOAD_SIZE"
    by (simp add: cp_store_def del: length_slice)
  have "slice 2 2 (cp_store cp pl) = le_bytes 2 (cp_value_count cp)"
    "slice 4 2 (cp_store cp pl) = le_bytes 2 (cp_capacity cp)"
    "slice 6 2 (cp_store cp pl) = le_bytes 2 (cp_null_bitmap_bytes cp)"
    "slice 8 8 (cp_store cp pl) = cp_min_bytes cp"
    "slice 16 8 (cp_store cp pl) = cp_max_bytes cp"
    "slice 24 2 (cp_store cp pl) = le_bytes 2 (cp_null_count cp)"
    "slice 26 2 (cp_store cp pl) = le_bytes 2 (cp_max_len cp)"
    "drop 32 (cp_store cp pl) = cp_area cp"
    using l by (simp_all add: cp_store_def slice_def[of _ _ "_ # _"] del: length_slice)
  moreover have "cp_store cp pl ! 0 = type_id_byte (cp_type cp)" "cp_store cp pl ! 1 = cp_flags cp"
    by (simp_all add: cp_store_def)
  ultimately show "cp_view (cp_store cp pl) = cp"
    using assms(1) by (simp add: cp_view_def cp_sized_def)
qed

lemma slice_append_drop: "slice i n xs @ drop (i + n) xs = drop i xs"
  using append_take_drop_id[of n "drop i xs"] by (simp add: slice_def add.commute)

lemma cp_store_view:
  assumes "length pl = PAGE_PAYLOAD_SIZE"
  shows "cp_store (cp_view pl) pl = pl"
proof -
  have w: "le_bytes 2 (le_word (slice i 2 pl) :: u16) = slice i 2 pl" if "i \<le> 30" for i
    using le_bytes_le_word[of "slice i 2 pl", where 'a = 16] assms that by simp
  have e: "pl ! 0 # pl ! 1 # drop 2 pl = pl"
    using assms by (cases pl; cases "tl pl") auto
  show ?thesis
    using slice_append_drop[of 2 2 pl] slice_append_drop[of 4 2 pl] slice_append_drop[of 6 2 pl]
      slice_append_drop[of 8 8 pl] slice_append_drop[of 16 8 pl] slice_append_drop[of 24 2 pl]
      slice_append_drop[of 26 2 pl] slice_append_drop[of 28 4 pl]
    by (simp add: cp_store_def cp_view_def w e del: One_nat_def)
qed

section \<open>The column file\<close>

record column_file =
  cf_disk :: disk_manager
  cf_pool :: "lruk buffer_pool"
  cf_type :: type_id
  cf_nullable :: bool
  cf_capacity :: u16
  cf_max_len :: u16
  cf_current_page :: page
  cf_current_page_id :: u64
  cf_current_dirty :: bool

definition POOL_FRESH_CAPACITY :: nat where "POOL_FRESH_CAPACITY = 64"

abbreviation fresh_pool :: "lruk buffer_pool" where
  "fresh_pool \<equiv> lruk_pool POOL_FRESH_CAPACITY 2"

definition page_view :: "page \<Rightarrow> column_page" where
  "page_view p = cp_view (pg_payload p)"

definition page_update :: "column_page \<Rightarrow> page \<Rightarrow> page" where
  "page_update cp p = p\<lparr>pg_payload := cp_store cp (pg_payload p)\<rparr>"

definition page_init :: "type_id \<Rightarrow> bool \<Rightarrow> u16 \<Rightarrow> page \<Rightarrow> page" where
  "page_init t nullable max_len p = page_update (cp_init t nullable max_len (page_view p)) p"

text \<open>The result comes with the contents of the file, which an error leaves behind.\<close>

definition cf_create ::
  "string \<Rightarrow> type_id \<Rightarrow> bool \<Rightarrow> u16 \<Rightarrow> u8 list \<Rightarrow> io_outcome list \<Rightarrow> column_file result \<times> u8 list"
  where
  "cf_create path t nullable max_len file faults =
     (if type_size t max_len = 0
      then (err ''create: invalid type or max_len=0 for VARCHAR'', file)
      else case dm_open path file faults of
        Inl e \<Rightarrow> (err e, file)
      | Inr disk \<Rightarrow>
          if dm_next_page_id disk > 0
          then (err (''create: file '' @ path @ '' already has pages''), file)
          else case dm_allocate_page disk of
            (Inl e, disk1) \<Rightarrow> (err e, dm_file disk1)
          | (Inr pid, disk1) \<Rightarrow>
              let page = page_init t nullable max_len (page_reset pid page_new)
              in case dm_write_page page disk1 of
                (Inl e, disk2) \<Rightarrow> (err e, dm_file disk2)
              | (Inr _, disk2) \<Rightarrow>
                  (ok \<lparr>cf_disk = disk2, cf_pool = fresh_pool, cf_type = t, cf_nullable = nullable,
                       cf_capacity = word_of_nat (column_page_capacity t nullable max_len),
                       cf_max_len = max_len, cf_current_page = page, cf_current_page_id = pid,
                       cf_current_dirty = False\<rparr>, dm_file disk2))"

definition cf_open :: "string \<Rightarrow> u8 list \<Rightarrow> io_outcome list \<Rightarrow> column_file result" where
  "cf_open path file faults =
     (case dm_open path file faults of
        Inl e \<Rightarrow> err e
      | Inr disk \<Rightarrow>
          if dm_next_page_id disk = 0 then err (''open: file '' @ path @ '' is empty'')
          else let last = dm_next_page_id disk - 1
               in case dm_read_page last page_new disk of
                 (Inl e, _, _) \<Rightarrow> err e
               | (Inr _, page, disk1) \<Rightarrow>
                   let view = page_view page
                   in if type_size (cp_type view) (cp_max_len view) = 0
                      then err ''open: page header has invalid type''
                      else ok \<lparr>cf_disk = disk1, cf_pool = fresh_pool, cf_type = cp_type view,
                               cf_nullable = cp_nullable view, cf_capacity = cp_capacity view,
                               cf_max_len = cp_max_len view, cf_current_page = page,
                               cf_current_page_id = last, cf_current_dirty = False\<rparr>)"

definition cf_row_count :: "column_file \<Rightarrow> u64" where
  "cf_row_count cf =
     cf_current_page_id cf * ucast (cf_capacity cf)
       + ucast (cp_value_count (page_view (cf_current_page cf)))"

definition cf_flush :: "column_file \<Rightarrow> unit result \<times> column_file" where
  "cf_flush cf =
     (if \<not> cf_current_dirty cf then (ok (), cf)
      else case dm_write_page (cf_current_page cf) (cf_disk cf) of
        (Inl e, disk) \<Rightarrow> (err e, cf\<lparr>cf_disk := disk\<rparr>)
      | (Inr _, disk) \<Rightarrow> (ok (), cf\<lparr>cf_disk := disk, cf_current_dirty := False\<rparr>))"

text \<open>\<open>rotate_page\<close> first writes a dirty page, exactly as \<open>flush\<close> does.\<close>

definition cf_rotate_page :: "column_file \<Rightarrow> unit result \<times> column_file" where
  "cf_rotate_page cf =
     (case cf_flush cf of
        (Inl e, cf1) \<Rightarrow> (err e, cf1)
      | (Inr _, cf1) \<Rightarrow>
          (case dm_reserve_page_id (cf_disk cf1) of (new_id, disk) \<Rightarrow>
             (ok (), cf1\<lparr>cf_disk := disk,
                cf_current_page := page_init (cf_type cf1) (cf_nullable cf1) (cf_max_len cf1)
                                     (page_reset new_id (cf_current_page cf1)),
                cf_current_page_id := new_id,
                cf_current_dirty := True\<rparr>)))"

definition cf_ensure_room :: "column_file \<Rightarrow> unit result \<times> column_file" where
  "cf_ensure_room cf =
     (if cp_is_full (page_view (cf_current_page cf)) then cf_rotate_page cf else (ok (), cf))"

text \<open>The common shape of the eight \<open>append_*\<close> functions.\<close>

definition cf_append_with ::
  "(column_page \<Rightarrow> unit result \<times> column_page) \<Rightarrow> column_file \<Rightarrow> unit result \<times> column_file" where
  "cf_append_with f cf =
     (case cf_ensure_room cf of
        (Inl e, cf1) \<Rightarrow> (err e, cf1)
      | (Inr _, cf1) \<Rightarrow>
          (case f (page_view (cf_current_page cf1)) of
             (Inl e, cp) \<Rightarrow> (err e, cf1\<lparr>cf_current_page := page_update cp (cf_current_page cf1)\<rparr>)
           | (Inr _, cp) \<Rightarrow> (ok (), cf1\<lparr>cf_current_page := page_update cp (cf_current_page cf1),
                                       cf_current_dirty := True\<rparr>)))"

definition cf_append_i32 :: "i32 \<Rightarrow> column_file \<Rightarrow> unit result \<times> column_file" where
  "cf_append_i32 v = cf_append_with (cp_append_i32 v)"
definition cf_append_i64 :: "i64 \<Rightarrow> column_file \<Rightarrow> unit result \<times> column_file" where
  "cf_append_i64 v = cf_append_with (cp_append_i64 v)"
definition cf_append_f64 :: "f64 \<Rightarrow> column_file \<Rightarrow> unit result \<times> column_file" where
  "cf_append_f64 v = cf_append_with (cp_append_f64 v)"
definition cf_append_null :: "column_file \<Rightarrow> unit result \<times> column_file" where
  "cf_append_null = cf_append_with cp_append_null"
definition cf_append_str :: "string \<Rightarrow> column_file \<Rightarrow> unit result \<times> column_file" where
  "cf_append_str s = cf_append_with (cp_append_str s)"
definition cf_append_bool :: "bool \<Rightarrow> column_file \<Rightarrow> unit result \<times> column_file" where
  "cf_append_bool b = cf_append_with (cp_append_bool b)"
definition cf_append_date :: "i32 \<Rightarrow> column_file \<Rightarrow> unit result \<times> column_file" where
  "cf_append_date d = cf_append_with (cp_append_date d)"
definition cf_append_timestamp :: "i64 \<Rightarrow> column_file \<Rightarrow> unit result \<times> column_file" where
  "cf_append_timestamp x = cf_append_with (cp_append_timestamp x)"

fun cf_append_bulk :: "val list \<Rightarrow> column_file \<Rightarrow> unit result \<times> column_file" where
  "cf_append_bulk [] cf = (ok (), cf)"
| "cf_append_bulk (v # vs) cf =
     (case cf_append_with (cp_append_value (cf_type cf) v) cf of
        (Inl e, cf1) \<Rightarrow> (err e, cf1)
      | (Inr _, cf1) \<Rightarrow> cf_append_bulk vs cf1)"

text \<open>Reading a page: the current page directly, another one through the pool.\<close>

definition cf_read_page :: "u64 \<Rightarrow> column_file \<Rightarrow> page result \<times> column_file" where
  "cf_read_page pid cf =
     (if pid = cf_current_page_id cf then (ok (cf_current_page cf), cf)
      else case bp_fetch_page lruk_ops pid (cf_pool cf) (cf_disk cf) of
        (Inl e, pool, disk) \<Rightarrow> (err e, cf\<lparr>cf_pool := pool, cf_disk := disk\<rparr>)
      | (Inr p, pool, disk) \<Rightarrow>
          (ok (bp_slab pool ! p),
           cf\<lparr>cf_pool := snd (bp_unpin_page lruk_ops pid pool), cf_disk := disk\<rparr>))"

definition cf_get_typed ::
  "(nat \<Rightarrow> column_page \<Rightarrow> 'a result) \<Rightarrow> u64 \<Rightarrow> column_file \<Rightarrow> 'a result \<times> column_file" where
  "cf_get_typed getter row_id cf =
     (let page_num = row_id div ucast (cf_capacity cf);
          slot = unat (row_id mod ucast (cf_capacity cf))
      in case cf_read_page page_num cf of
           (Inl e, cf1) \<Rightarrow> (err e, cf1)
         | (Inr p, cf1) \<Rightarrow> (getter slot (page_view p), cf1))"

definition cf_get_i32 :: "u64 \<Rightarrow> column_file \<Rightarrow> i32 result \<times> column_file" where
  "cf_get_i32 = cf_get_typed cp_get_i32"
definition cf_get_i64 :: "u64 \<Rightarrow> column_file \<Rightarrow> i64 result \<times> column_file" where
  "cf_get_i64 = cf_get_typed cp_get_i64"
definition cf_get_f64 :: "u64 \<Rightarrow> column_file \<Rightarrow> f64 result \<times> column_file" where
  "cf_get_f64 = cf_get_typed cp_get_f64"
definition cf_get_bool :: "u64 \<Rightarrow> column_file \<Rightarrow> bool result \<times> column_file" where
  "cf_get_bool = cf_get_typed cp_get_bool"
definition cf_get_date :: "u64 \<Rightarrow> column_file \<Rightarrow> i32 result \<times> column_file" where
  "cf_get_date = cf_get_typed cp_get_date"
definition cf_get_timestamp :: "u64 \<Rightarrow> column_file \<Rightarrow> i64 result \<times> column_file" where
  "cf_get_timestamp = cf_get_typed cp_get_timestamp"

definition cf_get_str :: "u64 \<Rightarrow> column_file \<Rightarrow> string \<times> column_file" where
  "cf_get_str row_id cf =
     (case cf_get_typed (\<lambda>slot v. ok (cp_get_str slot v)) row_id cf of
        (Inl _, cf1) \<Rightarrow> ([], cf1)
      | (Inr s, cf1) \<Rightarrow> (s, cf1))"

definition cf_is_null :: "u64 \<Rightarrow> column_file \<Rightarrow> bool \<times> column_file" where
  "cf_is_null row_id cf =
     (if row_id div ucast (cf_capacity cf) \<ge> dm_next_page_id (cf_disk cf) then (False, cf)
      else case cf_get_typed (\<lambda>slot v. ok (cp_is_null v slot)) row_id cf of
        (Inl _, cf1) \<Rightarrow> (False, cf1)
      | (Inr b, cf1) \<Rightarrow> (b, cf1))"

text \<open>\<open>scan\<close> hands the pages to its callback in order; here they are collected.\<close>

fun cf_scan_from :: "u64 list \<Rightarrow> column_file \<Rightarrow> unit result \<times> column_page list \<times> column_file" where
  "cf_scan_from [] cf = (ok (), [], cf)"
| "cf_scan_from (pid # pids) cf =
     (case cf_read_page pid cf of
        (Inl e, cf1) \<Rightarrow> (err e, [], cf1)
      | (Inr p, cf1) \<Rightarrow>
          (case cf_scan_from pids cf1 of (r, vs, cf2) \<Rightarrow> (r, page_view p # vs, cf2)))"

definition cf_scan :: "column_file \<Rightarrow> unit result \<times> column_page list \<times> column_file" where
  "cf_scan cf = cf_scan_from (map word_of_nat [0..<unat (dm_next_page_id (cf_disk cf))]) cf"

definition cf_truncate :: "u64 \<Rightarrow> column_file \<Rightarrow> unit result \<times> column_file" where
  "cf_truncate target_rows cf =
     (let full_pages = target_rows div ucast (cf_capacity cf);
          remaining = ucast (target_rows mod ucast (cf_capacity cf)) :: u16;
          keep = (if remaining = 0 \<and> target_rows > 0 then full_pages else full_pages + 1);
          keep = max keep 1
      in case dm_truncate keep (cf_disk cf) of
           (Inl e, disk1) \<Rightarrow> (err e, cf\<lparr>cf_disk := disk1\<rparr>)
         | (Inr _, disk1) \<Rightarrow>
             (case dm_read_page (keep - 1) (cf_current_page cf) disk1 of
                (Inl e, page, disk2) \<Rightarrow> (err e, cf\<lparr>cf_disk := disk2, cf_current_page := page\<rparr>)
              | (Inr _, page, disk2) \<Rightarrow>
                  let needed = (if remaining = 0 \<and> target_rows > 0 then cf_capacity cf else remaining);
                      done = (\<lambda>page disk. cf\<lparr>cf_disk := disk, cf_current_page := page,
                                cf_current_page_id := keep - 1, cf_current_dirty := False,
                                cf_pool := fresh_pool\<rparr>)
                  in if cp_value_count (page_view page) = needed then (ok (), done page disk2)
                     else let page1 = page_update (cp_truncate_to (unat needed) (page_view page)) page
                          in case dm_write_page page1 disk2 of
                               (Inl e, disk3) \<Rightarrow>
                                 (err e, cf\<lparr>cf_disk := disk3, cf_current_page := page1\<rparr>)
                             | (Inr _, disk3) \<Rightarrow> (ok (), done page1 disk3)))"

definition cf_fsync :: "column_file \<Rightarrow> unit result \<times> column_file" where
  "cf_fsync cf = (case dm_fsync (cf_disk cf) of (r, disk) \<Rightarrow> (r, cf\<lparr>cf_disk := disk\<rparr>))"

section \<open>The file as a list of values\<close>

definition cf_page_ok :: "type_id \<Rightarrow> bool \<Rightarrow> u16 \<Rightarrow> page \<Rightarrow> bool" where
  "cf_page_ok t nullable max_len p \<longleftrightarrow>
     page_wf p \<and> cp_of t nullable max_len (page_view p) \<and> cp_zone_ok (page_view p)"

abbreviation cf_ok :: "column_file \<Rightarrow> page \<Rightarrow> bool" where
  "cf_ok cf \<equiv> cf_page_ok (cf_type cf) (cf_nullable cf) (cf_max_len cf)"

definition cf_file :: "column_file \<Rightarrow> u8 list" where
  "cf_file cf = dm_file (cf_disk cf)"

definition cf_pool_ok :: "column_file \<Rightarrow> bool" where
  "cf_pool_ok cf \<longleftrightarrow> lruk_pool_ok (cf_file cf) (cf_pool cf)
     \<and> (\<forall>q. bp_where (cf_pool cf) q \<noteq> None \<longrightarrow> q < cf_current_page_id cf)
     \<and> (\<forall>q. bp_pins (cf_pool cf) q = 0) \<and> bp_slab (cf_pool cf) \<noteq> []"

definition cf_full_page :: "column_file \<Rightarrow> u64 \<Rightarrow> bool" where
  "cf_full_page cf i \<longleftrightarrow> (\<exists>p. dm_stored (cf_file cf) i = Some p \<and> cf_ok cf p
     \<and> cp_value_count (page_view p) = cf_capacity cf)"

definition cf_inv :: "column_file \<Rightarrow> bool" where
  "cf_inv cf \<longleftrightarrow>
     0 < column_page_capacity (cf_type cf) (cf_nullable cf) (cf_max_len cf)
     \<and> unat (cf_capacity cf) = column_page_capacity (cf_type cf) (cf_nullable cf) (cf_max_len cf)
     \<and> cf_ok cf (cf_current_page cf) \<and> pg_page_id (cf_current_page cf) = cf_current_page_id cf
     \<and> cf_current_page_id cf \<le> 2 ^ 50
     \<and> dm_next_page_id (cf_disk cf) = cf_current_page_id cf + 1
     \<and> (\<forall>i < cf_current_page_id cf. cf_full_page cf i)
     \<and> (\<not> cf_current_dirty cf \<longrightarrow> dm_stored (cf_file cf) (cf_current_page_id cf)
          = Some (page_content (dm_seal (cf_current_page cf))))
     \<and> length (cf_file cf) \<le> dm_offset (cf_current_page_id cf) + PAGE_SIZE
     \<and> cf_pool_ok cf"

definition cf_pages :: "column_file \<Rightarrow> column_page list" where
  "cf_pages cf =
     map (\<lambda>i. page_view (the (dm_stored (cf_file cf) (word_of_nat i)))) [0..<unat (cf_current_page_id cf)]
       @ [page_view (cf_current_page cf)]"

definition cf_vals :: "column_file \<Rightarrow> val list" where
  "cf_vals cf = concat (map cp_vals (cf_pages cf))"

lemma page_view_update:
  assumes "page_wf p" "cp_sized cp"
  shows "page_view (page_update cp p) = cp" "page_wf (page_update cp p)"
    "pg_page_id (page_update cp p) = pg_page_id p"
  using cp_view_store[OF assms(2), of "pg_payload p"] assms(1)
  by (simp_all add: page_view_def page_update_def page_wf_def)

lemma page_update_view: "page_wf p \<Longrightarrow> page_update (page_view p) p = p"
  using cp_store_view[of "pg_payload p"] by (simp add: page_update_def page_view_def page_wf_def)

lemma enumerator_type_size: "0 < type_size t max_len \<Longrightarrow> enumerator t"
  by (cases t) (simp_all add: enumerator_def)

lemma cp_of_sized: "cp_of t nullable max_len cp \<Longrightarrow> cp_sized cp"
  by (auto simp: cp_of_def cp_inv_def cp_layout_def cp_sized_def cp_elem_def
      intro: enumerator_type_size)

lemma page_init_ok:
  assumes "0 < column_page_capacity t nullable max_len" "page_wf p"
  shows "cf_page_ok t nullable max_len (page_init t nullable max_len p)"
    "cp_vals (page_view (page_init t nullable max_len p)) = []"
    "pg_page_id (page_init t nullable max_len p) = pg_page_id p"
proof -
  have a: "length (cp_area (page_view p)) = 8136"
    using assms(2) by (simp add: page_view_def cp_view_def page_wf_def)
  note i = cp_of_init[OF assms(1) a]
  note v = page_view_update[OF assms(2) cp_of_sized[OF i(1)]]
  have "cp_zone_ok (cp_init t nullable max_len (page_view p))"
    using i(2) by (simp add: cp_zone_ok_def cp_zone_def cp_vals_def)
  then show "cf_page_ok t nullable max_len (page_init t nullable max_len p)"
    "cp_vals (page_view (page_init t nullable max_len p)) = []"
    "pg_page_id (page_init t nullable max_len p) = pg_page_id p"
    using i v by (simp_all add: cf_page_ok_def page_init_def)
qed

lemma page_view_content [simp]:
  "page_view (page_content p) = page_view p" "page_view (dm_seal p) = page_view p"
  "page_wf (page_content p) = page_wf p"
  by (simp_all add: page_view_def page_content_def dm_seal_def page_wf_def)

lemma cf_page_ok_content [simp]:
  "cf_page_ok t nullable max_len (page_content p) = cf_page_ok t nullable max_len p"
  "cf_page_ok t nullable max_len (dm_seal p) = cf_page_ok t nullable max_len p"
  by (simp_all add: cf_page_ok_def)

lemma dm_stored_complete: "dm_stored f i = Some p \<Longrightarrow> dm_complete f i"
  by (auto simp: dm_stored_def Let_def dm_block_def dm_complete_def split: if_splits)

lemma dm_stored_valid: "dm_stored f i = Some p \<Longrightarrow> i < 2 ^ 51 \<Longrightarrow> i < 2 ^ 50"
  using off_valid_dm[of i] by (auto simp: dm_stored_def Let_def dm_block_def split: if_splits)

lemma dm_stored_id: "dm_stored f i = Some p \<Longrightarrow> pg_page_id p = i"
  by (auto simp: dm_stored_def Let_def split: if_splits)

lemma dm_stored_wf: "dm_stored f i = Some p \<Longrightarrow> page_wf p"
  unfolding dm_stored_def Let_def by (metis option.distinct(1) option.inject page_wf_set_data)

lemma dm_stored_after_write:
  assumes "dm_write_page p dm = (ok (), dm')" "page_wf p"
  shows "dm_stored (dm_file dm') (pg_page_id p) = Some (page_content (dm_seal p))"
proof -
  have "page_set_data (page_data (dm_seal p)) page_new = page_content (dm_seal p)"
    using page_set_data_data[of "dm_seal p" page_new] assms(2)
    by (simp add: page_content_def page_new_def)
  then show ?thesis
    using dm_write_page_stored(1)[OF assms] assms(2)
    by (simp add: dm_stored_def Let_def) (simp add: page_content_def dm_seal_def)
qed

lemma dm_stored_write_other:
  assumes "dm_write_page p dm = (r, dm')" "page_wf p" "dm_stored (dm_file dm) j = Some q"
    "j \<noteq> pg_page_id p" "j < 2 ^ 51" "pg_page_id p < 2 ^ 51"
  shows "dm_stored (dm_file dm') j = Some q"
  using dm_write_page_frame[OF assms(2,4) dm_stored_complete[OF assms(3)] assms(5,6)] assms(1,3)
  by (metis dm_stored_cong snd_conv)

lemma bp_ok_file:
  assumes "bp_ok rinv fr tr ev f bp" "\<And>q. bp_where bp q \<noteq> None \<Longrightarrow> dm_stored g q = dm_stored f q"
  shows "bp_ok rinv fr tr ev g bp"
proof -
  let ?T = "tr (bp_replacer bp)" and ?E = "ev (bp_replacer bp)"
  have inv: "bp_inv {} ?T ?E f bp" using assms(1) by (simp add: bp_ok_def)
  have "bp_used_ok ?T ?E g bp s p"
    if "s < length (bp_slab bp)" "bp_fresh_slots bp ! s = Some p" for s p
  proof -
    have u: "bp_used_ok ?T ?E f bp s p" by (rule bp_inv_used(1)[OF inv that(2,1)])
    then have "bp_where bp (pg_page_id (bp_slab bp ! p)) \<noteq> None"
      using that by (simp add: bp_where_def bp_used_ok_def)
    with u assms(2) show ?thesis by (simp add: bp_used_ok_def)
  qed
  then have "bp_inv {} ?T ?E g bp"
    using inv bp_inv_used(2,3)[OF inv] by (intro bp_invI) (auto simp: bp_inv_def)
  then show ?thesis using assms(1) by (simp add: bp_ok_def)
qed

lemma cf_pool_file:
  assumes "cf_pool_ok cf" "\<And>i. i < cf_current_page_id cf \<Longrightarrow> dm_stored (dm_file dm) i = dm_stored (cf_file cf) i"
    "cf_pool cf' = cf_pool cf" "cf_file cf' = dm_file dm" "cf_current_page_id cf \<le> cf_current_page_id cf'"
  shows "cf_pool_ok cf'"
  using assms bp_ok_file[where g = "dm_file dm" and bp = "cf_pool cf"]
  by (auto simp: cf_pool_ok_def intro: less_le_trans)

text \<open>
  Page ids stay where byte offsets do not wrap: a file only goes on to the next page once the
  current one is stored, and a page with id \<open>2 ^ 50\<close> has a negative offset and never is.
\<close>

lemma cf_inv_small:
  assumes "cf_inv cf"
  shows "cf_current_page_id cf < 2 ^ 63" "i \<le> cf_current_page_id cf \<Longrightarrow> i < 2 ^ 51"
proof -
  have le: "cf_current_page_id cf \<le> 2 ^ 50" using assms by (simp add: cf_inv_def)
  then show "cf_current_page_id cf < 2 ^ 63" by (rule le_less_trans) simp
  assume "i \<le> cf_current_page_id cf"
  then have "i \<le> 2 ^ 50" using le by (rule order_trans)
  then show "i < 2 ^ 51" by (rule le_less_trans) simp
qed

text \<open>Writing the current page keeps everything below it, whatever the call did.\<close>

lemma cf_write_current:
  assumes inv: "cf_inv cf" and w: "dm_write_page (cf_current_page cf) (cf_disk cf) = (r, disk)"
  shows "\<forall>i < cf_current_page_id cf. dm_stored (dm_file disk) i = dm_stored (cf_file cf) i"
    "dm_next_page_id disk = dm_next_page_id (cf_disk cf)"
    "is_ok r \<Longrightarrow> dm_stored (dm_file disk) (cf_current_page_id cf)
       = Some (page_content (dm_seal (cf_current_page cf)))"
    "length (dm_file disk) \<le> dm_offset (cf_current_page_id cf) + PAGE_SIZE"
proof -
  have wf: "page_wf (cf_current_page cf)" and pid: "pg_page_id (cf_current_page cf) = cf_current_page_id cf"
    using inv by (simp_all add: cf_inv_def cf_page_ok_def)
  show "\<forall>i < cf_current_page_id cf. dm_stored (dm_file disk) i = dm_stored (cf_file cf) i"
  proof (intro allI impI)
    fix i assume i: "i < cf_current_page_id cf"
    then obtain p where "dm_stored (cf_file cf) i = Some p" using inv by (auto simp: cf_inv_def cf_full_page_def)
    then show "dm_stored (dm_file disk) i = dm_stored (cf_file cf) i"
      using dm_stored_write_other[OF w wf, of i p] i pid cf_inv_small(2)[OF inv]
      by (simp add: cf_file_def)
  qed
  show "dm_next_page_id disk = dm_next_page_id (cf_disk cf)"
    by (rule dm_write_page_file[OF w wf])
  from dm_write_page_file[OF w wf] obtain n where "n \<le> PAGE_SIZE" "dm_file disk
     = file_write (dm_offset (cf_current_page_id cf)) (take n (page_data (dm_seal (cf_current_page cf)))) (cf_file cf)"
    using pid by (auto simp: cf_file_def)
  moreover have "length (cf_file cf) \<le> dm_offset (cf_current_page_id cf) + PAGE_SIZE"
    using inv by (simp add: cf_inv_def)
  ultimately show "length (dm_file disk) \<le> dm_offset (cf_current_page_id cf) + PAGE_SIZE"
    by (cases "take n (page_data (dm_seal (cf_current_page cf))) = []")
       (auto simp: length_file_write simp del: take_eq_Nil)
  assume "is_ok r"
  then have "dm_write_page (cf_current_page cf) (cf_disk cf) = (ok (), disk)"
    using w by (cases r) auto
  from dm_stored_after_write[OF this wf] pid
  show "dm_stored (dm_file disk) (cf_current_page_id cf)
       = Some (page_content (dm_seal (cf_current_page cf)))" by simp
qed

lemma word_of_nat_below:
  fixes w :: "'a::len word"
  assumes "n < unat w"
  shows "word_of_nat n < w" "unat (word_of_nat n :: 'a word) = n"
proof -
  have "n < 2 ^ LENGTH('a)" using assms unsigned_less[of w, where 'a = nat] by linarith
  then show "unat (word_of_nat n :: 'a word) = n" by (simp add: unat_of_nat take_bit_nat_eq_self)
  with assms show "word_of_nat n < w" by (simp add: word_less_nat_alt)
qed

lemma cf_pages_cong:
  assumes "\<forall>i < cf_current_page_id cf. dm_stored (cf_file cf') i = dm_stored (cf_file cf) i"
    "cf_current_page_id cf' = cf_current_page_id cf"
    "page_view (cf_current_page cf') = page_view (cf_current_page cf)"
  shows "cf_pages cf' = cf_pages cf"
proof -
  show ?thesis using assms word_of_nat_below(1)[of _ "cf_current_page_id cf"] by (auto simp: cf_pages_def)
qed

lemma cf_inv_disk:
  assumes inv: "cf_inv cf"
    and s: "\<forall>i < cf_current_page_id cf. dm_stored (dm_file disk) i = dm_stored (cf_file cf) i"
    and n: "dm_next_page_id disk = dm_next_page_id (cf_disk cf)"
    and l: "length (dm_file disk) \<le> dm_offset (cf_current_page_id cf) + PAGE_SIZE"
    and b: "\<not> b \<Longrightarrow> dm_stored (dm_file disk) (cf_current_page_id cf)
              = Some (page_content (dm_seal (cf_current_page cf)))"
  shows "cf_inv (cf\<lparr>cf_disk := disk, cf_current_dirty := b\<rparr>)"
    "cf_pages (cf\<lparr>cf_disk := disk, cf_current_dirty := b\<rparr>) = cf_pages cf"
proof -
  let ?cf = "cf\<lparr>cf_disk := disk, cf_current_dirty := b\<rparr>"
  have "cf_pool_ok ?cf"
    by (rule cf_pool_file[of cf disk]) (use inv s in \<open>simp_all add: cf_inv_def cf_file_def\<close>)
  moreover have "cf_full_page ?cf i" if "i < cf_current_page_id cf" for i
    using that inv s by (simp add: cf_inv_def cf_full_page_def cf_file_def)
  ultimately show "cf_inv ?cf"
    using inv n l b by (simp add: cf_inv_def) (simp add: cf_file_def)
  show "cf_pages ?cf = cf_pages cf"
    by (rule cf_pages_cong) (use s in \<open>simp_all add: cf_file_def\<close>)
qed

lemma cf_flush_spec:
  assumes inv: "cf_inv cf" and f: "cf_flush cf = (r, cf')"
  shows "cf_inv cf' \<and> cf_pages cf' = cf_pages cf \<and> (is_ok r \<longrightarrow> \<not> cf_current_dirty cf')
    \<and> (\<exists>d b. cf' = cf\<lparr>cf_disk := d, cf_current_dirty := b\<rparr>)"
proof (cases "cf_current_dirty cf")
  case False
  then have "cf' = cf" using f by (simp add: cf_flush_def)
  moreover have "cf = cf\<lparr>cf_disk := cf_disk cf, cf_current_dirty := cf_current_dirty cf\<rparr>" by simp
  ultimately show ?thesis using inv False by metis
next
  case True
  obtain w disk where w: "dm_write_page (cf_current_page cf) (cf_disk cf) = (w, disk)" by fastforce
  note c = cf_write_current[OF inv w]
  show ?thesis
  proof (cases w)
    case (Inl e)
    have eq: "cf\<lparr>cf_disk := disk\<rparr> = cf\<lparr>cf_disk := disk, cf_current_dirty := True\<rparr>"
      using True by (cases cf) simp
    have "r = err e" "cf\<lparr>cf_disk := disk\<rparr> = cf'"
      using f w True Inl by (simp_all add: cf_flush_def)
    with eq have "r = err e" "cf' = cf\<lparr>cf_disk := disk, cf_current_dirty := True\<rparr>" by metis+
    then show ?thesis using cf_inv_disk[OF inv c(1,2,4), of True] by auto
  next
    case (Inr u)
    then have "cf' = cf\<lparr>cf_disk := disk, cf_current_dirty := False\<rparr>"
      using f w True by (simp add: cf_flush_def)
    then show ?thesis using cf_inv_disk[OF inv c(1,2,4), of False] c(3) Inr by auto
  qed
qed

lemma cf_rotate_spec:
  assumes inv: "cf_inv cf" and r: "cf_rotate_page cf = (r, cf')"
    and full: "cp_value_count (page_view (cf_current_page cf)) = cf_capacity cf"
  shows "cf_inv cf' \<and> cf_vals cf' = cf_vals cf \<and> cf_type cf' = cf_type cf
    \<and> cf_nullable cf' = cf_nullable cf \<and> cf_max_len cf' = cf_max_len cf
    \<and> unat (cf_current_page_id cf') \<le> Suc (unat (cf_current_page_id cf))
    \<and> (is_ok r \<longrightarrow> cp_vals (page_view (cf_current_page cf')) = [])"
proof -
  obtain fr cf1 where f: "cf_flush cf = (fr, cf1)" by fastforce
  from cf_flush_spec[OF inv f] obtain d b where inv1: "cf_inv cf1" and p1: "cf_pages cf1 = cf_pages cf"
    and clean: "is_ok fr \<Longrightarrow> \<not> cf_current_dirty cf1"
    and cf1: "cf1 = cf\<lparr>cf_disk := d, cf_current_dirty := b\<rparr>" by metis
  have n1: "dm_next_page_id d = cf_current_page_id cf + 1" using inv1 by (simp add: cf1 cf_inv_def)
  show ?thesis
  proof (cases fr)
    case (Inl e)
    then have "cf' = cf1" "r = err e" using r f by (simp_all add: cf_rotate_page_def)
    then show ?thesis using inv1 p1 cf1 by (simp add: cf_vals_def)
  next
    case (Inr u)
    define n where "n = cf_current_page_id cf + 1"
    define pg where "pg = page_init (cf_type cf) (cf_nullable cf) (cf_max_len cf)
       (page_reset n (cf_current_page cf))"
    have cf': "cf' = cf\<lparr>cf_disk := d\<lparr>dm_next_page_id := n + 1\<rparr>, cf_current_page := pg,
        cf_current_page_id := n, cf_current_dirty := True\<rparr>" "r = ok ()"
      using r f Inr n1
      by (simp_all add: cf_rotate_page_def dm_reserve_page_id_def cf1 n_def pg_def)
    have cap: "0 < column_page_capacity (cf_type cf) (cf_nullable cf) (cf_max_len cf)"
      using inv by (simp add: cf_inv_def)
    note i = page_init_ok[OF cap page_wf_reset[of n "cf_current_page cf"], folded pg_def]
    have un: "unat n = Suc (unat (cf_current_page_id cf))"
      unfolding n_def by (rule unat_inc[OF cf_inv_small(1)[OF inv]])
    have less: "j < n \<longleftrightarrow> j < cf_current_page_id cf \<or> j = cf_current_page_id cf" for j
      by (auto simp: word_less_nat_alt un word_unat_eq_iff less_Suc_eq)
    have fl: "cf_file cf' = cf_file cf1" by (simp add: cf_file_def cf' cf1)
    have cur: "dm_stored (cf_file cf1) (cf_current_page_id cf)
        = Some (page_content (dm_seal (cf_current_page cf)))"
      using inv1 clean Inr by (simp add: cf_inv_def cf1)
    have "cf_current_page_id cf < 2 ^ 50"
      by (rule dm_stored_valid[OF cur cf_inv_small(2)[OF inv order_refl]])
    then have n50: "n \<le> 2 ^ 50" by (simp add: word_le_nat_alt word_less_nat_alt un Suc_le_eq)
    then have n51: "n < 2 ^ 51" by (rule le_less_trans) simp
    have "cf_full_page cf' j" if "j < n" for j
    proof (cases "j < cf_current_page_id cf")
      case True
      then have "cf_full_page cf1 j" using inv1 by (simp add: cf_inv_def cf1)
      then show ?thesis by (simp add: cf_full_page_def fl) (simp add: cf' cf1)
    next
      case False
      then have "j = cf_current_page_id cf" using that less by blast
      moreover have "cf_ok cf (cf_current_page cf)" using inv by (simp add: cf_inv_def)
      ultimately show ?thesis using full cur by (simp add: cf_full_page_def fl) (simp add: cf')
    qed
    moreover have "cf_pool_ok cf'"
      by (rule cf_pool_file[of cf1 d])
        (use inv1 less un in \<open>simp_all add: cf_inv_def cf_file_def cf' cf1 word_le_nat_alt\<close>)
    moreover have "length (cf_file cf') \<le> dm_offset n + PAGE_SIZE"
      using inv1 un n51 cf_inv_small(2)[OF inv order_refl]
      by (simp add: cf_inv_def fl dm_offset_nowrap cf1)
    ultimately have "cf_inv cf'"
      using inv i n50 by (simp add: cf_inv_def) (simp add: cf' cf_page_ok_def)
    moreover have "cf_pages cf' = cf_pages cf1 @ [page_view pg]"
    proof -
      have "word_of_nat (unat (cf_current_page_id cf)) = cf_current_page_id cf" by simp
      then show ?thesis using un cur
        by (simp add: cf_pages_def fl) (simp add: cf' cf1 cur)
    qed
    ultimately show ?thesis using p1 i(2) un by (simp add: cf_vals_def) (simp add: cf')
  qed
qed

text \<open>Replacing the values of the current page.\<close>

lemma cf_inv_current:
  assumes inv: "cf_inv cf" and of: "cp_of (cf_type cf) (cf_nullable cf) (cf_max_len cf) cp"
    and z: "cp_zone_ok cp" and cf': "cf' = cf\<lparr>cf_current_page := page_update cp (cf_current_page cf),
      cf_current_dirty := b\<rparr>" and b: "b \<or> cp = page_view (cf_current_page cf) \<and> b = cf_current_dirty cf"
  shows "cf_inv cf' \<and> cf_vals cf' = concat (map cp_vals (butlast (cf_pages cf))) @ cp_vals cp"
proof -
  have wf: "page_wf (cf_current_page cf)" using inv by (simp add: cf_inv_def cf_page_ok_def)
  note u = page_view_update[OF wf cp_of_sized[OF of]]
  have "cf_pool_ok cf'" using inv by (simp add: cf_inv_def cf_pool_ok_def cf' cf_file_def)
  moreover have "cf_full_page cf' j" if "j < cf_current_page_id cf" for j
    using inv that by (simp add: cf_inv_def cf_full_page_def cf' cf_file_def)
  ultimately have "cf_inv cf'"
    using inv u of z b page_update_view[OF wf] by (auto simp: cf_inv_def cf' cf_page_ok_def cf_file_def)
  moreover have "cf_pages cf' = butlast (cf_pages cf) @ [cp]"
    using u by (simp add: cf_pages_def cf' cf_file_def)
  ultimately show ?thesis by (simp add: cf_vals_def)
qed

text \<open>The typed appends of a page agree with the dispatch of \<open>append_bulk\<close>.\<close>

definition admissible :: "type_id \<Rightarrow> bool \<Rightarrow> u16 \<Rightarrow> val \<Rightarrow> bool" where
  "admissible t nullable max_len v \<longleftrightarrow> (if v = VNull then nullable else storable t max_len v)"

definition appends :: "type_id \<Rightarrow> val \<Rightarrow> (column_page \<Rightarrow> unit result \<times> column_page) \<Rightarrow> bool" where
  "appends t v f \<longleftrightarrow> (\<forall>p. cp_type p = t \<longrightarrow> f p = cp_append_value t v p
     \<or> (\<exists>e. f p = (err e, p)) \<and> \<not> is_ok (fst (cp_append_value t v p)))"

lemma appends_typed:
  "appends t VNull cp_append_null" "appends t (VI32 x) (cp_append_i32 x)"
  "appends t (VI64 y) (cp_append_i64 y)" "appends t (VF64 y) (cp_append_f64 y)"
  "appends t (VStr s) (cp_append_str s)" "appends t (VBool b) (cp_append_bool b)"
  "appends t (VDate x) (cp_append_date x)" "appends t (VTimestamp y) (cp_append_timestamp y)"
  "appends t v (cp_append_value t v)"
  by (cases t; auto simp: appends_def cp_append_value_def cp_append_defs)+

lemma cp_append_value_result:
  assumes of: "cp_of t nullable max_len p" and r: "cp_append_value t v p = (r, q)"
  shows "is_ok r \<longleftrightarrow> admissible t nullable max_len v \<and> \<not> cp_is_full p"
proof -
  have cap: "cp_type p = t" "cp_max_len p = max_len" "cp_inv p"
    "cp_null_bitmap_bytes p \<noteq> 0 \<longleftrightarrow> nullable" using of by (simp_all add: cp_of_def)
  show ?thesis
  proof (cases "v = VNull")
    case True
    then show ?thesis using r cap
      by (auto simp: cp_append_value_def cp_append_null_def admissible_def cp_is_full_def split: if_splits)
  next
    case False
    then show ?thesis
      using cp_append_value_rejects[OF cap(1) False] cp_append_value_ok[OF cap(3,1), of v] r cap(2)
      by (cases "storable t max_len v \<and> \<not> cp_value_count p \<ge> cp_capacity p")
         (auto simp: admissible_def cp_is_full_def)
  qed
qed

lemma appends_spec:
  assumes a: "appends t v f" and of: "cp_of t nullable max_len p" and z: "cp_zone_ok p"
    and r: "f p = (r, q)"
  shows "cp_of t nullable max_len q \<and> cp_zone_ok q
    \<and> (is_ok r \<longleftrightarrow> admissible t nullable max_len v \<and> \<not> cp_is_full p)
    \<and> cp_vals q = (if is_ok r then cp_vals p @ [v] else cp_vals p) \<and> (\<not> is_ok r \<longrightarrow> q = p)"
proof -
  obtain r' q' where v: "cp_append_value t v p = (r', q')" by fastforce
  have t: "cp_type p = t" and cap: "unat (cp_capacity p) = column_page_capacity t nullable max_len"
    using of by (simp_all add: cp_of_def)
  note ok = cp_append_value_result[OF of v] and st = cp_step[OF of z, of "PAppend v"]
  consider "r = r'" "q = q'" | "\<not> is_ok r" "\<not> is_ok r'" "q = p"
    using a t r v unfolding appends_def by force
  then show ?thesis
  proof cases
    case 1
    have "length (cp_vals p) < column_page_capacity t nullable max_len \<longleftrightarrow> \<not> cp_is_full p"
      using cap by (simp add: cp_is_full_def word_le_nat_alt not_le)
    moreover have "q = p" if "\<not> is_ok r"
      using that 1 v cp_append_value_err[of t v p _ q'] by (cases r) auto
    ultimately show ?thesis using st v ok 1 by (auto simp: admissible_def)
  next
    case 2
    then show ?thesis using of z ok by simp
  qed
qed

section \<open>Appending\<close>

abbreviation cf_admits :: "column_file \<Rightarrow> val \<Rightarrow> bool" where
  "cf_admits cf \<equiv> admissible (cf_type cf) (cf_nullable cf) (cf_max_len cf)"

text \<open>\<open>cf_evolves\<close>: the configuration is kept and the file grew by at most \<open>n\<close> pages.\<close>

definition cf_evolves :: "nat \<Rightarrow> column_file \<Rightarrow> column_file \<Rightarrow> bool" where
  "cf_evolves n cf cf' \<longleftrightarrow> cf_type cf' = cf_type cf \<and> cf_nullable cf' = cf_nullable cf
     \<and> cf_max_len cf' = cf_max_len cf
     \<and> unat (cf_current_page_id cf') \<le> n + unat (cf_current_page_id cf)"

lemma cf_evolves_trans: "cf_evolves m a b \<Longrightarrow> cf_evolves n b c \<Longrightarrow> cf_evolves (m + n) a c"
  by (auto simp: cf_evolves_def)

lemma cf_inv_caps:
  assumes "cf_inv cf"
  shows "cp_of (cf_type cf) (cf_nullable cf) (cf_max_len cf) (page_view (cf_current_page cf))"
    "cp_zone_ok (page_view (cf_current_page cf))"
    "cp_capacity (page_view (cf_current_page cf)) = cf_capacity cf"
    "cp_value_count (page_view (cf_current_page cf)) \<le> cf_capacity cf"
    "cf_vals cf = concat (map cp_vals (butlast (cf_pages cf))) @ cp_vals (page_view (cf_current_page cf))"
proof -
  let ?cp = "page_view (cf_current_page cf)"
  show of: "cp_of (cf_type cf) (cf_nullable cf) (cf_max_len cf) ?cp" and "cp_zone_ok ?cp"
    using assms by (simp_all add: cf_inv_def cf_page_ok_def)
  have "unat (cp_capacity ?cp) = unat (cf_capacity cf)" using assms of by (simp add: cf_inv_def cp_of_def)
  then show cap: "cp_capacity ?cp = cf_capacity cf" by (simp add: word_unat_eq_iff)
  show "cp_value_count ?cp \<le> cf_capacity cf"
    using of cap by (simp add: cp_of_def cp_inv_def cp_layout_def)
  show "cf_vals cf = concat (map cp_vals (butlast (cf_pages cf))) @ cp_vals ?cp"
    by (simp add: cf_vals_def cf_pages_def)
qed

lemma cf_ensure_room_spec:
  assumes inv: "cf_inv cf" and r: "cf_ensure_room cf = (r, cf')"
  shows "cf_inv cf' \<and> cf_vals cf' = cf_vals cf \<and> cf_evolves 1 cf cf'
    \<and> (is_ok r \<longrightarrow> \<not> cp_is_full (page_view (cf_current_page cf')))"
proof (cases "cp_is_full (page_view (cf_current_page cf))")
  case False
  then show ?thesis using inv r by (simp add: cf_ensure_room_def cf_evolves_def)
next
  case True
  then have "cp_value_count (page_view (cf_current_page cf)) = cf_capacity cf"
    using cf_inv_caps(3,4)[OF inv] by (simp add: cp_is_full_def)
  with True r have rot: "cf_inv cf'" "cf_vals cf' = cf_vals cf" "cf_evolves 1 cf cf'"
    "is_ok r \<Longrightarrow> cp_vals (page_view (cf_current_page cf')) = []"
    using cf_rotate_spec[OF inv, of r cf']
    by (simp_all add: cf_ensure_room_def cf_evolves_def)
  have "\<not> cp_is_full (page_view (cf_current_page cf'))" if "is_ok r"
  proof -
    have "cp_value_count (page_view (cf_current_page cf')) = 0"
      using rot(4)[OF that] by (metis length_cp_vals list.size(3) unat_eq_zero)
    moreover have "0 < cf_capacity cf'" using rot(1) by (simp add: cf_inv_def word_less_nat_alt)
    ultimately show ?thesis using cf_inv_caps(3)[OF rot(1)] by (simp add: cp_is_full_def)
  qed
  with rot show ?thesis by blast
qed

lemma cf_append_with_spec:
  assumes inv: "cf_inv cf" and a: "appends (cf_type cf) v f" and r: "cf_append_with f cf = (r, cf')"
  shows "cf_inv cf' \<and> cf_evolves 1 cf cf'
    \<and> cf_vals cf' = (if is_ok r then cf_vals cf @ [v] else cf_vals cf)
    \<and> (is_ok r \<longrightarrow> cf_admits cf v)"
proof -
  obtain e cf1 where e: "cf_ensure_room cf = (e, cf1)" by fastforce
  note s1 = cf_ensure_room_spec[OF inv e]
  show ?thesis
  proof (cases e)
    case (Inl m)
    then show ?thesis using s1 r e by (auto simp: cf_append_with_def)
  next
    case (Inr u)
    let ?p = "page_view (cf_current_page cf1)"
    obtain fr cp where f: "f ?p = (fr, cp)" by fastforce
    have conf: "cf_type cf1 = cf_type cf" "cf_nullable cf1 = cf_nullable cf"
      "cf_max_len cf1 = cf_max_len cf" using s1 by (auto simp: cf_evolves_def)
    note of = cf_inv_caps(1,2)[of cf1]
    have sp: "cp_of (cf_type cf1) (cf_nullable cf1) (cf_max_len cf1) cp" "cp_zone_ok cp"
      "is_ok fr \<longleftrightarrow> cf_admits cf v" "cp_vals cp = (if is_ok fr then cp_vals ?p @ [v] else cp_vals ?p)"
      "\<not> is_ok fr \<Longrightarrow> cp = ?p"
      using appends_spec[of "cf_type cf1" v f "cf_nullable cf1" "cf_max_len cf1" ?p fr cp] a f of s1 Inr conf
      by auto
    define b where "b = (is_ok fr \<or> cf_current_dirty cf1)"
    have cf': "cf' = cf1\<lparr>cf_current_page := page_update cp (cf_current_page cf1), cf_current_dirty := b\<rparr>
        \<and> is_ok r = is_ok fr"
    proof (cases fr)
      case (Inl m)
      then have "b = cf_current_dirty cf1" by (simp add: b_def)
      moreover have "cf' = cf1\<lparr>cf_current_page := page_update cp (cf_current_page cf1)\<rparr>" "r = err m"
        using r e \<open>e = Inr u\<close> f Inl by (simp_all add: cf_append_with_def)
      ultimately show ?thesis using Inl by simp
    next
      case (Inr u')
      then show ?thesis using r e \<open>e = Inr u\<close> f by (auto simp: cf_append_with_def b_def)
    qed
    have "b \<or> cp = ?p \<and> b = cf_current_dirty cf1" using sp(5) by (auto simp: b_def)
    from cf_inv_current[OF _ sp(1,2) conjunct1[OF cf'] this] s1
    have "cf_inv cf'" "cf_vals cf' = concat (map cp_vals (butlast (cf_pages cf1))) @ cp_vals cp" by auto
    moreover have "cf_vals cf = concat (map cp_vals (butlast (cf_pages cf1))) @ cp_vals ?p"
      using cf_inv_caps(5)[of cf1] s1 by auto
    ultimately show ?thesis using sp cf' s1 by (auto simp: cf_evolves_def)
  qed
qed

lemma cf_append_bulk_spec:
  assumes "cf_inv cf" "cf_append_bulk vs cf = (r, cf')"
  shows "cf_inv cf' \<and> cf_evolves (length vs) cf cf'
    \<and> (\<exists>n \<le> length vs. cf_vals cf' = cf_vals cf @ take n vs \<and> (\<forall>v \<in> set (take n vs). cf_admits cf v)
         \<and> (is_ok r \<longleftrightarrow> n = length vs))"
  using assms
proof (induction vs arbitrary: cf)
  case Nil
  then show ?case by (auto simp: cf_evolves_def)
next
  case (Cons v vs)
  obtain r1 cf1 where a: "cf_append_with (cp_append_value (cf_type cf) v) cf = (r1, cf1)" by fastforce
  note s = cf_append_with_spec[OF Cons.prems(1) appends_typed(9) a]
  show ?case
  proof (cases r1)
    case (Inl e)
    then have "r = err e" "cf' = cf1" using Cons.prems(2) a by simp_all
    with Inl s show ?thesis by (auto simp: cf_evolves_def intro!: exI[of _ 0])
  next
    case (Inr u)
    then have b: "cf_append_bulk vs cf1 = (r, cf')" using Cons.prems(2) a by simp
    from Cons.IH[OF _ b] s obtain n where n: "n \<le> length vs" "cf_inv cf'"
      "cf_evolves (length vs) cf1 cf'" "cf_vals cf' = cf_vals cf1 @ take n vs"
      "\<forall>v \<in> set (take n vs). cf_admits cf1 v" "is_ok r \<longleftrightarrow> n = length vs" by auto
    with s Inr cf_evolves_trans[of 1 cf cf1 "length vs" cf'] show ?thesis
      by (auto simp: cf_evolves_def intro!: exI[of _ "Suc n"])
  qed
qed

section \<open>Reading\<close>

lemma bp_fetch_frame:
  assumes "bp_fetch_page rops pid bp dm = (res, bp', dm')"
  shows "q \<noteq> pid \<Longrightarrow> bp_page_table bp q = None \<Longrightarrow> bp_page_table bp' q = None"
    "length (bp_slab bp') = length (bp_slab bp)"
  using assms
  by (auto simp: bp_fetch_page_def bp_acquire_fresh_slot_def bp_touch_def Let_def
      split: option.splits prod.splits sum.splits list.splits)

lemma bp_unpin_frame:
  assumes "bp_unpin_page rops pid bp = (res, bp')"
  shows "bp_page_table bp' = bp_page_table bp" "length (bp_slab bp') = length (bp_slab bp)"
  using assms by (auto simp: bp_unpin_page_def Let_def split: option.splits if_splits)

lemma bp_where_None:
  assumes "bp_ok rinv fr tr ev f bp"
  shows "bp_where bp q = None \<longleftrightarrow> bp_page_table bp q = None"
proof -
  have inv: "bp_inv {} (tr (bp_replacer bp)) (ev (bp_replacer bp)) f bp" using assms by (simp add: bp_ok_def)
  show ?thesis
  proof (cases "bp_page_table bp q")
    case (Some s)
    from bp_inv_found[OF inv Some] obtain p where "bp_fresh_slots bp ! s = Some p" by metis
    with Some show ?thesis by (simp add: bp_where_def)
  qed (simp add: bp_where_def)
qed

lemma cf_inv_pool:
  assumes "cf_inv cf" "dm_file disk = cf_file cf" "dm_next_page_id disk = dm_next_page_id (cf_disk cf)"
    and "cf_pool_ok (cf\<lparr>cf_pool := pool, cf_disk := disk\<rparr>)"
  shows "cf_inv (cf\<lparr>cf_pool := pool, cf_disk := disk\<rparr>)"
    "cf_pages (cf\<lparr>cf_pool := pool, cf_disk := disk\<rparr>) = cf_pages cf"
  using assms by (simp_all add: cf_inv_def cf_full_page_def cf_file_def cf_pages_def)

lemma bp_fetch_next_page_id:
  assumes "bp_fetch_page rops pid bp dm = (res, bp', dm')"
  shows "dm_next_page_id dm' = dm_next_page_id dm"
proof -
  have "dm_read_page pid out dm = (r, pg, dm1) \<Longrightarrow> dm_next_page_id dm1 = dm_next_page_id dm" for out r pg dm1
    using dm_read_page_file(2)[of pid out dm] by simp
  then show ?thesis
    using assms by (auto simp: bp_fetch_page_def Let_def split: option.splits prod.splits sum.splits)
qed

text \<open>A fetch on behalf of \<open>read_page\<close>, with the unpinning that ends it.\<close>

lemma cf_fetch_spec:
  assumes ok: "cf_pool_ok cf" and pid: "pid < cf_current_page_id cf"
    and f: "bp_fetch_page lruk_ops pid (cf_pool cf) (cf_disk cf) = (res, pool, disk)"
  shows "dm_file disk = cf_file cf"
    "res = err e \<Longrightarrow> cf_pool_ok (cf\<lparr>cf_pool := pool, cf_disk := disk\<rparr>)"
    "res = ok p \<Longrightarrow> cf_pool_ok (cf\<lparr>cf_pool := snd (bp_unpin_page lruk_ops pid pool), cf_disk := disk\<rparr>)
      \<and> dm_stored (cf_file cf) pid = Some (page_content (bp_slab pool ! p))"
proof -
  have pok: "lruk_pool_ok (dm_file (cf_disk cf)) (cf_pool cf)"
    and pins: "bp_pins (cf_pool cf) q = 0" and ne: "bp_slab (cf_pool cf) \<noteq> []" for q
    using ok by (auto simp: cf_pool_ok_def cf_file_def)
  have "bp_pins (cf_pool cf) pid < PIN_MAX" by (simp add: pins)
  note s = lruk.fetch_spec[OF pok f this] and fr = bp_fetch_frame[OF f]
  show fl: "dm_file disk = cf_file cf" using s(2) by (simp add: cf_file_def)
  have below: "q < cf_current_page_id cf" if "bp_page_table pool q \<noteq> None" for q
    using that fr(1)[of q] pid ok bp_where_None[OF pok, of q] by (cases "q = pid") (auto simp: cf_pool_ok_def)
  have len: "bp_slab pool \<noteq> []" using fr(2) ne by auto
  show "cf_pool_ok (cf\<lparr>cf_pool := pool, cf_disk := disk\<rparr>)" if "res = err e"
    using s(1,2,4) that pins below len bp_where_None[OF s(1)] by (simp add: cf_pool_ok_def cf_file_def)
  assume r: "res = ok p"
  obtain u pool' where u: "bp_unpin_page lruk_ops pid pool = (u, pool')" by fastforce
  have "bp_pins pool = (bp_pins (cf_pool cf))(pid := 1)" using s(5)[OF r] pins by simp
  then have "bp_pins pool' q = 0" "lruk_pool_ok (dm_file disk) pool'" for q
    using lruk.unpin_spec[OF s(1) u] pins by auto
  moreover have "bp_where pool' q \<noteq> None \<Longrightarrow> q < cf_current_page_id cf" for q
    using bp_unpin_frame(1)[OF u] below[of q] by (cases "bp_page_table pool q") (auto simp: bp_where_def)
  moreover have "bp_slab pool' \<noteq> []" using bp_unpin_frame(2)[OF u] len by auto
  ultimately show "cf_pool_ok (cf\<lparr>cf_pool := snd (bp_unpin_page lruk_ops pid pool), cf_disk := disk\<rparr>)
      \<and> dm_stored (cf_file cf) pid = Some (page_content (bp_slab pool ! p))"
    using s(5)[OF r] u by (simp add: cf_pool_ok_def cf_file_def)
qed

lemma nth_cf_pages:
  "i < unat (cf_current_page_id cf) \<Longrightarrow>
     cf_pages cf ! i = page_view (the (dm_stored (cf_file cf) (word_of_nat i)))"
  "cf_pages cf ! unat (cf_current_page_id cf) = page_view (cf_current_page cf)"
  by (simp_all add: cf_pages_def nth_append)

lemma length_cf_pages [simp]: "length (cf_pages cf) = Suc (unat (cf_current_page_id cf))"
  by (simp add: cf_pages_def)

lemma bp_fetch_out_of_range:
  assumes "bp_page_table bp pid = None" "pid \<ge> dm_next_page_id dm"
    "bp_fetch_page rops pid bp dm = (res, bp', dm')"
  shows "\<not> is_ok res"
  using assms by (auto simp: bp_fetch_page_def dm_read_page_def Let_def split: prod.splits sum.splits)

lemma cf_read_page_spec:
  assumes inv: "cf_inv cf" and pid: "pid \<le> cf_current_page_id cf" and r: "cf_read_page pid cf = (r, cf')"
  shows "cf_inv cf' \<and> cf_pages cf' = cf_pages cf \<and> cf_evolves 0 cf cf'
    \<and> cf_current_page_id cf' = cf_current_page_id cf \<and> cf_capacity cf' = cf_capacity cf
    \<and> (\<forall>p. r = ok p \<longrightarrow> page_view p = cf_pages cf ! unat pid)"
proof (cases "pid = cf_current_page_id cf")
  case True
  then show ?thesis using inv r by (auto simp: cf_read_page_def nth_cf_pages cf_evolves_def)
next
  case False
  then have less: "pid < cf_current_page_id cf" using pid by simp
  obtain res pool disk where f: "bp_fetch_page lruk_ops pid (cf_pool cf) (cf_disk cf) = (res, pool, disk)"
    using prod_cases3 by blast
  have ok: "cf_pool_ok cf" using inv by (simp add: cf_inv_def)
  note s = cf_fetch_spec[OF ok less f]
  have n: "dm_next_page_id disk = dm_next_page_id (cf_disk cf)"
    by (rule bp_fetch_next_page_id[OF f])
  show ?thesis
  proof (cases res)
    case (Inl e)
    then have "r = err e" "cf' = cf\<lparr>cf_pool := pool, cf_disk := disk\<rparr>"
      using r f False by (simp_all add: cf_read_page_def)
    then show ?thesis using cf_inv_pool[OF inv s(1) n s(2)[OF Inl]] by (auto simp: cf_evolves_def)
  next
    case (Inr p)
    let ?pool = "snd (bp_unpin_page lruk_ops pid pool)"
    have "r = ok (bp_slab pool ! p)" "cf' = cf\<lparr>cf_pool := ?pool, cf_disk := disk\<rparr>"
      using r f False Inr by (simp_all add: cf_read_page_def)
    moreover have "cf_pages cf ! unat pid = page_view (bp_slab pool ! p)"
      using s(3)[OF Inr] less nth_cf_pages(1)[of "unat pid" cf] by (simp add: word_less_nat_alt)
    ultimately show ?thesis
      using cf_inv_pool[OF inv s(1) n conjunct1[OF s(3)[OF Inr]]] by (simp add: cf_evolves_def)
  qed
qed

lemma dm_read_page_stored:
  assumes "dm_stored (dm_file dm) pid = Some p" "dm_faults dm = []" "pid < dm_next_page_id dm"
  shows "\<exists>q. dm_read_page pid out dm = (ok (), q, dm)"
proof -
  let ?d = "dm_block (dm_file dm) pid"
  have d: "length ?d = 8192" "pg_page_id (page_set_data ?d page_new) = pid"
    "pg_checksum (page_set_data ?d page_new) = xxhash64 (pg_payload (page_set_data ?d page_new)) 0"
    using assms(1) by (auto simp: dm_stored_def Let_def split: if_splits)
  have "page_set_data (?d @ r) out = page_set_data ?d out" for r
    using d(1) by (simp add: page_set_data_def slice_append_short nth_append)
  moreover have "pg_page_id (page_set_data ?d out) = pid"
    "pg_checksum (page_set_data ?d out) = xxhash64 (pg_payload (page_set_data ?d out)) 0"
    using d(2,3) by (simp_all add: page_set_data_def)
  moreover have "sys_pread 8192 (dm_off_t pid) dm = (?d, dm)"
    using assms(2) by (simp add: sys_pread_def dm_block_def dm_offset_def)
  ultimately show ?thesis using assms(3) d(1) by (simp add: dm_read_page_def Let_def not_le)
qed

lemma cf_read_page_succeeds:
  assumes inv: "cf_inv cf" and pid: "pid \<le> cf_current_page_id cf" and nf: "dm_faults (cf_disk cf) = []"
  shows "\<exists>p. fst (cf_read_page pid cf) = ok p"
proof (cases "pid = cf_current_page_id cf")
  case True
  then show ?thesis by (simp add: cf_read_page_def)
next
  case False
  then have less: "pid < cf_current_page_id cf" using pid by simp
  obtain res pool disk where f: "bp_fetch_page lruk_ops pid (cf_pool cf) (cf_disk cf) = (res, pool, disk)"
    using prod_cases3 by blast
  have ok: "lruk_pool_ok (dm_file (cf_disk cf)) (cf_pool cf)" "\<And>q. bp_pins (cf_pool cf) q = 0"
    "bp_slab (cf_pool cf) \<noteq> []" using inv by (auto simp: cf_inv_def cf_pool_ok_def cf_file_def)
  have "\<exists>p. res = ok p"
  proof (cases res)
    case (Inl e)
    let ?bp = "cf_pool cf"
    have inv': "bp_inv {} (lk_tracked (bp_replacer ?bp)) (lk_evictable (bp_replacer ?bp)) (dm_file (cf_disk cf)) ?bp"
      using ok(1) by (simp add: bp_ok_def)
    have "\<not> (bp_fresh_slots ?bp ! 0 = Some p \<and> sint (pg_pin_count (bp_slab ?bp ! p)) > 0)" for p
    proof
      assume p: "bp_fresh_slots ?bp ! 0 = Some p \<and> sint (pg_pin_count (bp_slab ?bp ! p)) > 0"
      then have "bp_page_table ?bp (pg_page_id (bp_slab ?bp ! p)) = Some 0"
        using bp_inv_used(1)[OF inv', of 0 p] ok(3) by (simp add: bp_used_ok_def)
      then have "bp_pins ?bp (pg_page_id (bp_slab ?bp ! p)) > 0"
        using p by (simp add: bp_pins_def bp_where_def)
      then show False using ok(2) by simp
    qed
    then obtain out where out: "\<not> is_ok (fst (dm_read_page pid out (cf_disk cf)))"
      using lruk.fetch_fails[OF ok(1) f[unfolded Inl]] ok(3) by (metis length_greater_0_conv)
    obtain p where "dm_stored (dm_file (cf_disk cf)) pid = Some p"
      using inv less by (auto simp: cf_inv_def cf_full_page_def cf_file_def)
    moreover have "pid < dm_next_page_id (cf_disk cf)"
      using inv less unat_inc[OF cf_inv_small(1)[OF inv]]
      by (simp add: cf_inv_def word_less_nat_alt)
    ultimately show ?thesis using dm_read_page_stored[OF _ nf, of pid p out] out by auto
  qed simp
  then show ?thesis using f False by (auto simp: cf_read_page_def)
qed

lemma concat_blocks_nth:
  assumes "\<forall>b \<in> set (butlast bs). length b = c" "0 < c" "i < length (concat bs)" "length (last bs) \<le> c"
  shows "i div c < length bs \<and> i mod c < length (bs ! (i div c)) \<and> concat bs ! i = bs ! (i div c) ! (i mod c)"
  using assms
proof (induction bs arbitrary: i)
  case (Cons b bs)
  show ?case
  proof (cases "bs = []")
    case True
    then show ?thesis using Cons.prems
      by (cases "i < c") (auto simp: nth_append)
  next
    case False
    then have b: "length b = c" using Cons.prems by simp
    show ?thesis
    proof (cases "i < c")
      case True
      then show ?thesis using b by (simp add: nth_append)
    next
      case ge: False
      have "(i - c) div c < length bs \<and> (i - c) mod c < length (bs ! ((i - c) div c))
          \<and> concat bs ! (i - c) = bs ! ((i - c) div c) ! ((i - c) mod c)"
        using Cons.prems False ge b by (intro Cons.IH) (auto split: if_splits)
      moreover have "i div c = Suc ((i - c) div c)" "i mod c = (i - c) mod c"
        using ge Cons.prems(2) by (simp_all add: le_div_geq le_mod_geq)
      ultimately show ?thesis using b ge by (simp add: nth_append)
    qed
  qed
qed simp

lemma cf_page_of:
  assumes inv: "cf_inv cf" and j: "j \<le> unat (cf_current_page_id cf)"
  shows "cp_of (cf_type cf) (cf_nullable cf) (cf_max_len cf) (cf_pages cf ! j)"
    "j < unat (cf_current_page_id cf) \<Longrightarrow> length (cp_vals (cf_pages cf ! j)) = unat (cf_capacity cf)"
proof -
  show full: "length (cp_vals (cf_pages cf ! j)) = unat (cf_capacity cf)"
    if "j < unat (cf_current_page_id cf)"
    using inv that word_of_nat_below[OF that]
    by (auto simp: cf_inv_def cf_full_page_def nth_cf_pages)
  show "cp_of (cf_type cf) (cf_nullable cf) (cf_max_len cf) (cf_pages cf ! j)"
  proof (cases "j = unat (cf_current_page_id cf)")
    case True
    then show ?thesis using cf_inv_caps(1)[OF inv] by (simp add: nth_cf_pages)
  next
    case False
    then have "j < unat (cf_current_page_id cf)" using j by simp
    from word_of_nat_below[OF this] this show ?thesis using inv
      by (auto simp: cf_inv_def cf_full_page_def nth_cf_pages cf_page_ok_def)
  qed
qed

lemma cf_vals_nth:
  assumes inv: "cf_inv cf" and i: "i < length (cf_vals cf)"
  defines "c \<equiv> unat (cf_capacity cf)"
  shows "i div c \<le> unat (cf_current_page_id cf)"
    "i mod c < unat (cp_value_count (cf_pages cf ! (i div c)))"
    "cf_vals cf ! i = cp_vals (cf_pages cf ! (i div c)) ! (i mod c)"
proof -
  let ?bs = "map cp_vals (cf_pages cf)"
  have "0 < c" using inv by (simp add: cf_inv_def c_def)
  moreover have "\<forall>b \<in> set (butlast ?bs). length b = c"
    using cf_page_of(2)[OF inv] by (auto simp: in_set_conv_nth nth_butlast c_def)
  moreover have "length (last ?bs) \<le> c"
    using cf_inv_caps(4)[OF inv] by (simp add: cf_pages_def c_def word_le_nat_alt)
  ultimately have *: "i div c < length ?bs \<and> i mod c < length (?bs ! (i div c))
      \<and> concat ?bs ! i = ?bs ! (i div c) ! (i mod c)"
    using i by (intro concat_blocks_nth) (auto simp: cf_vals_def)
  then show "i div c \<le> unat (cf_current_page_id cf)" by simp
  with * show "i mod c < unat (cp_value_count (cf_pages cf ! (i div c)))"
    "cf_vals cf ! i = cp_vals (cf_pages cf ! (i div c)) ! (i mod c)"
    by (simp_all add: cf_vals_def less_Suc_eq_le)
qed

lemma length_cf_vals:
  assumes inv: "cf_inv cf"
  shows "length (cf_vals cf) = unat (cf_current_page_id cf) * unat (cf_capacity cf)
    + unat (cp_value_count (page_view (cf_current_page cf)))"
proof -
  have "length (concat (map cp_vals (butlast (cf_pages cf)))) = (\<Sum>p \<leftarrow> butlast (cf_pages cf). unat (cf_capacity cf))"
    using cf_page_of(2)[OF inv]
    by (auto simp: length_concat in_set_conv_nth nth_butlast comp_def intro!: arg_cong[of _ _ sum_list] map_cong)
  then show ?thesis using cf_inv_caps(5)[OF inv] by (simp add: sum_list_triv)
qed

fun cf_reads_as :: "column_file \<Rightarrow> u64 \<Rightarrow> val \<Rightarrow> bool" where
  "cf_reads_as cf i VNull = fst (cf_is_null i cf)"
| "cf_reads_as cf i (VI32 v) = (fst (cf_get_i32 i cf) = ok v)"
| "cf_reads_as cf i (VI64 v) = (fst (cf_get_i64 i cf) = ok v)"
| "cf_reads_as cf i (VF64 v) = (fst (cf_get_f64 i cf) = ok v)"
| "cf_reads_as cf i (VStr s) = (fst (cf_get_str i cf) = s)"
| "cf_reads_as cf i (VBool b) = (fst (cf_get_bool i cf) = ok b)"
| "cf_reads_as cf i (VDate v) = (fst (cf_get_date i cf) = ok v)"
| "cf_reads_as cf i (VTimestamp v) = (fst (cf_get_timestamp i cf) = ok v)"

lemma unat_capacity [simp]: "unat (ucast (w :: u16) :: u64) = unat w"
proof -
  have "unat w < 2 ^ 64" using unat_u16_less[of w] by simp
  then show ?thesis by (simp add: unsigned_ucast_eq take_bit_nat_eq_self)
qed

lemma cf_get_typed_page:
  "cf_read_page (row div ucast (cf_capacity cf)) cf = (ok p, cf1) \<Longrightarrow>
   cf_get_typed g row cf = (g (unat (row mod ucast (cf_capacity cf))) (page_view p), cf1)"
  by (simp add: cf_get_typed_def Let_def)

lemma cf_get_row:
  assumes inv: "cf_inv cf" and nf: "dm_faults (cf_disk cf) = []" and i: "unat row < length (cf_vals cf)"
  shows "cf_reads_as cf row (cf_vals cf ! unat row)"
proof -
  define c where "c = unat (cf_capacity cf)"
  define pn where "pn = row div ucast (cf_capacity cf)"
  have pn: "unat pn = unat row div c" and slot: "unat (row mod ucast (cf_capacity cf)) = unat row mod c"
    by (simp_all add: pn_def c_def unat_div unat_mod)
  note v = cf_vals_nth[OF inv i, folded c_def]
  have le: "pn \<le> cf_current_page_id cf" using v(1) pn by (simp add: word_le_nat_alt)
  obtain p cf1 where rd: "cf_read_page pn cf = (ok p, cf1)"
    using cf_read_page_succeeds[OF inv le nf] by (metis prod.collapse)
  have view: "page_view p = cf_pages cf ! (unat row div c)"
    using cf_read_page_spec[OF inv le rd] pn by simp
  have of: "cp_of (cf_type cf) (cf_nullable cf) (cf_max_len cf) (page_view p)"
    using cf_page_of(1)[OF inv v(1)] view by simp
  have reads: "cp_reads_as (page_view p) (unat row mod c) (cf_vals cf ! unat row)"
    using cp_reads_back[of "page_view p" "unat row mod c"] of v view by (simp add: cp_of_def cp_inv_def)
  note get = cf_get_typed_page[OF rd[unfolded pn_def], unfolded slot]
  have inr: "\<not> dm_next_page_id (cf_disk cf) \<le> pn"
    using inv le unat_inc[OF cf_inv_small(1)[OF inv]] by (simp add: cf_inv_def word_le_nat_alt)
  show ?thesis
    using reads inr
    by (cases "cf_vals cf ! unat row")
       (auto simp: get cf_get_i32_def cf_get_i64_def cf_get_f64_def cf_get_bool_def cf_get_date_def
         cf_get_timestamp_def cf_get_str_def cf_is_null_def pn_def)
qed

section \<open>Creating and reopening\<close>

lemma fresh_pool_ok: "cf_pool cf = fresh_pool \<Longrightarrow> cf_pool_ok cf"
  using lruk_pool_new[of 2 "cf_file cf" POOL_FRESH_CAPACITY]
  by (simp add: cf_pool_ok_def lruk_pool_def bp_new_def bp_where_def bp_pins_def POOL_FRESH_CAPACITY_def)

lemma type_size_capacity: "0 < column_page_capacity t nullable max_len \<Longrightarrow> 0 < type_size t max_len"
  by (auto simp: column_page_capacity_def Let_def split: if_splits)

lemma capacity_word:
  "unat (word_of_nat (column_page_capacity t nullable max_len) :: u16)
     = column_page_capacity t nullable max_len"
  using capacity_le_budget[of t nullable max_len] by (intro unat_of_nat_u16) simp

lemma dm_open_next:
  "dm_open path f faults = ok disk \<Longrightarrow>
   dm_file disk = f \<and> dm_next_page_id disk = word_of_nat (length f div PAGE_SIZE)"
  by (auto simp: dm_open_def split: list.splits io_outcome.splits)

lemma cf_create_spec:
  assumes "cf_create path t nullable max_len f faults = (ok cf, f')" "length f < PAGE_SIZE"
    "0 < column_page_capacity t nullable max_len"
  shows "cf_inv cf \<and> cf_vals cf = [] \<and> cf_file cf = f' \<and> cf_current_page_id cf = 0
    \<and> cf_type cf = t \<and> cf_nullable cf = nullable \<and> cf_max_len cf = max_len"
proof -
  obtain disk disk1 disk2 pid u where d: "dm_open path f faults = ok disk"
    "dm_allocate_page disk = (ok pid, disk1)"
    "dm_write_page (page_init t nullable max_len (page_reset pid page_new)) disk1 = (ok u, disk2)"
    and cf: "cf = \<lparr>cf_disk = disk2, cf_pool = fresh_pool, cf_type = t, cf_nullable = nullable,
       cf_capacity = word_of_nat (column_page_capacity t nullable max_len),
       cf_max_len = max_len,
       cf_current_page = page_init t nullable max_len (page_reset pid page_new),
       cf_current_page_id = pid, cf_current_dirty = False\<rparr>" "f' = dm_file disk2"
    using assms(1) by (auto simp: cf_create_def Let_def split: if_splits sum.splits prod.splits)
  define pg where "pg = page_init t nullable max_len (page_reset pid page_new)"
  have next0: "dm_next_page_id disk = 0" "dm_file disk = f"
    using dm_open_next[OF d(1)] assms(2) by simp_all
  obtain v where a: "dm_write_page (page_reset 0 page_new) (disk\<lparr>dm_next_page_id := 1\<rparr>) = (ok v, disk1)" "pid = 0"
    using d(2) next0 by (auto simp: dm_allocate_page_def Let_def split: prod.splits sum.splits)
  note i = page_init_ok[OF assms(3) page_wf_reset[of 0 page_new]]
  have wf: "page_wf pg" and id0: "pg_page_id pg = 0" using i a(2) by (simp_all add: pg_def cf_page_ok_def)
  have w1: "dm_next_page_id disk1 = 1" "length (dm_file disk1) = 8192"
    using dm_write_page_stored(2,3)[of "page_reset 0 page_new" _ disk1] a(1) assms(2) next0
    by (auto simp: dm_offset_nowrap)
  have w2: "dm_next_page_id disk2 = 1" "length (dm_file disk2) = 8192"
    "dm_stored (dm_file disk2) 0 = Some (page_content (dm_seal pg))"
    using dm_write_page_stored(2,3)[of pg disk1 disk2] dm_stored_after_write[of pg disk1 disk2]
      d(3) wf id0 w1 by (auto simp: dm_offset_nowrap pg_def)
  have "cf_pool_ok cf" by (rule fresh_pool_ok) (simp add: cf)
  then have "cf_inv cf"
    using i a(2) w2 assms(3) capacity_word[of t nullable max_len]
    by (simp add: cf_inv_def) (simp add: cf cf_file_def pg_def dm_offset_nowrap)
  then show ?thesis using i a(2) cf by (simp add: cf_vals_def cf_pages_def cf_file_def)
qed

lemma dm_seal_content: "dm_seal (page_content (dm_seal p)) = page_content (dm_seal p)"
  by (simp add: dm_seal_def page_content_def)

text \<open>A clean file reopens with the same pages.\<close>

lemma cf_open_spec:
  assumes inv: "cf_inv cf" and clean: "\<not> cf_current_dirty cf"
  shows "\<exists>cf'. cf_open path (cf_file cf) [] = ok cf' \<and> cf_inv cf' \<and> cf_pages cf' = cf_pages cf
    \<and> cf_type cf' = cf_type cf \<and> cf_nullable cf' = cf_nullable cf \<and> cf_max_len cf' = cf_max_len cf
    \<and> \<not> cf_current_dirty cf'"
proof -
  note small = cf_inv_small(1)[OF inv]
  let ?id = "cf_current_page_id cf" and ?f = "cf_file cf"
  define pg where "pg = page_content (dm_seal (cf_current_page cf))"
  define disk where "disk = \<lparr>dm_path = path, dm_file = ?f, dm_next_page_id = ?id + 1, dm_faults = []\<rparr>"
  have st: "dm_stored ?f ?id = Some pg" using inv clean by (simp add: cf_inv_def pg_def)
  have len: "length ?f = Suc (unat ?id) * 8192"
    using dm_stored_complete[OF st] inv cf_inv_small(2)[OF inv order_refl]
    by (simp add: cf_inv_def dm_complete_def dm_offset_nowrap)
  have idn: "word_of_nat (Suc (unat ?id)) = ?id + 1" by (simp add: add.commute)
  have nz: "?id + 1 \<noteq> 0" using unat_inc[OF small] by (metis unat_0 nat.distinct(1))
  have dn: "dm_next_page_id disk = ?id + 1" by (simp add: disk_def)
  have o: "dm_open path ?f [] = ok disk"
    by (simp add: dm_open_def len disk_def idn del: of_nat_Suc mult_Suc)
  have lt: "?id < ?id + 1" using unat_inc[OF small] by (simp add: word_less_nat_alt)
  obtain q where q: "dm_read_page ?id page_new disk = (ok (), q, disk)"
    using dm_read_page_stored[of disk ?id pg page_new] st lt by (auto simp: disk_def)
  have q': "page_content q = pg" "page_wf q"
    using dm_read_page_result(1,4)[OF q] st by (auto simp: disk_def)
  have view: "page_view q = page_view (cf_current_page cf)"
    using q'(1) by (metis page_view_content(1,2) pg_def)
  have qid: "pg_page_id q = ?id" using dm_read_page_result(4)[OF q] by simp
  have sealed: "page_content (dm_seal q) = pg"
    using q'(1) dm_seal_content[of "cf_current_page cf"]
    by (metis (no_types, lifting) dm_seal_def page_content_def page.ext_inject page.surjective
        page.update_convs pg_def)
  note c = cf_inv_caps[OF inv]
  have cap: "0 < column_page_capacity (cf_type cf) (cf_nullable cf) (cf_max_len cf)"
    using inv by (simp add: cf_inv_def)
  have conf: "cp_type (page_view q) = cf_type cf" "cp_max_len (page_view q) = cf_max_len cf"
    "cp_nullable (page_view q) = cf_nullable cf" "cp_capacity (page_view q) = cf_capacity cf"
    using c by (auto simp: view cp_of_def cp_inv_def cp_nulls_ok_def)
  define cf' where "cf' = \<lparr>cf_disk = disk, cf_pool = fresh_pool, cf_type = cf_type cf,
     cf_nullable = cf_nullable cf, cf_capacity = cf_capacity cf, cf_max_len = cf_max_len cf,
     cf_current_page = q, cf_current_page_id = ?id, cf_current_dirty = False\<rparr>"
  have "cf_open path ?f [] = ok cf'"
    using type_size_capacity[OF cap] o q nz dn
    by (simp add: cf_open_def conf cf'_def Let_def)
  moreover have "cf_pool_ok cf'" by (rule fresh_pool_ok) (simp add: cf'_def)
  moreover have "cf_full_page cf' j" if "j < ?id" for j
    using inv that by (simp add: cf_inv_def cf_full_page_def cf'_def cf_file_def disk_def)
  ultimately have "cf_inv cf'" "cf_open path ?f [] = ok cf'"
    using inv c q'(2) st sealed qid view
    by (auto simp: cf_inv_def cf'_def cf_file_def disk_def cf_page_ok_def)
  moreover have "cf_pages cf' = cf_pages cf"
    by (rule cf_pages_cong) (use view in \<open>simp_all add: cf'_def cf_file_def disk_def\<close>)
  ultimately show ?thesis by (auto simp: cf'_def)
qed

section \<open>Truncation\<close>

text \<open>The page that becomes the last one, and how many of its values stay.\<close>

lemma cf_truncate_target:
  fixes target :: u64 and cap :: u16
  assumes c: "c = unat cap" "0 < c"
  defines "rem \<equiv> ucast (target mod ucast cap) :: u16"
    and "keep \<equiv> max (if ucast (target mod ucast cap) = (0 :: u16) \<and> target > 0
                 then target div ucast cap else target div ucast cap + 1) 1"
  assumes small: "unat target < 2 ^ 63"
  shows "0 < unat keep" "unat (keep - 1) = unat keep - 1"
    "(unat keep - 1) * c + unat (if rem = 0 \<and> target > 0 then cap else rem) = unat target"
    "unat (if rem = 0 \<and> target > 0 then cap else rem) \<le> c"
    "unat keep \<le> unat target div c + 1"
proof -
  have d: "unat (target div ucast cap) = unat target div c" using c by (simp add: unat_div)
  have m: "unat (target mod ucast cap) = unat target mod c" using c by (simp add: unat_mod)
  have "unat target mod c < 65536" using c unat_u16_less[of cap] mod_less_divisor[of c "unat target"] by linarith
  then have r: "unat rem = unat target mod c"
    using m by (simp add: rem_def unsigned_ucast_eq take_bit_nat_eq_self)
  have r0: "rem = 0 \<longleftrightarrow> unat target mod c = 0" using r by (metis unat_eq_zero)
  have t0: "target > 0 \<longleftrightarrow> unat target > 0" by (simp add: word_less_nat_alt)
  have "unat target div c < 2 ^ 63" using small by (meson div_le_dividend le_less_trans)
  then have d1: "unat (target div ucast cap + 1) = unat target div c + 1"
    using unat_inc[of "target div ucast cap" "2 ^ 63"] d by (simp add: word_less_nat_alt)
  have dv: "1 \<le> unat target div c" if "unat target mod c = 0 \<and> unat target > 0"
  proof -
    have "c \<le> unat target" using that mod_less[of "unat target" c] by (cases "unat target < c") auto
    then show ?thesis using c(2) by (simp add: div_greater_zero_iff Suc_le_eq)
  qed
  have k: "unat keep = (if unat target mod c = 0 \<and> unat target > 0 then unat target div c
      else unat target div c + 1)"
  proof (cases "unat target mod c = 0 \<and> unat target > 0")
    case True
    then have "1 \<le> target div ucast cap" using d dv by (simp add: word_le_nat_alt)
    then show ?thesis using True r0 t0 d by (simp add: keep_def rem_def[symmetric] max_def)
  next
    case False
    have "1 \<le> target div ucast cap + 1" using d1 by (simp add: word_le_nat_alt)
    then show ?thesis using False r0 t0 d1 by (auto simp: keep_def rem_def[symmetric] max_def)
  qed
  show pos: "0 < unat keep"
    using k dv by (cases "unat target mod c = 0 \<and> unat target > 0") auto
  then have "1 \<le> keep" by (simp add: word_le_nat_alt)
  then show "unat (keep - 1) = unat keep - 1" by (simp add: unat_sub)
  have dm: "unat target div c * c + unat target mod c = unat target" by simp
  show "(unat keep - 1) * c + unat (if rem = 0 \<and> target > 0 then cap else rem) = unat target"
  proof (cases "unat target mod c = 0 \<and> unat target > 0")
    case True
    then have "(unat target div c - 1) * c + c = unat target div c * c"
      using pos k by (cases "unat target div c") auto
    then show ?thesis using True k r0 t0 dm c(1) by simp
  next
    case False
    then show ?thesis using k r0 t0 dm r by auto
  qed
  show "unat (if rem = 0 \<and> target > 0 then cap else rem) \<le> c"
    using r c by (auto intro: less_imp_le)
  show "unat keep \<le> unat target div c + 1" using k by auto
qed

lemma dm_truncate_ok:
  assumes "dm_truncate n dm = (ok u, dm')" "dm_stored (dm_file dm) j = Some p" "j < n" "n < 2 ^ 51"
  shows "dm_stored (dm_file dm') j = Some p" "dm_next_page_id dm' = n"
    "length (dm_file dm') = dm_offset n"
proof -
  show "dm_stored (dm_file dm') j = Some p"
    using dm_truncate_frame[OF assms(3) dm_stored_complete[OF assms(2)] assms(4)] assms(1,2) dm_stored_cong
    by (metis snd_conv)
  show "dm_next_page_id dm' = n" "length (dm_file dm') = dm_offset n"
    using assms(1) by (auto simp: dm_truncate_def dm_offset_def Let_def
        split: prod.splits io_outcome.splits if_splits)
qed

lemma dm_stored_sealed:
  assumes "dm_stored f i = Some (page_content p)"
  shows "dm_seal p = p"
proof -
  have "pg_checksum (page_content p) = xxhash64 (pg_payload (page_content p)) 0"
    using assms by (auto simp: dm_stored_def Let_def split: if_splits)
  then show ?thesis by (simp add: dm_seal_def page_content_def)
qed

lemma concat_take_blocks:
  assumes "\<forall>b \<in> set (take n bs). length b = c" "n < length bs" "m \<le> length (bs ! n)"
  shows "concat (take n bs) @ take m (bs ! n) = take (n * c + m) (concat bs)"
proof -
  have l: "length (concat (take n bs)) = n * c"
  proof -
    have "map length (take n bs) = replicate n c"
      using assms(1,2) by (intro replicate_eqI) auto
    then show ?thesis by (simp add: length_concat sum_list_replicate)
  qed
  have "concat bs = concat (take n bs) @ bs ! n @ concat (drop (Suc n) bs)"
    using assms(2) by (metis append_take_drop_id concat.simps(2) concat_append Cons_nth_drop_Suc)
  then show ?thesis using l assms(3) by simp
qed

lemma dm_seal_idem [simp]: "dm_seal (dm_seal p) = dm_seal p"
  by (simp add: dm_seal_def)

lemma cf_stored_page:
  assumes inv: "cf_inv cf" and clean: "\<not> cf_current_dirty cf" and j: "j \<le> cf_current_page_id cf"
  obtains p where "dm_stored (cf_file cf) j = Some p" "cf_ok cf p" "page_view p = cf_pages cf ! unat j"
proof (cases "j = cf_current_page_id cf")
  case True
  then show ?thesis
    using inv clean nth_cf_pages(2)[of cf] that by (simp add: cf_inv_def)
next
  case False
  then have "j < cf_current_page_id cf" using j by simp
  moreover from this have "unat j < unat (cf_current_page_id cf)" by (simp add: word_less_nat_alt)
  ultimately show ?thesis
    using inv nth_cf_pages(1)[of "unat j" cf] that by (auto simp: cf_inv_def cf_full_page_def)
qed

text \<open>Cutting the file at page \<open>l\<close>, of which \<open>m\<close> values stay.\<close>

lemma cf_cut:
  assumes inv: "cf_inv cf" and l: "l \<le> cf_current_page_id cf"
    and pg: "cf_ok cf pg" "pg_page_id pg = l"
    and vals: "cp_vals (page_view pg) = take m (cp_vals (cf_pages cf ! unat l))"
      "m \<le> length (cp_vals (cf_pages cf ! unat l))"
    and disk: "dm_next_page_id disk = l + 1" "length (dm_file disk) = dm_offset l + PAGE_SIZE"
      "dm_stored (dm_file disk) l = Some (page_content (dm_seal pg))"
      "\<forall>j < l. dm_stored (dm_file disk) j = dm_stored (cf_file cf) j"
    and cf': "cf' = cf\<lparr>cf_disk := disk, cf_current_page := pg, cf_current_page_id := l,
      cf_current_dirty := False, cf_pool := fresh_pool\<rparr>"
  shows "cf_inv cf'" "cf_vals cf' = take (unat l * unat (cf_capacity cf) + m) (cf_vals cf)"
proof -
  have "cf_pool_ok cf'" by (rule fresh_pool_ok) (simp add: cf')
  moreover have "cf_full_page cf' j" if "j < l" for j
    using inv that disk(4) l by (auto simp: cf_inv_def cf_full_page_def cf' cf_file_def)
  moreover have "l \<le> 2 ^ 50" using inv l by (auto simp: cf_inv_def intro: order_trans)
  ultimately show "cf_inv cf'"
    using inv disk pg by (simp add: cf_inv_def) (simp add: cf' cf_file_def)
  have lc: "unat l \<le> unat (cf_current_page_id cf)" using l by (simp add: word_le_nat_alt)
  have "word_of_nat i < l" if "i < unat l" for i using that by (rule word_of_nat_below)
  then have "cf_pages cf' = take (unat l) (cf_pages cf) @ [page_view pg]"
    using lc disk(4) by (simp add: cf_pages_def cf' cf_file_def take_map)
  moreover have "concat (take (unat l) (map cp_vals (cf_pages cf))) @ take m (map cp_vals (cf_pages cf) ! unat l)
      = take (unat l * unat (cf_capacity cf) + m) (concat (map cp_vals (cf_pages cf)))"
    using lc vals(2) cf_page_of(2)[OF inv]
    by (intro concat_take_blocks) (auto simp: in_set_conv_nth)
  ultimately show "cf_vals cf' = take (unat l * unat (cf_capacity cf) + m) (cf_vals cf)"
    using lc by (simp add: cf_vals_def take_map vals(1))
qed

text \<open>Reading the new last page back after the file was cut, and rewriting it if it changes.\<close>

lemma cf_cut_page:
  assumes inv: "cf_inv cf" and clean: "\<not> cf_current_dirty cf" and l: "l \<le> cf_current_page_id cf"
    and keep: "l < keep" "l + 1 = keep" "dm_offset keep = dm_offset l + PAGE_SIZE" "keep < 2 ^ 51"
    and m: "m \<le> length (cp_vals (cf_pages cf ! unat l))"
    and t: "dm_truncate keep (cf_disk cf) = (ok v, disk1)"
    and r: "dm_read_page l (cf_current_page cf) disk1 = (ok w, page, disk2)"
    and pg: "pg = (if unat (cp_value_count (page_view page)) = m then page
        else page_update (cp_truncate_to m (page_view page)) page)"
    and d3: "if unat (cp_value_count (page_view page)) = m then disk3 = disk2
        else dm_write_page pg disk2 = (ok (), disk3)"
  shows "cf_ok cf pg \<and> pg_page_id pg = l \<and> cp_vals (page_view pg) = take m (cp_vals (cf_pages cf ! unat l))
    \<and> dm_next_page_id disk3 = l + 1 \<and> length (dm_file disk3) = dm_offset l + PAGE_SIZE
    \<and> dm_stored (dm_file disk3) l = Some (page_content (dm_seal pg))
    \<and> (\<forall>j < l. dm_stored (dm_file disk3) j = dm_stored (cf_file cf) j)"
proof -
  have st: "\<exists>p. dm_stored (cf_file cf) j = Some p" if "j \<le> l" for j
    by (rule cf_stored_page[OF inv clean, of j]) (use that l in auto)
  have jk: "j < keep" if "j \<le> l" for j using that keep(1) by simp
  note d1 = dm_truncate_ok[OF t, unfolded cf_file_def[symmetric]]
  have s1: "dm_stored (dm_file disk1) j = dm_stored (cf_file cf) j" if "j \<le> l" for j
    using st[OF that] d1(1)[OF _ jk[OF that] keep(4)] by metis
  have f1: "dm_next_page_id disk1 = keep" "length (dm_file disk1) = dm_offset keep"
    using d1(2,3)[OF _ keep(1,4)] st by blast+
  have "page_wf (cf_current_page cf)" using inv by (simp add: cf_inv_def cf_page_ok_def)
  note r2 = dm_read_page_result[OF r this]
  have d2: "dm_next_page_id disk2 = keep" "dm_file disk2 = dm_file disk1" using r2(2,3) f1 by simp_all
  have pst: "dm_stored (cf_file cf) l = Some (page_content page)" "pg_page_id page = l"
    using r2(4) s1[of l] by auto
  obtain p where p: "dm_stored (cf_file cf) l = Some p" "cf_ok cf p" "page_view p = cf_pages cf ! unat l"
    by (rule cf_stored_page[OF inv clean l])
  with pst(1) have pview: "page_view page = cf_pages cf ! unat l" and pok: "cf_ok cf page" by auto
  have of: "cp_of (cf_type cf) (cf_nullable cf) (cf_max_len cf) (page_view page)" "cp_zone_ok (page_view page)"
    using pok by (simp_all add: cf_page_ok_def)
  note tr = cp_truncate_step[OF of refl, of m]
  note u = page_view_update[OF r2(1) cp_of_sized[OF conjunct1[OF tr]]]
  have pgok: "cf_ok cf pg" "pg_page_id pg = l" "cp_vals (page_view pg) = take m (cp_vals (cf_pages cf ! unat l))"
    using pok pst(2) tr u pview by (auto simp: pg cf_page_ok_def)
  have "dm_next_page_id disk3 = keep \<and> length (dm_file disk3) = dm_offset keep
    \<and> dm_stored (dm_file disk3) l = Some (page_content (dm_seal pg))
    \<and> (\<forall>j < l. dm_stored (dm_file disk3) j = dm_stored (cf_file cf) j)"
  proof (cases "unat (cp_value_count (page_view page)) = m")
    case True
    then show ?thesis using d3 d2 f1(2) s1 pst(1) dm_stored_sealed[OF pst(1)] by (simp add: pg)
  next
    case False
    then have w: "dm_write_page pg disk2 = (ok (), disk3)" using d3 by simp
    have wf: "page_wf pg" using pgok(1) by (simp add: cf_page_ok_def)
    have "dm_stored (dm_file disk3) j = dm_stored (cf_file cf) j" if jl: "j < l" for j
    proof -
      obtain q where "dm_stored (cf_file cf) j = Some q" using st[OF less_imp_le[OF jl]] by blast
      moreover have "j < 2 ^ 51" "l < 2 ^ 51" using jl keep(1,4) by (auto intro: less_trans)
      ultimately show ?thesis
        using dm_stored_write_other[OF w wf, of j q] s1[of j] d2(2) jl pgok(2) by simp
    qed
    then show ?thesis
      using dm_stored_after_write[OF w wf] dm_write_page_stored(2,3)[OF w wf] d2 f1(2) keep(3) pgok(2)
      by simp
  qed
  then show ?thesis using pgok keep by simp
qed

text \<open>The last page that stays is a page of the file and has the values that stay.\<close>

lemma cf_cut_target:
  assumes inv: "cf_inv cf" and le: "l * unat (cf_capacity cf) + m \<le> length (cf_vals cf)"
    and m: "m \<le> unat (cf_capacity cf)" "m > 0 \<or> l = 0"
  shows "l \<le> unat (cf_current_page_id cf)" "m \<le> length (cp_vals (cf_pages cf ! l))"
proof -
  let ?c = "unat (cf_capacity cf)" and ?cur = "unat (cf_current_page_id cf)"
  let ?n = "unat (cp_value_count (page_view (cf_current_page cf)))"
  have len: "length (cf_vals cf) = ?cur * ?c + ?n" by (rule length_cf_vals[OF inv])
  have n: "?n \<le> ?c" using cf_inv_caps(4)[OF inv] by (simp add: word_le_nat_alt)
  show l: "l \<le> ?cur"
  proof (rule ccontr)
    assume "\<not> l \<le> ?cur"
    then have "Suc ?cur * ?c \<le> l * ?c" by (intro mult_le_mono1) simp
    then show False using le len n m(2) \<open>\<not> l \<le> ?cur\<close> by auto
  qed
  show "m \<le> length (cp_vals (cf_pages cf ! l))"
    using cf_page_of(2)[OF inv l] l m(1) le len nth_cf_pages(2)[of cf] by (cases "l = ?cur") auto
qed

lemma cf_truncate_spec:
  assumes inv: "cf_inv cf" and clean: "\<not> cf_current_dirty cf"
    and le: "unat target \<le> length (cf_vals cf)" and small: "unat target < 2 ^ 63"
    and t: "cf_truncate target cf = (ok u, cf')"
  shows "cf_inv cf'" "cf_vals cf' = take (unat target) (cf_vals cf)" "\<not> cf_current_dirty cf'"
proof -
  define rm where "rm = (ucast (target mod ucast (cf_capacity cf)) :: u16)"
  define keep where "keep = max (if rm = 0 \<and> target > 0
      then target div ucast (cf_capacity cf) else target div ucast (cf_capacity cf) + 1) 1"
  define needed where "needed = (if rm = 0 \<and> target > 0 then cf_capacity cf else rm)"
  let ?l = "keep - 1"
  have c0: "0 < unat (cf_capacity cf)" using inv by (simp add: cf_inv_def)
  have k: "0 < unat keep" "unat ?l = unat keep - 1"
    "(unat keep - 1) * unat (cf_capacity cf) + unat needed = unat target"
    "unat needed \<le> unat (cf_capacity cf)"
    unfolding needed_def keep_def rm_def
    by (rule cf_truncate_target(1,2,3,4)[OF refl c0 small])+
  obtain v disk1 page w disk2 where 1: "dm_truncate keep (cf_disk cf) = (ok v, disk1)"
    and 2: "dm_read_page ?l (cf_current_page cf) disk1 = (ok w, page, disk2)"
    using t by (auto simp: cf_truncate_def rm_def[symmetric] keep_def[symmetric] Let_def
        split: prod.splits sum.splits if_splits)
  define pg where "pg = (if unat (cp_value_count (page_view page)) = unat needed then page
     else page_update (cp_truncate_to (unat needed) (page_view page)) page)"
  obtain disk3 where 3: "if unat (cp_value_count (page_view page)) = unat needed then disk3 = disk2
     else dm_write_page pg disk2 = (ok (), disk3)"
    and cf': "cf' = cf\<lparr>cf_disk := disk3, cf_current_page := pg, cf_current_page_id := ?l,
      cf_current_dirty := False, cf_pool := fresh_pool\<rparr>"
    using t 1 2
    by (auto simp: cf_truncate_def rm_def[symmetric] keep_def[symmetric] needed_def[symmetric]
        word_unat_eq_iff[symmetric] pg_def Let_def split: prod.splits sum.splits if_splits)
  have "unat needed > 0 \<or> unat ?l = 0"
  proof (cases "rm = 0")
    case True
    then show ?thesis using k c0 by (cases "target = 0") (auto simp: needed_def word_gt_0)
  next
    case False
    then have "unat rm \<noteq> 0" by (simp add: unat_eq_zero)
    then show ?thesis using False by (simp add: needed_def)
  qed
  note cut = cf_cut_target[OF inv _ k(4) this] le k(2,3)
  have l: "?l \<le> cf_current_page_id cf" using cut by (simp add: word_le_nat_alt)
  have m: "unat needed \<le> length (cp_vals (cf_pages cf ! unat ?l))" using cut by simp
  have "?l \<le> 2 ^ 50" using l inv by (auto simp: cf_inv_def intro: order_trans)
  then have k51: "keep < 2 ^ 51" "?l < 2 ^ 51"
    using k(1,2) by (simp_all add: word_le_nat_alt word_less_nat_alt)
  then have keep: "?l < keep" "?l + 1 = keep" "dm_offset keep = dm_offset ?l + PAGE_SIZE" "keep < 2 ^ 51"
    using k(1,2) by (simp_all add: word_less_nat_alt dm_offset_nowrap)
  note c = cf_cut_page[OF inv clean l keep m 1 2 pg_def 3]
  show "cf_inv cf'" "cf_vals cf' = take (unat target) (cf_vals cf)"
    using cf_cut[OF inv l _ _ _ m _ _ _ _ cf'] c k(2,3) by auto
  show "\<not> cf_current_dirty cf'" by (simp add: cf')
qed

section \<open>Reachable column files\<close>

definition cf_append_any :: "val \<Rightarrow> column_file \<Rightarrow> unit result \<times> column_file" where
  "cf_append_any v cf = (case v of
     VNull \<Rightarrow> cf_append_null cf | VI32 x \<Rightarrow> cf_append_i32 x cf | VI64 x \<Rightarrow> cf_append_i64 x cf
   | VF64 x \<Rightarrow> cf_append_f64 x cf | VStr s \<Rightarrow> cf_append_str s cf | VBool b \<Rightarrow> cf_append_bool b cf
   | VDate d \<Rightarrow> cf_append_date d cf | VTimestamp x \<Rightarrow> cf_append_timestamp x cf)"

text \<open>
  The states a column file goes through: it is created, operated on, closed and reopened once
  flushed, and truncated once flushed; the outcomes of the coming system calls may be anything.
  The columns are those of which a page holds at least one value.
\<close>

inductive cf_reachable :: "column_file \<Rightarrow> bool" where
  create: "cf_create path t nullable max_len f faults = (ok cf, f') \<Longrightarrow> length f < PAGE_SIZE \<Longrightarrow>
     0 < column_page_capacity t nullable max_len \<Longrightarrow> cf_reachable cf"
| env: "cf_reachable cf \<Longrightarrow> cf_reachable (cf\<lparr>cf_disk := (cf_disk cf)\<lparr>dm_faults := fs\<rparr>\<rparr>)"
| append: "cf_reachable cf \<Longrightarrow> cf_append_any v cf = (r, cf') \<Longrightarrow> cf_reachable cf'"
| bulk: "cf_reachable cf \<Longrightarrow> cf_append_bulk vs cf = (br, cf') \<Longrightarrow> cf_reachable cf'"
| read: "cf_reachable cf \<Longrightarrow> pid \<le> cf_current_page_id cf \<Longrightarrow> cf_read_page pid cf = (pr, cf') \<Longrightarrow>
     cf_reachable cf'"
| flush: "cf_reachable cf \<Longrightarrow> cf_flush cf = (fr, cf') \<Longrightarrow> cf_reachable cf'"
| fsync: "cf_reachable cf \<Longrightarrow> cf_fsync cf = (sr, cf') \<Longrightarrow> cf_reachable cf'"
| reopen: "cf_reachable cf \<Longrightarrow> \<not> cf_current_dirty cf \<Longrightarrow>
     cf_open path (cf_file cf) [] = ok cf' \<Longrightarrow> cf_reachable cf'"
| truncate: "cf_reachable cf \<Longrightarrow> \<not> cf_current_dirty cf \<Longrightarrow> unat target \<le> length (cf_vals cf) \<Longrightarrow>
     unat target < 2 ^ 63 \<Longrightarrow> cf_truncate target cf = (ok u, cf') \<Longrightarrow> cf_reachable cf'"

lemma cf_append_any_spec:
  assumes "cf_inv cf" "cf_append_any v cf = (r, cf')"
  shows "cf_inv cf' \<and> cf_evolves 1 cf cf'
    \<and> cf_vals cf' = (if is_ok r then cf_vals cf @ [v] else cf_vals cf)
    \<and> (is_ok r \<longrightarrow> cf_admits cf v)"
proof -
  have "\<exists>f. appends (cf_type cf) v f \<and> cf_append_any v cf = cf_append_with f cf"
    by (cases v)
       (auto simp: cf_append_any_def cf_append_null_def cf_append_i32_def cf_append_i64_def
         cf_append_f64_def cf_append_str_def cf_append_bool_def cf_append_date_def
         cf_append_timestamp_def intro: appends_typed)
  then obtain f where f: "appends (cf_type cf) v f" "cf_append_with f cf = (r, cf')"
    using assms(2) by auto
  show ?thesis by (rule cf_append_with_spec[OF assms(1) f])
qed

lemma cf_inv_env:
  assumes "cf_inv cf" "dm_file disk = cf_file cf" "dm_next_page_id disk = dm_next_page_id (cf_disk cf)"
  shows "cf_inv (cf\<lparr>cf_disk := disk\<rparr>)" "cf_pages (cf\<lparr>cf_disk := disk\<rparr>) = cf_pages cf"
proof -
  have "cf\<lparr>cf_pool := cf_pool cf, cf_disk := disk\<rparr> = cf\<lparr>cf_disk := disk\<rparr>" by simp
  moreover have "cf_pool_ok (cf\<lparr>cf_disk := disk\<rparr>)"
    using assms by (simp add: cf_inv_def cf_pool_ok_def cf_file_def)
  ultimately show "cf_inv (cf\<lparr>cf_disk := disk\<rparr>)" "cf_pages (cf\<lparr>cf_disk := disk\<rparr>) = cf_pages cf"
    using cf_inv_pool[OF assms, of "cf_pool cf"] by simp_all
qed

lemma cf_fsync_spec:
  assumes "cf_inv cf" "cf_fsync cf = (r, cf')"
  shows "cf_inv cf' \<and> cf_pages cf' = cf_pages cf"
proof -
  obtain r' disk where f: "dm_fsync (cf_disk cf) = (r', disk)" by fastforce
  have "dm_file disk = cf_file cf" "dm_next_page_id disk = dm_next_page_id (cf_disk cf)"
    using f by (auto simp: dm_fsync_def cf_file_def split: prod.splits io_outcome.splits)
  from cf_inv_env[OF assms(1) this] show ?thesis using assms(2) f by (auto simp: cf_fsync_def)
qed

lemma cf_reachable_inv: "cf_reachable cf \<Longrightarrow> cf_inv cf"
proof (induction rule: cf_reachable.induct)
  case (create path t nullable max_len f faults cf f')
  then show ?case using cf_create_spec by blast
next
  case (env cf fs)
  then show ?case by (intro cf_inv_env(1)) (simp_all add: cf_file_def)
next
  case (append cf v r cf')
  then show ?case using cf_append_any_spec by blast
next
  case (bulk cf vs br cf')
  then show ?case using cf_append_bulk_spec by blast
next
  case (read cf pid pr cf')
  then show ?case using cf_read_page_spec by blast
next
  case (flush cf fr cf')
  then show ?case using cf_flush_spec by blast
next
  case (fsync cf sr cf')
  then show ?case using cf_fsync_spec by blast
next
  case (reopen cf path cf')
  then show ?case using cf_open_spec[of cf path] by auto
next
  case (truncate cf target u cf')
  then show ?case using cf_truncate_spec(1) by blast
qed

lemma dm_write_page_succeeds:
  assumes "dm_faults dm = []" "page_wf p" "pg_page_id p < 2 ^ 50"
  shows "is_ok (fst (dm_write_page p dm))" "dm_faults (snd (dm_write_page p dm)) = []"
proof -
  have "pg_page_id p < 2 ^ 51" using assms(3) by (rule less_trans) simp
  then have "off_valid (dm_off_t (pg_page_id p))" using assms(3) by (simp add: off_valid_dm)
  moreover have "pg_page_id p \<noteq> INVALID_PAGE_ID" using assms(3) by (auto simp: INVALID_PAGE_ID_def)
  ultimately show "is_ok (fst (dm_write_page p dm))" "dm_faults (snd (dm_write_page p dm)) = []"
    using assms(1,2) by (simp_all add: dm_write_page_def sys_pwrite_def Let_def)
qed

lemma cf_append_with_succeeds:
  assumes inv: "cf_inv cf" and small: "cf_current_page_id cf < 2 ^ 50" and nf: "dm_faults (cf_disk cf) = []"
    and a: "appends (cf_type cf) v f" and adm: "cf_admits cf v"
  shows "is_ok (fst (cf_append_with f cf))"
proof -
  have wf: "page_wf (cf_current_page cf)" and pid: "pg_page_id (cf_current_page cf) < 2 ^ 50"
    using inv small by (auto simp: cf_inv_def cf_page_ok_def)
  obtain e cf1 where e: "cf_ensure_room cf = (e, cf1)" by fastforce
  have "is_ok e"
  proof (cases "cp_is_full (page_view (cf_current_page cf))")
    case True
    have "is_ok (fst (cf_flush cf))"
      using dm_write_page_succeeds(1)[OF nf wf pid]
      by (auto simp: cf_flush_def split: prod.splits sum.splits)
    then show ?thesis using e True
      by (auto simp: cf_ensure_room_def cf_rotate_page_def split: prod.splits sum.splits)
  next
    case False
    then show ?thesis using e by (auto simp: cf_ensure_room_def)
  qed
  then obtain u where ok: "e = ok u" by (cases e) auto
  note s = cf_ensure_room_spec[OF inv e]
  obtain r q where r: "f (page_view (cf_current_page cf1)) = (r, q)" by fastforce
  have inv1: "cf_inv cf1" using s by simp
  have conf: "cf_type cf1 = cf_type cf" "cf_nullable cf1 = cf_nullable cf" "cf_max_len cf1 = cf_max_len cf"
    using s by (auto simp: cf_evolves_def)
  have "is_ok r"
    using appends_spec[of "cf_type cf1" v f "cf_nullable cf1" "cf_max_len cf1"
        "page_view (cf_current_page cf1)" r q] cf_inv_caps(1,2)[OF inv1] r a conf s ok adm by simp
  then show ?thesis using e ok r by (auto simp: cf_append_with_def split: sum.splits)
qed

section \<open>Properties\<close>

text \<open>
  C5: a column file is a list of values. The file is any that is reached from creating a column
  of which a page holds at least one value (every type but a VARCHAR of a maximal length close
  to the page size or above it). Appending to it, whatever the system calls do, either reports
  success and adds the value at the end, or reports an error and leaves the stored values as they
  were; only values the column admits (its type, its maximal length, NULL only if nullable) are
  ever added; and without I/O faults every admitted value is, as long as the current page is not
  the one with id \<open>2 ^ 50\<close>, the first whose byte offset is out of range.
\<close>

theorem column_append_refines:
  assumes "cf_reachable cf" "cf_append_any v cf = (r, cf')"
  shows "cf_vals cf' = (if is_ok r then cf_vals cf @ [v] else cf_vals cf)
    \<and> (is_ok r \<longrightarrow> cf_admits cf v)
    \<and> (dm_faults (cf_disk cf) = [] \<and> cf_current_page_id cf < 2 ^ 50 \<and> cf_admits cf v \<longrightarrow> is_ok r)"
proof -
  have inv: "cf_inv cf" by (rule cf_reachable_inv[OF assms(1)])
  have "\<exists>f. appends (cf_type cf) v f \<and> cf_append_any v cf = cf_append_with f cf"
    by (cases v)
       (auto simp: cf_append_any_def cf_append_null_def cf_append_i32_def cf_append_i64_def
         cf_append_f64_def cf_append_str_def cf_append_bool_def cf_append_date_def
         cf_append_timestamp_def intro: appends_typed)
  then have "dm_faults (cf_disk cf) = [] \<Longrightarrow> cf_current_page_id cf < 2 ^ 50 \<Longrightarrow> cf_admits cf v \<Longrightarrow> is_ok r"
    using cf_append_with_succeeds[OF inv] assms(2) by (metis fst_conv)
  then show ?thesis using cf_append_any_spec[OF inv assms(2)] by blast
qed

text \<open>
  The columns that are left out: a VARCHAR whose slot (two bytes and its maximal length) does not
  fit in a page is created without complaint, and then no value can be appended to it.
\<close>

lemma page_init_zero:
  assumes "column_page_capacity VARCHAR nullable max_len = 0" "page_wf p"
  shows "cp_capacity (page_view (page_init VARCHAR nullable max_len p)) = 0"
proof -
  have "length (cp_area (page_view p)) = 8136"
    using assms(2) by (simp add: page_view_def cp_view_def page_wf_def)
  then have "cp_sized (cp_init VARCHAR nullable max_len (page_view p))"
    by (simp add: cp_sized_def cp_init_def Let_def enumerator_def)
  from page_view_update(1)[OF assms(2) this] assms(1) show ?thesis
    by (simp add: page_init_def cp_init_def Let_def)
qed

lemma column_oversized_varchar:
  assumes len: "8134 < unat max_len"
    and c: "cf_create path VARCHAR False max_len f faults = (ok cf, f')"
  shows "\<not> is_ok (fst (cf_append_str s cf))"
proof -
  have "column_page_capacity VARCHAR False max_len = 0"
    using len by (simp add: column_page_capacity_def Let_def)
  then have z: "cp_capacity (page_view (page_init VARCHAR False max_len (page_reset i p))) = 0" for i p
    by (rule page_init_zero) simp
  have t: "cf_type cf = VARCHAR" "cf_nullable cf = False" "cf_max_len cf = max_len"
    using c by (auto simp: cf_create_def Let_def split: if_splits sum.splits prod.splits)
  obtain r cf1 where e: "cf_ensure_room cf = (r, cf1)" by fastforce
  have "cp_capacity (page_view (cf_current_page cf1)) = 0" if "is_ok r"
  proof -
    have p: "cp_capacity (page_view (cf_current_page cf)) = 0"
      using c by (auto simp: z cf_create_def Let_def split: if_splits sum.splits prod.splits)
    obtain fr cf2 where f: "cf_flush cf = (fr, cf2)" by fastforce
    then have "cf_type cf2 = VARCHAR" "cf_nullable cf2 = False" "cf_max_len cf2 = max_len"
      using t by (auto simp: cf_flush_def split: if_splits prod.splits sum.splits)
    with e that p f z show ?thesis
      by (auto simp: cf_ensure_room_def cp_is_full_def cf_rotate_page_def dm_reserve_page_id_def
          split: sum.splits)
  qed
  then show ?thesis
    using e by (auto simp: cf_append_str_def cf_append_with_def cp_append_str_def split: sum.splits)
qed

text \<open>A file just created, for the witnesses: an INT32 column without NULLs.\<close>

lemma cf_create_succeeds:
  assumes cap: "0 < column_page_capacity t nullable max_len" and f: "length f < PAGE_SIZE"
  shows "\<exists>cf f'. cf_create path t nullable max_len f [] = (ok cf, f') \<and> dm_faults (cf_disk cf) = []"
proof -
  define dm where "dm = \<lparr>dm_path = path, dm_file = f, dm_next_page_id = 0, dm_faults = []\<rparr>"
  have o: "dm_open path f [] = ok dm" using f by (simp add: dm_open_def dm_def)
  let ?b = "page_reset 0 page_new" and ?dm = "dm\<lparr>dm_next_page_id := 1\<rparr>"
  let ?p = "page_init t nullable max_len ?b"
  obtain u dm1 where w1: "dm_write_page ?b ?dm = (ok u, dm1)" "dm_faults dm1 = []"
    using dm_write_page_succeeds[of ?dm ?b]
    by (cases "dm_write_page ?b ?dm"; cases "fst (dm_write_page ?b ?dm)")
       (auto simp: dm_def INVALID_PAGE_ID_def)
  note i = page_init_ok[OF cap page_wf_reset[of 0 page_new]]
  obtain v dm2 where w2: "dm_write_page ?p dm1 = (ok v, dm2)" "dm_faults dm2 = []"
    using dm_write_page_succeeds[OF w1(2), of ?p] i
    by (cases "dm_write_page ?p dm1"; cases "fst (dm_write_page ?p dm1)")
       (auto simp: cf_page_ok_def INVALID_PAGE_ID_def)
  show ?thesis
    using type_size_capacity[OF cap] o w1 w2
    by (simp add: cf_create_def dm_allocate_page_def Let_def) (simp add: dm_def)
qed

lemma sample_file:
  obtains cf where "cf_reachable cf" "cf_vals cf = []" "cf_current_page_id cf = 0"
    "cf_type cf = INT32" "\<not> cf_nullable cf" "dm_faults (cf_disk cf) = []"
proof -
  have cap: "0 < column_page_capacity INT32 False 0" by (simp add: column_page_capacity_def)
  obtain cf f' where c: "cf_create ''c'' INT32 False 0 [] [] = (ok cf, f')" "dm_faults (cf_disk cf) = []"
    using cf_create_succeeds[OF cap, of "[]" "''c''"] by auto
  with cf_create_spec[OF c(1) _ cap] cf_reachable.create[OF c(1) _ cap] that show thesis by auto
qed

theorem column_append_refines_witness:
  "\<exists>cf cf'. cf_reachable cf \<and> cf_append_any (VI32 7) cf = (ok (), cf') \<and> cf_vals cf' = [VI32 7]"
proof -
  obtain cf where cf: "cf_reachable cf" "cf_vals cf = []" "cf_current_page_id cf = 0"
    "cf_type cf = INT32" "\<not> cf_nullable cf" "dm_faults (cf_disk cf) = []" by (rule sample_file)
  obtain r cf' where a: "cf_append_any (VI32 7) cf = (r, cf')" by fastforce
  have adm: "cf_admits cf (VI32 7)" using cf by (simp add: admissible_def storable_def)
  have "is_ok r \<and> cf_vals cf' = [VI32 7]"
    using column_append_refines[OF cf(1) a] cf adm by auto
  then show ?thesis using cf(1) a by (cases r) auto
qed

text \<open>
  C23: bulk appends stop at the first value that cannot be stored. After
  \<open>append_bulk\<close> the file holds its old values followed by a prefix of the given ones,
  all of them admitted; the call succeeds exactly when the prefix is the whole list.
\<close>

theorem column_bulk_prefix:
  assumes "cf_reachable cf" "cf_append_bulk vs cf = (r, cf')"
  shows "\<exists>n \<le> length vs. cf_vals cf' = cf_vals cf @ take n vs
    \<and> (\<forall>v \<in> set (take n vs). cf_admits cf v) \<and> (is_ok r \<longleftrightarrow> n = length vs)"
  using cf_append_bulk_spec[OF cf_reachable_inv[OF assms(1)] assms(2)] by blast

theorem column_bulk_prefix_witness:
  "\<exists>cf cf' r. cf_reachable cf \<and> cf_append_bulk [VI32 1, VI64 2] cf = (r, cf')
     \<and> (\<exists>n. cf_vals cf' = take n [VI32 1, VI64 2])"
proof -
  obtain cf where cf: "cf_reachable cf" "cf_vals cf = []" "cf_current_page_id cf = 0"
    by (rule sample_file)
  obtain r cf' where a: "cf_append_bulk [VI32 1, VI64 2] cf = (r, cf')" by fastforce
  have "\<exists>n. cf_vals cf' = take n [VI32 1, VI64 2]"
    using column_bulk_prefix[OF cf(1) a] cf(2) by auto
  with cf(1) a show ?thesis by blast
qed

text \<open>
  C22: rows read back. Without I/O faults, the getter of the column's type returns for every
  row of a reachable file the value that was appended there, whether it is still in the current
  page or comes from disk through the buffer pool; \<open>is_null\<close> sees the NULLs.
\<close>

theorem column_reads_back:
  assumes "cf_reachable cf" "dm_faults (cf_disk cf) = []" "unat row < length (cf_vals cf)"
  shows "cf_reads_as cf row (cf_vals cf ! unat row)"
  using cf_get_row[OF cf_reachable_inv[OF assms(1)] assms(2,3)] .

theorem column_reads_back_witness:
  "\<exists>cf. cf_reachable cf \<and> cf_vals cf = [VI32 7] \<and> fst (cf_get_i32 0 cf) = ok 7"
proof -
  obtain cf where cf: "cf_reachable cf" "cf_vals cf = []" "cf_current_page_id cf = 0"
    "cf_type cf = INT32" "\<not> cf_nullable cf" "dm_faults (cf_disk cf) = []" by (rule sample_file)
  obtain r cf1 where a: "cf_append_i32 7 cf = (r, cf1)" by fastforce
  have small: "cf_current_page_id cf < 2 ^ 50" using cf by simp
  note s = cf_append_with_spec[OF cf_reachable_inv[OF cf(1)] appends_typed(2) a[unfolded cf_append_i32_def]]
  have "is_ok r"
    using cf_append_with_succeeds[OF cf_reachable_inv[OF cf(1)] small cf(6) appends_typed(2), of 7]
      a cf by (simp add: admissible_def storable_def cf_append_i32_def)
  define cf' where "cf' = cf1\<lparr>cf_disk := (cf_disk cf1)\<lparr>dm_faults := []\<rparr>\<rparr>"
  have "cf_reachable cf1" using cf_reachable.append[OF cf(1), of "VI32 7"] a by (simp add: cf_append_any_def)
  then have r': "cf_reachable cf'" unfolding cf'_def by (rule cf_reachable.env)
  have v: "cf_vals cf' = [VI32 7]"
    using s \<open>is_ok r\<close> cf(2) by (simp add: cf'_def cf_vals_def cf_pages_def cf_file_def)
  from column_reads_back[OF r', of 0] v r' show ?thesis by (auto simp: cf'_def)
qed

text \<open>
  C13: durability. When \<open>flush\<close> reports success, opening the bytes that are in the file
  then gives a column file with the same type, the same values and the same readable rows.
\<close>

theorem column_flush_reopen:
  assumes "cf_reachable cf" "cf_flush cf = (ok (), cf1)"
  shows "\<exists>cf'. cf_open path (cf_file cf1) [] = ok cf' \<and> cf_vals cf' = cf_vals cf
    \<and> cf_type cf' = cf_type cf \<and> cf_nullable cf' = cf_nullable cf \<and> cf_max_len cf' = cf_max_len cf
    \<and> cf_reachable cf'"
proof -
  have r1: "cf_reachable cf1" by (rule cf_reachable.flush[OF assms])
  have s: "cf_pages cf1 = cf_pages cf" "\<not> cf_current_dirty cf1"
    "cf_type cf1 = cf_type cf" "cf_nullable cf1 = cf_nullable cf" "cf_max_len cf1 = cf_max_len cf"
    using cf_flush_spec[OF cf_reachable_inv[OF assms(1)] assms(2)] by auto
  obtain cf' where o: "cf_open path (cf_file cf1) [] = ok cf'" "cf_pages cf' = cf_pages cf1"
    "cf_type cf' = cf_type cf1" "cf_nullable cf' = cf_nullable cf1" "cf_max_len cf' = cf_max_len cf1"
    using cf_open_spec[OF cf_reachable_inv[OF r1] s(2), of path] by blast
  with s cf_reachable.reopen[OF r1 s(2) o(1)] show ?thesis by (simp add: cf_vals_def)
qed

theorem column_flush_reopen_witness:
  "\<exists>cf cf1 cf'. cf_reachable cf \<and> cf_flush cf = (ok (), cf1)
     \<and> cf_open ''c'' (cf_file cf1) [] = ok cf' \<and> cf_vals cf' = cf_vals cf"
proof -
  obtain cf f' where c: "cf_create ''c'' INT32 False 0 [] [] = (ok cf, f')"
    using cf_create_succeeds[of INT32 False 0 "[]" "''c''"] by (auto simp: column_page_capacity_def)
  have cap: "0 < column_page_capacity INT32 False 0" by (simp add: column_page_capacity_def)
  have r: "cf_reachable cf" using cf_reachable.create[OF c _ cap] by simp
  have f: "cf_flush cf = (ok (), cf)"
    using c by (auto simp: cf_create_def cf_flush_def Let_def split: if_splits sum.splits prod.splits)
  then obtain cf' where "cf_open ''c'' (cf_file cf) [] = ok cf'" "cf_vals cf' = cf_vals cf"
    using column_flush_reopen[OF r, of cf "''c''"] by blast
  with r f show ?thesis by blast
qed

text \<open>
  C24: truncation. Truncating a flushed file to at most its number of rows keeps exactly that many
  values, when it reports success.
\<close>

theorem column_truncate:
  assumes "cf_reachable cf" "\<not> cf_current_dirty cf" "unat target \<le> length (cf_vals cf)"
    and "unat target < 2 ^ 63" "cf_truncate target cf = (ok (), cf')"
  shows "cf_vals cf' = take (unat target) (cf_vals cf)"
  using cf_truncate_spec(2)[OF cf_reachable_inv[OF assms(1)] assms(2-5)] .

theorem column_truncate_witness:
  "\<exists>cf cf'. cf_reachable cf \<and> cf_truncate 0 cf = (ok (), cf') \<and> cf_vals cf' = []"
proof -
  have cap: "0 < column_page_capacity INT32 False 0" by (simp add: column_page_capacity_def)
  obtain cf f' where c: "cf_create ''c'' INT32 False 0 [] [] = (ok cf, f')" "dm_faults (cf_disk cf) = []"
    using cf_create_succeeds[OF cap, of "[]" "''c''"] by auto
  have r: "cf_reachable cf" using cf_reachable.create[OF c(1) _ cap] by simp
  have cf: "cf_inv cf" "cf_vals cf = []" "cf_current_page_id cf = 0" using cf_create_spec[OF c(1) _ cap] by auto
  have clean: "\<not> cf_current_dirty cf"
    using c(1) by (auto simp: cf_create_def Let_def split: if_splits sum.splits prod.splits)
  have st: "dm_stored (dm_file (cf_disk cf)) 0 = Some (page_content (dm_seal (cf_current_page cf)))"
    using cf clean by (simp add: cf_inv_def cf_file_def)
  have len: "length (dm_file (cf_disk cf)) = 8192"
    using dm_stored_complete[OF st] cf by (simp add: dm_complete_def dm_offset_nowrap cf_inv_def cf_file_def)
  define disk where "disk = (cf_disk cf)\<lparr>dm_next_page_id := 1\<rparr>"
  have t: "dm_truncate 1 (cf_disk cf) = (ok (), disk)"
    using c(2) len by (simp add: dm_truncate_def Let_def dm_off_t_def off_valid_def disk_def)
  obtain q where q: "dm_read_page 0 (cf_current_page cf) disk = (ok (), q, disk)"
    using dm_read_page_stored[of disk 0 _ "cf_current_page cf"] st c(2) by (auto simp: disk_def)
  have "page_wf (cf_current_page cf)" using cf(1) by (simp add: cf_inv_def cf_page_ok_def)
  from dm_read_page_result(4)[OF q this] st
  have "page_content q = page_content (dm_seal (cf_current_page cf))" by (simp add: disk_def)
  then have "page_view q = page_view (cf_current_page cf)" by (metis page_view_content(1,2))
  then have "cp_value_count (page_view q) = 0"
    using length_cf_vals[OF cf(1)] cf by (simp add: unat_eq_zero)
  then obtain cf' where tr: "cf_truncate 0 cf = (ok (), cf')"
    using t q by (simp add: cf_truncate_def Let_def)
  from column_truncate[OF r clean _ _ tr] cf(2) r tr show ?thesis by auto
qed

end
