(* ===== verification/Codec.thy ===== *)
theory Codec
  imports Values
begin

text \<open>
  The sequential readers of the file formats (\<^verbatim>\<open>wal_reader.cpp\<close>, \<^verbatim>\<open>schema.cpp\<close>,
  \<^verbatim>\<open>constraint_file.cpp\<close>, \<^verbatim>\<open>shard_map_file.cpp\<close>) share one shape: read a few bytes or
  fail, then go on. A reader is a function of the bytes still ahead, the bytes consumed since
  the current record began (the \<open>payload\<close> a checksum is taken over) and the position; a
  failed read keeps what was consumed before it. The locale \<open>codec\<close> states what a writer and a
  reader owe each other; every file format of the development interprets it and inherits the
  truncation theorem.
\<close>

named_theorems reads_intros "a reader applied to the bytes of its writer"
named_theorems local_intros "a reader looks only at the bytes it consumes"

section \<open>Readers\<close>

record rd_in =
  in_rest :: "u8 list"
  in_seen :: "u8 list"
  in_pos :: nat

type_synonym 'a rd = "rd_in \<Rightarrow> 'a result \<times> rd_in"

definition rd_start :: "u8 list \<Rightarrow> rd_in" where
  "rd_start bs = \<lparr>in_rest = bs, in_seen = [], in_pos = 0\<rparr>"

definition rd_advance :: "u8 list \<Rightarrow> rd_in \<Rightarrow> rd_in" where
  "rd_advance bs s =
     s\<lparr>in_rest := drop (length bs) (in_rest s), in_seen := in_seen s @ bs,
       in_pos := in_pos s + length bs\<rparr>"

definition rd_bytes :: "string \<Rightarrow> nat \<Rightarrow> u8 list rd" where
  "rd_bytes msg n s =
     (if n \<le> length (in_rest s)
      then let bs = take n (in_rest s) in (ok bs, rd_advance bs s)
      else (err msg, s))"

definition rd_return :: "'a \<Rightarrow> 'a rd" where
  "rd_return x s = (ok x, s)"

definition rd_fail :: "string \<Rightarrow> 'a rd" where
  "rd_fail msg s = (err msg, s)"

definition rd_bind :: "'a rd \<Rightarrow> ('a \<Rightarrow> 'b rd) \<Rightarrow> 'b rd" where
  "rd_bind m f s = (case m s of (Inl e, s1) \<Rightarrow> (err e, s1) | (Inr x, s1) \<Rightarrow> f x s1)"

definition rd_u8 :: "string \<Rightarrow> u8 rd" where
  "rd_u8 msg = rd_bind (rd_bytes msg 1) (\<lambda>bs. rd_return (hd bs))"

definition rd_word :: "string \<Rightarrow> nat \<Rightarrow> 'a::len word rd" where
  "rd_word msg n = rd_bind (rd_bytes msg n) (\<lambda>bs. rd_return (le_word bs))"

definition rd_chars :: "string \<Rightarrow> nat \<Rightarrow> string rd" where
  "rd_chars msg n = rd_bind (rd_bytes msg n) (\<lambda>bs. rd_return (map char_of_byte bs))"

text \<open>A counted loop, and a loop over the columns of a schema.\<close>

primrec rd_times :: "nat \<Rightarrow> 'a rd \<Rightarrow> 'a list rd" where
  "rd_times 0 m = rd_return []"
| "rd_times (Suc n) m =
     rd_bind m (\<lambda>x. rd_bind (rd_times n m) (\<lambda>xs. rd_return (x # xs)))"

primrec rd_each :: "('a \<Rightarrow> 'b rd) \<Rightarrow> 'a list \<Rightarrow> 'b list rd" where
  "rd_each f [] = rd_return []"
| "rd_each f (a # as) =
     rd_bind (f a) (\<lambda>x. rd_bind (rd_each f as) (\<lambda>xs. rd_return (x # xs)))"

section \<open>What a reader makes of its writer's bytes\<close>

definition reads :: "'a rd \<Rightarrow> u8 list \<Rightarrow> 'a \<Rightarrow> bool" where
  "reads m bs x \<longleftrightarrow> (\<forall>s r. in_rest s = bs @ r \<longrightarrow> m s = (ok x, rd_advance bs s))"

definition rd_local :: "'a rd \<Rightarrow> bool" where
  "rd_local m \<longleftrightarrow>
     (\<forall>s x s'. m s = (ok x, s') \<longrightarrow>
        (\<exists>bs r. in_rest s = bs @ r \<and> s' = rd_advance bs s \<and> reads m bs x))"

lemma rd_advance_simps [simp]:
  "in_rest (rd_advance bs s) = drop (length bs) (in_rest s)"
  "in_seen (rd_advance bs s) = in_seen s @ bs"
  "in_pos (rd_advance bs s) = in_pos s + length bs"
  "rd_advance [] s = s"
  "rd_advance cs (rd_advance bs s) = rd_advance (bs @ cs) s"
  by (simp_all add: rd_advance_def add.commute)

lemma reads_run:
  "reads m bs x \<Longrightarrow> in_rest (s :: rd_in) = bs @ r \<Longrightarrow> m s = (ok x, rd_advance bs s)"
  by (simp add: reads_def)

lemma reads_return [reads_intros]: "x = y \<Longrightarrow> reads (rd_return x) [] y"
  by (simp add: reads_def rd_return_def)

lemma reads_bind [reads_intros]:
  assumes "reads m bs x" "reads (f x) cs y"
  shows "reads (rd_bind m f) (bs @ cs) y"
  unfolding reads_def
proof (intro allI impI)
  fix s :: rd_in and r assume "in_rest s = (bs @ cs) @ r"
  then have "m s = (ok x, rd_advance bs s)" "in_rest (rd_advance bs s) = cs @ r"
    using assms(1) by (simp_all add: reads_def)
  then show "rd_bind m f s = (ok y, rd_advance (bs @ cs) s)"
    using assms(2) by (simp add: rd_bind_def reads_def)
qed

lemma reads_bind_last:
  assumes "reads m bs x" "reads (f x) [] y"
  shows "reads (rd_bind m f) bs y"
  using reads_bind[of m bs x f "[]" y] assms by simp

lemma reads_bytes [reads_intros]: "length bs = n \<Longrightarrow> reads (rd_bytes msg n) bs bs"
  by (simp add: reads_def rd_bytes_def)

lemma reads_u8 [reads_intros]: "b = c \<Longrightarrow> reads (rd_u8 msg) [b] c"
  unfolding rd_u8_def
  by (rule reads_bind_last[OF reads_bytes]) (simp_all add: reads_return)

lemma reads_bind_u8: "reads (f b) cs y \<Longrightarrow> reads (rd_bind (rd_u8 msg) f) (b # cs) y"
  using reads_bind[OF reads_u8[OF refl], of f b cs y msg] by simp

lemma reads_word [reads_intros]:
  assumes "LENGTH('a) = 8 * n"
  shows "reads (rd_word msg n) (le_bytes n v) (v :: 'a::len word)"
  unfolding rd_word_def
  by (rule reads_bind_last[OF reads_bytes])
     (simp_all add: reads_return le_word_le_bytes[OF assms])

lemma reads_chars [reads_intros]:
  "length str = n \<Longrightarrow> reads (rd_chars msg n) (map byte_of_char str) str"
  unfolding rd_chars_def
  by (rule reads_bind_last[OF reads_bytes]) (simp_all add: reads_return)

lemma reads_times:
  assumes "list_all2 (reads m) bss xs" "length xs = n"
  shows "reads (rd_times n m) (concat bss) xs"
  using assms(1) unfolding assms(2)[symmetric]
  by (induction rule: list_all2_induct)
     (auto intro!: reads_return reads_bind[OF _ reads_bind_last])

lemma reads_each:
  assumes "length bss = length as" "length xs = length as"
    "\<And>i. i < length as \<Longrightarrow> reads (f (as ! i)) (bss ! i) (xs ! i)"
  shows "reads (rd_each f as) (concat bss) xs"
  using assms
proof (induction as arbitrary: bss xs)
  case Nil
  then show ?case by (simp add: reads_return)
next
  case (Cons a as)
  obtain b bs' x xs' where eq: "bss = b # bs'" "xs = x # xs'"
    using Cons.prems(1,2) by (cases bss; cases xs) auto
  have "reads (rd_each f as) (concat bs') xs'"
    using Cons.prems by (intro Cons.IH) (use Cons.prems(3)[of "Suc _"] in \<open>auto simp: eq\<close>)
  moreover have "reads (f a) b x" using Cons.prems(3)[of 0] by (simp add: eq)
  ultimately show ?case
    by (auto simp: eq intro!: reads_bind[OF _ reads_bind_last] reads_return)
qed

section \<open>Locality\<close>

lemma rd_localD:
  assumes "rd_local m" "m s = (ok x, s')"
  obtains bs r where "in_rest s = bs @ r" "s' = rd_advance bs s" "reads m bs x"
  using assms unfolding rd_local_def by blast

lemma local_return [local_intros]: "rd_local (rd_return x)"
  unfolding rd_local_def rd_return_def
  by (simp add: reads_def) (metis append_Nil rd_advance_simps(4))

lemma local_fail [local_intros]: "rd_local (rd_fail msg)"
  by (simp add: rd_local_def rd_fail_def)

lemma local_bytes [local_intros]: "rd_local (rd_bytes msg n)"
  unfolding rd_local_def
proof (intro allI impI)
  fix s x s' assume "rd_bytes msg n s = (ok x, s')"
  then have "n \<le> length (in_rest s)" "x = take n (in_rest s)" "s' = rd_advance x s"
    by (auto simp: rd_bytes_def Let_def split: if_splits)
  then show "\<exists>bs r. in_rest s = bs @ r \<and> s' = rd_advance bs s \<and> reads (rd_bytes msg n) bs x"
    by (intro exI[of _ x] exI[of _ "drop n (in_rest s)"]) (simp add: reads_bytes)
qed

lemma local_bind [local_intros]:
  assumes "rd_local m" "\<And>x. rd_local (f x)"
  shows "rd_local (rd_bind m f)"
  unfolding rd_local_def
proof (intro allI impI)
  fix s y s' assume run: "rd_bind m f s = (ok y, s')"
  then obtain x s1 where m: "m s = (ok x, s1)" and f: "f x s1 = (ok y, s')"
    by (auto simp: rd_bind_def split: prod.splits sum.splits)
  obtain bs r where 1: "in_rest s = bs @ r" "s1 = rd_advance bs s" "reads m bs x"
    using rd_localD[OF assms(1) m] .
  obtain cs t where 2: "in_rest s1 = cs @ t" "s' = rd_advance cs s1" "reads (f x) cs y"
    using rd_localD[OF assms(2) f] .
  show "\<exists>bs r. in_rest s = bs @ r \<and> s' = rd_advance bs s \<and> reads (rd_bind m f) bs y"
    using 1 2 by (intro exI[of _ "bs @ cs"] exI[of _ t]) (auto intro: reads_bind)
qed

lemma local_prims [local_intros]:
  "rd_local (rd_u8 msg)" "rd_local (rd_word msg n)" "rd_local (rd_chars msg n)"
  unfolding rd_u8_def rd_word_def rd_chars_def by (intro local_intros)+

lemma local_times [local_intros]: "rd_local m \<Longrightarrow> rd_local (rd_times n m)"
  by (induction n) (auto intro!: local_intros)

lemma local_each [local_intros]: "(\<And>a. rd_local (f a)) \<Longrightarrow> rd_local (rd_each f as)"
  by (induction as) (auto intro!: local_intros)

text \<open>A reader that succeeds on a whole encoding fails on every proper prefix of it.\<close>

lemma rd_prefix_fails:
  assumes "rd_local m" "reads m bs x" "in_rest s = take k bs" "k < length bs"
  shows "\<exists>e s'. m s = (err e, s')"
proof (cases "m s")
  case (Pair res s')
  show ?thesis
  proof (cases res)
    case (Inr y)
    obtain cs r where cs: "in_rest s = cs @ r" "reads m cs y"
      using rd_localD[OF assms(1)] Pair Inr by metis
    let ?t = "s\<lparr>in_rest := bs\<rparr>"
    have ext: "bs = cs @ r @ drop k bs"
      by (metis append.assoc append_take_drop_id assms(3) cs(1))
    have "m ?t = (ok y, rd_advance cs ?t)"
      by (rule reads_run[OF cs(2), where r = "r @ drop k bs"]) (simp flip: ext)
    moreover have "m ?t = (ok x, rd_advance bs ?t)"
      by (rule reads_run[OF assms(2), where r = "[]"]) simp
    ultimately have "in_rest (rd_advance cs ?t) = in_rest (rd_advance bs ?t)" by simp
    then have "length bs \<le> length cs" by simp
    moreover have "length cs \<le> k" using assms(3,4) cs(1) by (metis length_append length_take
      le_add1 min.absorb4)
    ultimately show ?thesis using assms(4) by simp
  qed (use Pair in auto)
qed

section \<open>The contract of a file format\<close>

locale codec =
  fixes enc :: "'a \<Rightarrow> u8 list"
    and dec :: "'a rd"
    and valid :: "'a \<Rightarrow> bool"
  assumes dec_enc: "valid x \<Longrightarrow> reads dec (enc x) x"
    and dec_local: "rd_local dec"
begin

lemma decode_encode: "valid x \<Longrightarrow> fst (dec (rd_start (enc x @ r))) = ok x"
  using reads_run[OF dec_enc, of x "rd_start (enc x @ r)" r] by (simp add: rd_start_def)

lemma truncated_rejected:
  assumes "valid x" "k < length (enc x)"
  shows "\<exists>e. fst (dec (rd_start (take k (enc x)))) = err e"
proof -
  have "\<exists>e s'. dec (rd_start (take k (enc x))) = (err e, s')"
    by (rule rd_prefix_fails[OF dec_local dec_enc[OF assms(1)] _ assms(2)]) (simp add: rd_start_def)
  then show ?thesis by auto
qed

lemma encode_prefix_free:
  assumes "valid x" "valid y" "enc y = enc x @ r"
  shows "x = y" "r = []"
proof -
  have "dec (rd_start (enc y)) = (ok x, rd_advance (enc x) (rd_start (enc y)))"
    using reads_run[OF dec_enc[OF assms(1)], of "rd_start (enc y)" r] assms(3)
    by (simp add: rd_start_def)
  moreover have "dec (rd_start (enc y)) = (ok y, rd_advance (enc y) (rd_start (enc y)))"
    using reads_run[OF dec_enc[OF assms(2)], of "rd_start (enc y)" "[]"]
    by (simp add: rd_start_def)
  ultimately show xy: "x = y" by simp
  show "r = []" using assms(3) unfolding xy by simp
qed

end

end
