(* ===== verification/Wal.thy ===== *)
theory Wal
  imports Codec Disk_Manager
begin

text \<open>
  The write-ahead log: \<^verbatim>\<open>src/src/storage/wal/wal_record.h\<close> (layout), \<^verbatim>\<open>wal_writer.cpp\<close>
  (one \<open>log_\<dots>\<close> operation per record type, \<open>write_record\<close>, \<open>checkpoint\<close>) and
  \<^verbatim>\<open>wal_reader.cpp\<close> (\<open>read_all\<close>). The log file is its bytes; the outcomes of
  \<open>write\<close>, \<open>fsync\<close>, \<open>open\<close> and \<open>unlink\<close> come from a script. A \<open>std::get\<close> on
  the wrong alternative throws and a schema index out of range is undefined: both are the
  value \<^const>\<open>None\<close> of the encoders. Positions in the log are natural numbers (a log is
  checkpointed long before 2^64 bytes).
\<close>

section \<open>Layout\<close>

definition WAL_MAGIC :: "u8 list" where "WAL_MAGIC = map byte_of_char ''NWAL''"
definition WAL_VERSION :: u16 where "WAL_VERSION = 1"
definition WAL_HEADER_SIZE :: nat where "WAL_HEADER_SIZE = 6"

datatype wal_type = WalInsert | WalCreateTable | WalDelete | WalUpdate | WalSegmentFlush

fun wal_type_byte :: "wal_type \<Rightarrow> u8" where
  "wal_type_byte WalInsert = 1"
| "wal_type_byte WalCreateTable = 2"
| "wal_type_byte WalDelete = 3"
| "wal_type_byte WalUpdate = 4"
| "wal_type_byte WalSegmentFlush = 5"

definition wal_type_of_byte :: "u8 \<Rightarrow> wal_type option" where
  "wal_type_of_byte b =
     (if b = 1 then Some WalInsert else if b = 2 then Some WalCreateTable
      else if b = 3 then Some WalDelete else if b = 4 then Some WalUpdate
      else if b = 5 then Some WalSegmentFlush else None)"

record wal_record =
  wr_type :: wal_type
  wr_byte_offset :: nat
  wr_table_name :: string
  wr_schema :: schema
  wr_rows :: "val list list"
  wr_row_indices :: "u64 list"
  wr_sealed_row_count :: u64

definition wal_record_new :: "wal_type \<Rightarrow> string \<Rightarrow> wal_record" where
  "wal_record_new ty table =
     \<lparr>wr_type = ty, wr_byte_offset = 0, wr_table_name = table, wr_schema = [], wr_rows = [],
      wr_row_indices = [], wr_sealed_row_count = 0\<rparr>"

definition wal_header :: "u8 list" where
  "wal_header = WAL_MAGIC @ le_bytes 2 WAL_VERSION"

section \<open>Writing records\<close>

definition wal_put_str :: "string \<Rightarrow> u8 list" where
  "wal_put_str str = le_bytes 2 (word_of_nat (length str) :: u16) @ map byte_of_char str"

definition wal_put_typed :: "type_id \<Rightarrow> val \<Rightarrow> u8 list option" where
  "wal_put_typed t v =
     (if t = INT32 then (case v of VI32 x \<Rightarrow> Some (le_bytes 4 x) | _ \<Rightarrow> None)
      else if t = INT64 then (case v of VI64 x \<Rightarrow> Some (le_bytes 8 x) | _ \<Rightarrow> None)
      else if t = DOUBLE then (case v of VF64 x \<Rightarrow> Some (le_bytes 8 x) | _ \<Rightarrow> None)
      else if t = BOOL then (case v of VBool x \<Rightarrow> Some [if x then 1 else 0] | _ \<Rightarrow> None)
      else if t = DATE then (case v of VDate x \<Rightarrow> Some (le_bytes 4 x) | _ \<Rightarrow> None)
      else if t = TIMESTAMP then (case v of VTimestamp x \<Rightarrow> Some (le_bytes 8 x) | _ \<Rightarrow> None)
      else (case v of VStr x \<Rightarrow> Some (wal_put_str x) | _ \<Rightarrow> None))"

definition wal_put_cell :: "schema \<Rightarrow> val list \<Rightarrow> nat \<Rightarrow> u8 list option" where
  "wal_put_cell sch row c =
     (if is_null (row ! c) then Some [1]
      else if c < length sch then map_option (Cons 0) (wal_put_typed (col_type (sch ! c)) (row ! c))
      else None)"

definition wal_put_row :: "schema \<Rightarrow> val list \<Rightarrow> u8 list option" where
  "wal_put_row sch row = map_option concat (those (map (wal_put_cell sch row) [0..<length row]))"

definition wal_put_rows :: "schema \<Rightarrow> val list list \<Rightarrow> u8 list option" where
  "wal_put_rows sch rows =
     map_option (\<lambda>body.
         (le_bytes 4 (word_of_nat (length rows) :: u32) @ le_bytes 2 (word_of_nat (length sch) :: u16))
         @ concat (map (\<lambda>c. type_id_byte (col_type c) # le_bytes 2 (col_max_len c)) sch)
         @ concat body)
       (those (map (wal_put_row sch) rows))"

definition wal_put_name :: "wal_type \<Rightarrow> string \<Rightarrow> u8 list" where
  "wal_put_name ty table = [wal_type_byte ty] @ wal_put_str table"

definition log_insert_payload :: "string \<Rightarrow> schema \<Rightarrow> val list list \<Rightarrow> u8 list option" where
  "log_insert_payload table sch rows =
     map_option (\<lambda>body. wal_put_name WalInsert table @ body) (wal_put_rows sch rows)"

text \<open>The type tag of a default, and its bytes: a NULL default is tagged INT32 and has none.\<close>

fun wal_default_type :: "val \<Rightarrow> type_id" where
  "wal_default_type (VI32 _) = INT32"
| "wal_default_type (VI64 _) = INT64"
| "wal_default_type (VF64 _) = DOUBLE"
| "wal_default_type (VStr _) = VARCHAR"
| "wal_default_type (VBool _) = BOOL"
| "wal_default_type (VDate _) = DATE"
| "wal_default_type (VTimestamp _) = TIMESTAMP"
| "wal_default_type VNull = INT32"

fun wal_put_default :: "val \<Rightarrow> u8 list" where
  "wal_put_default (VI32 x) = le_bytes 4 x"
| "wal_put_default (VI64 x) = le_bytes 8 x"
| "wal_put_default (VF64 x) = le_bytes 8 x"
| "wal_put_default (VStr x) = wal_put_str x"
| "wal_put_default (VBool x) = [if x then 1 else 0]"
| "wal_put_default (VDate x) = le_bytes 4 x"
| "wal_put_default (VTimestamp x) = le_bytes 8 x"
| "wal_put_default VNull = []"

definition wal_put_column :: "column \<Rightarrow> u8 list" where
  "wal_put_column c =
     ([type_id_byte (col_type c), if col_nullable c then 1 else 0] @ le_bytes 2 (col_max_len c)
       @ le_bytes 2 (word_of_nat (length (col_name c)) :: u16))
     @ map byte_of_char (col_name c)
     @ (case col_default c of
          Some v \<Rightarrow> [1] @ [type_id_byte (wal_default_type v)] @ wal_put_default v
        | None \<Rightarrow> [0])"

definition log_create_payload :: "string \<Rightarrow> schema \<Rightarrow> u8 list" where
  "log_create_payload table sch =
     wal_put_name WalCreateTable table @ le_bytes 2 (word_of_nat (length sch) :: u16)
       @ concat (map wal_put_column sch)"

definition wal_put_indices :: "u64 list \<Rightarrow> u8 list" where
  "wal_put_indices ids =
     le_bytes 8 (word_of_nat (length ids) :: u64) @ concat (map (le_bytes 8) ids)"

definition log_delete_payload :: "string \<Rightarrow> u64 list \<Rightarrow> u8 list" where
  "log_delete_payload table ids = wal_put_name WalDelete table @ wal_put_indices ids"

definition log_update_payload ::
    "string \<Rightarrow> u64 list \<Rightarrow> schema \<Rightarrow> val list list \<Rightarrow> u8 list option" where
  "log_update_payload table ids sch rows =
     map_option (\<lambda>body. wal_put_name WalUpdate table @ wal_put_indices ids @ body)
       (wal_put_rows sch rows)"

definition log_segment_flush_payload :: "string \<Rightarrow> u64 \<Rightarrow> u8 list" where
  "log_segment_flush_payload table n = wal_put_name WalSegmentFlush table @ le_bytes 8 n"

section \<open>The writer\<close>

text \<open>The state: the descriptor (open or not), the offset, and the file at the path, if any.\<close>

record wal_writer =
  ww_path :: string
  ww_open :: bool
  ww_offset :: u64
  ww_file :: "u8 list option"
  ww_faults :: "io_outcome list"

definition ww_outcome :: "wal_writer \<Rightarrow> io_outcome \<times> wal_writer" where
  "ww_outcome w = (case ww_faults w of
     [] \<Rightarrow> (IoDone, w) | f # fs \<Rightarrow> (f, w\<lparr>ww_faults := fs\<rparr>))"

text \<open>\<open>::write\<close> on a descriptor opened with \<open>O_APPEND\<close>.\<close>

definition ww_append :: "u8 list \<Rightarrow> wal_writer \<Rightarrow> nat \<times> wal_writer" where
  "ww_append bs w =
     (if \<not> ww_open w then (0, w)
      else case ww_outcome w of (out, w1) \<Rightarrow>
        let n = transferred out (length bs)
        in (n, w1\<lparr>ww_file := map_option (\<lambda>f. f @ take n bs) (ww_file w1)\<rparr>))"

definition ww_fsync :: "wal_writer \<Rightarrow> bool \<times> wal_writer" where
  "ww_fsync w = (case ww_outcome w of (IoFail _, w1) \<Rightarrow> (False, w1) | (_, w1) \<Rightarrow> (True, w1))"

definition wal_open ::
    "string \<Rightarrow> u8 list option \<Rightarrow> io_outcome list \<Rightarrow> unit result \<times> wal_writer" where
  "wal_open path old faults =
     (let w0 = \<lparr>ww_path = path, ww_open = True, ww_offset = 0, ww_file = old, ww_faults = faults\<rparr>
      in case ww_outcome w0 of
        (IoFail e, w1) \<Rightarrow>
          (err (''WalWriter: cannot open '' @ path @ '': '' @ e), w1\<lparr>ww_open := False\<rparr>)
      | (_, w1) \<Rightarrow>
          (case old of
             None \<Rightarrow>
               (case ww_append wal_header (w1\<lparr>ww_file := Some []\<rparr>) of (n, w2) \<Rightarrow>
                  if n \<noteq> WAL_HEADER_SIZE
                  then (err ''WalWriter: header write failed'', w2\<lparr>ww_open := False\<rparr>)
                  else case ww_fsync w2 of (synced, w3) \<Rightarrow>
                    if \<not> synced then (err ''WalWriter: fsync failed'', w3\<lparr>ww_open := False\<rparr>)
                    else (ok (), w3\<lparr>ww_offset := word_of_nat WAL_HEADER_SIZE\<rparr>))
           | Some f \<Rightarrow> (ok (), w1\<lparr>ww_offset := word_of_nat (length f)\<rparr>)))"

definition wal_seal :: "u8 list \<Rightarrow> u8 list" where
  "wal_seal payload = payload @ le_bytes 8 (xxhash64 payload 0)"

definition wal_write_record :: "u8 list \<Rightarrow> wal_writer \<Rightarrow> unit result \<times> wal_writer" where
  "wal_write_record payload w =
     (let buf = wal_seal payload
      in case ww_append buf w of (n, w1) \<Rightarrow>
        if n \<noteq> length buf then (err ''WalWriter: short write'', w1)
        else case ww_fsync w1 of (synced, w2) \<Rightarrow>
          if \<not> synced then (err ''WalWriter: fsync failed'', w2)
          else (ok (), w2\<lparr>ww_offset := ww_offset w2 + word_of_nat (length buf)\<rparr>))"

text \<open>The outer \<^const>\<open>None\<close> of an operation is an exception thrown before any byte is written.\<close>

definition wal_log_insert ::
    "string \<Rightarrow> schema \<Rightarrow> val list list \<Rightarrow> wal_writer \<Rightarrow> (unit result \<times> wal_writer) option" where
  "wal_log_insert table sch rows w =
     (if rows = [] then Some (ok (), w)
      else map_option (\<lambda>p. wal_write_record p w) (log_insert_payload table sch rows))"

definition wal_log_create_table ::
    "string \<Rightarrow> schema \<Rightarrow> wal_writer \<Rightarrow> unit result \<times> wal_writer" where
  "wal_log_create_table table sch = wal_write_record (log_create_payload table sch)"

definition wal_log_delete :: "string \<Rightarrow> u64 list \<Rightarrow> wal_writer \<Rightarrow> unit result \<times> wal_writer" where
  "wal_log_delete table ids = wal_write_record (log_delete_payload table ids)"

definition wal_log_update ::
    "string \<Rightarrow> u64 list \<Rightarrow> schema \<Rightarrow> val list list \<Rightarrow> wal_writer
       \<Rightarrow> (unit result \<times> wal_writer) option" where
  "wal_log_update table ids sch rows w =
     map_option (\<lambda>p. wal_write_record p w) (log_update_payload table ids sch rows)"

definition wal_log_segment_flush :: "string \<Rightarrow> u64 \<Rightarrow> wal_writer \<Rightarrow> unit result \<times> wal_writer" where
  "wal_log_segment_flush table n = wal_write_record (log_segment_flush_payload table n)"

definition wal_checkpoint :: "wal_writer \<Rightarrow> unit result \<times> wal_writer" where
  "wal_checkpoint w = (case ww_outcome (w\<lparr>ww_open := False\<rparr>) of
     (IoFail e, w1) \<Rightarrow> (err (''WalWriter::checkpoint: unlink failed: '' @ e), w1)
   | (_, w1) \<Rightarrow> (ok (), w1\<lparr>ww_file := None, ww_offset := 0\<rparr>))"

section \<open>The reader\<close>

definition wal_rd_str :: "string rd" where
  "wal_rd_str = rd_bind (rd_word '''' 2) (\<lambda>n :: u16. rd_chars '''' (unat n))"

definition wal_rd_typed :: "type_id \<Rightarrow> val rd" where
  "wal_rd_typed t =
     (if t = INT32 then rd_bind (rd_word '''' 4) (\<lambda>x. rd_return (VI32 x))
      else if t = INT64 then rd_bind (rd_word '''' 8) (\<lambda>x. rd_return (VI64 x))
      else if t = DOUBLE then rd_bind (rd_word '''' 8) (\<lambda>x. rd_return (VF64 x))
      else if t = BOOL then rd_bind (rd_u8 '''') (\<lambda>x. rd_return (VBool (x \<noteq> 0)))
      else if t = DATE then rd_bind (rd_word '''' 4) (\<lambda>x. rd_return (VDate x))
      else if t = TIMESTAMP then rd_bind (rd_word '''' 8) (\<lambda>x. rd_return (VTimestamp x))
      else rd_bind wal_rd_str (\<lambda>x. rd_return (VStr x)))"

definition wal_rd_cell :: "column \<Rightarrow> val rd" where
  "wal_rd_cell c =
     rd_bind (rd_u8 '''') (\<lambda>null. if null \<noteq> 0 then rd_return VNull else wal_rd_typed (col_type c))"

text \<open>A column of a row image: only the type and the length are in the log.\<close>

definition wal_rd_row_column :: "column rd" where
  "wal_rd_row_column =
     rd_bind (rd_bytes '''' 3) (\<lambda>hdr. rd_return
       \<lparr>col_name = '''', col_type = type_id_of_byte (hdr ! 0), col_nullable = False,
        col_max_len = le_word (drop 1 hdr), col_default = None\<rparr>)"

definition wal_rd_rows :: "(schema \<times> val list list) rd" where
  "wal_rd_rows =
     rd_bind (rd_bytes '''' 6) (\<lambda>counts.
       let row_count = unat (le_word (take 4 counts) :: u32);
           col_count = unat (le_word (drop 4 counts) :: u16)
       in rd_bind (rd_times col_count wal_rd_row_column) (\<lambda>sch.
            rd_bind (rd_times row_count (rd_each wal_rd_cell sch)) (\<lambda>rows.
              rd_return (sch, rows))))"

definition wal_rd_indices :: "u64 list rd" where
  "wal_rd_indices =
     rd_bind (rd_word '''' 8) (\<lambda>n :: u64. rd_times (unat n) (rd_word '''' 8))"

definition wal_rd_default :: "val rd" where
  "wal_rd_default =
     rd_bind (rd_u8 '''') (\<lambda>b. case type_id_of_byte b of
       INT32 \<Rightarrow> rd_bind (rd_word '''' 4) (\<lambda>x. rd_return (VI32 x))
     | INT64 \<Rightarrow> rd_bind (rd_word '''' 8) (\<lambda>x. rd_return (VI64 x))
     | DOUBLE \<Rightarrow> rd_bind (rd_word '''' 8) (\<lambda>x. rd_return (VF64 x))
     | VARCHAR \<Rightarrow> rd_bind wal_rd_str (\<lambda>x. rd_return (VStr x))
     | BOOL \<Rightarrow> rd_bind (rd_u8 '''') (\<lambda>x. rd_return (VBool (x \<noteq> 0)))
     | DATE \<Rightarrow> rd_bind (rd_word '''' 4) (\<lambda>x. rd_return (VDate x))
     | TIMESTAMP \<Rightarrow> rd_bind (rd_word '''' 8) (\<lambda>x. rd_return (VTimestamp x))
     | _ \<Rightarrow> rd_fail '''')"

definition wal_rd_column :: "column rd" where
  "wal_rd_column =
     rd_bind (rd_bytes '''' 6) (\<lambda>hdr.
       rd_bind (rd_chars '''' (unat (le_word (drop 4 hdr) :: u16))) (\<lambda>cname.
         rd_bind (rd_u8 '''') (\<lambda>has_default.
           rd_bind (if has_default \<noteq> 0 then rd_bind wal_rd_default (\<lambda>v. rd_return (Some v))
                    else rd_return None) (\<lambda>def.
             rd_return
               \<lparr>col_name = cname, col_type = type_id_of_byte (hdr ! 0),
                col_nullable = hdr ! 1 \<noteq> 0, col_max_len = le_word (take 2 (drop 2 hdr)),
                col_default = def\<rparr>))))"

definition wal_rd_create :: "wal_record \<Rightarrow> wal_record rd" where
  "wal_rd_create rec =
     rd_bind (rd_word '''' 2) (\<lambda>n :: u16.
       rd_bind (rd_times (unat n) wal_rd_column) (\<lambda>sch. rd_return (rec\<lparr>wr_schema := sch\<rparr>)))"

definition wal_rd_delete :: "wal_record \<Rightarrow> wal_record rd" where
  "wal_rd_delete rec =
     rd_bind wal_rd_indices (\<lambda>ids. rd_return (rec\<lparr>wr_row_indices := ids\<rparr>))"

definition wal_rd_update :: "wal_record \<Rightarrow> wal_record rd" where
  "wal_rd_update rec =
     rd_bind wal_rd_indices (\<lambda>ids.
       rd_bind wal_rd_rows (\<lambda>(sch, rows).
         rd_return (rec\<lparr>wr_row_indices := ids, wr_schema := sch, wr_rows := rows\<rparr>)))"

definition wal_rd_segment_flush :: "wal_record \<Rightarrow> wal_record rd" where
  "wal_rd_segment_flush rec =
     rd_bind (rd_word '''' 8) (\<lambda>n. rd_return (rec\<lparr>wr_sealed_row_count := n\<rparr>))"

definition wal_rd_insert :: "wal_record \<Rightarrow> wal_record rd" where
  "wal_rd_insert rec =
     rd_bind wal_rd_rows (\<lambda>(sch, rows).
       rd_return (rec\<lparr>wr_schema := sch, wr_rows := rows\<rparr>))"

definition wal_rd_body :: "wal_type \<Rightarrow> wal_record \<Rightarrow> wal_record rd" where
  "wal_rd_body ty rec = (case ty of
     WalCreateTable \<Rightarrow> wal_rd_create rec
   | WalDelete \<Rightarrow> wal_rd_delete rec
   | WalUpdate \<Rightarrow> wal_rd_update rec
   | WalSegmentFlush \<Rightarrow> wal_rd_segment_flush rec
   | WalInsert \<Rightarrow> wal_rd_insert rec)"

definition wal_rd_payload :: "wal_record rd" where
  "wal_rd_payload =
     rd_bind (rd_u8 '''') (\<lambda>b. case wal_type_of_byte b of
       None \<Rightarrow> rd_fail ''''
     | Some ty \<Rightarrow> rd_bind wal_rd_str (\<lambda>table. wal_rd_body ty (wal_record_new ty table)))"

text \<open>One turn of the loop of \<open>read_all\<close> after the type byte was accepted.\<close>

definition wal_rd_one :: "wal_record rd" where
  "wal_rd_one s = (case wal_rd_payload (s\<lparr>in_seen := []\<rparr>) of
     (Inl e, s1) \<Rightarrow> (err e, s1)
   | (Inr rec, s1) \<Rightarrow>
       (case rd_word '''' 8 s1 of
          (Inl e, s2) \<Rightarrow> (err e, s2)
        | (Inr stored, s2) \<Rightarrow>
            if stored \<noteq> xxhash64 (in_seen s1) 0 then (err '''', s2)
            else (ok (rec\<lparr>wr_byte_offset := in_pos s\<rparr>), s2)))"

text \<open>Readers of the log look only at the bytes they consume.\<close>

lemma local_wal_rd_typed [local_intros]: "rd_local wal_rd_str" "rd_local (wal_rd_typed t)"
  unfolding wal_rd_str_def wal_rd_typed_def by (auto intro!: local_intros)

lemma local_wal_rd_cell [local_intros]: "rd_local (wal_rd_cell c)"
  unfolding wal_rd_cell_def by (auto intro!: local_intros)

lemma local_wal_rd_rows [local_intros]: "rd_local wal_rd_row_column" "rd_local wal_rd_rows"
  unfolding wal_rd_row_column_def wal_rd_rows_def Let_def by (auto intro!: local_intros)

lemma local_wal_rd_indices [local_intros]: "rd_local wal_rd_indices"
  unfolding wal_rd_indices_def by (auto intro!: local_intros)

lemma local_wal_rd_column [local_intros]: "rd_local wal_rd_default" "rd_local wal_rd_column"
  unfolding wal_rd_default_def wal_rd_column_def
  by (auto intro!: local_intros split: type_id.split)

lemma local_wal_rd_payload [local_intros]: "rd_local wal_rd_payload"
  unfolding wal_rd_payload_def wal_rd_body_def wal_rd_create_def wal_rd_delete_def
    wal_rd_update_def wal_rd_segment_flush_def wal_rd_insert_def
  by (auto intro!: local_intros split: wal_type.split option.split)

lemma wal_rd_one_consumes:
  assumes "wal_rd_one s = (ok rec, s')"
  shows "length (in_rest s') < length (in_rest s)"
proof -
  obtain rec0 s1 stored where p: "wal_rd_payload (s\<lparr>in_seen := []\<rparr>) = (ok rec0, s1)"
    and c: "rd_word '''' 8 s1 = (ok (stored :: u64), s')"
    using assms by (auto simp: wal_rd_one_def split: prod.splits sum.splits if_splits)
  obtain bs r where 1: "in_rest (s\<lparr>in_seen := []\<rparr>) = bs @ r"
      "s1 = rd_advance bs (s\<lparr>in_seen := []\<rparr>)"
    using rd_localD[OF local_wal_rd_payload p] by metis
  have "in_rest s1 = r" using 1 by simp
  moreover have "8 \<le> length (in_rest s1) \<and> in_rest s' = drop 8 (in_rest s1)"
    using c by (auto simp: rd_word_def rd_bind_def rd_bytes_def rd_return_def Let_def
                  split: if_splits)
  ultimately show ?thesis using 1(1) by auto
qed

text \<open>The loop of \<open>read_all\<close>: it ends at the end of the file, at an unknown type byte, at a
  record that is cut short and at a checksum that does not match.\<close>

function wal_loop :: "rd_in \<Rightarrow> wal_record list \<times> rd_in" where
  "wal_loop s = (case in_rest s of
     [] \<Rightarrow> ([], s)
   | b # _ \<Rightarrow>
       if wal_type_of_byte b = None then ([], s)
       else case wal_rd_one s of
         (Inl _, s1) \<Rightarrow> ([], s1)
       | (Inr rec, s1) \<Rightarrow> (case wal_loop s1 of (recs, s2) \<Rightarrow> (rec # recs, s2)))"
  by pat_completeness auto
termination
  by (relation "measure (\<lambda>s. length (in_rest s))") (auto dest!: wal_rd_one_consumes[OF sym])

declare wal_loop.simps [simp del]

text \<open>\<open>read_all\<close>: the records and the value left in \<open>*bytes_consumed\<close>.\<close>

definition wal_read_all :: "u8 list \<Rightarrow> (wal_record list \<times> nat) result" where
  "wal_read_all file =
     (case rd_bytes ''WalReader: cannot read header'' WAL_HEADER_SIZE (rd_start file) of
        (Inl e, _) \<Rightarrow> err e
      | (Inr hdr, s) \<Rightarrow>
          if take 4 hdr \<noteq> WAL_MAGIC then err ''WalReader: bad magic''
          else case wal_loop s of (recs, s1) \<Rightarrow> ok (recs, in_pos s1 - WAL_HEADER_SIZE))"

section \<open>What is logged\<close>

text \<open>The arguments of the five \<open>log_\<dots>\<close> operations, and what the reader owes for each.\<close>

datatype wal_entry =
    LogInsert string schema "val list list"
  | LogCreateTable string schema
  | LogDelete string "u64 list"
  | LogUpdate string "u64 list" schema "val list list"
  | LogSegmentFlush string u64

fun wal_entry_payload :: "wal_entry \<Rightarrow> u8 list option" where
  "wal_entry_payload (LogInsert table sch rows) = log_insert_payload table sch rows"
| "wal_entry_payload (LogCreateTable table sch) = Some (log_create_payload table sch)"
| "wal_entry_payload (LogDelete table ids) = Some (log_delete_payload table ids)"
| "wal_entry_payload (LogUpdate table ids sch rows) = log_update_payload table ids sch rows"
| "wal_entry_payload (LogSegmentFlush table n) = Some (log_segment_flush_payload table n)"

fun wal_log :: "wal_entry \<Rightarrow> wal_writer \<Rightarrow> (unit result \<times> wal_writer) option" where
  "wal_log (LogInsert table sch rows) w = wal_log_insert table sch rows w"
| "wal_log (LogCreateTable table sch) w = Some (wal_log_create_table table sch w)"
| "wal_log (LogDelete table ids) w = Some (wal_log_delete table ids w)"
| "wal_log (LogUpdate table ids sch rows) w = wal_log_update table ids sch rows w"
| "wal_log (LogSegmentFlush table n) w = Some (wal_log_segment_flush table n w)"

definition wal_row_column :: "column \<Rightarrow> column" where
  "wal_row_column c = c\<lparr>col_name := '''', col_nullable := False, col_default := None\<rparr>"

fun wal_entry_record :: "wal_entry \<Rightarrow> wal_record" where
  "wal_entry_record (LogInsert table sch rows) =
     (wal_record_new WalInsert table)\<lparr>wr_schema := map wal_row_column sch, wr_rows := rows\<rparr>"
| "wal_entry_record (LogCreateTable table sch) =
     (wal_record_new WalCreateTable table)\<lparr>wr_schema := sch\<rparr>"
| "wal_entry_record (LogDelete table ids) =
     (wal_record_new WalDelete table)\<lparr>wr_row_indices := ids\<rparr>"
| "wal_entry_record (LogUpdate table ids sch rows) =
     (wal_record_new WalUpdate table)
       \<lparr>wr_row_indices := ids, wr_schema := map wal_row_column sch, wr_rows := rows\<rparr>"
| "wal_entry_record (LogSegmentFlush table n) =
     (wal_record_new WalSegmentFlush table)\<lparr>wr_sealed_row_count := n\<rparr>"

text \<open>
  The values the layout has room for: lengths below the range of their length fields, rows as
  long as the schema, and no DEFAULT NULL (which the writer tags as an INT32 without bytes).
\<close>

definition wal_str_ok :: "string \<Rightarrow> bool" where
  "wal_str_ok str \<longleftrightarrow> length str < 2 ^ 16"

definition wal_val_ok :: "val \<Rightarrow> bool" where
  "wal_val_ok v = (case v of VStr str \<Rightarrow> wal_str_ok str | _ \<Rightarrow> True)"

definition type_id_wf :: "type_id \<Rightarrow> bool" where
  "type_id_wf t \<longleftrightarrow> type_id_of_byte (type_id_byte t) = t"

definition wal_rows_ok :: "schema \<Rightarrow> val list list \<Rightarrow> bool" where
  "wal_rows_ok sch rows \<longleftrightarrow>
     length sch < 2 ^ 16 \<and> length rows < 2 ^ 32 \<and> list_all (\<lambda>c. type_id_wf (col_type c)) sch
     \<and> list_all (\<lambda>row. length row = length sch \<and> list_all wal_val_ok row) rows"

definition wal_column_ok :: "column \<Rightarrow> bool" where
  "wal_column_ok c \<longleftrightarrow>
     type_id_wf (col_type c) \<and> wal_str_ok (col_name c) \<and> col_default c \<noteq> Some VNull
     \<and> (case col_default c of None \<Rightarrow> True | Some v \<Rightarrow> wal_val_ok v)"

fun wal_entry_ok :: "wal_entry \<Rightarrow> bool" where
  "wal_entry_ok (LogInsert table sch rows) \<longleftrightarrow>
     wal_str_ok table \<and> rows \<noteq> [] \<and> wal_rows_ok sch rows \<and> wal_put_rows sch rows \<noteq> None"
| "wal_entry_ok (LogCreateTable table sch) \<longleftrightarrow>
     wal_str_ok table \<and> length sch < 2 ^ 16 \<and> list_all wal_column_ok sch"
| "wal_entry_ok (LogDelete table ids) \<longleftrightarrow> wal_str_ok table \<and> length ids < 2 ^ 64"
| "wal_entry_ok (LogUpdate table ids sch rows) \<longleftrightarrow>
     wal_str_ok table \<and> length ids < 2 ^ 64 \<and> wal_rows_ok sch rows \<and> wal_put_rows sch rows \<noteq> None"
| "wal_entry_ok (LogSegmentFlush table n) \<longleftrightarrow> wal_str_ok table"

definition wal_entry_bytes :: "wal_entry \<Rightarrow> u8 list" where
  "wal_entry_bytes e = wal_seal (the (wal_entry_payload e))"

definition wal_image :: "wal_entry list \<Rightarrow> u8 list" where
  "wal_image es = wal_header @ concat (map wal_entry_bytes es)"

fun wal_expect :: "nat \<Rightarrow> wal_entry list \<Rightarrow> wal_record list" where
  "wal_expect pos [] = []"
| "wal_expect pos (e # es) =
     (wal_entry_record e)\<lparr>wr_byte_offset := pos\<rparr>
       # wal_expect (pos + length (wal_entry_bytes e)) es"

section \<open>Reading back each part\<close>

lemma reads_wal_str [reads_intros]: "wal_str_ok str \<Longrightarrow> reads wal_rd_str (wal_put_str str) str"
  unfolding wal_rd_str_def wal_put_str_def wal_str_ok_def
  by (rule reads_bind[OF reads_word reads_chars]) (simp_all add: unat_of_nat_u16)

lemma reads_wal_typed:
  assumes "wal_put_typed t v = Some bs" "wal_val_ok v"
  shows "reads (wal_rd_typed t) bs v"
  using assms unfolding wal_put_typed_def wal_rd_typed_def wal_val_ok_def
  by (auto split: if_splits val.splits
        intro!: reads_bind_last reads_word reads_u8 reads_wal_str reads_return)

lemma reads_wal_cell:
  assumes "wal_put_cell sch row c = Some bs" "c < length sch" "wal_val_ok (row ! c)"
  shows "reads (wal_rd_cell (wal_row_column (sch ! c))) bs (row ! c)"
proof (cases "is_null (row ! c)")
  case True
  then have "row ! c = VNull" "bs = [1]" using assms(1) by (cases "row ! c"; simp add: wal_put_cell_def)+
  then show ?thesis
    unfolding wal_rd_cell_def by (auto intro!: reads_bind_last reads_u8 reads_return)
next
  case False
  then obtain cs where cs: "wal_put_typed (col_type (sch ! c)) (row ! c) = Some cs" "bs = [0] @ cs"
    using assms(1,2) by (auto simp: wal_put_cell_def)
  show ?thesis unfolding wal_rd_cell_def cs(2)
    by (rule reads_bind[OF reads_u8]) (auto simp: wal_row_column_def intro: reads_wal_typed[OF cs(1) assms(3)])
qed

lemma those_map_nth:
  assumes "those (map f xs) = Some ys"
  shows "length ys = length xs" "i < length xs \<Longrightarrow> f (xs ! i) = Some (ys ! i)"
proof -
  have "list_all2 (\<lambda>x y. f x = Some y) xs ys"
    using assms by (induction xs arbitrary: ys) (auto split: option.splits)
  then show "length ys = length xs" "i < length xs \<Longrightarrow> f (xs ! i) = Some (ys ! i)"
    by (auto simp: list_all2_conv_all_nth)
qed

lemma reads_wal_row:
  assumes "wal_put_row sch row = Some bs" "length row = length sch" "list_all wal_val_ok row"
  shows "reads (rd_each wal_rd_cell (map wal_row_column sch)) bs row"
proof -
  obtain bss where bss: "those (map (wal_put_cell sch row) [0..<length row]) = Some bss"
    and bs: "bs = concat bss" using assms(1) by (auto simp: wal_put_row_def)
  show ?thesis unfolding bs
  proof (rule reads_each)
    show "length bss = length (map wal_row_column sch)" "length row = length (map wal_row_column sch)"
      using those_map_nth(1)[OF bss] assms(2) by simp_all
    fix i assume i: "i < length (map wal_row_column sch)"
    then have "wal_put_cell sch row i = Some (bss ! i)"
      using those_map_nth(2)[OF bss, of i] assms(2) by simp
    then show "reads (wal_rd_cell (map wal_row_column sch ! i)) (bss ! i) (row ! i)"
      using i assms(2,3) by (auto simp: list_all_length intro!: reads_wal_cell)
  qed
qed

lemma reads_wal_row_column:
  assumes "type_id_wf (col_type c)"
  shows "reads wal_rd_row_column (type_id_byte (col_type c) # le_bytes 2 (col_max_len c))
           (wal_row_column c)"
  unfolding wal_rd_row_column_def using assms
  by (intro reads_bind_last[OF reads_bytes] reads_return)
     (simp_all add: wal_row_column_def type_id_wf_def)

lemma reads_wal_rows [reads_intros]:
  assumes "wal_put_rows sch rows = Some bs" "wal_rows_ok sch rows"
  shows "reads wal_rd_rows bs (map wal_row_column sch, rows)"
proof -
  obtain body where body: "those (map (wal_put_row sch) rows) = Some body"
    and bs: "bs = (le_bytes 4 (word_of_nat (length rows) :: u32)
          @ le_bytes 2 (word_of_nat (length sch) :: u16))
        @ concat (map (\<lambda>c. type_id_byte (col_type c) # le_bytes 2 (col_max_len c)) sch)
        @ concat body"
    using assms(1) by (auto simp: wal_put_rows_def)
  have ok: "length sch < 65536" "length rows < 4294967296"
      "list_all (\<lambda>c. type_id_wf (col_type c)) sch"
      "list_all (\<lambda>row. length row = length sch \<and> list_all wal_val_ok row) rows"
    using assms(2) by (simp_all add: wal_rows_ok_def)
  have sch: "list_all2 (reads wal_rd_row_column)
      (map (\<lambda>c. type_id_byte (col_type c) # le_bytes 2 (col_max_len c)) sch) (map wal_row_column sch)"
    using ok(3) by (auto simp: list_all2_conv_all_nth list_all_length intro!: reads_wal_row_column)
  have rows: "list_all2 (reads (rd_each wal_rd_cell (map wal_row_column sch))) body rows"
    using ok(4) those_map_nth[OF body]
    by (auto simp: list_all2_conv_all_nth list_all_length intro!: reads_wal_row)
  show ?thesis unfolding wal_rd_rows_def bs Let_def
    by (rule reads_bind[OF reads_bytes], simp, rule reads_bind[OF reads_times[OF sch]],
        simp add: unat_of_nat_u16 ok, rule reads_bind_last[OF reads_times[OF rows]],
        simp add: unat_of_nat_u32 ok, rule reads_return, simp)
qed

lemma reads_wal_indices [reads_intros]:
  assumes "length ids < 2 ^ 64"
  shows "reads wal_rd_indices (wal_put_indices ids) ids"
proof -
  have "list_all2 (reads (rd_word '''' 8)) (map (le_bytes 8) ids) ids"
    by (auto simp: list_all2_conv_all_nth intro!: reads_word)
  then show ?thesis unfolding wal_rd_indices_def wal_put_indices_def
    by (intro reads_bind[OF reads_word reads_times]) (use assms in \<open>simp_all add: unat_of_nat_u64\<close>)
qed

lemma reads_wal_default:
  assumes "v \<noteq> VNull" "wal_val_ok v"
  shows "reads wal_rd_default ([type_id_byte (wal_default_type v)] @ wal_put_default v) v"
  unfolding wal_rd_default_def using assms
  by (cases v) (auto simp: type_id_of_byte_def wal_val_ok_def
      intro!: reads_bind_u8 reads_bind_last[OF reads_word] reads_bind_last[OF reads_wal_str]
        reads_return)

lemma reads_wal_column:
  assumes "wal_column_ok c"
  shows "reads wal_rd_column (wal_put_column c) c"
proof -
  let ?hdr = "[type_id_byte (col_type c), if col_nullable c then 1 else 0] @ le_bytes 2 (col_max_len c)
       @ le_bytes 2 (word_of_nat (length (col_name c)) :: u16)"
  have ok: "type_id_of_byte (type_id_byte (col_type c)) = col_type c" "length (col_name c) < 65536"
    using assms by (simp_all add: wal_column_ok_def type_id_wf_def wal_str_ok_def)
  show ?thesis unfolding wal_rd_column_def wal_put_column_def
  proof (rule reads_bind[OF reads_bytes, where bs = ?hdr])
    show "reads (rd_bind (rd_chars '''' (unat (le_word (drop 4 ?hdr) :: u16))) (\<lambda>cname.
         rd_bind (rd_u8 '''') (\<lambda>has_default.
           rd_bind (if has_default \<noteq> 0 then rd_bind wal_rd_default (\<lambda>v. rd_return (Some v))
                    else rd_return None) (\<lambda>def.
             rd_return
               \<lparr>col_name = cname, col_type = type_id_of_byte (?hdr ! 0),
                col_nullable = ?hdr ! 1 \<noteq> 0, col_max_len = le_word (take 2 (drop 2 ?hdr)),
                col_default = def\<rparr>))))
       (map byte_of_char (col_name c)
         @ (case col_default c of
              Some v \<Rightarrow> [1] @ [type_id_byte (wal_default_type v)] @ wal_put_default v
            | None \<Rightarrow> [0])) c"
    proof (cases "col_default c")
      case None
      then show ?thesis using ok
        by (auto simp: unat_of_nat_u16 intro!: reads_bind[OF reads_chars] reads_bind_u8
            reads_bind_last[OF reads_return] reads_return)
    next
      case (Some v)
      have "reads wal_rd_default (type_id_byte (wal_default_type v) # wal_put_default v) v"
        using reads_wal_default[of v] assms Some by (auto simp: wal_column_ok_def)
      then show ?thesis using ok Some
        by (auto simp: unat_of_nat_u16 intro!: reads_bind[OF reads_chars] reads_bind_u8
            reads_bind_last[OF reads_bind_last[OF _ reads_return[OF refl]]] reads_return)
    qed
  qed simp
qed

lemma reads_wal_name:
  assumes "wal_str_ok table" "reads (wal_rd_body ty (wal_record_new ty table)) bs rec"
  shows "reads wal_rd_payload (wal_put_name ty table @ bs) rec"
proof -
  have "wal_type_of_byte (wal_type_byte ty) = Some ty"
    by (cases ty) (simp_all add: wal_type_of_byte_def)
  then show ?thesis using assms unfolding wal_rd_payload_def wal_put_name_def append_assoc
    by (auto intro!: reads_bind_u8 reads_bind[OF reads_wal_str])
qed

text \<open>The payload of a record, whatever its type.\<close>

lemma reads_wal_payload:
  assumes "wal_entry_ok e" "wal_entry_payload e = Some p"
  shows "reads wal_rd_payload p (wal_entry_record e)"
proof (cases e)
  case (LogInsert table sch rows)
  then show ?thesis using assms
    by (auto simp: log_insert_payload_def wal_rd_body_def wal_rd_insert_def
        intro!: reads_wal_name reads_bind_last[OF reads_wal_rows] reads_return)
next
  case (LogCreateTable table sch)
  have "list_all2 (reads wal_rd_column) (map wal_put_column sch) sch"
    using assms(1) LogCreateTable
    by (auto simp: list_all2_conv_all_nth list_all_length intro!: reads_wal_column)
  then show ?thesis using assms LogCreateTable
    by (auto simp: log_create_payload_def wal_rd_body_def wal_rd_create_def unat_of_nat_u16
        intro!: reads_wal_name reads_bind[OF reads_word] reads_bind_last[OF reads_times] reads_return)
next
  case (LogDelete table ids)
  then show ?thesis using assms
    by (auto simp: log_delete_payload_def wal_rd_body_def wal_rd_delete_def
        intro!: reads_wal_name reads_bind_last[OF reads_wal_indices] reads_return)
next
  case (LogUpdate table ids sch rows)
  then show ?thesis using assms
    by (auto simp: log_update_payload_def wal_rd_body_def wal_rd_update_def
        intro!: reads_wal_name reads_bind[OF reads_wal_indices]
          reads_bind_last[OF reads_wal_rows] reads_return)
next
  case (LogSegmentFlush table n)
  then show ?thesis using assms
    by (auto simp: log_segment_flush_payload_def wal_rd_body_def wal_rd_segment_flush_def
        intro!: reads_wal_name reads_bind_last[OF reads_word] reads_return)
qed

lemma wal_entry_payload_ok: "wal_entry_ok e \<Longrightarrow> \<exists>p. wal_entry_payload e = Some p"
  by (cases e) (auto simp: log_insert_payload_def log_update_payload_def)

lemma wal_payload_type:
  assumes "wal_entry_payload e = Some p"
  shows "\<exists>b q. p = b # q \<and> wal_type_of_byte b \<noteq> None"
  using assms
  by (cases e) (auto simp: log_insert_payload_def log_create_payload_def log_delete_payload_def
      log_update_payload_def log_segment_flush_payload_def wal_put_name_def wal_type_of_byte_def)

lemma wal_entry_bytes_type:
  assumes "wal_entry_ok e"
  obtains b bs where "wal_entry_bytes e = b # bs" "wal_type_of_byte b \<noteq> None"
proof -
  obtain p where p: "wal_entry_payload e = Some p" using wal_entry_payload_ok[OF assms] by blast
  then obtain b q where "p = b # q" "wal_type_of_byte b \<noteq> None" using wal_payload_type by blast
  then show thesis using that p by (simp add: wal_entry_bytes_def wal_seal_def)
qed

lemma rd_word_8:
  "rd_word msg 8 s = (if 8 \<le> length (in_rest s)
     then (ok (le_word (take 8 (in_rest s)) :: u64), rd_advance (take 8 (in_rest s)) s)
     else (err msg, s))"
  by (simp add: rd_word_def rd_bind_def rd_bytes_def rd_return_def Let_def)

lemma wal_rd_one_entry:
  assumes "wal_entry_ok e" "in_rest s = wal_entry_bytes e @ r"
  shows "\<exists>s'. wal_rd_one s = (ok ((wal_entry_record e)\<lparr>wr_byte_offset := in_pos s\<rparr>), s')
           \<and> in_rest s' = r \<and> in_pos s' = in_pos s + length (wal_entry_bytes e)"
proof -
  obtain p where p: "wal_entry_payload e = Some p" using wal_entry_payload_ok[OF assms(1)] by blast
  have bytes: "wal_entry_bytes e = p @ le_bytes 8 (xxhash64 p 0)"
    using p by (simp add: wal_entry_bytes_def wal_seal_def)
  let ?s = "s\<lparr>in_seen := []\<rparr>"
  have "wal_rd_payload ?s = (ok (wal_entry_record e), rd_advance p ?s)"
    by (rule reads_run[OF reads_wal_payload[OF assms(1) p]]) (simp add: assms(2) bytes)
  then show ?thesis using assms(2) by (simp add: wal_rd_one_def rd_word_8 bytes)
qed

lemma wal_rd_one_torn:
  assumes "wal_entry_ok e" "in_rest s = take k (wal_entry_bytes e)" "k < length (wal_entry_bytes e)"
  shows "\<exists>x s'. wal_rd_one s = (err x, s')"
proof -
  obtain p where p: "wal_entry_payload e = Some p" using wal_entry_payload_ok[OF assms(1)] by blast
  have bytes: "wal_entry_bytes e = p @ le_bytes 8 (xxhash64 p 0)"
    using p by (simp add: wal_entry_bytes_def wal_seal_def)
  let ?s = "s\<lparr>in_seen := []\<rparr>"
  note payload = reads_wal_payload[OF assms(1) p]
  show ?thesis
  proof (cases "k < length p")
    case True
    have "\<exists>x s'. wal_rd_payload ?s = (err x, s')"
      by (rule rd_prefix_fails[OF local_wal_rd_payload payload _ True])
         (use True in \<open>simp add: assms(2) bytes\<close>)
    then show ?thesis by (auto simp: wal_rd_one_def)
  next
    case False
    have "wal_rd_payload ?s = (ok (wal_entry_record e), rd_advance p ?s)"
      by (rule reads_run[OF payload]) (use False in \<open>simp add: assms(2) bytes\<close>)
    then show ?thesis using False assms(2,3) by (auto simp: wal_rd_one_def rd_word_8 bytes)
  qed
qed

section \<open>Reading back a log\<close>

lemma wal_loop_entry:
  assumes "wal_entry_ok e" "in_rest s = wal_entry_bytes e @ r"
  obtains s' where "wal_loop s = ((wal_entry_record e)\<lparr>wr_byte_offset := in_pos s\<rparr> # fst (wal_loop s'),
      snd (wal_loop s'))" "in_rest s' = r" "in_pos s' = in_pos s + length (wal_entry_bytes e)"
proof -
  obtain b bs where b: "wal_entry_bytes e = b # bs" "wal_type_of_byte b \<noteq> None"
    using wal_entry_bytes_type assms(1) by metis
  obtain s' where s': "wal_rd_one s = (ok ((wal_entry_record e)\<lparr>wr_byte_offset := in_pos s\<rparr>), s')"
      "in_rest s' = r" "in_pos s' = in_pos s + length (wal_entry_bytes e)"
    using wal_rd_one_entry[of e s r] assms by auto
  have "wal_loop s = ((wal_entry_record e)\<lparr>wr_byte_offset := in_pos s\<rparr> # fst (wal_loop s'),
        snd (wal_loop s'))"
    using s'(1) assms(2) b by (simp add: wal_loop.simps[of s] split: prod.splits)
  then show thesis using that s' by blast
qed

text \<open>Whole records are returned in order; what follows decides where the loop stops.\<close>

lemma wal_loop_entries:
  assumes "list_all wal_entry_ok es" "in_rest s = concat (map wal_entry_bytes es) @ r"
    "\<And>s. in_rest s = r \<Longrightarrow> fst (wal_loop s) = []"
  shows "fst (wal_loop s) = wal_expect (in_pos s) es
    \<and> (r = [] \<longrightarrow> in_pos (snd (wal_loop s)) = in_pos s + length (concat (map wal_entry_bytes es)))"
  using assms(1,2)
proof (induction es arbitrary: s)
  case Nil
  then show ?case using assms(3) by (auto simp: wal_loop.simps)
next
  case (Cons e es)
  obtain s' where s': "wal_loop s = ((wal_entry_record e)\<lparr>wr_byte_offset := in_pos s\<rparr>
        # fst (wal_loop s'), snd (wal_loop s'))"
      "in_rest s' = concat (map wal_entry_bytes es) @ r"
      "in_pos s' = in_pos s + length (wal_entry_bytes e)"
    by (rule wal_loop_entry[of e s "concat (map wal_entry_bytes es) @ r"]) (use Cons.prems in auto)
  then show ?case using Cons.IH[OF _ s'(2)] Cons.prems(1) by (simp add: s'(1,3))
qed

lemma wal_loop_torn:
  assumes "wal_entry_ok e" "k < length (wal_entry_bytes e)" "in_rest s = take k (wal_entry_bytes e)"
  shows "fst (wal_loop s) = []"
  using wal_rd_one_torn[OF assms(1,3,2)] by (auto simp: wal_loop.simps[of s] split: list.splits)

lemma wal_read_all_header:
  "wal_read_all (wal_header @ bs) =
     (let s = \<lparr>in_rest = bs, in_seen = wal_header, in_pos = WAL_HEADER_SIZE\<rparr>
      in ok (fst (wal_loop s), in_pos (snd (wal_loop s)) - WAL_HEADER_SIZE))"
  by (simp add: wal_read_all_def wal_header_def WAL_MAGIC_def WAL_HEADER_SIZE_def rd_bytes_def
      rd_start_def rd_advance_def Let_def split: prod.splits)

lemma wal_read_image:
  assumes "list_all wal_entry_ok es"
  shows "wal_read_all (wal_image es)
           = ok (wal_expect WAL_HEADER_SIZE es, length (concat (map wal_entry_bytes es)))"
proof -
  let ?s = "\<lparr>in_rest = concat (map wal_entry_bytes es), in_seen = wal_header,
    in_pos = WAL_HEADER_SIZE\<rparr>"
  have "fst (wal_loop ?s) = wal_expect (in_pos ?s) es
      \<and> ([] = ([] :: u8 list) \<longrightarrow> in_pos (snd (wal_loop ?s))
           = in_pos ?s + length (concat (map wal_entry_bytes es)))"
    by (rule wal_loop_entries[OF assms]) (simp_all add: wal_loop.simps)
  then show ?thesis by (simp add: wal_image_def wal_read_all_header)
qed

lemma wal_read_torn_image:
  assumes "list_all wal_entry_ok es" "wal_entry_ok e" "k < length (wal_entry_bytes e)"
  shows "\<exists>c. wal_read_all (wal_image es @ take k (wal_entry_bytes e))
           = ok (wal_expect WAL_HEADER_SIZE es, c)"
proof -
  let ?r = "take k (wal_entry_bytes e)"
  let ?s = "\<lparr>in_rest = concat (map wal_entry_bytes es) @ ?r, in_seen = wal_header,
    in_pos = WAL_HEADER_SIZE\<rparr>"
  have "fst (wal_loop ?s) = wal_expect (in_pos ?s) es
      \<and> (?r = [] \<longrightarrow> in_pos (snd (wal_loop ?s))
           = in_pos ?s + length (concat (map wal_entry_bytes es)))"
    by (rule wal_loop_entries[OF assms(1)]) (simp_all add: wal_loop_torn[OF assms(2,3)])
  then show ?thesis by (simp add: wal_image_def wal_read_all_header)
qed

text \<open>Whatever stands behind whole records, they are read.\<close>

lemma wal_loop_behind:
  assumes "list_all wal_entry_ok es" "in_rest s = concat (map wal_entry_bytes es) @ r"
  shows "\<exists>more. fst (wal_loop s) = wal_expect (in_pos s) es @ more"
  using assms
proof (induction es arbitrary: s)
  case (Cons e es)
  obtain s' where s': "wal_loop s = ((wal_entry_record e)\<lparr>wr_byte_offset := in_pos s\<rparr>
        # fst (wal_loop s'), snd (wal_loop s'))"
      "in_rest s' = concat (map wal_entry_bytes es) @ r"
      "in_pos s' = in_pos s + length (wal_entry_bytes e)"
    by (rule wal_loop_entry[of e s "concat (map wal_entry_bytes es) @ r"]) (use Cons.prems in auto)
  then show ?case using Cons.IH[OF _ s'(2)] Cons.prems(1) by (simp add: s'(1,3))
qed simp

lemma wal_read_behind:
  assumes "list_all wal_entry_ok es"
  shows "\<exists>more c. wal_read_all (wal_image es @ r) = ok (wal_expect WAL_HEADER_SIZE es @ more, c)"
proof -
  let ?s = "\<lparr>in_rest = concat (map wal_entry_bytes es) @ r, in_seen = wal_header,
    in_pos = WAL_HEADER_SIZE\<rparr>"
  have "\<exists>more. fst (wal_loop ?s) = wal_expect (in_pos ?s) es @ more"
    by (rule wal_loop_behind[OF assms]) simp
  then show ?thesis by (auto simp: wal_image_def wal_read_all_header)
qed

section \<open>Logging and crashing\<close>

text \<open>
  A run of \<open>log_\<dots>\<close> calls, which goes on whatever each of them reports: the list of what they
  returned (\<^const>\<open>None\<close> for an exception) and the writer.
\<close>

fun wal_run :: "wal_entry list \<Rightarrow> wal_writer \<Rightarrow> unit result option list \<times> wal_writer" where
  "wal_run [] w = ([], w)"
| "wal_run (e # es) w = (case wal_log e w of
     None \<Rightarrow> (case wal_run es w of (rs, w2) \<Rightarrow> (None # rs, w2))
   | Some (r, w1) \<Rightarrow> (case wal_run es w1 of (rs, w2) \<Rightarrow> (Some r # rs, w2)))"

text \<open>The calls before the first that reports a short write, which may leave a torn record.\<close>

definition short_write :: "unit result" where
  "short_write = err ''WalWriter: short write''"

definition wal_whole :: "unit result option list \<Rightarrow> nat" where
  "wal_whole rs = length (takeWhile (\<lambda>r. r \<noteq> Some short_write) rs)"

lemma wal_log_write:
  assumes "wal_entry_ok e"
  shows "wal_log e w = Some (wal_write_record (the (wal_entry_payload e)) w)"
  using assms
  by (cases e) (auto simp: wal_log_insert_def wal_log_create_table_def wal_log_delete_def
      wal_log_update_def wal_log_segment_flush_def log_insert_payload_def log_update_payload_def)

lemma ww_outcome_file [simp]:
  "ww_outcome w = (out, w1) \<Longrightarrow> ww_file w1 = ww_file w"
  "ww_outcome w = (out, w1) \<Longrightarrow> ww_open w1 = ww_open w"
  "ww_outcome w = (out, w1) \<Longrightarrow> ww_offset w1 = ww_offset w"
  by (auto simp: ww_outcome_def split: list.splits)

lemma transferred_le: "transferred out n \<le> n"
  by (cases out) auto

lemma ww_fsync_file:
  assumes "ww_fsync w = (b, w1)"
  shows "ww_file w1 = ww_file w" "ww_open w1 = ww_open w" "ww_offset w1 = ww_offset w"
  using assms by (auto simp: ww_fsync_def split: prod.splits io_outcome.splits)

lemma wal_write_record_file:
  assumes "wal_write_record p w = (r, w1)" "ww_open w" "ww_file w = Some f"
  obtains k where "k \<le> length (wal_seal p)" "ww_file w1 = Some (f @ take k (wal_seal p))"
    "ww_open w1" "r = short_write \<longleftrightarrow> k < length (wal_seal p)"
proof -
  obtain n w2 where a: "ww_append (wal_seal p) w = (n, w2)" by fastforce
  then have n: "n \<le> length (wal_seal p)" "ww_file w2 = Some (f @ take n (wal_seal p))" "ww_open w2"
    using assms(2,3) by (auto simp: ww_append_def Let_def transferred_le split: prod.splits)
  obtain b w3 where b: "ww_fsync w2 = (b, w3)" by fastforce
  note s = ww_fsync_file[OF b]
  show thesis
    by (rule that[of n])
       (use assms(1) a b n s in \<open>auto simp: wal_write_record_def short_write_def Let_def split: if_splits\<close>)
qed

text \<open>
  Whatever the outcomes of the system calls: a call appends a prefix of its record, all of it
  unless it reports a short write.
\<close>

lemma wal_log_file:
  assumes "wal_entry_ok e" "ww_open w" "ww_file w = Some f"
  obtains r w1 k where "wal_log e w = Some (r, w1)" "ww_open w1"
    "ww_file w1 = Some (f @ take k (wal_entry_bytes e))"
    "r = short_write \<longleftrightarrow> k < length (wal_entry_bytes e)"
proof -
  obtain r w1 where wr: "wal_write_record (the (wal_entry_payload e)) w = (r, w1)" by fastforce
  show thesis
    by (rule wal_write_record_file[OF wr assms(2,3)])
       (rule that[of r w1], use wal_log_write[OF assms(1)] wr in \<open>auto simp: wal_entry_bytes_def\<close>)
qed

text \<open>
  So the log of a run starts with the records of the calls before the first short write; it has
  nothing else when there was none, and only the torn record when that was the last call.
\<close>

lemma wal_run_image:
  assumes "list_all wal_entry_ok es" "ww_open w" "ww_file w = Some f" "wal_run es w = (rs, w1)"
  shows "length rs = length es \<and> (\<exists>g. ww_file w1 = Some (f @ concat (map wal_entry_bytes (take (wal_whole rs) es)) @ g)
    \<and> (wal_whole rs = length es \<longrightarrow> g = [])
    \<and> (Suc (wal_whole rs) = length es \<longrightarrow> (\<exists>k < length (wal_entry_bytes (last es)).
         g = take k (wal_entry_bytes (last es)))))"
  using assms
proof (induction es arbitrary: w f rs)
  case Nil
  then show ?case by (simp add: wal_whole_def)
next
  case (Cons e es)
  obtain r w2 k where 1: "wal_log e w = Some (r, w2)" "ww_open w2"
    "ww_file w2 = Some (f @ take k (wal_entry_bytes e))"
    "r = short_write \<longleftrightarrow> k < length (wal_entry_bytes e)"
    using wal_log_file[OF _ Cons.prems(2,3), of e] Cons.prems(1) by auto
  obtain rs' where rs: "wal_run es w2 = (rs', w1)" "rs = Some r # rs'"
    using Cons.prems(4) 1(1) by (auto split: prod.splits)
  from Cons.IH[OF _ 1(2,3) rs(1)] Cons.prems(1) obtain g where g: "length rs' = length es"
    "ww_file w1 = Some ((f @ take k (wal_entry_bytes e))
        @ concat (map wal_entry_bytes (take (wal_whole rs') es)) @ g)"
    "wal_whole rs' = length es \<Longrightarrow> g = []"
    "Suc (wal_whole rs') = length es \<Longrightarrow> \<exists>k < length (wal_entry_bytes (last es)).
         g = take k (wal_entry_bytes (last es))"
    by auto
  show ?case
  proof (cases "r = short_write")
    case True
    then have "wal_whole rs = 0" by (simp add: rs(2) wal_whole_def)
    moreover have "wal_whole rs' = 0" if "es = []" using that g(1) by (simp add: wal_whole_def)
    ultimately show ?thesis using True 1(4) g by (auto simp: rs(2))
  next
    case False
    then have w: "wal_whole rs = Suc (wal_whole rs')" by (simp add: rs(2) wal_whole_def)
    show ?thesis
      using False 1(4) g w by (intro conjI exI[of _ g]) (auto simp: rs(2))
  qed
qed

lemma wal_header_length [simp]: "length wal_header = WAL_HEADER_SIZE"
  by (simp add: wal_header_def WAL_MAGIC_def WAL_HEADER_SIZE_def)

lemma wal_open_new:
  "wal_open path None [] = (ok (), \<lparr>ww_path = path, ww_open = True, ww_offset = 6,
     ww_file = Some (wal_image []), ww_faults = []\<rparr>)"
  by (simp add: wal_open_def ww_outcome_def ww_append_def ww_fsync_def WAL_HEADER_SIZE_def
      wal_image_def)

lemma wal_run_succeeds:
  assumes "list_all wal_entry_ok es" "ww_open w" "ww_file w = Some (wal_image es0)"
    "ww_faults w = []" "ww_offset w = word_of_nat (length (wal_image es0))"
    "wal_run es w = (rs, w1)"
  shows "rs = replicate (length es) (Some (ok ())) \<and> ww_file w1 = Some (wal_image (es0 @ es))
    \<and> ww_offset w1 = word_of_nat (length (wal_image (es0 @ es)))"
  using assms
proof (induction es arbitrary: es0 w rs)
  case (Cons e es)
  let ?w = "w\<lparr>ww_file := Some (wal_image (es0 @ [e])),
      ww_offset := word_of_nat (length (wal_image (es0 @ [e])))\<rparr>"
  have "wal_log e w = Some (ok (), ?w)"
    using wal_log_write[of e w] Cons.prems
    by (simp add: wal_write_record_def ww_append_def ww_outcome_def ww_fsync_def wal_image_def
        wal_entry_bytes_def Let_def add.assoc)
  then obtain m where m: "wal_run es ?w = (m, w1)" "rs = Some (ok ()) # m"
    using Cons.prems(6) by (auto split: prod.splits)
  have "m = replicate (length es) (Some (ok ())) \<and> ww_file w1 = Some (wal_image ((es0 @ [e]) @ es))
    \<and> ww_offset w1 = word_of_nat (length (wal_image ((es0 @ [e]) @ es)))"
    by (rule Cons.IH[OF _ _ _ _ _ m(1)]) (use Cons.prems in simp_all)
  then show ?case by (simp add: m(2))
qed simp

section \<open>Properties\<close>

text \<open>
  C12: the log round trip. Opening a new log and making any list of \<open>log_\<dots>\<close> calls whose
  arguments fit the layout (lengths and counts within the width of their fields, rows that match
  their schema, and no column with DEFAULT NULL, whose record does not read back), with every
  system call succeeding, acknowledges all of them, and
  \<open>read_all\<close> on the file returns exactly the records of the calls, in order, each with the
  offset it starts at, and reports the whole log consumed.
\<close>

theorem wal_roundtrip:
  assumes "list_all wal_entry_ok es" "wal_open path None [] = (ok (), w0)"
    "wal_run es w0 = (rs, w1)"
  shows "rs = replicate (length es) (Some (ok ())) \<and> (\<exists>f. ww_file w1 = Some f
           \<and> wal_read_all f = ok (wal_expect WAL_HEADER_SIZE es, length f - WAL_HEADER_SIZE)
           \<and> ww_offset w1 = word_of_nat (length f))"
proof -
  have w0: "w0 = \<lparr>ww_path = path, ww_open = True, ww_offset = 6, ww_file = Some (wal_image []),
      ww_faults = []\<rparr>"
    using assms(2) by (simp add: wal_open_new)
  have "rs = replicate (length es) (Some (ok ())) \<and> ww_file w1 = Some (wal_image ([] @ es))
      \<and> ww_offset w1 = word_of_nat (length (wal_image ([] @ es)))"
    by (rule wal_run_succeeds[OF assms(1) _ _ _ _ assms(3)])
       (simp_all add: w0 wal_image_def wal_header_length WAL_HEADER_SIZE_def)
  then show ?thesis using wal_read_image[OF assms(1)]
    by (simp add: wal_image_def wal_header_length)
qed

definition sample_wal :: "wal_entry list" where
  "sample_wal =
     [LogCreateTable ''t'' [\<lparr>col_name = ''a'', col_type = INT32, col_nullable = True,
        col_max_len = 0, col_default = Some (VI32 7)\<rparr>],
      LogInsert ''t'' [\<lparr>col_name = ''a'', col_type = INT32, col_nullable = True,
        col_max_len = 0, col_default = Some (VI32 7)\<rparr>] [[VI32 1], [VNull]],
      LogDelete ''t'' [1], LogSegmentFlush ''t'' 2]"

lemma sample_wal_ok: "list_all wal_entry_ok sample_wal"
  by (simp add: sample_wal_def wal_str_ok_def wal_column_ok_def wal_val_ok_def type_id_wf_def
      type_id_of_byte_def wal_rows_ok_def wal_put_rows_def wal_put_row_def wal_put_cell_def
      wal_put_typed_def upt_rec)

theorem wal_roundtrip_witness:
  "\<exists>w0 rs w1. wal_open ''wal'' None [] = (ok (), w0) \<and> wal_run sample_wal w0 = (rs, w1)
     \<and> rs = replicate 4 (Some (ok ())) \<and> (\<exists>f. ww_file w1 = Some f
           \<and> wal_read_all f = ok (wal_expect WAL_HEADER_SIZE sample_wal, length f - WAL_HEADER_SIZE)
           \<and> ww_offset w1 = word_of_nat (length f))"
proof -
  obtain w0 where w0: "wal_open ''wal'' None [] = (ok (), w0)"
    by (simp add: wal_open_new)
  obtain rs w1 where run: "wal_run sample_wal w0 = (rs, w1)" by fastforce
  have "length sample_wal = 4" by (simp add: sample_wal_def)
  then show ?thesis using wal_roundtrip[OF sample_wal_ok w0 run] w0 run by auto
qed



text \<open>
  C31: a checkpoint empties the log. If \<open>checkpoint\<close> reports success the file is gone, and the
  log opened afresh at the same path reads back as an empty list of records; if it reports an
  error the file is as it was.
\<close>

theorem wal_checkpoint_empties:
  assumes "wal_checkpoint w = (r, w1)"
  shows "(case r of
      Inr _ \<Rightarrow> ww_file w1 = None \<and> ww_offset w1 = 0 \<and>
        (\<exists>w2 f. wal_open (ww_path w) (ww_file w1) [] = (ok (), w2) \<and> ww_file w2 = Some f
           \<and> wal_read_all f = ok ([], 0))
    | Inl _ \<Rightarrow> ww_file w1 = ww_file w \<and> ww_offset w1 = ww_offset w)"
proof -
  have new: "wal_read_all (wal_image []) = ok ([], 0)" using wal_read_image[of "[]"] by simp
  obtain out w2 where out: "ww_outcome (w\<lparr>ww_open := False\<rparr>) = (out, w2)" by fastforce
  have w2: "ww_file w2 = ww_file w" "ww_offset w2 = ww_offset w"
    using ww_outcome_file[OF out] by simp_all
  show ?thesis
  proof (cases "\<exists>e. out = IoFail e")
    case True
    then show ?thesis using assms out w2 by (auto simp: wal_checkpoint_def)
  next
    case False
    then have "r = ok ()" "w1 = w2\<lparr>ww_file := None, ww_offset := 0\<rparr>"
      using assms out by (auto simp: wal_checkpoint_def split: io_outcome.splits)
    then show ?thesis using new by (simp add: wal_open_new)
  qed
qed

theorem wal_checkpoint_empties_witness:
  "\<exists>r w1. wal_checkpoint \<lparr>ww_path = ''wal'', ww_open = True, ww_offset = 6,
        ww_file = Some wal_header, ww_faults = []\<rparr> = (r, w1) \<and> r = ok ()
     \<and> ww_file w1 = None
     \<and> (\<exists>w2 f. wal_open ''wal'' (ww_file w1) [] = (ok (), w2) \<and> ww_file w2 = Some f
           \<and> wal_read_all f = ok ([], 0))"
proof -
  let ?w = "\<lparr>ww_path = ''wal'', ww_open = True, ww_offset = 6, ww_file = Some wal_header,
    ww_faults = []\<rparr>"
  obtain r w1 where run: "wal_checkpoint ?w = (r, w1)" by fastforce
  moreover have "r = ok ()" using run by (simp add: wal_checkpoint_def ww_outcome_def)
  ultimately show ?thesis using wal_checkpoint_empties[OF run] by auto
qed

section \<open>Limits of the format\<close>

lemmas rd_step_simps = rd_bind_def rd_u8_def rd_bytes_def rd_return_def rd_advance_def rd_word_def
  rd_chars_def Let_def

lemma wal_loop_stop:
  "in_rest s = b # bs \<Longrightarrow> wal_type_of_byte b \<noteq> None \<Longrightarrow> wal_rd_one s = (err e, s1)
     \<Longrightarrow> wal_loop s = ([], s1)"
  by (auto simp: wal_loop.simps[of s])

lemma le_bytes_2: "le_bytes 2 (1 :: u16) = [1, 0]" "le_bytes 2 (0 :: u16) = [0, 0]"
  by (simp_all add: le_bytes_def upt_rec)

lemma length_8E:
  assumes "length xs = 8"
  obtains x1 x2 x3 x4 x5 x6 x7 x8 where "xs = [x1, x2, x3, x4, x5, x6, x7, x8]"
  using assms by (auto simp: numeral_eq_Suc length_Suc_conv)

text \<open>
  A short write is not undone: the next record is appended behind the torn bytes. Here a
  one-byte write of a record fails, the same record is logged again and acknowledged, and
  \<open>read_all\<close> returns nothing.
\<close>

lemma wal_torn_then_lost:
  assumes "e = LogSegmentFlush ''t'' 5" "w = \<lparr>ww_path = ''wal'', ww_open = True, ww_offset = 6,
      ww_file = Some wal_header, ww_faults = [IoShort 1]\<rparr>"
    "wal_log e w = Some (r1, w1)" "wal_log e w1 = Some (r2, w2)"
  shows "r1 = err ''WalWriter: short write'' \<and> r2 = ok ()
    \<and> (\<exists>f c. ww_file w2 = Some f \<and> wal_read_all f = ok ([], c))"
proof -
  define q where "q = byte_of_char CHR ''t'' # le_bytes 8 (5 :: u64)"
  define buf where "buf = 5 # 1 # 0 # q @ le_bytes 8 (xxhash64 (5 # 1 # 0 # q) 0)"
  have seal: "wal_seal (log_segment_flush_payload ''t'' 5) = buf" "length q = 9"
    by (simp_all add: wal_seal_def log_segment_flush_payload_def wal_put_name_def wal_put_str_def
        buf_def q_def le_bytes_2)
  have 1: "r1 = err ''WalWriter: short write''" "w1 = w\<lparr>ww_file := Some (wal_header @ [5]), ww_faults := []\<rparr>"
    using assms(1-3) seal by (auto simp: wal_log_segment_flush_def wal_write_record_def
        ww_append_def ww_outcome_def Let_def buf_def)
  have 2: "r2 = ok ()" "ww_file w2 = Some (wal_header @ 5 # buf)"
    using assms(1,2,4) seal by (auto simp: 1 wal_log_segment_flush_def wal_write_record_def
        ww_append_def ww_outcome_def ww_fsync_def Let_def)
  let ?s = "\<lparr>in_rest = 5 # buf, in_seen = wal_header, in_pos = WAL_HEADER_SIZE\<rparr>"
  have "\<exists>x s1. wal_rd_one ?s = (err x, s1)"
    using seal(2) by (simp add: rd_step_simps wal_rd_one_def wal_rd_payload_def wal_rd_str_def
        wal_type_of_byte_def buf_def le_word_def)
  then have "\<exists>c. wal_read_all (wal_header @ 5 # buf) = ok ([], c)"
    using wal_loop_stop[of ?s 5 buf] by (auto simp: wal_read_all_header wal_type_of_byte_def)
  then show ?thesis using 1 2 by simp
qed

text \<open>
  The count of consumed bytes includes those of a record that was cut off: here no record was
  read and one byte is reported consumed.
\<close>

lemma wal_consumed_overshoots: "wal_read_all (wal_header @ [5]) = ok ([], 1)"
proof -
  let ?s = "\<lparr>in_rest = [5], in_seen = wal_header, in_pos = WAL_HEADER_SIZE\<rparr>"
  have "wal_rd_one ?s = (err '''', \<lparr>in_rest = [], in_seen = [5], in_pos = Suc WAL_HEADER_SIZE\<rparr>)"
    by (simp add: rd_step_simps wal_rd_one_def wal_rd_payload_def wal_rd_str_def
        wal_type_of_byte_def)
  then show ?thesis
    using wal_loop_stop[of ?s 5 "[]"] by (simp add: wal_read_all_header wal_type_of_byte_def)
qed

text \<open>A column with DEFAULT NULL is not read back: its tag promises four bytes that are not there.\<close>

lemma wal_default_null_lost:
  "\<exists>c. wal_read_all (wal_header @ wal_seal (log_create_payload ''t''
      [\<lparr>col_name = ''a'', col_type = INT32, col_nullable = True, col_max_len = 0,
        col_default = Some VNull\<rparr>])) = ok ([], c)"
proof -
  define p where "p = log_create_payload ''t''
      [\<lparr>col_name = ''a'', col_type = INT32, col_nullable = True, col_max_len = 0,
        col_default = Some VNull\<rparr>]"
  have p: "p = [2, 1, 0, byte_of_char CHR ''t'', 1, 0, 1, 1, 0, 0, 1, 0, byte_of_char CHR ''a'', 1, 1]"
    by (simp add: p_def log_create_payload_def wal_put_name_def wal_put_str_def wal_put_column_def
        le_bytes_2)
  obtain x1 x2 x3 x4 x5 x6 x7 x8 where cs: "le_bytes 8 (xxhash64 p 0) = [x1,x2,x3,x4,x5,x6,x7,x8]"
    by (rule length_8E[of "le_bytes 8 (xxhash64 p 0)"]) auto
  let ?s = "\<lparr>in_rest = wal_seal p, in_seen = wal_header, in_pos = WAL_HEADER_SIZE\<rparr>"
  have "\<exists>x s1. wal_rd_one ?s = (err x, s1)"
    unfolding wal_seal_def cs unfolding p
    by (simp add: rd_step_simps wal_rd_one_def wal_rd_payload_def wal_rd_str_def wal_rd_body_def
        wal_rd_create_def wal_rd_column_def wal_rd_default_def type_id_of_byte_def
        wal_type_of_byte_def le_word_def)
  then show ?thesis
    using wal_loop_stop[of ?s 2 "tl (wal_seal p)"]
    by (auto simp: wal_read_all_header wal_type_of_byte_def wal_seal_def p simp flip: p_def)
qed

end
