(* ===== verification/Meta_Files.thy ===== *)
theory Meta_Files
  imports Codec Disk_Manager
begin

unbundle bit_operations_syntax

text \<open>
  The metadata files: \<^verbatim>\<open>src/src/storage/disk/schema.cpp\<close>,
  \<^verbatim>\<open>constraint_file.cpp\<close> and the file format of \<^verbatim>\<open>shard_map_file.cpp\<close>, and the
  frame codec of \<^verbatim>\<open>src/src/server/wire.cpp\<close>. Each file is written with one
  \<open>write\<close> over a truncated file and read sequentially; each interprets the locale
  \<open>codec\<close>, which gives its round trip and the rejection of a file cut short.
\<close>

section \<open>Writing a whole file\<close>

text \<open>
  \<open>open(O_CREAT | O_TRUNC)\<close>, one \<open>write\<close>, \<open>close\<close>, shared by the three formats: the
  result and the file left behind, for the outcomes of the two calls.
\<close>

definition meta_write ::
    "string \<Rightarrow> string \<Rightarrow> io_outcome \<Rightarrow> io_outcome \<Rightarrow> u8 list \<Rightarrow> u8 list option \<Rightarrow> unit result \<times> u8 list option"
  where
  "meta_write what path opened written buf old = (case opened of
     IoFail e \<Rightarrow> (err (what @ '' write: cannot open '' @ path @ '': '' @ e), old)
   | _ \<Rightarrow>
       let n = transferred written (length buf)
       in if n \<noteq> length buf then (err (what @ '' write: short write: '' @ (case written of IoFail e \<Rightarrow> e | _ \<Rightarrow> '''')),
                Some (take n buf))
          else (ok (), Some buf))"

section \<open>Schema files\<close>

definition SCHEMA_MAGIC :: "u8 list" where "SCHEMA_MAGIC = map byte_of_char ''NYX3''"

fun sf_default_type :: "val \<Rightarrow> type_id" where
  "sf_default_type (VI32 _) = INT32"
| "sf_default_type (VI64 _) = INT64"
| "sf_default_type (VF64 _) = DOUBLE"
| "sf_default_type (VStr _) = VARCHAR"
| "sf_default_type (VBool _) = BOOL"
| "sf_default_type (VDate _) = DATE"
| "sf_default_type (VTimestamp _) = TIMESTAMP"
| "sf_default_type VNull = INT32"

fun sf_default_bytes :: "val \<Rightarrow> u8 list" where
  "sf_default_bytes (VI32 x) = le_bytes 4 x"
| "sf_default_bytes (VI64 x) = le_bytes 8 x"
| "sf_default_bytes (VF64 x) = le_bytes 8 x"
| "sf_default_bytes (VStr x) =
     le_bytes 2 (word_of_nat (length x) :: u16) @ map byte_of_char x"
| "sf_default_bytes (VBool x) = [if x then 1 else 0]"
| "sf_default_bytes (VDate x) = le_bytes 4 x"
| "sf_default_bytes (VTimestamp x) = le_bytes 8 x"
| "sf_default_bytes VNull = []"

definition sf_append_default :: "val \<Rightarrow> u8 list" where
  "sf_append_default v = type_id_byte (sf_default_type v) # sf_default_bytes v"

definition sf_column_bytes :: "column \<Rightarrow> u8 list" where
  "sf_column_bytes c =
     ([type_id_byte (col_type c), if col_nullable c then 1 else 0] @ le_bytes 2 (col_max_len c)
       @ le_bytes 2 (word_of_nat (length (col_name c)) :: u16))
     @ map byte_of_char (col_name c)
     @ (case col_default c of Some v \<Rightarrow> 1 # sf_append_default v | None \<Rightarrow> [0])"

definition sf_bytes :: "schema \<Rightarrow> u8 list" where
  "sf_bytes sch =
     (SCHEMA_MAGIC @ le_bytes 4 (word_of_nat (length sch) :: u32))
       @ concat (map sf_column_bytes sch)"

definition sf_write ::
    "string \<Rightarrow> schema \<Rightarrow> io_outcome \<Rightarrow> io_outcome \<Rightarrow> u8 list option \<Rightarrow> unit result \<times> u8 list option"
  where "sf_write path sch opened written old =
    meta_write ''schema'' path opened written (sf_bytes sch) old"

definition sf_read_default :: "val rd" where
  "sf_read_default =
     (let msg = ''schema read: short read on default value''
      in rd_bind (rd_u8 msg) (\<lambda>b. case type_id_of_byte b of
        INT32 \<Rightarrow> rd_bind (rd_word msg 4) (\<lambda>x. rd_return (VI32 x))
      | INT64 \<Rightarrow> rd_bind (rd_word msg 8) (\<lambda>x. rd_return (VI64 x))
      | DOUBLE \<Rightarrow> rd_bind (rd_word msg 8) (\<lambda>x. rd_return (VF64 x))
      | VARCHAR \<Rightarrow> rd_bind (rd_word msg 2) (\<lambda>n :: u16.
                     rd_bind (rd_chars msg (unat n)) (\<lambda>x. rd_return (VStr x)))
      | BOOL \<Rightarrow> rd_bind (rd_u8 msg) (\<lambda>x. rd_return (VBool (x \<noteq> 0)))
      | DATE \<Rightarrow> rd_bind (rd_word msg 4) (\<lambda>x. rd_return (VDate x))
      | TIMESTAMP \<Rightarrow> rd_bind (rd_word msg 8) (\<lambda>x. rd_return (VTimestamp x))
      | _ \<Rightarrow> rd_fail msg))"

definition sf_read_column :: "column rd" where
  "sf_read_column =
     rd_bind (rd_bytes ''schema read: short read on column header'' 6) (\<lambda>hdr.
       rd_bind (rd_chars ''schema read: short read on column name''
                  (unat (le_word (drop 4 hdr) :: u16))) (\<lambda>name.
         rd_bind (rd_u8 ''schema read: short read on has_default'') (\<lambda>has_default.
           rd_bind (if has_default \<noteq> 0 then rd_bind sf_read_default (\<lambda>v. rd_return (Some v))
                    else rd_return None) (\<lambda>def.
             rd_return
               \<lparr>col_name = name, col_type = type_id_of_byte (hdr ! 0),
                col_nullable = hdr ! 1 AND 1 \<noteq> 0, col_max_len = le_word (take 2 (drop 2 hdr)),
                col_default = def\<rparr>))))"

definition sf_dec :: "schema rd" where
  "sf_dec =
     rd_bind (rd_bytes ''schema read: short read on header'' 8) (\<lambda>header.
       if take 4 header \<noteq> SCHEMA_MAGIC then rd_fail ''schema read: bad magic''
       else rd_times (unat (le_word (drop 4 header) :: u32)) sf_read_column)"

text \<open>\<open>Inl e\<close> for the file is a path that does not open, with the system's reason.\<close>

definition sf_read :: "string \<Rightarrow> string + u8 list \<Rightarrow> schema result" where
  "sf_read path file = (case file of
     Inl e \<Rightarrow> err (''schema read: cannot open '' @ path @ '': '' @ e)
   | Inr bs \<Rightarrow> fst (sf_dec (rd_start bs)))"

definition sf_str_ok :: "string \<Rightarrow> bool" where
  "sf_str_ok str \<longleftrightarrow> length str < 2 ^ 16"

definition sf_column_ok :: "column \<Rightarrow> bool" where
  "sf_column_ok c \<longleftrightarrow>
     type_id_of_byte (type_id_byte (col_type c)) = col_type c \<and> sf_str_ok (col_name c)
     \<and> col_default c \<noteq> Some VNull
     \<and> (case col_default c of Some (VStr str) \<Rightarrow> sf_str_ok str | _ \<Rightarrow> True)"

definition sf_ok :: "schema \<Rightarrow> bool" where
  "sf_ok sch \<longleftrightarrow> length sch < 2 ^ 32 \<and> list_all sf_column_ok sch"

section \<open>Constraint files\<close>

datatype constraint_kind = PRIMARY_KEY | UNIQUE | ConstraintByte u8

definition kind_byte :: "constraint_kind \<Rightarrow> u8" where
  "kind_byte k = (case k of PRIMARY_KEY \<Rightarrow> 0 | UNIQUE \<Rightarrow> 1 | ConstraintByte b \<Rightarrow> b)"

definition kind_of_byte :: "u8 \<Rightarrow> constraint_kind" where
  "kind_of_byte b = (if b = 0 then PRIMARY_KEY else if b = 1 then UNIQUE else ConstraintByte b)"

record constraint_meta =
  ct_kind :: constraint_kind
  ct_name :: string
  ct_col_indices :: "u8 list"

definition CONSTRAINT_MAGIC :: "u8 list" where "CONSTRAINT_MAGIC = map byte_of_char ''NYXK''"

definition kf_entry :: "constraint_meta \<Rightarrow> u8 list" where
  "kf_entry c =
     [kind_byte (ct_kind c)] @ [word_of_nat (length (ct_name c))] @ map byte_of_char (ct_name c)
     @ [word_of_nat (length (ct_col_indices c))] @ ct_col_indices c"

definition kf_bytes :: "constraint_meta list \<Rightarrow> u8 list" where
  "kf_bytes cs =
     (CONSTRAINT_MAGIC @ le_bytes 4 (word_of_nat (length cs) :: u32)) @ concat (map kf_entry cs)"

definition kf_write ::
    "string \<Rightarrow> constraint_meta list \<Rightarrow> io_outcome \<Rightarrow> io_outcome \<Rightarrow> u8 list option
       \<Rightarrow> unit result \<times> u8 list option"
  where "kf_write path cs opened written old =
    meta_write ''constraint'' path opened written (kf_bytes cs) old"

definition kf_read_entry :: "constraint_meta rd" where
  "kf_read_entry =
     rd_bind (rd_u8 ''constraint read: short read on kind'') (\<lambda>kind.
       rd_bind (rd_u8 ''constraint read: short read on name_len'') (\<lambda>name_len.
         rd_bind (rd_chars ''constraint read: short read on name'' (unat name_len)) (\<lambda>name.
           rd_bind (rd_u8 ''constraint read: short read on col_count'') (\<lambda>col_count.
             rd_bind (rd_bytes ''constraint read: short read on col_indices'' (unat col_count))
               (\<lambda>cols. rd_return
                 \<lparr>ct_kind = kind_of_byte kind, ct_name = name, ct_col_indices = cols\<rparr>)))))"

definition kf_dec :: "constraint_meta list rd" where
  "kf_dec =
     rd_bind (rd_bytes ''constraint read: short read on header'' 8) (\<lambda>header.
       if take 4 header \<noteq> CONSTRAINT_MAGIC then rd_fail ''constraint read: bad magic''
       else rd_times (unat (le_word (drop 4 header) :: u32)) kf_read_entry)"

definition kf_read :: "string \<Rightarrow> string + u8 list \<Rightarrow> constraint_meta list result" where
  "kf_read path file = (case file of
     Inl e \<Rightarrow> err (''constraint read: cannot open '' @ path @ '': '' @ e)
   | Inr bs \<Rightarrow> fst (kf_dec (rd_start bs)))"

definition kf_ok :: "constraint_meta list \<Rightarrow> bool" where
  "kf_ok cs \<longleftrightarrow> length cs < 2 ^ 32
     \<and> list_all (\<lambda>c. kind_of_byte (kind_byte (ct_kind c)) = ct_kind c
                   \<and> length (ct_name c) < 256 \<and> length (ct_col_indices c) < 256) cs"

section \<open>Shard map files\<close>

record partition_def =
  pd_name :: string
  pd_is_maxvalue :: bool
  pd_upper_bound :: val
  pd_node_addr :: string

record shard_map_meta =
  sm_partition_col :: string
  sm_partition_col_idx :: u8
  sm_partitions :: "partition_def list"

definition SHARD_MAGIC :: "u8 list" where "SHARD_MAGIC = map byte_of_char ''NYXP''"
definition SHARD_VERSION :: u16 where "SHARD_VERSION = 1"

definition sm_put_str :: "string \<Rightarrow> u8 list" where
  "sm_put_str str = [word_of_nat (length str)] @ map byte_of_char str"

fun sm_put_value :: "val \<Rightarrow> u8 list" where
  "sm_put_value VNull = [type_id_byte INT32] @ le_bytes 4 (0 :: u32)"
| "sm_put_value (VI32 x) = [type_id_byte INT32] @ le_bytes 4 x"
| "sm_put_value (VI64 x) = [type_id_byte INT64] @ le_bytes 8 x"
| "sm_put_value (VF64 x) = [type_id_byte DOUBLE] @ le_bytes 8 x"
| "sm_put_value (VStr x) =
     [type_id_byte VARCHAR] @ le_bytes 2 (word_of_nat (length x) :: u16) @ map byte_of_char x"
| "sm_put_value (VBool x) = [type_id_byte BOOL] @ [if x then 1 else 0]"
| "sm_put_value (VDate x) = [type_id_byte DATE] @ le_bytes 4 x"
| "sm_put_value (VTimestamp x) = [type_id_byte TIMESTAMP] @ le_bytes 8 x"

definition sm_put_partition :: "partition_def \<Rightarrow> u8 list" where
  "sm_put_partition p =
     sm_put_str (pd_name p) @ [if pd_is_maxvalue p then 1 else 0]
     @ (if pd_is_maxvalue p then [] else sm_put_value (pd_upper_bound p))
     @ sm_put_str (pd_node_addr p)"

definition sm_bytes :: "shard_map_meta \<Rightarrow> u8 list" where
  "sm_bytes meta =
     SHARD_MAGIC @ le_bytes 2 SHARD_VERSION @ [sm_partition_col_idx meta]
     @ sm_put_str (sm_partition_col meta)
     @ le_bytes 2 (word_of_nat (length (sm_partitions meta)) :: u16)
     @ concat (map sm_put_partition (sm_partitions meta))"

definition sm_write ::
    "string \<Rightarrow> shard_map_meta \<Rightarrow> io_outcome \<Rightarrow> io_outcome \<Rightarrow> u8 list option
       \<Rightarrow> unit result \<times> u8 list option"
  where "sm_write path meta opened written old =
    meta_write ''shard_map'' path opened written (sm_bytes meta) old"

definition sm_truncated :: string where "sm_truncated = ''shard_map read: truncated''"

definition sm_read_str :: "string rd" where
  "sm_read_str = rd_bind (rd_u8 sm_truncated) (\<lambda>n. rd_chars sm_truncated (unat n))"

definition sm_read_value :: "val rd" where
  "sm_read_value =
     rd_bind (rd_u8 sm_truncated) (\<lambda>b. case type_id_of_byte b of
       INT32 \<Rightarrow> rd_bind (rd_word sm_truncated 4) (\<lambda>x. rd_return (VI32 x))
     | INT64 \<Rightarrow> rd_bind (rd_word sm_truncated 8) (\<lambda>x. rd_return (VI64 x))
     | DOUBLE \<Rightarrow> rd_bind (rd_word sm_truncated 8) (\<lambda>x. rd_return (VF64 x))
     | VARCHAR \<Rightarrow> rd_bind (rd_word sm_truncated 2) (\<lambda>n :: u16.
                    rd_bind (rd_chars sm_truncated (unat n)) (\<lambda>x. rd_return (VStr x)))
     | BOOL \<Rightarrow> rd_bind (rd_u8 sm_truncated) (\<lambda>x. rd_return (VBool (x \<noteq> 0)))
     | DATE \<Rightarrow> rd_bind (rd_word sm_truncated 4) (\<lambda>x. rd_return (VDate x))
     | TIMESTAMP \<Rightarrow> rd_bind (rd_word sm_truncated 8) (\<lambda>x. rd_return (VTimestamp x))
     | _ \<Rightarrow> rd_fail ''shard_map read: unknown type'')"

definition sm_read_partition :: "partition_def rd" where
  "sm_read_partition =
     rd_bind sm_read_str (\<lambda>name.
       rd_bind (rd_u8 sm_truncated) (\<lambda>maxvalue.
         rd_bind (if maxvalue \<noteq> 0 then rd_return VNull else sm_read_value) (\<lambda>bound.
           rd_bind sm_read_str (\<lambda>addr.
             rd_return \<lparr>pd_name = name, pd_is_maxvalue = maxvalue \<noteq> 0, pd_upper_bound = bound,
                        pd_node_addr = addr\<rparr>))))"

definition sm_dec :: "shard_map_meta rd" where
  "sm_dec =
     rd_bind (rd_bytes ''shard_map read: bad magic'' 4) (\<lambda>magic.
       if magic \<noteq> SHARD_MAGIC then rd_fail ''shard_map read: bad magic''
       else rd_bind (rd_bytes sm_truncated 2) (\<lambda>_.
         rd_bind (rd_u8 sm_truncated) (\<lambda>idx.
           rd_bind sm_read_str (\<lambda>col.
             rd_bind (rd_word sm_truncated 2) (\<lambda>count :: u16.
               rd_bind (rd_times (unat count) sm_read_partition) (\<lambda>parts.
                 rd_return \<lparr>sm_partition_col = col, sm_partition_col_idx = idx,
                            sm_partitions = parts\<rparr>))))))"

definition sm_read :: "string \<Rightarrow> string + u8 list \<Rightarrow> shard_map_meta result" where
  "sm_read path file = (case file of
     Inl e \<Rightarrow> err (''shard_map read: cannot open '' @ path @ '': '' @ e)
   | Inr bs \<Rightarrow> fst (sm_dec (rd_start bs)))"

text \<open>An upper bound that the format keeps: none for MAXVALUE, otherwise a value that is not NULL.\<close>

definition sm_partition_ok :: "partition_def \<Rightarrow> bool" where
  "sm_partition_ok p \<longleftrightarrow> length (pd_name p) < 256 \<and> length (pd_node_addr p) < 256
     \<and> (pd_is_maxvalue p \<longleftrightarrow> pd_upper_bound p = VNull)
     \<and> (case pd_upper_bound p of VStr str \<Rightarrow> sf_str_ok str | _ \<Rightarrow> True)"

definition sm_ok :: "shard_map_meta \<Rightarrow> bool" where
  "sm_ok meta \<longleftrightarrow> length (sm_partition_col meta) < 256 \<and> length (sm_partitions meta) < 2 ^ 16
     \<and> list_all sm_partition_ok (sm_partitions meta)"

section \<open>The formats keep the codec contract\<close>

text \<open>
  A write that reports success leaves a file that reads back as what was written; a write that
  fails leaves the old file or one that the reader rejects.
\<close>

context codec
begin

lemma write_read:
  assumes "valid x" "meta_write what path opened written (enc x) old = (r, f)"
  shows "case r of
      Inr _ \<Rightarrow> \<exists>bs. f = Some bs \<and> fst (dec (rd_start bs)) = ok x
    | Inl _ \<Rightarrow> f = old \<or> (\<exists>bs e. f = Some bs \<and> fst (dec (rd_start bs)) = err e)"
proof (cases "\<exists>e. opened = IoFail e")
  case True
  then show ?thesis using assms(2) by (auto simp: meta_write_def)
next
  case False
  let ?n = "transferred written (length (enc x))"
  have le: "?n \<le> length (enc x)" by (cases written) auto
  show ?thesis
  proof (cases "?n = length (enc x)")
    case True
    then show ?thesis using assms(2) False decode_encode[OF assms(1), of "[]"]
      by (auto simp: meta_write_def split: io_outcome.splits)
  next
    case short: False
    then have "is_ok r = False" "f = Some (take ?n (enc x))"
      using assms(2) False by (auto simp: meta_write_def Let_def split: io_outcome.splits)
    then show ?thesis using truncated_rejected[OF assms(1), of ?n] short le
      by (auto simp: is_ok_iff split: sum.splits)
  qed
qed

end

lemma local_sf [local_intros]: "rd_local sf_read_default" "rd_local sf_read_column" "rd_local sf_dec"
  unfolding sf_read_default_def sf_read_column_def sf_dec_def Let_def
  by (auto intro!: local_intros split: type_id.split)

lemma local_kf [local_intros]: "rd_local kf_read_entry" "rd_local kf_dec"
  unfolding kf_read_entry_def kf_dec_def by (auto intro!: local_intros)

lemma local_sm [local_intros]:
  "rd_local sm_read_str" "rd_local sm_read_value" "rd_local sm_read_partition" "rd_local sm_dec"
  unfolding sm_read_str_def sm_read_value_def sm_read_partition_def sm_dec_def
  by (auto intro!: local_intros split: type_id.split)

lemma reads_short_str:
  assumes "sf_str_ok str" "reads (f str) cs y"
  shows "reads (rd_bind (rd_word msg 2) (\<lambda>n :: u16. rd_bind (rd_chars msg (unat n)) f))
           (le_bytes 2 (word_of_nat (length str) :: u16) @ map byte_of_char str @ cs) y"
  by (rule reads_bind[OF reads_word reads_bind[OF reads_chars]])
     (use assms in \<open>simp_all add: sf_str_ok_def unat_of_nat_u16\<close>)

lemma reads_sf_default:
  assumes "v \<noteq> VNull" "case v of VStr str \<Rightarrow> sf_str_ok str | _ \<Rightarrow> True"
  shows "reads sf_read_default (sf_append_default v) v"
  unfolding sf_read_default_def sf_append_default_def Let_def using assms
  by (cases v) (auto simp: type_id_of_byte_def
      intro!: reads_bind_u8 reads_bind_last[OF reads_word] reads_short_str[where cs = "[]", simplified]
        reads_return)

lemma reads_sf_column:
  assumes "sf_column_ok c"
  shows "reads sf_read_column (sf_column_bytes c) c"
proof -
  let ?hdr = "[type_id_byte (col_type c), if col_nullable c then 1 else 0] @ le_bytes 2 (col_max_len c)
       @ le_bytes 2 (word_of_nat (length (col_name c)) :: u16)"
  define rest where "rest = (\<lambda>hdr name.
         rd_bind (rd_u8 ''schema read: short read on has_default'') (\<lambda>has_default.
           rd_bind (if has_default \<noteq> 0 then rd_bind sf_read_default (\<lambda>v. rd_return (Some v))
                    else rd_return None) (\<lambda>def.
             rd_return
               \<lparr>col_name = name, col_type = type_id_of_byte (hdr ! 0),
                col_nullable = hdr ! 1 AND 1 \<noteq> 0, col_max_len = le_word (take 2 (drop 2 hdr)),
                col_default = def\<rparr>)))"
  have ok: "type_id_of_byte (type_id_byte (col_type c)) = col_type c" "length (col_name c) < 65536"
    using assms by (simp_all add: sf_column_ok_def sf_str_ok_def)
  have tail: "reads (rest ?hdr (col_name c))
      (case col_default c of Some v \<Rightarrow> 1 # sf_append_default v | None \<Rightarrow> [0]) c"
  proof (cases "col_default c")
    case None
    then show ?thesis using ok unfolding rest_def
      by (auto intro!: reads_bind_u8 reads_bind_last[OF reads_return] reads_return)
  next
    case (Some v)
    then have "reads sf_read_default (sf_append_default v) v"
      using assms by (intro reads_sf_default) (auto simp: sf_column_ok_def)
    then show ?thesis using ok Some unfolding rest_def
      by (auto intro!: reads_bind_u8 reads_bind_last[OF reads_bind_last[OF _ reads_return[OF refl]]]
          reads_return)
  qed
  show ?thesis unfolding sf_read_column_def sf_column_bytes_def
    by (rule reads_bind[OF reads_bytes], simp, rule reads_bind[OF reads_chars],
        simp add: unat_of_nat_u16 ok, rule tail[unfolded rest_def])
qed

lemma reads_counted:
  assumes "length magic = 4" "length xs < 2 ^ 32" "\<And>x. x \<in> set xs \<Longrightarrow> reads m (f x) x"
  shows "reads (rd_bind (rd_bytes short 8) (\<lambda>header. if take 4 header \<noteq> magic then rd_fail bad
             else rd_times (unat (le_word (drop 4 header) :: u32)) m))
           ((magic @ le_bytes 4 (word_of_nat (length xs) :: u32)) @ concat (map f xs)) xs"
proof -
  have "list_all2 (reads m) (map f xs) xs"
    using assms(3) by (auto simp: list_all2_conv_all_nth)
  then have "reads (rd_times (length xs) m) (concat (map f xs)) xs" by (rule reads_times) simp
  then show ?thesis using assms(1,2)
    by (intro reads_bind[OF reads_bytes]) (simp_all add: unat_of_nat_u32)
qed

interpretation schema_codec: codec sf_bytes sf_dec sf_ok
proof
  fix sch assume "sf_ok sch"
  then show "reads sf_dec (sf_bytes sch) sch" unfolding sf_dec_def sf_bytes_def
    by (intro reads_counted)
       (auto simp: sf_ok_def SCHEMA_MAGIC_def list_all_iff intro: reads_sf_column)
qed (rule local_sf)

lemma reads_kf_entry:
  assumes "kind_of_byte (kind_byte (ct_kind c)) = ct_kind c" "length (ct_name c) < 256"
    "length (ct_col_indices c) < 256"
  shows "reads kf_read_entry (kf_entry c) c"
  unfolding kf_read_entry_def kf_entry_def using assms
  by (auto simp: unat_of_nat_u8
      intro!: reads_bind_u8 reads_bind[OF reads_chars] reads_bind_last[OF reads_bytes] reads_return)

interpretation constraint_codec: codec kf_bytes kf_dec kf_ok
proof
  fix cs assume "kf_ok cs"
  then show "reads kf_dec (kf_bytes cs) cs" unfolding kf_dec_def kf_bytes_def
    by (intro reads_counted)
       (auto simp: kf_ok_def CONSTRAINT_MAGIC_def list_all_iff intro!: reads_kf_entry)
qed (rule local_kf)

lemma reads_sm_str: "length str < 256 \<Longrightarrow> reads sm_read_str (sm_put_str str) str"
  unfolding sm_read_str_def sm_put_str_def
  by (auto simp: unat_of_nat_u8 intro!: reads_bind_u8 reads_chars)

lemma reads_sm_value:
  assumes "v \<noteq> VNull" "case v of VStr str \<Rightarrow> sf_str_ok str | _ \<Rightarrow> True"
  shows "reads sm_read_value (sm_put_value v) v"
  unfolding sm_read_value_def using assms
  by (cases v) (auto simp: type_id_of_byte_def
      intro!: reads_bind_u8 reads_bind_last[OF reads_word] reads_short_str[where cs = "[]", simplified]
        reads_return)

lemma reads_sm_partition:
  assumes "sm_partition_ok p"
  shows "reads sm_read_partition (sm_put_partition p) p"
proof -
  have ok: "length (pd_name p) < 256" "length (pd_node_addr p) < 256"
      "pd_is_maxvalue p \<longleftrightarrow> pd_upper_bound p = VNull"
    using assms by (simp_all add: sm_partition_ok_def)
  have "reads (if pd_is_maxvalue p then rd_return VNull else sm_read_value)
      (if pd_is_maxvalue p then [] else sm_put_value (pd_upper_bound p)) (pd_upper_bound p)"
    using assms by (auto simp: sm_partition_ok_def intro!: reads_return reads_sm_value)
  then show ?thesis unfolding sm_read_partition_def sm_put_partition_def
    by (intro reads_bind[OF reads_sm_str[OF ok(1)]] reads_bind[OF reads_u8[OF refl]] reads_bind
        reads_bind_last[OF reads_sm_str[OF ok(2)]] reads_return) (auto split: if_splits)
qed

interpretation shard_codec: codec sm_bytes sm_dec sm_ok
proof
  fix meta assume ok: "sm_ok meta"
  have "list_all2 (reads sm_read_partition) (map sm_put_partition (sm_partitions meta))
      (sm_partitions meta)"
    using ok by (auto simp: sm_ok_def list_all2_conv_all_nth list_all_length intro!: reads_sm_partition)
  note parts = reads_times[OF this]
  have "SHARD_MAGIC = SHARD_MAGIC \<longrightarrow> length SHARD_MAGIC = 4" by (simp add: SHARD_MAGIC_def)
  then show "reads sm_dec (sm_bytes meta) meta" unfolding sm_dec_def sm_bytes_def using ok
    by (auto simp: sm_ok_def unat_of_nat_u16
        intro!: reads_bind[OF reads_bytes] reads_bind_u8 reads_bind[OF reads_sm_str]
          reads_bind[OF reads_word] reads_bind_last[OF parts] reads_return)
qed (rule local_sm)

section \<open>Frames\<close>

text \<open>The codec of \<^verbatim>\<open>wire.cpp\<close>: little-endian fields and the nine-byte frame header.\<close>

record frame_header =
  fh_length :: u32
  fh_type :: u8
  fh_query_id :: u32

definition FRAME_HEADER_SIZE :: nat where "FRAME_HEADER_SIZE = 9"

definition encode_u8 :: "u8 list \<Rightarrow> u8 \<Rightarrow> u8 list" where "encode_u8 buf v = buf @ [v]"
definition encode_u16 :: "u8 list \<Rightarrow> u16 \<Rightarrow> u8 list" where "encode_u16 buf v = buf @ le_bytes 2 v"
definition encode_u32 :: "u8 list \<Rightarrow> u32 \<Rightarrow> u8 list" where "encode_u32 buf v = buf @ le_bytes 4 v"
definition encode_u64 :: "u8 list \<Rightarrow> u64 \<Rightarrow> u8 list" where "encode_u64 buf v = buf @ le_bytes 8 v"

definition encode_str :: "u8 list \<Rightarrow> string \<Rightarrow> u8 list" where
  "encode_str buf str = encode_u16 buf (word_of_nat (length str)) @ map byte_of_char str"

text \<open>\<^const>\<open>None\<close> is the exception of \<open>std::get\<close> on another alternative.\<close>

definition encode_value :: "u8 list \<Rightarrow> val \<Rightarrow> type_id \<Rightarrow> u8 list option" where
  "encode_value buf v t = (case t of
     INT32 \<Rightarrow> (case v of VI32 x \<Rightarrow> Some (buf @ le_bytes 4 x) | _ \<Rightarrow> None)
   | INT64 \<Rightarrow> (case v of VI64 x \<Rightarrow> Some (buf @ le_bytes 8 x) | _ \<Rightarrow> None)
   | DOUBLE \<Rightarrow> (case v of VF64 x \<Rightarrow> Some (buf @ le_bytes 8 x) | _ \<Rightarrow> None)
   | BOOL \<Rightarrow> (case v of VBool x \<Rightarrow> Some (encode_u8 buf (if x then 1 else 0)) | _ \<Rightarrow> None)
   | VARCHAR \<Rightarrow> (case v of VStr x \<Rightarrow> Some (encode_str buf x) | _ \<Rightarrow> None)
   | DATE \<Rightarrow> (case v of VDate x \<Rightarrow> Some (buf @ le_bytes 4 x) | _ \<Rightarrow> None)
   | TIMESTAMP \<Rightarrow> (case v of VTimestamp x \<Rightarrow> Some (buf @ le_bytes 8 x) | _ \<Rightarrow> None)
   | _ \<Rightarrow> Some buf)"

definition encode_header :: "u8 list \<Rightarrow> u8 \<Rightarrow> u32 \<Rightarrow> u32 \<Rightarrow> u8 list" where
  "encode_header buf t qid payload_len =
     (let total = word_of_nat FRAME_HEADER_SIZE + payload_len
      in encode_u32 (encode_u8 (encode_u32 buf total) t) qid)"

definition decode_header :: "u8 list \<Rightarrow> frame_header option" where
  "decode_header data =
     (if length data < FRAME_HEADER_SIZE then None
      else Some \<lparr>fh_length = le_word (slice 0 4 data), fh_type = data ! 4,
                 fh_query_id = le_word (slice 5 4 data)\<rparr>)"

definition decode_u16 :: "u8 list \<Rightarrow> u16" where "decode_u16 p = le_word (take 2 p)"
definition decode_u32 :: "u8 list \<Rightarrow> u32" where "decode_u32 p = le_word (take 4 p)"
definition decode_u64 :: "u8 list \<Rightarrow> u64" where "decode_u64 p = le_word (take 8 p)"

section \<open>Properties\<close>

text \<open>
  C32: schema files. For a schema whose lengths fit the format and in which no column has
  DEFAULT NULL, a write that reports success
  leaves a file that reads back as the schema, whatever was there before; a write that reports an
  error leaves the old file, or a file that \<open>read\<close> refuses (never another schema). (A NULL
  default is written as an INT32 tag without its four bytes and does not read back.)
\<close>

theorem schema_file_write_read:
  assumes "sf_ok sch" "sf_write path sch opened written old = (r, f)"
  shows "case r of
      Inr _ \<Rightarrow> \<exists>bs. f = Some bs \<and> sf_read path (Inr bs) = ok sch
    | Inl _ \<Rightarrow> f = old \<or> (\<exists>bs e. f = Some bs \<and> sf_read path (Inr bs) = err e)"
  using schema_codec.write_read[OF assms(1) assms(2)[unfolded sf_write_def]]
  by (cases r) (simp_all add: sf_read_def)

definition sample_schema :: schema where
  "sample_schema = [\<lparr>col_name = ''id'', col_type = INT64, col_nullable = False, col_max_len = 0,
     col_default = None\<rparr>, \<lparr>col_name = ''s'', col_type = VARCHAR, col_nullable = True,
     col_max_len = 8, col_default = Some (VStr ''x'')\<rparr>]"

theorem schema_file_write_read_witness:
  "\<exists>bs e. sf_ok sample_schema
     \<and> sf_write ''p'' sample_schema IoDone IoDone None = (ok (), Some (sf_bytes sample_schema))
     \<and> sf_read ''p'' (Inr (sf_bytes sample_schema)) = ok sample_schema
     \<and> snd (sf_write ''p'' sample_schema IoDone (IoShort 3) None) = Some bs
     \<and> sf_read ''p'' (Inr bs) = err e"
proof -
  have ok: "sf_ok sample_schema"
    by (simp add: sample_schema_def sf_ok_def sf_column_ok_def sf_str_ok_def type_id_of_byte_def)
  have "sf_write ''p'' sample_schema IoDone IoDone None = (ok (), Some (sf_bytes sample_schema))"
    by (simp add: sf_write_def meta_write_def)
  moreover from schema_file_write_read[OF ok this]
  have "sf_read ''p'' (Inr (sf_bytes sample_schema)) = ok sample_schema" by simp
  moreover have "sf_write ''p'' sample_schema IoDone (IoShort 3) None
      = (err ''schema write: short write: '', Some (take 3 (sf_bytes sample_schema)))"
    by (simp add: sf_write_def meta_write_def sf_bytes_def SCHEMA_MAGIC_def)
  moreover from schema_file_write_read[OF ok this]
  have "\<exists>e. sf_read ''p'' (Inr (take 3 (sf_bytes sample_schema))) = err e" by auto
  ultimately show ?thesis using ok by auto
qed

text \<open>The schemas that are left out: the write of a DEFAULT NULL succeeds, the read fails.\<close>

lemma schema_default_null_lost:
  defines "sch \<equiv> [\<lparr>col_name = ''a'', col_type = INT32, col_nullable = True, col_max_len = 0,
    col_default = Some VNull\<rparr>]"
  shows "\<exists>bs. sf_write path sch IoDone IoDone old = (ok (), Some bs)
    \<and> sf_read path (Inr bs) = err ''schema read: short read on default value''"
proof -
  have "sf_bytes sch = SCHEMA_MAGIC @ le_bytes 4 (1 :: u32)
      @ [1, 1] @ le_bytes 2 (0 :: u16) @ le_bytes 2 (1 :: u16) @ [byte_of_char CHR ''a'', 1, 1]"
    by (simp add: sch_def sf_bytes_def sf_column_bytes_def sf_append_default_def)
  then have "sf_read path (Inr (sf_bytes sch)) = err ''schema read: short read on default value''"
    by (simp add: sf_read_def sf_dec_def sf_read_column_def sf_read_default_def rd_bind_def
        rd_bytes_def rd_start_def rd_advance_def rd_chars_def rd_u8_def rd_word_def rd_return_def
        SCHEMA_MAGIC_def type_id_of_byte_def le_bytes_def le_word_def upt_rec Let_def)
  moreover have "sf_write path sch IoDone IoDone old = (ok (), Some (sf_bytes sch))"
    by (simp add: sf_write_def meta_write_def)
  ultimately show ?thesis by blast
qed

text \<open>
  C34: constraint files. The same contract for the list of primary key and unique constraints of a
  table: success is readable, failure is the old file or a rejected one.
\<close>

theorem constraint_file_write_read:
  assumes "kf_ok cs" "kf_write path cs opened written old = (r, f)"
  shows "case r of
      Inr _ \<Rightarrow> \<exists>bs. f = Some bs \<and> kf_read path (Inr bs) = ok cs
    | Inl _ \<Rightarrow> f = old \<or> (\<exists>bs e. f = Some bs \<and> kf_read path (Inr bs) = err e)"
  using constraint_codec.write_read[OF assms(1) assms(2)[unfolded kf_write_def]]
  by (cases r) (simp_all add: kf_read_def)

theorem constraint_file_write_read_witness:
  "kf_ok [\<lparr>ct_kind = PRIMARY_KEY, ct_name = ''pk'', ct_col_indices = [0, 2]\<rparr>]
   \<and> kf_read ''p'' (Inr (kf_bytes [\<lparr>ct_kind = PRIMARY_KEY, ct_name = ''pk'', ct_col_indices = [0, 2]\<rparr>]))
       = ok [\<lparr>ct_kind = PRIMARY_KEY, ct_name = ''pk'', ct_col_indices = [0, 2]\<rparr>]"
proof -
  let ?cs = "[\<lparr>ct_kind = PRIMARY_KEY, ct_name = ''pk'', ct_col_indices = [0, 2]\<rparr>]"
  have ok: "kf_ok ?cs" by (simp add: kf_ok_def kind_of_byte_def kind_byte_def)
  have "kf_write ''p'' ?cs IoDone IoDone None = (ok (), Some (kf_bytes ?cs))"
    by (simp add: kf_write_def meta_write_def)
  from constraint_file_write_read[OF ok this] ok show ?thesis by simp
qed

text \<open>
  C33: shard map files. The same contract for the partition map of a table whose lengths fit the
  format and whose bounds are not NULL (a MAXVALUE partition has none): a write that reports
  success leaves a file that reads back as the map, a failed one the old file or one that is
  refused. (A NULL bound is written as the INT32 value 0 and reads back as that.)
\<close>

theorem shard_map_file_write_read:
  assumes "sm_ok meta" "sm_write path meta opened written old = (r, f)"
  shows "case r of
      Inr _ \<Rightarrow> \<exists>bs. f = Some bs \<and> sm_read path (Inr bs) = ok meta
    | Inl _ \<Rightarrow> f = old \<or> (\<exists>bs e. f = Some bs \<and> sm_read path (Inr bs) = err e)"
  using shard_codec.write_read[OF assms(1) assms(2)[unfolded sm_write_def]]
  by (cases r) (simp_all add: sm_read_def)

definition sample_shards :: shard_map_meta where
  "sample_shards = \<lparr>sm_partition_col = ''k'', sm_partition_col_idx = 0, sm_partitions =
     [\<lparr>pd_name = ''p0'', pd_is_maxvalue = False, pd_upper_bound = VI32 10, pd_node_addr = ''a:1''\<rparr>,
      \<lparr>pd_name = ''p1'', pd_is_maxvalue = False, pd_upper_bound = VI32 20, pd_node_addr = ''b:1''\<rparr>,
      \<lparr>pd_name = ''p2'', pd_is_maxvalue = True, pd_upper_bound = VNull, pd_node_addr = ''c:1''\<rparr>]\<rparr>"

theorem shard_map_file_write_read_witness:
  "sm_ok sample_shards \<and> sm_read ''p'' (Inr (sm_bytes sample_shards)) = ok sample_shards"
proof -
  have ok: "sm_ok sample_shards" by (simp add: sample_shards_def sm_ok_def sm_partition_ok_def)
  have "sm_write ''p'' sample_shards IoDone IoDone None = (ok (), Some (sm_bytes sample_shards))"
    by (simp add: sm_write_def meta_write_def)
  from shard_map_file_write_read[OF ok this] ok show ?thesis by simp
qed

text \<open>The maps that are left out: a NULL bound comes back as the bound 0.\<close>

lemma shard_bound_null_lost: "reads sm_read_value (sm_put_value VNull) (VI32 0)"
  using reads_sm_value[of "VI32 0"] by simp

text \<open>
  C39: frame headers. Decoding an encoded header, whatever payload follows, gives the type, the
  query id and the length of the whole frame modulo 2^32; fewer than nine bytes are refused.
\<close>

theorem frame_header_roundtrip:
  "decode_header (encode_header [] t qid n @ payload)
     = Some \<lparr>fh_length = 9 + n, fh_type = t, fh_query_id = qid\<rparr>
   \<and> (decode_header (take k (encode_header [] t qid n)) = None \<longleftrightarrow> k < 9)"
proof -
  have "encode_header [] t qid n @ payload
      = le_bytes 4 (9 + n) @ t # le_bytes 4 qid @ payload"
    by (simp add: encode_header_def encode_u32_def encode_u8_def Let_def FRAME_HEADER_SIZE_def)
  moreover have "length (encode_header [] t qid n) = 9"
    by (simp add: encode_header_def encode_u32_def encode_u8_def Let_def FRAME_HEADER_SIZE_def)
  ultimately show ?thesis
    by (auto simp: decode_header_def FRAME_HEADER_SIZE_def slice_def nth_append)
qed

end
