(* ===== verification/Sharding.thy ===== *)
theory Sharding
  imports Meta_Files
begin

text \<open>
  Partition routing of \<^verbatim>\<open>src/src/storage/disk/shard_map_file.cpp\<close>: \<open>compare_values\<close>,
  \<open>shard_for_value\<close> (which partition stores a value) and \<open>prune_partitions\<close> (which
  partitions a predicate has to visit). \<^const>\<open>None\<close> is the exception of \<open>std::get\<close> on
  values of different types.
\<close>

section \<open>Comparing values\<close>

definition compare_values :: "val \<Rightarrow> val \<Rightarrow> int option" where
  "compare_values a b = (case a of
     VNull \<Rightarrow> Some 0
   | VI32 x \<Rightarrow> (case b of VI32 y \<Rightarrow> Some (cmp_val (<) (sint x) (sint y)) | _ \<Rightarrow> None)
   | VI64 x \<Rightarrow> (case b of VI64 y \<Rightarrow> Some (cmp_val (<) (sint x) (sint y)) | _ \<Rightarrow> None)
   | VF64 x \<Rightarrow> (case b of VF64 y \<Rightarrow> Some (cmp_val f64_lt x y) | _ \<Rightarrow> None)
   | VStr x \<Rightarrow> (case b of VStr y \<Rightarrow> Some (cmp_val str_less x y) | _ \<Rightarrow> None)
   | VBool x \<Rightarrow> (case b of VBool y \<Rightarrow> Some (cmp_val (<) (of_bool x :: int) (of_bool y)) | _ \<Rightarrow> None)
   | VDate x \<Rightarrow> (case b of VDate y \<Rightarrow> Some (cmp_val (<) (sint x) (sint y)) | _ \<Rightarrow> None)
   | VTimestamp x \<Rightarrow>
       (case b of VTimestamp y \<Rightarrow> Some (cmp_val (<) (sint x) (sint y)) | _ \<Rightarrow> None))"

section \<open>Routing\<close>

text \<open>The loop of \<open>shard_for_value\<close>; the inner \<^const>\<open>None\<close> is falling out of it.\<close>

fun shard_loop :: "nat \<Rightarrow> partition_def list \<Rightarrow> val \<Rightarrow> nat option option" where
  "shard_loop i [] v = Some None"
| "shard_loop i (p # ps) v =
     (if pd_is_maxvalue p then Some (Some i)
      else if is_null v then shard_loop (Suc i) ps v
      else case compare_values v (pd_upper_bound p) of
        None \<Rightarrow> None
      | Some c \<Rightarrow> if c < 0 then Some (Some i) else shard_loop (Suc i) ps v)"

text \<open>\<open>partitions.size() - 1\<close> wraps around for an empty map.\<close>

definition shard_for_value :: "shard_map_meta \<Rightarrow> val \<Rightarrow> nat option" where
  "shard_for_value meta v =
     map_option (\<lambda>found. case found of
         Some i \<Rightarrow> i
       | None \<Rightarrow> unat (word_of_nat (length (sm_partitions meta)) - 1 :: u64))
       (shard_loop 0 (sm_partitions meta) v)"

definition prune_keep :: "binary_op_kind \<Rightarrow> val \<Rightarrow> val option \<Rightarrow> val \<Rightarrow> bool option" where
  "prune_keep op lit prev upper = (case op of
     EQ \<Rightarrow>
       (case (case prev of None \<Rightarrow> Some True
              | Some u \<Rightarrow> map_option (\<lambda>c. c \<le> 0) (compare_values u lit)) of
          None \<Rightarrow> None
        | Some lower_ok \<Rightarrow> map_option (\<lambda>c. lower_ok \<and> c < 0) (compare_values lit upper))
   | LT \<Rightarrow> (case prev of None \<Rightarrow> Some True
            | Some u \<Rightarrow> map_option (\<lambda>c. c < 0) (compare_values u lit))
   | LE \<Rightarrow> (case prev of None \<Rightarrow> Some True
            | Some u \<Rightarrow> map_option (\<lambda>c. c < 0) (compare_values u lit))
   | GT \<Rightarrow> map_option (\<lambda>c. c > 0) (compare_values upper lit)
   | GE \<Rightarrow> map_option (\<lambda>c. c > 0) (compare_values upper lit)
   | _ \<Rightarrow> Some True)"

fun prune_loop :: "binary_op_kind \<Rightarrow> val \<Rightarrow> nat \<Rightarrow> val option \<Rightarrow> partition_def list \<Rightarrow> nat list option" where
  "prune_loop op lit i prev [] = Some []"
| "prune_loop op lit i prev (p # ps) =
     (if pd_is_maxvalue p then Some [i]
      else case prune_keep op lit prev (pd_upper_bound p) of
        None \<Rightarrow> None
      | Some keep \<Rightarrow>
          map_option (\<lambda>out. if keep then i # out else out)
            (prune_loop op lit (Suc i) (Some (pd_upper_bound p)) ps))"

definition prune_partitions :: "shard_map_meta \<Rightarrow> u8 \<Rightarrow> binary_op_kind \<Rightarrow> val \<Rightarrow> nat list option" where
  "prune_partitions meta col op lit =
     (let all_parts = [0..<length (sm_partitions meta)]
      in if col \<noteq> sm_partition_col_idx meta then Some all_parts
         else map_option (\<lambda>out. if out = [] then all_parts else out)
                (prune_loop op lit 0 None (sm_partitions meta)))"

lemma unat_last_index:
  "0 < n \<Longrightarrow> n < 2 ^ 16 \<Longrightarrow> unat (word_of_nat n - 1 :: u64) = n - 1"
  by (cases n) (simp_all add: unat_of_nat_u64)

lemma index_set_Suc:
  "{i + k |k. k < Suc m \<and> P k} = (if P 0 then {i} else {}) \<union> {Suc i + k |k. k < m \<and> P (Suc k)}"
  by (auto simp: less_Suc_eq_0_disj)

section \<open>The order of a column's values\<close>

text \<open>
  What routing relies on: on the values a partition column can hold, \<open>compare_values\<close> does not
  throw and is a total preorder.
\<close>

definition cmp_le :: "val \<Rightarrow> val \<Rightarrow> bool" where
  "cmp_le a b \<longleftrightarrow> (\<exists>c \<le> 0. compare_values a b = Some c)"

definition cmp_lt :: "val \<Rightarrow> val \<Rightarrow> bool" where
  "cmp_lt a b \<longleftrightarrow> (\<exists>c < 0. compare_values a b = Some c)"

locale value_order =
  fixes carrier :: "val set"
  assumes defined: "a \<in> carrier \<Longrightarrow> b \<in> carrier \<Longrightarrow> \<exists>c. compare_values a b = Some c"
    and flip: "a \<in> carrier \<Longrightarrow> b \<in> carrier \<Longrightarrow> compare_values a b = Some c
      \<Longrightarrow> compare_values b a = Some (- c)"
    and le_trans: "a \<in> carrier \<Longrightarrow> b \<in> carrier \<Longrightarrow> d \<in> carrier
      \<Longrightarrow> cmp_le a b \<Longrightarrow> cmp_le b d \<Longrightarrow> cmp_le a d"
    and not_null: "a \<in> carrier \<Longrightarrow> \<not> is_null a"
begin

lemma not_lt: "a \<in> carrier \<Longrightarrow> b \<in> carrier \<Longrightarrow> \<not> cmp_lt a b \<longleftrightarrow> cmp_le b a"
  using defined[of a b] flip[of a b] flip[of b a] by (fastforce simp: cmp_lt_def cmp_le_def)

lemma not_le: "a \<in> carrier \<Longrightarrow> b \<in> carrier \<Longrightarrow> \<not> cmp_le a b \<longleftrightarrow> cmp_lt b a"
  using not_lt by blast

lemma lt_le_trans:
  "a \<in> carrier \<Longrightarrow> b \<in> carrier \<Longrightarrow> d \<in> carrier \<Longrightarrow> cmp_lt a b \<Longrightarrow> cmp_le b d \<Longrightarrow> cmp_lt a d"
  using le_trans not_lt by blast

lemma le_lt_trans:
  "a \<in> carrier \<Longrightarrow> b \<in> carrier \<Longrightarrow> d \<in> carrier \<Longrightarrow> cmp_le a b \<Longrightarrow> cmp_lt b d \<Longrightarrow> cmp_lt a d"
  using le_trans not_lt by blast

lemma compare_sign:
  assumes "a \<in> carrier" "b \<in> carrier"
  obtains c where "compare_values a b = Some c" "c < 0 \<longleftrightarrow> cmp_lt a b" "c \<le> 0 \<longleftrightarrow> cmp_le a b"
    "c > 0 \<longleftrightarrow> cmp_lt b a"
  using defined[OF assms] flip[OF assms] flip[OF assms(2,1)]
  by (fastforce simp: cmp_lt_def cmp_le_def)

text \<open>The two loops by index: \<open>n\<close> partitions have a bound, then comes MAXVALUE or the end.\<close>

lemma shard_loop_index:
  assumes "v \<in> carrier" "\<forall>p \<in> set (takeWhile (\<lambda>p. \<not> pd_is_maxvalue p) ps). pd_upper_bound p \<in> carrier"
    "n = length (takeWhile (\<lambda>p. \<not> pd_is_maxvalue p) ps)"
  shows "(\<exists>k < n. shard_loop i ps v = Some (Some (i + k)) \<and> cmp_lt v (pd_upper_bound (ps ! k))
             \<and> (\<forall>j < k. cmp_le (pd_upper_bound (ps ! j)) v))
     \<or> (shard_loop i ps v = Some (if n < length ps then Some (i + n) else None)
          \<and> (\<forall>j < n. cmp_le (pd_upper_bound (ps ! j)) v))"
  using assms(2,3)
proof (induction ps arbitrary: i n)
  case (Cons p ps)
  show ?case
  proof (cases "pd_is_maxvalue p")
    case True
    then show ?thesis using Cons.prems by simp
  next
    case False
    then have p: "pd_upper_bound p \<in> carrier" using Cons.prems(1) by simp
    obtain c where c: "compare_values v (pd_upper_bound p) = Some c"
        "c < 0 \<longleftrightarrow> cmp_lt v (pd_upper_bound p)"
      using compare_sign[OF assms(1) p] by metis
    obtain m where m: "n = Suc m" "m = length (takeWhile (\<lambda>p. \<not> pd_is_maxvalue p) ps)"
      using Cons.prems(2) False by simp
    show ?thesis
    proof (cases "c < 0")
      case True
      then show ?thesis using c m False not_null[OF assms(1)] by (intro disjI1 exI[of _ 0]) simp
    next
      case ge: False
      have le: "cmp_le (pd_upper_bound p) v" using ge c(2) not_lt[OF assms(1) p] by simp
      have step: "shard_loop i (p # ps) v = shard_loop (Suc i) ps v"
        using False ge c(1) not_null[OF assms(1)] by simp
      have all: "(\<forall>j < Suc k. cmp_le (pd_upper_bound ((p # ps) ! j)) v)
          \<longleftrightarrow> (\<forall>j < k. cmp_le (pd_upper_bound (ps ! j)) v)" for k
        using le by (auto simp: less_Suc_eq_0_disj)
      have "\<forall>p \<in> set (takeWhile (\<lambda>p. \<not> pd_is_maxvalue p) ps). pd_upper_bound p \<in> carrier"
        using Cons.prems(1) False by simp
      from Cons.IH[OF this m(2), of "Suc i"] show ?thesis
      proof (elim disjE exE conjE)
        fix k assume k: "k < m" "shard_loop (Suc i) ps v = Some (Some (Suc i + k))"
          "cmp_lt v (pd_upper_bound (ps ! k))" "\<forall>j < k. cmp_le (pd_upper_bound (ps ! j)) v"
        show ?thesis unfolding step m(1)
          by (rule disjI1, rule exI[of _ "Suc k"]) (use k in \<open>simp add: all\<close>)
      next
        assume k: "shard_loop (Suc i) ps v = Some (if m < length ps then Some (Suc i + m) else None)"
          "\<forall>j < m. cmp_le (pd_upper_bound (ps ! j)) v"
        show ?thesis unfolding step m(1) by (rule disjI2) (use k in \<open>simp add: all\<close>)
      qed
    qed
  qed
qed simp

definition kept :: "binary_op_kind \<Rightarrow> val \<Rightarrow> val option \<Rightarrow> val \<Rightarrow> bool" where
  "kept op lit prev upper = (case op of
     EQ \<Rightarrow> (case prev of None \<Rightarrow> True | Some u \<Rightarrow> cmp_le u lit) \<and> cmp_lt lit upper
   | LT \<Rightarrow> (case prev of None \<Rightarrow> True | Some u \<Rightarrow> cmp_lt u lit)
   | LE \<Rightarrow> (case prev of None \<Rightarrow> True | Some u \<Rightarrow> cmp_lt u lit)
   | GT \<Rightarrow> cmp_lt lit upper
   | GE \<Rightarrow> cmp_lt lit upper
   | _ \<Rightarrow> True)"

lemma prune_keep_kept:
  assumes "lit \<in> carrier" "upper \<in> carrier" "\<And>u. prev = Some u \<Longrightarrow> u \<in> carrier"
  shows "prune_keep op lit prev upper = Some (kept op lit prev upper)"
proof -
  obtain c d where "compare_values lit upper = Some c" "c < 0 \<longleftrightarrow> cmp_lt lit upper"
    "compare_values upper lit = Some d" "d > 0 \<longleftrightarrow> cmp_lt lit upper"
    using compare_sign[OF assms(1,2)] compare_sign[OF assms(2,1)] by metis
  moreover have "\<exists>e. compare_values u lit = Some e \<and> (e < 0 \<longleftrightarrow> cmp_lt u lit) \<and> (e \<le> 0 \<longleftrightarrow> cmp_le u lit)"
    if "prev = Some u" for u
    using compare_sign[OF assms(3)[OF that] assms(1)] by metis
  ultimately show ?thesis
    by (cases op; cases prev) (auto simp: prune_keep_def kept_def)
qed

lemma prune_loop_index:
  assumes "lit \<in> carrier"
    "\<forall>p \<in> set (takeWhile (\<lambda>p. \<not> pd_is_maxvalue p) ps). pd_upper_bound p \<in> carrier"
    "n = length (takeWhile (\<lambda>p. \<not> pd_is_maxvalue p) ps)" "\<And>u. prev = Some u \<Longrightarrow> u \<in> carrier"
  shows "\<exists>out. prune_loop op lit i prev ps = Some out \<and>
     set out = {i + k |k. k < n \<and> kept op lit (if k = 0 then prev else Some (pd_upper_bound (ps ! (k - 1))))
                                    (pd_upper_bound (ps ! k))}
               \<union> (if n < length ps then {i + n} else {})"
  using assms(2-4)
proof (induction ps arbitrary: i n prev)
  case (Cons p ps)
  show ?case
  proof (cases "pd_is_maxvalue p")
    case True
    then show ?thesis using Cons.prems by simp
  next
    case False
    then have p: "pd_upper_bound p \<in> carrier" using Cons.prems(1) by simp
    obtain m where m: "n = Suc m" "m = length (takeWhile (\<lambda>p. \<not> pd_is_maxvalue p) ps)"
      using Cons.prems(2) False by simp
    let ?K = "\<lambda>prev ps k. kept op lit (if k = 0 then prev else Some (pd_upper_bound (ps ! (k - 1))))
        (pd_upper_bound (ps ! k))"
    obtain out where out: "prune_loop op lit (Suc i) (Some (pd_upper_bound p)) ps = Some out"
        "set out = {Suc i + k |k. k < m \<and> ?K (Some (pd_upper_bound p)) ps k}
           \<union> (if m < length ps then {Suc i + m} else {})"
      using Cons.IH[of m "Some (pd_upper_bound p)" "Suc i"] Cons.prems(1) False m(2) p by auto
    have K: "?K prev (p # ps) (Suc k) = ?K (Some (pd_upper_bound p)) ps k" for k
      by (cases k) simp_all
    have "{i + k |k. k < n \<and> ?K prev (p # ps) k}
        = (if ?K prev (p # ps) 0 then {i} else {})
          \<union> {Suc i + k |k. k < m \<and> ?K (Some (pd_upper_bound p)) ps k}"
      unfolding m(1) by (subst index_set_Suc) (simp only: K)
    moreover have "prune_keep op lit prev (pd_upper_bound p) = Some (?K prev (p # ps) 0)"
      using prune_keep_kept[OF assms(1) p Cons.prems(3)] by simp
    ultimately show ?thesis using out False m(1) by auto
  qed
qed simp

end

text \<open>The values a column of a type holds, NaN apart.\<close>

definition typed_vals :: "type_id \<Rightarrow> val set" where
  "typed_vals t = {v. holds_type t v \<and> (case v of VF64 x \<Rightarrow> \<not> f64_is_nan x | _ \<Rightarrow> True)}"

text \<open>An irreflexive, transitive relation with transitive incomparability gives the laws.\<close>

lemma cmp_val_flip: "(\<And>x y. lt x y \<Longrightarrow> \<not> lt y x) \<Longrightarrow> cmp_val lt b a = - cmp_val lt a b"
  by (auto simp: cmp_val_def)

lemma cmp_val_same: "cmp_val (<) (x :: int) x = 0"
  by (simp add: cmp_val_def)

lemma cmp_val_nonpos: "cmp_val lt a b \<le> 0 \<longleftrightarrow> lt a b \<or> \<not> lt b a"
  by (simp add: cmp_val_def)

interpretation typed: value_order "typed_vals t" for t
proof
  fix a b d :: val and c :: int
  show "a \<in> typed_vals t \<Longrightarrow> b \<in> typed_vals t \<Longrightarrow> \<exists>c. compare_values a b = Some c"
    by (cases t; cases a; cases b) (simp_all add: typed_vals_def compare_values_def)
  show "a \<in> typed_vals t \<Longrightarrow> b \<in> typed_vals t \<Longrightarrow> compare_values a b = Some c
      \<Longrightarrow> compare_values b a = Some (- c)"
    by (cases t; cases a; cases b)
       (auto simp: typed_vals_def compare_values_def f64_lt_def cmp_val_same dest: str_less_asym
          intro!: cmp_val_flip)
  show "\<not> is_null a" if "a \<in> typed_vals t"
    using that by (cases t; cases a) (simp_all add: typed_vals_def)
  assume ty: "a \<in> typed_vals t" "b \<in> typed_vals t" "d \<in> typed_vals t"
  assume le: "cmp_le a b" "cmp_le b d"
  have str: "str_less x z \<or> \<not> str_less z x" if "str_less x y \<or> \<not> str_less y x"
      "str_less y z \<or> \<not> str_less z y" for x y z
    using that by (metis str_less_trans str_less_total)
  show "cmp_le a d"
  proof (cases "t = VARCHAR")
    case True
    then obtain x y z where "a = VStr x" "b = VStr y" "d = VStr z"
      using ty by (auto simp: typed_vals_def elim!: holds_type.elims)
    then show ?thesis using le str[of x y z]
      by (auto simp: cmp_le_def compare_values_def cmp_val_nonpos)
  next
    case False
    then show ?thesis
      using ty le
      by (cases t; cases a)
         (auto simp: typed_vals_def cmp_le_def compare_values_def cmp_val_nonpos f64_lt_def
            split: val.splits)
  qed
qed

section \<open>Properties\<close>

text \<open>
  The order of SQL values, type by type and independent of the code's comparison: integers,
  dates and timestamps as signed numbers, doubles as IEEE numbers, strings by their bytes,
  false before true. Values of different types are not related, nor is NULL.
\<close>

fun sql_less :: "val \<Rightarrow> val \<Rightarrow> bool" where
  "sql_less (VI32 x) (VI32 y) \<longleftrightarrow> sint x < sint y"
| "sql_less (VI64 x) (VI64 y) \<longleftrightarrow> sint x < sint y"
| "sql_less (VF64 x) (VF64 y) \<longleftrightarrow> f64_lt x y"
| "sql_less (VStr x) (VStr y) \<longleftrightarrow> str_less x y"
| "sql_less (VBool x) (VBool y) \<longleftrightarrow> \<not> x \<and> y"
| "sql_less (VDate x) (VDate y) \<longleftrightarrow> sint x < sint y"
| "sql_less (VTimestamp x) (VTimestamp y) \<longleftrightarrow> sint x < sint y"
| "sql_less _ _ \<longleftrightarrow> False"

fun sql_equal :: "val \<Rightarrow> val \<Rightarrow> bool" where
  "sql_equal (VF64 x) (VF64 y) \<longleftrightarrow> f64_eq x y"
| "sql_equal a b \<longleftrightarrow> a = b"

text \<open>When a comparison predicate holds of a value.\<close>

definition op_holds :: "binary_op_kind \<Rightarrow> val \<Rightarrow> val \<Rightarrow> bool" where
  "op_holds op v lit = (case op of
     EQ \<Rightarrow> sql_equal v lit
   | LT \<Rightarrow> sql_less v lit
   | LE \<Rightarrow> sql_less v lit \<or> sql_equal v lit
   | GT \<Rightarrow> sql_less lit v
   | GE \<Rightarrow> sql_less lit v \<or> sql_equal v lit
   | NE \<Rightarrow> \<not> sql_equal v lit
   | _ \<Rightarrow> True)"

text \<open>\<open>compare_values\<close> decides that order on the values of a column.\<close>

lemma sql_less_asym: "sql_less a b \<Longrightarrow> \<not> sql_less b a"
  by (induction a b rule: sql_less.induct) (auto simp: f64_lt_def dest: str_less_asym)

lemma sql_equal_iff:
  assumes "a \<in> typed_vals t" "b \<in> typed_vals t"
  shows "sql_equal a b \<longleftrightarrow> \<not> sql_less a b \<and> \<not> sql_less b a"
  using assms
  by (cases t; cases a; cases b)
     (auto simp: typed_vals_def f64_lt_def f64_eq_def not_less str_less_irrefl
        intro: str_less_total signed_word_eqI antisym)

lemma compare_values_sql:
  assumes "a \<in> typed_vals t" "b \<in> typed_vals t"
  shows "cmp_lt a b \<longleftrightarrow> sql_less a b" "cmp_le a b \<longleftrightarrow> sql_less a b \<or> sql_equal a b"
    "sql_equal a b \<longleftrightarrow> cmp_le a b \<and> cmp_le b a" "cmp_le a b \<longleftrightarrow> \<not> sql_less b a"
proof -
  have lt: "cmp_lt x y \<longleftrightarrow> sql_less x y" if "x \<in> typed_vals t" "y \<in> typed_vals t" for x y
    using that by (cases t; cases x; cases y)
      (auto simp: typed_vals_def cmp_lt_def compare_values_def cmp_val_def)
  show "cmp_lt a b \<longleftrightarrow> sql_less a b" by (rule lt[OF assms])
  show le: "cmp_le a b \<longleftrightarrow> \<not> sql_less b a"
    using typed.not_lt[OF assms(2,1)] lt[OF assms(2,1)] by simp
  have "cmp_le b a \<longleftrightarrow> \<not> sql_less a b"
    using typed.not_lt[OF assms] lt[OF assms] by simp
  with le show "cmp_le a b \<longleftrightarrow> sql_less a b \<or> sql_equal a b"
      "sql_equal a b \<longleftrightarrow> cmp_le a b \<and> cmp_le b a"
    using sql_equal_iff[OF assms] sql_less_asym[of a b] by auto
qed

text \<open>The predicate through the comparison of the code.\<close>

definition cmp_holds :: "binary_op_kind \<Rightarrow> val \<Rightarrow> val \<Rightarrow> bool" where
  "cmp_holds op v lit = (case op of
     EQ \<Rightarrow> cmp_le v lit \<and> cmp_le lit v
   | LT \<Rightarrow> cmp_lt v lit
   | LE \<Rightarrow> cmp_le v lit
   | GT \<Rightarrow> cmp_lt lit v
   | GE \<Rightarrow> cmp_le lit v
   | NE \<Rightarrow> cmp_lt v lit \<or> cmp_lt lit v
   | _ \<Rightarrow> True)"

text \<open>The bounds before the first MAXVALUE, and maps whose bounds ascend within one type.\<close>

definition sm_bounds :: "shard_map_meta \<Rightarrow> val list" where
  "sm_bounds meta = map pd_upper_bound (takeWhile (\<lambda>p. \<not> pd_is_maxvalue p) (sm_partitions meta))"

definition sm_sorted :: "type_id \<Rightarrow> shard_map_meta \<Rightarrow> bool" where
  "sm_sorted t meta \<longleftrightarrow> sm_partitions meta \<noteq> [] \<and> length (sm_partitions meta) < 2 ^ 16
     \<and> set (sm_bounds meta) \<subseteq> typed_vals t \<and> sorted_wrt sql_less (sm_bounds meta)"

lemma sm_sorted_cmp: "sm_sorted t meta \<Longrightarrow> sorted_wrt cmp_lt (sm_bounds meta)"
  by (auto simp: sm_sorted_def elim!: sorted_wrt_mono_rel[rotated]
      intro: compare_values_sql(1)[THEN iffD2])

lemma op_holds_cmp:
  assumes "v \<in> typed_vals t" "lit \<in> typed_vals t"
  shows "op_holds op v lit \<longleftrightarrow> cmp_holds op v lit"
proof -
  note eqs = compare_values_sql(1,4)[OF assms] compare_values_sql(1,4)[OF assms(2,1)]
    sql_equal_iff[OF assms]
  show ?thesis by (cases op) (auto simp: op_holds_def cmp_holds_def eqs dest: sql_less_asym)
qed

lemma kept_partition:
  assumes ty: "v \<in> typed_vals t" "lit \<in> typed_vals t" "u \<in> typed_vals t"
      "\<And>w. prev = Some w \<Longrightarrow> w \<in> typed_vals t"
    and holds: "cmp_holds op v lit" "\<And>w. prev = Some w \<Longrightarrow> cmp_le w v" "cmp_lt v u"
    and LE: "\<And>w. op = LE \<Longrightarrow> prev = Some w \<Longrightarrow> \<not> (cmp_le w lit \<and> cmp_le lit w)"
  shows "typed.kept op lit prev u"
proof -
  have prev: "cmp_le w lit" if "prev = Some w" "cmp_le v lit" for w
    using that ty holds(2) typed.le_trans by blast
  have prev_lt: "cmp_lt w lit" if "prev = Some w" "cmp_lt v lit" for w
    using that ty holds(2) typed.le_lt_trans by blast
  have upper: "cmp_lt lit u" if "cmp_le lit v"
    using that ty holds(3) typed.le_lt_trans by blast
  have lt_le: "cmp_le lit v" if "cmp_lt lit v"
    using that by (auto simp: cmp_lt_def cmp_le_def)
  have le: "cmp_lt w lit" if "prev = Some w" "cmp_le v lit" "op = LE" for w
    using LE[OF that(3,1)] prev[OF that(1,2)] typed.not_le[OF ty(2) ty(4)[OF that(1)]] by blast
  show ?thesis
  proof (cases op)
    case LT
    then show ?thesis using holds(1) prev_lt by (auto simp: cmp_holds_def typed.kept_def split: option.split)
  next
    case LE
    then show ?thesis using holds(1) le by (auto simp: cmp_holds_def typed.kept_def split: option.split)
  next
    case EQ
    then show ?thesis using holds(1) prev upper
      by (auto simp: cmp_holds_def typed.kept_def split: option.split)
  qed (use holds(1) upper lt_le in \<open>auto simp: cmp_holds_def typed.kept_def\<close>)
qed

lemma cmp_lt_imp_le: "cmp_lt a b \<Longrightarrow> cmp_le a b"
  by (auto simp: cmp_lt_def cmp_le_def)

text \<open>A value above every bound goes to the last partition: it is kept, or nothing is.\<close>

lemma kept_last:
  assumes ty: "v \<in> typed_vals t" "lit \<in> typed_vals t" "set us \<subseteq> typed_vals t"
    and us: "us \<noteq> []" "sorted_wrt cmp_lt us" "\<forall>u \<in> set us. cmp_le u v" and holds: "cmp_holds op v lit"
    and LE: "op = LE \<Longrightarrow> \<forall>u \<in> set us. \<not> (cmp_le u lit \<and> cmp_le lit u)"
    and prev: "\<And>k. prev k = (if k = 0 then None else Some (us ! (k - 1)))"
  shows "typed.kept op lit (prev (length us - 1)) (us ! (length us - 1))
       \<or> (\<forall>k < length us. \<not> typed.kept op lit (prev k) (us ! k))"
proof -
  let ?n = "length us - 1"
  have nth: "us ! k \<in> typed_vals t" "cmp_le (us ! k) v" if "k < length us" for k
    using that ty(3) us(3) nth_mem by blast+
  have below: "cmp_le (us ! k) (us ! ?n)" if "k < length us" for k
  proof (cases "k = ?n")
    case True
    then show ?thesis using typed.not_lt[OF nth(1)[OF that] nth(1)[OF that]]
      by (auto simp: cmp_lt_def cmp_le_def dest: typed.flip[OF nth(1)[OF that] nth(1)[OF that]])
  next
    case False
    then have "cmp_lt (us ! k) (us ! ?n)" using that us(2) by (simp add: sorted_wrt_iff_nth_less)
    then show ?thesis by (rule cmp_lt_imp_le)
  qed
  have lit_below: "cmp_le (us ! k) lit" if "k < length us" "cmp_le v lit" for k
    using that nth ty typed.le_trans by blast
  have lit_lt: "cmp_lt (us ! k) lit" if "k < length us" "cmp_lt v lit" for k
    using that nth ty typed.le_lt_trans by blast
  have le: "cmp_lt (us ! k) lit" if "k < length us" "cmp_le v lit" "op = LE" for k
    using LE[OF that(3)] lit_below[OF that(1,2)] typed.not_le[OF ty(2) nth(1)[OF that(1)]] that(1)
    by auto
  have upper: "cmp_lt lit (us ! ?n) \<or> (\<forall>k < length us. \<not> cmp_lt lit (us ! k))"
  proof (cases "cmp_lt lit (us ! ?n)")
    case False
    then have "cmp_le (us ! ?n) lit" using typed.not_lt[OF ty(2) nth(1)] us(1) by auto
    then have "cmp_le (us ! k) lit" if "k < length us" for k
      using that below nth(1) ty(2) typed.le_trans us(1) by (metis diff_less length_greater_0_conv zero_less_one)
    then show ?thesis using typed.not_lt[OF ty(2) nth(1)] by blast
  qed simp
  show ?thesis
  proof (cases op)
    case LT
    then show ?thesis using holds lit_lt us(1) by (auto simp: prev cmp_holds_def typed.kept_def)
  next
    case LE
    then show ?thesis using holds le us(1) by (auto simp: prev cmp_holds_def typed.kept_def)
  next
    case EQ
    have "\<not> cmp_lt lit (us ! k)" if "k < length us" for k
      using lit_below[OF that] holds EQ typed.not_lt[OF ty(2) nth(1)[OF that]]
      by (simp add: cmp_holds_def)
    then show ?thesis using EQ by (auto simp: typed.kept_def)
  qed (use upper in \<open>auto simp: typed.kept_def\<close>)
qed

lemma sm_bounds_nth:
  "k < length (sm_bounds meta) \<Longrightarrow> pd_upper_bound (sm_partitions meta ! k) = sm_bounds meta ! k"
  by (simp add: sm_bounds_def takeWhile_nth)

text \<open>
  The partition a value is stored in is kept, in the comparison of the code.
\<close>

lemma prune_keeps_shard:
  assumes "sm_sorted t meta" "v \<in> typed_vals t" "lit \<in> typed_vals t" "cmp_holds op v lit"
    "op = LE \<Longrightarrow> \<forall>u \<in> set (sm_bounds meta). \<not> (cmp_le u lit \<and> cmp_le lit u)"
  shows "\<exists>i out. shard_for_value meta v = Some i \<and> prune_partitions meta col op lit = Some out
           \<and> i \<in> set out"
proof -
  let ?ps = "sm_partitions meta" and ?us = "sm_bounds meta"
  let ?prev = "\<lambda>k. if k = 0 then None else Some (?us ! (k - 1))"
  define n where "n = length (takeWhile (\<lambda>p. \<not> pd_is_maxvalue p) ?ps)"
  have n: "n = length ?us" "n \<le> length ?ps"
    by (simp_all add: n_def sm_bounds_def length_takeWhile_le)
  have ps: "?ps \<noteq> []" "length ?ps < 2 ^ 16" and us: "set ?us \<subseteq> typed_vals t" "sorted_wrt cmp_lt ?us"
    using assms(1) sm_sorted_cmp[OF assms(1)] by (auto simp: sm_sorted_def)
  have C: "\<forall>p \<in> set (takeWhile (\<lambda>p. \<not> pd_is_maxvalue p) ?ps). pd_upper_bound p \<in> typed_vals t"
    using us(1) by (auto simp: sm_bounds_def)
  have nth: "pd_upper_bound (?ps ! k) = ?us ! k" "?us ! k \<in> typed_vals t" if "k < n" for k
    using that sm_bounds_nth[of k meta] us(1) n(1) by auto
  obtain out where out: "prune_loop op lit 0 None ?ps = Some out"
      "set out = {0 + k |k. k < n \<and> typed.kept op lit
          (if k = 0 then None else Some (pd_upper_bound (?ps ! (k - 1)))) (pd_upper_bound (?ps ! k))}
        \<union> (if n < length ?ps then {0 + n} else {})"
    using typed.prune_loop_index[OF assms(3) C n_def, of None op 0] by auto
  have mem: "k \<in> set out \<longleftrightarrow> (k < n \<and> typed.kept op lit (?prev k) (?us ! k)) \<or> (k = n \<and> n < length ?ps)" for k
    unfolding out(2) using nth(1) by (cases k) auto
  have prune: "prune_partitions meta col op lit = Some (if col = sm_partition_col_idx meta \<and> out \<noteq> []
      then out else [0..<length ?ps])"
    using out(1) by (auto simp: prune_partitions_def Let_def)
  consider (found) k where "k < n" "shard_loop 0 ?ps v = Some (Some (0 + k))"
      "cmp_lt v (?us ! k)" "\<forall>j < k. cmp_le (?us ! j) v"
    | (max) "n < length ?ps" "shard_loop 0 ?ps v = Some (Some n)"
    | (none) "n = length ?ps" "shard_loop 0 ?ps v = Some None" "\<forall>j < n. cmp_le (?us ! j) v"
  proof -
    from typed.shard_loop_index[OF assms(2) C n_def, of 0] show thesis
    proof (elim disjE exE conjE)
      fix k assume k: "k < n" "shard_loop 0 ?ps v = Some (Some (0 + k))"
        "cmp_lt v (pd_upper_bound (?ps ! k))" "\<forall>j < k. cmp_le (pd_upper_bound (?ps ! j)) v"
      show thesis by (rule found[OF k(1,2)]) (use k nth(1) in auto)
    next
      assume k: "shard_loop 0 ?ps v = Some (if n < length ?ps then Some (0 + n) else None)"
        "\<forall>j < n. cmp_le (pd_upper_bound (?ps ! j)) v"
      have "\<forall>j < n. cmp_le (?us ! j) v" using k(2) nth(1) by auto
      then show thesis using max none k(1) n(2) by (cases "n < length ?ps") auto
    qed
  qed
  then show ?thesis
  proof cases
    case found
    have "typed.kept op lit (?prev k) (?us ! k)"
      by (rule kept_partition[OF assms(2,3) nth(2)[OF found(1)] _ assms(4) _ found(3)])
         (use found assms(5) nth(2) n(1) in \<open>auto split: if_splits\<close>)
    then show ?thesis using found n(2) mem[of k] by (auto simp: prune shard_for_value_def)
  next
    case max
    then show ?thesis using mem[of n] by (auto simp: prune shard_for_value_def)
  next
    case none
    have last: "shard_for_value meta v = Some (n - 1)"
      using none ps by (simp add: shard_for_value_def unat_last_index)
    have "?us \<noteq> []" "\<forall>u \<in> set ?us. cmp_le u v"
      using none ps(1) n(1) by (auto simp: in_set_conv_nth)
    from kept_last[OF assms(2,3) us(1) this(1) us(2) this(2) assms(4,5) refl]
    have "typed.kept op lit (?prev (n - 1)) (?us ! (n - 1))
        \<or> (\<forall>k < n. \<not> typed.kept op lit (?prev k) (?us ! k))" unfolding n(1) .
    moreover have "n - 1 < n" using none(1) ps(1) by simp
    ultimately have "n - 1 \<in> set out \<or> (\<forall>k. k \<notin> set out)"
      unfolding mem using none(1) by blast
    then show ?thesis using last ps(1) none(1) by (auto simp: prune)
  qed
qed

text \<open>
  C10: pruning never loses a row. In a partition map whose bounds strictly ascend in the order of
  SQL values of the column's type, for a value and a
  literal of that type (NaN apart) and a comparison the value satisfies in that order, the partition
  that \<open>shard_for_value\<close> stores the value in is among those \<open>prune_partitions\<close> returns,
  and neither call throws. The operator \<open><=\<close> needs a literal that is not itself a bound. That
  the bounds ascend is a condition on the statement that created the table: nothing in the code
  checks it.
\<close>

theorem prune_sound:
  assumes "sm_sorted t meta" "v \<in> typed_vals t" "lit \<in> typed_vals t" "op_holds op v lit"
    "op = LE \<Longrightarrow> \<forall>u \<in> set (sm_bounds meta). \<not> sql_equal u lit"
  shows "\<exists>i out. shard_for_value meta v = Some i \<and> prune_partitions meta col op lit = Some out
           \<and> i \<in> set out"
proof (rule prune_keeps_shard[OF assms(1-3)])
  show "cmp_holds op v lit" using assms(4) op_holds_cmp[OF assms(2,3)] by simp
  show "\<forall>u \<in> set (sm_bounds meta). \<not> (cmp_le u lit \<and> cmp_le lit u)" if "op = LE"
    using assms(5)[OF that] assms(1) compare_values_sql(3)[OF _ assms(3)]
    by (auto simp: sm_sorted_def)
qed

theorem prune_sound_witness:
  "\<exists>i out. shard_for_value sample_shards (VI32 15) = Some i
     \<and> prune_partitions sample_shards 0 GE (VI32 12) = Some out \<and> i \<in> set out \<and> out = [1, 2]"
proof -
  have b: "sm_bounds sample_shards = [VI32 10, VI32 20]"
    by (simp add: sm_bounds_def sample_shards_def)
  have "\<exists>i out. shard_for_value sample_shards (VI32 15) = Some i
     \<and> prune_partitions sample_shards 0 GE (VI32 12) = Some out \<and> i \<in> set out"
    by (rule prune_sound[where t = INT32])
       (auto simp: sm_sorted_def b typed_vals_def op_holds_def, simp_all add: sample_shards_def)
  moreover have "prune_partitions sample_shards 0 GE (VI32 12) = Some [1, 2]"
    by (simp add: prune_partitions_def sample_shards_def prune_keep_def compare_values_def
        cmp_val_def)
  ultimately show ?thesis by auto
qed

text \<open>
  With \<open><=\<close> and a literal that is a bound the partition that starts at the bound is left out,
  although it stores the value.
\<close>

lemma prune_le_misses_boundary:
  "op_holds LE (VI32 10) (VI32 10) \<and> shard_for_value sample_shards (VI32 10) = Some 1
   \<and> prune_partitions sample_shards 0 LE (VI32 10) = Some [0, 2]"
  by (simp add: op_holds_def compare_values_def cmp_val_def shard_for_value_def sample_shards_def prune_partitions_def prune_keep_def)

text \<open>Nor does pruning keep every row when the bounds do not ascend.\<close>

lemma prune_unsorted_misses:
  defines "meta \<equiv> \<lparr>sm_partition_col = ''k'', sm_partition_col_idx = 0, sm_partitions =
     [\<lparr>pd_name = ''p0'', pd_is_maxvalue = False, pd_upper_bound = VI32 20, pd_node_addr = ''a:1''\<rparr>,
      \<lparr>pd_name = ''p1'', pd_is_maxvalue = False, pd_upper_bound = VI32 10, pd_node_addr = ''b:1''\<rparr>]\<rparr>"
  shows "op_holds GT (VI32 25) (VI32 15) \<and> shard_for_value meta (VI32 25) = Some 1
    \<and> prune_partitions meta 0 GT (VI32 15) = Some [0]"
  by (simp add: op_holds_def compare_values_def cmp_val_def shard_for_value_def meta_def
      prune_partitions_def prune_keep_def)

end
