(* ===== verification/Election.thy ===== *)
theory Election
  imports Meta_Files "HOL-Library.Multiset"
begin

text \<open>
  Leader election: \<^verbatim>\<open>src/src/replication/election.cpp\<close>. A node is a record of the members
  of \<open>ElectionManager\<close>; every handler is a function from the node to the node and the
  actions it performs (frames to the peers, the vote response, the role callbacks). The
  election state file is its bytes; \<open>persist_state_\<close> ignores errors, so its outcome is a
  parameter. Threads hand messages to one loop, so handlers run one at a time. The WAL position
  \<open>get_wal_lsn\<close>, the timeouts and the transport are outside: the position is an argument,
  a timeout and the delivery of a message are steps of the cluster below.
\<close>

section \<open>One node\<close>

datatype role = Follower | Candidate | Leader

record election =
  el_id :: string
  el_peers :: "string list"
  el_cluster_size :: u32
  el_term :: u64
  el_voted_for :: string
  el_leader :: string
  el_role :: role
  el_votes :: u32
  el_file :: "u8 list option"

datatype el_action =
    SendHeartbeat string u64 string
  | SendVoteReq string u64 string u64
  | Respond bool
  | BecameLeader
  | BecameFollower

text \<open>\<open>peers\<close> are the addresses of the configuration with the host part \<open>parse_addr\<close> gives.\<close>

definition el_new :: "string \<Rightarrow> (string \<times> string) list \<Rightarrow> u8 list option \<Rightarrow> election" where
  "el_new node_id peers state_file =
     \<lparr>el_id = node_id,
      el_peers = map fst (filter (\<lambda>(addr, host). host \<noteq> node_id) peers),
      el_cluster_size = (if word_of_nat (length peers) = (0 :: u32) then 1
                         else word_of_nat (length peers)),
      el_term = 0, el_voted_for = '''', el_leader = '''', el_role = Follower, el_votes = 0,
      el_file = state_file\<rparr>"

definition el_state_bytes :: "u64 \<Rightarrow> string \<Rightarrow> u8 list" where
  "el_state_bytes term voted =
     le_bytes 8 term @ le_bytes 2 (word_of_nat (length voted) :: u16) @ map byte_of_char voted"

text \<open>
  The state goes to a temporary file that is renamed over the old one; a failed \<open>open\<close> leaves the
  old file, a short write is not noticed.
\<close>

definition el_persist :: "io_outcome \<Rightarrow> u64 \<Rightarrow> string \<Rightarrow> election \<Rightarrow> election" where
  "el_persist out term voted e = (case out of
     IoFail _ \<Rightarrow> e
   | _ \<Rightarrow> let bs = el_state_bytes term voted
          in e\<lparr>el_file := Some (take (transferred out (length bs)) bs)\<rparr>)"

definition el_load :: "election \<Rightarrow> election" where
  "el_load e = (case el_file e of
     None \<Rightarrow> e
   | Some f \<Rightarrow>
       if length f < 10 then e
       else let vlen = unat (le_word (slice 8 2 f) :: u16);
                e1 = e\<lparr>el_term := le_word (take 8 f)\<rparr>
            in if vlen = 0 then e1
               else if length f < 10 + vlen then e1\<lparr>el_voted_for := ''''\<rparr>
               else e1\<lparr>el_voted_for := map char_of_byte (slice 10 vlen f)\<rparr>)"

definition el_start :: "bool \<Rightarrow> election \<Rightarrow> election" where
  "el_start configured_leader e =
     (let e1 = el_load e
      in if configured_leader
         then e1\<lparr>el_role := Leader, el_term := (if el_term e1 = 0 then 1 else el_term e1),
                 el_leader := el_id e1\<rparr>
         else e1)"

definition el_majority :: "election \<Rightarrow> u32" where
  "el_majority e = (el_cluster_size e + 1) div 2"

definition el_send_heartbeats :: "election \<Rightarrow> el_action list" where
  "el_send_heartbeats e =
     (if el_peers e = [] then []
      else if el_role e \<noteq> Leader then []
      else map (\<lambda>p. SendHeartbeat p (el_term e) (el_id e)) (el_peers e))"

definition el_broadcast_vote_req :: "u64 \<Rightarrow> election \<Rightarrow> el_action list" where
  "el_broadcast_vote_req lsn e =
     (if el_peers e = [] then []
      else map (\<lambda>p. SendVoteReq p (el_term e) (el_id e) lsn) (el_peers e))"

definition el_become_leader :: "election \<Rightarrow> election \<times> el_action list" where
  "el_become_leader e =
     (let e1 = e\<lparr>el_role := Leader, el_leader := el_id e, el_votes := 0\<rparr>
      in (e1, BecameLeader # el_send_heartbeats e1))"

definition el_become_follower :: "io_outcome \<Rightarrow> u64 \<Rightarrow> string \<Rightarrow> election \<Rightarrow> election \<times> el_action list" where
  "el_become_follower out new_term leader_id e =
     (let e1 = e\<lparr>el_term := new_term, el_voted_for := '''', el_role := Follower,
                 el_leader := leader_id, el_votes := 0\<rparr>
      in (el_persist out new_term '''' e1, if el_role e \<noteq> Follower then [BecameFollower] else []))"

definition el_start_election :: "io_outcome \<Rightarrow> u64 \<Rightarrow> election \<Rightarrow> election \<times> el_action list" where
  "el_start_election out lsn e =
     (let e1 = e\<lparr>el_term := el_term e + 1, el_voted_for := el_id e, el_votes := 1,
                 el_role := Candidate\<rparr>;
          e2 = el_persist out (el_term e1) (el_id e) e1;
          sent = el_broadcast_vote_req lsn e2
      in if 1 \<ge> el_majority e2
         then case el_become_leader e2 of (e3, acts) \<Rightarrow> (e3, sent @ acts)
         else (e2, sent))"

definition el_handle_heartbeat ::
    "io_outcome \<Rightarrow> u64 \<Rightarrow> string \<Rightarrow> election \<Rightarrow> election \<times> el_action list" where
  "el_handle_heartbeat out term from e =
     (if term < el_term e then (e, [])
      else if term > el_term e then
        (el_persist out term ''''
           (e\<lparr>el_term := term, el_voted_for := '''', el_role := Follower, el_leader := from\<rparr>),
         if el_role e \<noteq> Follower then [BecameFollower] else [])
      else (case el_role e of
         Candidate \<Rightarrow> (e\<lparr>el_role := Follower, el_leader := from\<rparr>, [BecameFollower])
       | Follower \<Rightarrow> (e\<lparr>el_leader := from\<rparr>, [])
       | Leader \<Rightarrow>
           if from = el_id e then (e, [])
           else (let e1 = e\<lparr>el_role := Follower, el_leader := from\<rparr>
                 in (if el_term e > 0 then el_persist out (el_term e) '''' e1 else e1,
                     [BecameFollower]))))"

definition el_handle_vote_req ::
    "io_outcome \<Rightarrow> u64 \<Rightarrow> u64 \<Rightarrow> string \<Rightarrow> u64 \<Rightarrow> election \<Rightarrow> election \<times> el_action list" where
  "el_handle_vote_req out my_lsn term from lsn e =
     (let e1 = (if term > el_term e
                then e\<lparr>el_term := term, el_voted_for := '''', el_role := Follower\<rparr> else e);
          became = (if term > el_term e \<and> el_role e \<noteq> Follower then [BecameFollower] else []);
          grant = (term \<ge> el_term e1 \<and> lsn \<ge> my_lsn
                   \<and> (el_voted_for e1 = '''' \<or> el_voted_for e1 = from))
      in if grant
         then (el_persist out (el_term e1) from (e1\<lparr>el_voted_for := from\<rparr>), became @ [Respond True])
         else (e1, became @ [Respond False]))"

definition el_handle_vote_resp :: "u64 \<Rightarrow> bool \<Rightarrow> election \<Rightarrow> election \<times> el_action list" where
  "el_handle_vote_resp term granted e =
     (let e1 = (if term > el_term e
                then e\<lparr>el_term := term, el_voted_for := '''', el_role := Follower,
                       el_leader := ''''\<rparr> else e)
      in if el_role e1 \<noteq> Candidate \<or> term < el_term e1 then (e1, [])
         else if \<not> granted then (e1, [])
         else let e2 = e1\<lparr>el_votes := el_votes e1 + 1\<rparr>
              in if el_votes e2 < el_majority e2 then (e2, []) else el_become_leader e2)"

datatype el_msg =
    Heartbeat u64 string
  | VoteReq u64 string u64
  | VoteResp u64 bool

definition el_process_msg :: "io_outcome \<Rightarrow> u64 \<Rightarrow> el_msg \<Rightarrow> election \<Rightarrow> election \<times> el_action list" where
  "el_process_msg out my_lsn m e = (case m of
     Heartbeat term from \<Rightarrow> el_handle_heartbeat out term from e
   | VoteReq term from lsn \<Rightarrow> el_handle_vote_req out my_lsn term from lsn e
   | VoteResp term granted \<Rightarrow> el_handle_vote_resp term granted e)"

text \<open>One turn of the loop: a batch of messages, or the timeout when it is empty.\<close>

fun el_process_all :: "io_outcome \<Rightarrow> u64 \<Rightarrow> el_msg list \<Rightarrow> election \<Rightarrow> election \<times> el_action list" where
  "el_process_all out my_lsn [] e = (e, [])"
| "el_process_all out my_lsn (m # ms) e =
     (case el_process_msg out my_lsn m e of (e1, acts) \<Rightarrow>
        case el_process_all out my_lsn ms e1 of (e2, acts2) \<Rightarrow> (e2, acts @ acts2))"

definition el_turn :: "io_outcome \<Rightarrow> u64 \<Rightarrow> el_msg list \<Rightarrow> election \<Rightarrow> election \<times> el_action list" where
  "el_turn out my_lsn batch e =
     (if batch = []
      then if el_role e = Leader then (e, el_send_heartbeats e) else el_start_election out my_lsn e
      else el_process_all out my_lsn batch e)"

section \<open>The state file\<close>

definition el_saved :: "election \<Rightarrow> u64 \<times> string" where
  "el_saved e = (let e1 = el_load (e\<lparr>el_term := 0, el_voted_for := ''''\<rparr>)
                 in (el_term e1, el_voted_for e1))"

lemma el_saved_persist:
  assumes "length voted < 2 ^ 16"
  shows "el_saved (el_persist IoDone term voted e) = (term, voted)"
proof -
  let ?f = "el_state_bytes term voted"
  have "take 8 ?f = le_bytes 8 term" "slice 8 2 ?f = le_bytes 2 (word_of_nat (length voted) :: u16)"
    "slice 10 (length voted) ?f = map byte_of_char voted" "length ?f = 10 + length voted"
    by (simp_all add: el_state_bytes_def slice_def)
  then show ?thesis using assms
    by (simp add: el_saved_def el_persist_def el_load_def Let_def unat_of_nat_u16)
qed

lemma el_persist_fields [simp]:
  "el_id (el_persist out t v e) = el_id e" "el_peers (el_persist out t v e) = el_peers e"
  "el_cluster_size (el_persist out t v e) = el_cluster_size e"
  "el_term (el_persist out t v e) = el_term e" "el_voted_for (el_persist out t v e) = el_voted_for e"
  "el_leader (el_persist out t v e) = el_leader e" "el_role (el_persist out t v e) = el_role e"
  "el_votes (el_persist out t v e) = el_votes e"
  by (simp_all add: el_persist_def Let_def split: io_outcome.split)

lemma el_saved_cong [simp]:
  "el_saved (e\<lparr>el_term := t\<rparr>) = el_saved e" "el_saved (e\<lparr>el_voted_for := v\<rparr>) = el_saved e"
  "el_saved (e\<lparr>el_role := r\<rparr>) = el_saved e" "el_saved (e\<lparr>el_leader := l\<rparr>) = el_saved e"
  "el_saved (e\<lparr>el_votes := n\<rparr>) = el_saved e"
  by (simp_all add: el_saved_def el_load_def Let_def split: option.splits)

section \<open>A cluster\<close>

text \<open>
  Nodes, requests and responses in flight and heartbeats sent. A request or a response is
  delivered at most once and may be lost; a heartbeat may arrive any number of times.
  \<open>cl_votes\<close> and \<open>cl_leaders\<close> record the history: who voted for whom in a term, and who
  was leader of a term.
\<close>

record cluster =
  cl_node :: "string \<Rightarrow> election"
  cl_reqs :: "(string \<times> string \<times> u64 \<times> u64) multiset"
  cl_resps :: "(string \<times> string \<times> u64 \<times> bool) multiset"
  cl_beats :: "(u64 \<times> string) set"
  cl_votes :: "string \<Rightarrow> u64 \<Rightarrow> string option"
  cl_leaders :: "(u64 \<times> string) set"

fun act_req :: "el_action \<Rightarrow> (string \<times> string \<times> u64 \<times> u64) list" where
  "act_req (SendVoteReq p term cand lsn) = [(p, cand, term, lsn)]"
| "act_req _ = []"

fun act_beat :: "el_action \<Rightarrow> (u64 \<times> string) set" where
  "act_beat (SendHeartbeat p term from) = {(term, from)}"
| "act_beat _ = {}"

definition cl_send :: "el_action list \<Rightarrow> cluster \<Rightarrow> cluster" where
  "cl_send acts c = c\<lparr>cl_reqs := cl_reqs c + mset (concat (map act_req acts)),
                      cl_beats := cl_beats c \<union> \<Union> (act_beat ` set acts)\<rparr>"

definition cl_put :: "string \<Rightarrow> election \<Rightarrow> cluster \<Rightarrow> cluster" where
  "cl_put n e c =
     c\<lparr>cl_node := (cl_node c)(n := e),
       cl_leaders := (if el_role e = Leader then insert (el_term e, n) (cl_leaders c)
                      else cl_leaders c)\<rparr>"

definition cl_vote :: "string \<Rightarrow> u64 \<Rightarrow> string \<Rightarrow> cluster \<Rightarrow> cluster" where
  "cl_vote n term x c = c\<lparr>cl_votes := (cl_votes c)(n := (cl_votes c n)(term \<mapsto> x))\<rparr>"

definition cl_init :: "string list \<Rightarrow> cluster" where
  "cl_init ns = \<lparr>cl_node = (\<lambda>n. el_start False (el_new n (map (\<lambda>m. (m, m)) ns) None)),
     cl_reqs = {#}, cl_resps = {#}, cl_beats = {}, cl_votes = (\<lambda>_ _. None), cl_leaders = {}\<rparr>"

definition el_restarted :: "election \<Rightarrow> election" where
  "el_restarted e = el_start False
     (e\<lparr>el_term := 0, el_voted_for := '''', el_leader := '''', el_role := Follower, el_votes := 0\<rparr>)"

inductive cl_step :: "string set \<Rightarrow> cluster \<Rightarrow> cluster \<Rightarrow> bool" for N :: "string set" where
  timeout: "n \<in> N \<Longrightarrow> el_role (cl_node c n) \<noteq> Leader \<Longrightarrow> el_term (cl_node c n) \<noteq> - 1
    \<Longrightarrow> el_turn IoDone lsn [] (cl_node c n) = (e, acts)
    \<Longrightarrow> cl_step N c (cl_send acts (cl_put n e (cl_vote n (el_term e) n c)))"
| send_beats: "n \<in> N \<Longrightarrow> el_role (cl_node c n) = Leader
    \<Longrightarrow> el_turn IoDone lsn [] (cl_node c n) = (e, acts)
    \<Longrightarrow> cl_step N c (cl_send acts (cl_put n e c))"
| beat: "n \<in> N \<Longrightarrow> (t, l) \<in> cl_beats c
    \<Longrightarrow> el_process_msg IoDone lsn (Heartbeat t l) (cl_node c n) = (e, acts)
    \<Longrightarrow> cl_step N c (cl_put n e c)"
| req: "(n, x, t, lsn) \<in># cl_reqs c
    \<Longrightarrow> el_process_msg IoDone my_lsn (VoteReq t x lsn) (cl_node c n) = (e, acts)
    \<Longrightarrow> granted = (Respond True \<in> set acts)
    \<Longrightarrow> cl_step N c
          ((if granted then cl_vote n t x (cl_put n e c) else cl_put n e c)
             \<lparr>cl_reqs := cl_reqs c - {#(n, x, t, lsn)#},
              cl_resps := cl_resps c + {#(x, n, el_term e, granted)#}\<rparr>)"
| resp: "(n, v, t, g) \<in># cl_resps c
    \<Longrightarrow> el_process_msg IoDone lsn (VoteResp t g) (cl_node c n) = (e, acts)
    \<Longrightarrow> cl_step N c (cl_send acts (cl_put n e (c\<lparr>cl_resps := cl_resps c - {#(n, v, t, g)#}\<rparr>)))"
| lose_req: "cl_step N c (c\<lparr>cl_reqs := cl_reqs c - {#m#}\<rparr>)"
| lose_resp: "cl_step N c (c\<lparr>cl_resps := cl_resps c - {#r#}\<rparr>)"
| restart: "n \<in> N
    \<Longrightarrow> cl_step N c (c\<lparr>cl_node := (cl_node c)(n := el_restarted (cl_node c n))\<rparr>)"

inductive cl_reachable :: "string list \<Rightarrow> cluster \<Rightarrow> bool" for ns :: "string list" where
  cl_start: "cl_reachable ns (cl_init ns)"
| cl_next: "cl_reachable ns c \<Longrightarrow> cl_step (set ns) c c' \<Longrightarrow> cl_reachable ns c'"

text \<open>A configuration: an odd number of distinct, named nodes.\<close>

definition cl_config :: "string list \<Rightarrow> bool" where
  "cl_config ns \<longleftrightarrow> distinct ns \<and> odd (length ns) \<and> length ns < 2 ^ 32 - 1
     \<and> list_all (\<lambda>n. n \<noteq> '''' \<and> length n < 2 ^ 16) ns"

section \<open>The invariant of a cluster\<close>

definition voters :: "cluster \<Rightarrow> string \<Rightarrow> u64 \<Rightarrow> string set" where
  "voters c x t = {v. cl_votes c v t = Some x}"

definition pending :: "cluster \<Rightarrow> string \<Rightarrow> u64 \<Rightarrow> nat" where
  "pending c x t = size {#r \<in># cl_resps c. fst r = x \<and> snd (snd r) = (t, True)#}"

definition requests :: "cluster \<Rightarrow> string \<Rightarrow> string \<Rightarrow> u64 \<Rightarrow> nat" where
  "requests c v x t = size {#r \<in># cl_reqs c. fst r = v \<and> fst (snd r) = x \<and> fst (snd (snd r)) = t#}"

text \<open>A node, in memory and on disk, remembers its vote of a term until it enters a later one.\<close>

definition remembers :: "election \<Rightarrow> u64 \<Rightarrow> string \<Rightarrow> bool" where
  "remembers e t x \<longleftrightarrow> (t < el_term e \<or> t = el_term e \<and> el_voted_for e = x)
     \<and> (t < fst (el_saved e) \<or> (t, x) = el_saved e)"

definition node_ok :: "string set \<Rightarrow> string \<Rightarrow> election \<Rightarrow> bool" where
  "node_ok N n e \<longleftrightarrow> el_id e = n \<and> set (el_peers e) = N - {n} \<and> distinct (el_peers e)
     \<and> el_cluster_size e = word_of_nat (card N) \<and> fst (el_saved e) \<le> el_term e"

definition cl_inv :: "string set \<Rightarrow> cluster \<Rightarrow> bool" where
  "cl_inv N c \<longleftrightarrow>
     (\<forall>n \<in> N. node_ok N n (cl_node c n))
     \<and> (\<forall>v t x. cl_votes c v t = Some x \<longrightarrow>
          v \<in> N \<and> x \<in> N \<and> t \<le> fst (el_saved (cl_node c x)) \<and> remembers (cl_node c v) t x)
     \<and> (\<forall>v x t. requests c v x t > 0 \<longrightarrow>
          requests c v x t = 1 \<and> v \<in> N \<and> x \<in> N \<and> v \<noteq> x \<and> t \<le> fst (el_saved (cl_node c x))
          \<and> cl_votes c v t \<noteq> Some x)
     \<and> (\<forall>x v t g. (x, v, t, g) \<in># cl_resps c \<longrightarrow> x \<in> N \<and> (g \<longrightarrow> cl_votes c v t = Some x))
     \<and> (\<forall>x \<in> N. el_role (cl_node c x) = Candidate \<longrightarrow>
          unat (el_votes (cl_node c x)) + pending c x (el_term (cl_node c x))
            \<le> card (voters c x (el_term (cl_node c x))))
     \<and> (\<forall>t x. (t, x) \<in> cl_leaders c \<longrightarrow> x \<in> N \<and> card N < 2 * card (voters c x t))
     \<and> (\<forall>n \<in> N. el_role (cl_node c n) = Leader \<longrightarrow> (el_term (cl_node c n), n) \<in> cl_leaders c)
     \<and> cl_beats c \<subseteq> cl_leaders c"

lemma cl_counts_update [simp]:
  "voters (c\<lparr>cl_node := f\<rparr>) x t = voters c x t" "voters (c\<lparr>cl_reqs := q\<rparr>) x t = voters c x t"
  "voters (c\<lparr>cl_resps := r\<rparr>) x t = voters c x t" "voters (c\<lparr>cl_beats := b\<rparr>) x t = voters c x t"
  "voters (c\<lparr>cl_leaders := l\<rparr>) x t = voters c x t"
  "pending (c\<lparr>cl_node := f\<rparr>) x t = pending c x t" "pending (c\<lparr>cl_reqs := q\<rparr>) x t = pending c x t"
  "pending (c\<lparr>cl_beats := b\<rparr>) x t = pending c x t" "pending (c\<lparr>cl_leaders := l\<rparr>) x t = pending c x t"
  "pending (c\<lparr>cl_votes := w\<rparr>) x t = pending c x t"
  "requests (c\<lparr>cl_node := f\<rparr>) v x t = requests c v x t"
  "requests (c\<lparr>cl_resps := r\<rparr>) v x t = requests c v x t"
  "requests (c\<lparr>cl_beats := b\<rparr>) v x t = requests c v x t"
  "requests (c\<lparr>cl_leaders := l\<rparr>) v x t = requests c v x t"
  "requests (c\<lparr>cl_votes := w\<rparr>) v x t = requests c v x t"
  by (simp_all add: voters_def pending_def requests_def)

lemma cl_inv_votes: "cl_inv N c \<Longrightarrow> cl_votes c v t = Some x
    \<Longrightarrow> v \<in> N \<and> x \<in> N \<and> t \<le> fst (el_saved (cl_node c x)) \<and> remembers (cl_node c v) t x"
  by (simp add: cl_inv_def)

lemma cl_inv_reqs: "cl_inv N c \<Longrightarrow> requests c v x t > 0
    \<Longrightarrow> requests c v x t = 1 \<and> v \<in> N \<and> x \<in> N \<and> v \<noteq> x \<and> t \<le> fst (el_saved (cl_node c x))
      \<and> cl_votes c v t \<noteq> Some x"
  by (simp add: cl_inv_def)

lemma cl_inv_resps:
  "cl_inv N c \<Longrightarrow> (x, v, t, g) \<in># cl_resps c \<Longrightarrow> x \<in> N \<and> (g \<longrightarrow> cl_votes c v t = Some x)"
  unfolding cl_inv_def by blast

lemma cl_inv_node: "cl_inv N c \<Longrightarrow> n \<in> N \<Longrightarrow> node_ok N n (cl_node c n)"
  by (simp add: cl_inv_def)

lemma cl_inv_candidate:
  "cl_inv N c \<Longrightarrow> x \<in> N \<Longrightarrow> el_role (cl_node c x) = Candidate
    \<Longrightarrow> unat (el_votes (cl_node c x)) + pending c x (el_term (cl_node c x))
            \<le> card (voters c x (el_term (cl_node c x)))"
  by (simp add: cl_inv_def)

lemma cl_inv_leaders: "cl_inv N c \<Longrightarrow> (t, x) \<in> cl_leaders c \<Longrightarrow> x \<in> N \<and> card N < 2 * card (voters c x t)"
  by (simp add: cl_inv_def)

lemma cl_inv_leader:
  "cl_inv N c \<Longrightarrow> n \<in> N \<Longrightarrow> el_role (cl_node c n) = Leader \<Longrightarrow> (el_term (cl_node c n), n) \<in> cl_leaders c"
  by (simp add: cl_inv_def)

lemma cl_inv_beats: "cl_inv N c \<Longrightarrow> m \<in> cl_beats c \<Longrightarrow> m \<in> cl_leaders c"
  unfolding cl_inv_def by blast

lemmas cl_inv_dests = cl_inv_votes cl_inv_reqs cl_inv_resps cl_inv_node cl_inv_candidate
  cl_inv_leaders cl_inv_leader cl_inv_beats

lemma voters_subset: "cl_inv N c \<Longrightarrow> voters c x t \<subseteq> N"
  using cl_inv_votes by (fastforce simp: voters_def)

text \<open>Two majorities of one term share a voter, and a voter has one vote.\<close>

lemma one_leader:
  assumes "cl_inv N c" "finite N" "(t, x) \<in> cl_leaders c" "(t, y) \<in> cl_leaders c"
  shows "x = y"
proof (rule ccontr)
  assume "x \<noteq> y"
  then have disj: "voters c x t \<inter> voters c y t = {}" by (auto simp: voters_def)
  have fin: "finite (voters c z t)" for z
    using voters_subset[OF assms(1)] assms(2) finite_subset by blast
  have "card (voters c x t) + card (voters c y t) = card (voters c x t \<union> voters c y t)"
    using card_Un_disjoint[OF fin fin disj] by simp
  also have "\<dots> \<le> card N"
    using voters_subset[OF assms(1)] assms(2) by (intro card_mono) auto
  finally show False
    using cl_inv_leaders[OF assms(1,3)] cl_inv_leaders[OF assms(1,4)] by linarith
qed

text \<open>Replacing one node, recording a vote, and changing what is in flight.\<close>

lemma inv_node:
  assumes "cl_inv N c" "n \<in> N" "node_ok N n e"
    "\<And>t x. cl_votes c n t = Some x \<Longrightarrow> remembers e t x"
    "fst (el_saved (cl_node c n)) \<le> fst (el_saved e)"
    "el_role e = Candidate
       \<Longrightarrow> unat (el_votes e) + pending c n (el_term e) \<le> card (voters c n (el_term e))"
    "el_role e = Leader \<Longrightarrow> (el_term e, n) \<in> cl_leaders c"
  shows "cl_inv N (c\<lparr>cl_node := (cl_node c)(n := e)\<rparr>)"
  using assms(1)
  by (auto simp: cl_inv_def assms(2-4,6,7) intro: order_trans[OF _ assms(5)])

lemma inv_vote:
  assumes "cl_inv N c" "finite N" "n \<in> N" "x \<in> N" "cl_votes c n t = None \<or> cl_votes c n t = Some x"
    "remembers (cl_node c n) t x" "t \<le> fst (el_saved (cl_node c x))" "requests c n x t = 0"
  shows "cl_inv N (cl_vote n t x c)"
proof -
  let ?c = "cl_vote n t x c"
  have votes: "cl_votes ?c v s = (if v = n \<and> s = t then Some x else cl_votes c v s)" for v s
    by (simp add: cl_vote_def)
  have sub: "voters c y s \<subseteq> voters ?c y s" "voters ?c y s \<subseteq> N" for y s
    using assms(3,5) voters_subset[OF assms(1), of y s] by (auto simp: voters_def votes)
  have card: "card (voters c y s) \<le> card (voters ?c y s)" for y s
    using sub assms(2) by (meson card_mono finite_subset)
  have same: "cl_node ?c = cl_node c" "cl_resps ?c = cl_resps c" "cl_beats ?c = cl_beats c"
    "cl_leaders ?c = cl_leaders c" "pending ?c = pending c" "requests ?c = requests c"
    by (auto simp: cl_vote_def fun_eq_iff)
  show ?thesis unfolding cl_inv_def same votes
  proof (intro conjI allI impI ballI)
    show "node_ok N m (cl_node c m)" if "m \<in> N" for m using cl_inv_node[OF assms(1) that] .
  next
    fix v s y assume "(if v = n \<and> s = t then Some x else cl_votes c v s) = Some y"
    then show "v \<in> N" "y \<in> N" "s \<le> fst (el_saved (cl_node c y))" "remembers (cl_node c v) s y"
      using assms(3,4,6,7) cl_inv_votes[OF assms(1)] by (auto split: if_splits)
  next
    fix v y s assume pos: "0 < requests c v y s"
    note r = cl_inv_reqs[OF assms(1) pos]
    then show "requests c v y s = 1" "v \<in> N" "y \<in> N" "v \<noteq> y" "s \<le> fst (el_saved (cl_node c y))"
      "(if v = n \<and> s = t then Some x else cl_votes c v s) \<noteq> Some y"
      using assms(8) pos by auto
  next
    fix y v s g assume r: "(y, v, s, g) \<in># cl_resps c"
    show "y \<in> N" using cl_inv_resps[OF assms(1) r] by simp
    show "(if v = n \<and> s = t then Some x else cl_votes c v s) = Some y" if g
      using cl_inv_resps[OF assms(1) r] assms(5) that by auto
  next
    fix y assume "y \<in> N" "el_role (cl_node c y) = Candidate"
    then show "unat (el_votes (cl_node c y)) + pending c y (el_term (cl_node c y))
        \<le> card (voters ?c y (el_term (cl_node c y)))"
      using cl_inv_candidate[OF assms(1)] card order_trans by blast
  next
    fix s y assume "(s, y) \<in> cl_leaders c"
    then show "y \<in> N" "card N < 2 * card (voters ?c y s)"
      using cl_inv_leaders[OF assms(1)] card[of y s] by fastforce+
  qed (use assms(1) in \<open>auto simp: cl_inv_def\<close>)
qed

lemma inv_leaders:
  assumes "cl_inv N c" "n \<in> N" "card N < 2 * card (voters c n t)"
  shows "cl_inv N (c\<lparr>cl_leaders := insert (t, n) (cl_leaders c)\<rparr>)"
  using assms by (auto simp: cl_inv_def)

lemma inv_beats:
  assumes "cl_inv N c" "bs \<subseteq> cl_leaders c"
  shows "cl_inv N (c\<lparr>cl_beats := cl_beats c \<union> bs\<rparr>)"
  using assms by (auto simp: cl_inv_def)

lemma pending_remove:
  assumes "(x, v, t, g) \<in># cl_resps c"
  shows "pending (c\<lparr>cl_resps := cl_resps c - {#(x, v, t, g)#}\<rparr>) y s
           = pending c y s - (if y = x \<and> s = t \<and> g then 1 else 0)"
    and "x = y \<Longrightarrow> s = t \<Longrightarrow> g \<Longrightarrow> 0 < pending c y s"
  using assms by (auto simp: pending_def filter_diff_mset size_Diff_singleton
      nonempty_has_size[symmetric])

lemma inv_lose_resp:
  assumes "cl_inv N c"
  shows "cl_inv N (c\<lparr>cl_resps := cl_resps c - {#r#}\<rparr>)"
proof -
  have le: "pending (c\<lparr>cl_resps := cl_resps c - {#r#}\<rparr>) x t \<le> pending c x t" for x t
    by (auto simp: pending_def filter_diff_mset intro!: size_mset_mono)
  have "unat (el_votes (cl_node c x)) + pending (c\<lparr>cl_resps := cl_resps c - {#r#}\<rparr>) x
        (el_term (cl_node c x)) \<le> card (voters c x (el_term (cl_node c x)))"
    if "x \<in> N" "el_role (cl_node c x) = Candidate" for x
    using cl_inv_candidate[OF assms that] le[of x "el_term (cl_node c x)"] by linarith
  then show ?thesis using assms unfolding cl_inv_def by (auto dest: in_diffD)
qed

lemma inv_lose_req:
  assumes "cl_inv N c"
  shows "cl_inv N (c\<lparr>cl_reqs := cl_reqs c - {#m#}\<rparr>)"
proof -
  have le: "requests (c\<lparr>cl_reqs := cl_reqs c - {#m#}\<rparr>) v x t \<le> requests c v x t" for v x t
    by (auto simp: requests_def filter_diff_mset intro!: size_mset_mono)
  have "requests (c\<lparr>cl_reqs := cl_reqs c - {#m#}\<rparr>) v x t = 1 \<and> v \<in> N \<and> x \<in> N \<and> v \<noteq> x
      \<and> t \<le> fst (el_saved (cl_node c x)) \<and> cl_votes c v t \<noteq> Some x"
    if "0 < requests (c\<lparr>cl_reqs := cl_reqs c - {#m#}\<rparr>) v x t" for v x t
    using that le[of v x t] cl_inv_reqs[OF assms, of v x t] by simp
  then show ?thesis using assms unfolding cl_inv_def by simp
qed

lemma inv_add_resp:
  assumes "cl_inv N c" "x \<in> N" "g \<Longrightarrow> cl_votes c n t = Some x"
    "g \<Longrightarrow> el_role (cl_node c x) = Candidate \<Longrightarrow> el_term (cl_node c x) = t
       \<Longrightarrow> unat (el_votes (cl_node c x)) + Suc (pending c x t) \<le> card (voters c x t)"
  shows "cl_inv N (c\<lparr>cl_resps := cl_resps c + {#(x, n, t, g)#}\<rparr>)"
proof -
  have "pending (c\<lparr>cl_resps := cl_resps c + {#(x, n, t, g)#}\<rparr>) y s
      = pending c y s + (if y = x \<and> s = t \<and> g then 1 else 0)" for y s
    by (simp add: pending_def)
  then show ?thesis using assms unfolding cl_inv_def by (auto split: if_splits)
qed

lemma requests_add_mset:
  "requests (c\<lparr>cl_reqs := cl_reqs c + mset (map (\<lambda>p. (p, n, t, lsn)) ps)\<rparr>) v x s
     = requests c v x s + (if x = n \<and> s = t then length (filter (\<lambda>p. p = v) ps) else 0)"
  by (induction ps) (auto simp: requests_def)

lemma inv_add_reqs:
  assumes "cl_inv N c" "n \<in> N" "set ps \<subseteq> N - {n}" "distinct ps"
    "\<And>p. p \<in> set ps \<Longrightarrow> requests c p n t = 0 \<and> cl_votes c p t \<noteq> Some n"
    "t \<le> fst (el_saved (cl_node c n))"
  shows "cl_inv N (c\<lparr>cl_reqs := cl_reqs c + mset (map (\<lambda>p. (p, n, t, lsn)) ps)\<rparr>)"
proof -
  let ?c = "c\<lparr>cl_reqs := cl_reqs c + mset (map (\<lambda>p. (p, n, t, lsn)) ps)\<rparr>"
  have one: "length (filter (\<lambda>p. p = v) ps) = (if v \<in> set ps then 1 else 0)" for v
    using assms(4) by (induction ps) (auto simp: filter_empty_conv)
  have "requests ?c v x s = 1 \<and> v \<in> N \<and> x \<in> N \<and> v \<noteq> x
      \<and> s \<le> fst (el_saved (cl_node c x)) \<and> cl_votes c v s \<noteq> Some x"
    if "0 < requests ?c v x s" for v x s
  proof (cases "x = n \<and> s = t \<and> v \<in> set ps")
    case True
    then have "requests ?c v x s = 1"
      using requests_add_mset[of c n t lsn ps v x s] assms(5) by (simp add: one)
    then show ?thesis using True assms(2,3,5,6) by auto
  next
    case False
    then have "requests ?c v x s = requests c v x s"
      using requests_add_mset[of c n t lsn ps v x s] by (auto simp: one)
    then show ?thesis using cl_inv_reqs[OF assms(1)] that by simp
  qed
  then show ?thesis using assms(1) unfolding cl_inv_def by simp
qed

lemma inv_put:
  assumes "cl_inv N c" "n \<in> N" "node_ok N n e"
    "\<And>t x. cl_votes c n t = Some x \<Longrightarrow> remembers e t x"
    "fst (el_saved (cl_node c n)) \<le> fst (el_saved e)"
    "el_role e = Candidate
       \<Longrightarrow> unat (el_votes e) + pending c n (el_term e) \<le> card (voters c n (el_term e))"
    "el_role e = Leader \<Longrightarrow> card N < 2 * card (voters c n (el_term e))"
  shows "cl_inv N (cl_put n e c)"
proof (cases "el_role e = Leader")
  case True
  have "cl_inv N (c\<lparr>cl_leaders := insert (el_term e, n) (cl_leaders c)\<rparr>)" (is "cl_inv N ?c")
    using inv_leaders[OF assms(1,2)] assms(7) True by blast
  then have "cl_inv N (?c\<lparr>cl_node := (cl_node ?c)(n := e)\<rparr>)"
    by (rule inv_node[OF _ assms(2,3)]) (use assms(4,5) True in auto)
  then show ?thesis using True by (cases c) (simp add: cl_put_def)
next
  case False
  have "cl_inv N (c\<lparr>cl_node := (cl_node c)(n := e)\<rparr>)"
    by (rule inv_node[OF assms(1-3)]) (use assms(4-6) False in auto)
  then show ?thesis using False by (simp add: cl_put_def)
qed

section \<open>Every step keeps the invariant\<close>

lemma step_beat:
  assumes "cl_inv N c" "finite N" "n \<in> N" "(t, l) \<in> cl_beats c" "'''' \<notin> N"
    "el_handle_heartbeat IoDone t l (cl_node c n) = (e, acts)"
  shows "cl_inv N (cl_put n e c)"
proof -
  let ?e = "cl_node c n"
  have ok: "node_ok N n ?e" using cl_inv_node[OF assms(1,3)] .
  have mem: "remembers ?e s x" if "cl_votes c n s = Some x" for s x
    using cl_inv_votes[OF assms(1) that] by simp
  have lead: "card N < 2 * card (voters c n (el_term ?e))" if "el_role ?e = Leader"
    using cl_inv_leaders[OF assms(1) cl_inv_leader[OF assms(1,3) that]] by simp
  have same: "l = n" if "el_role ?e = Leader" "t = el_term ?e"
    using one_leader[OF assms(1,2) cl_inv_beats[OF assms(1,4)]] cl_inv_leader[OF assms(1,3) that(1)]
      that(2) by simp
  have keep: "cl_inv N (cl_put n ?e c)"
    by (rule inv_put[OF assms(1,3) ok mem])
       (use lead cl_inv_candidate[OF assms(1,3)] in simp_all)
  consider (old) "t < el_term ?e" | (new) "el_term ?e < t" | (same) "t = el_term ?e"
    by (rule linorder_cases)
  then show ?thesis
  proof cases
    case old
    then show ?thesis using keep assms(6) by (simp add: el_handle_heartbeat_def)
  next
    case less: new
    have new: "el_term ?e < t" "e = el_persist IoDone t ''''
        (?e\<lparr>el_term := t, el_voted_for := '''', el_role := Follower, el_leader := l\<rparr>)"
      using less less_not_sym[OF less] assms(6) by (simp_all add: el_handle_heartbeat_def)
    have sv: "el_saved e = (t, '''')" unfolding new by (rule el_saved_persist) simp
    show ?thesis
    proof (rule inv_put[OF assms(1,3)])
      show "node_ok N n e" using ok sv by (simp add: new(2) node_ok_def)
      show "remembers e s x" if "cl_votes c n s = Some x" for s x
        using mem[OF that] new(1) sv by (auto simp: remembers_def new(2))
      show "fst (el_saved ?e) \<le> fst (el_saved e)"
        using ok order_trans[OF _ less_imp_le[OF new(1)]] by (simp add: node_ok_def sv)
    qed (simp_all add: new(2))
  next
    case eq: same
    show ?thesis
    proof (cases "el_role ?e = Leader")
      case True
      have "l = el_id ?e" using same[OF True eq] ok by (simp add: node_ok_def)
      then show ?thesis using keep assms(6) eq True by (simp add: el_handle_heartbeat_def)
    next
      case False
      define e2 where "e2 = fst (el_handle_heartbeat IoDone t l ?e)"
      have e2: "e = e2" using assms(6) by (simp add: e2_def)
      have fields: "el_role e = Follower" "el_saved e = el_saved ?e" "el_term e = el_term ?e"
        "el_voted_for e = el_voted_for ?e" "node_ok N n e"
        unfolding e2 e2_def using False eq ok
        by (cases "el_role ?e"; simp add: el_handle_heartbeat_def node_ok_def)+
      show ?thesis
        by (rule inv_put[OF assms(1,3) fields(5)])
           (use mem fields(1-4) in \<open>simp_all add: remembers_def\<close>)
    qed
  qed
qed

lemma step_req:
  assumes "cl_inv N c" "finite N" "'''' \<notin> N" "\<And>x. x \<in> N \<Longrightarrow> length x < 2 ^ 16"
    "(n, x, t, lsn) \<in># cl_reqs c"
    "el_handle_vote_req IoDone my_lsn t x lsn (cl_node c n) = (e, acts)"
    "granted = (Respond True \<in> set acts)"
  shows "cl_inv N ((if granted then cl_vote n t x (cl_put n e c) else cl_put n e c)
             \<lparr>cl_reqs := cl_reqs c - {#(n, x, t, lsn)#},
              cl_resps := cl_resps c + {#(x, n, el_term e, granted)#}\<rparr>)"
proof -
  let ?e = "cl_node c n"
  define c1 where "c1 = c\<lparr>cl_reqs := cl_reqs c - {#(n, x, t, lsn)#}\<rparr>"
  have pos: "0 < requests c n x t"
    using assms(5) by (auto simp: requests_def nonempty_has_size[symmetric])
  note rq = cl_inv_reqs[OF assms(1) pos]
  have n: "n \<in> N" "x \<in> N" "n \<noteq> x" and novote: "cl_votes c n t \<noteq> Some x" using rq by auto
  have xs: "x \<noteq> ''''" "length x < 2 ^ 16" using n(2) assms(3,4) by auto
  have c1: "cl_inv N c1" unfolding c1_def by (rule inv_lose_req[OF assms(1)])
  have gone: "requests c1 n x t = 0"
    using rq assms(5) by (simp add: c1_def requests_def filter_diff_mset size_Diff_singleton)
  have ok: "node_ok N n ?e" using cl_inv_node[OF assms(1) n(1)] .
  have mem: "remembers ?e s y" "y \<noteq> ''''" if "cl_votes c n s = Some y" for s y
    using cl_inv_votes[OF assms(1) that] assms(3) by auto
  have same: "cl_votes c1 = cl_votes c" "cl_node c1 = cl_node c" "pending c1 = pending c"
    "voters c1 = voters c" "cl_resps c1 = cl_resps c"
    by (auto simp: c1_def fun_eq_iff)
  define e1 where "e1 = (if t > el_term ?e
    then ?e\<lparr>el_term := t, el_voted_for := '''', el_role := Follower\<rparr> else ?e)"
  have e1: "el_saved e1 = el_saved ?e" "node_ok N n e1" "el_term ?e \<le> el_term e1" "t \<le> el_term e1"
      "el_role e1 = Candidate \<Longrightarrow> e1 = ?e" "el_role e1 = Leader \<Longrightarrow> e1 = ?e"
      "el_voted_for e1 = '''' \<or> e1 = ?e"
    using ok order_trans[OF _ less_imp_le[of "el_term ?e" t]] unfolding e1_def
    by (cases "t > el_term ?e"; simp add: node_ok_def)+
  have mem1: "remembers e1 s y" if "cl_votes c n s = Some y" for s y
    using mem(1)[OF that] unfolding e1_def
    by (cases "t > el_term ?e") (auto simp: remembers_def)
  have lead: "card N < 2 * card (voters c n (el_term ?e))" if "el_role ?e = Leader"
    using cl_inv_leaders[OF assms(1) cl_inv_leader[OF assms(1) n(1) that]] by simp
  have cand: "unat (el_votes ?e) + pending c n (el_term ?e) \<le> card (voters c n (el_term ?e))"
    if "el_role ?e = Candidate" using cl_inv_candidate[OF assms(1) n(1) that] .
  show ?thesis
  proof (cases granted)
    case False
    then have e: "e = e1" using assms(6,7)
      by (auto simp: el_handle_vote_req_def Let_def e1_def split: if_splits)
    have "cl_inv N (cl_put n e1 c1)"
      by (rule inv_put[OF c1 n(1) e1(2)])
         (use mem1 e1 lead cand in \<open>auto simp: same\<close>)
    then have "cl_inv N ((cl_put n e1 c1)\<lparr>cl_resps := cl_resps (cl_put n e1 c1)
        + {#(x, n, el_term e1, False)#}\<rparr>)"
      by (rule inv_add_resp) (use n in auto)
    then show ?thesis using False
      by (cases c; cases "el_role e1 = Leader") (simp_all add: e cl_put_def c1_def)
  next
    case True
    then have g: "t \<ge> el_term e1" "el_voted_for e1 = '''' \<or> el_voted_for e1 = x"
      and e: "e = el_persist IoDone (el_term e1) x (e1\<lparr>el_voted_for := x\<rparr>)"
      using assms(6,7) by (auto simp: el_handle_vote_req_def Let_def e1_def split: if_splits)
    have t: "el_term e1 = t" using g(1) e1(4) by simp
    have sv: "el_saved e = (t, x)" unfolding e t by (rule el_saved_persist[OF xs(2)])
    have fields: "el_term e = t" "el_voted_for e = x" "el_role e = el_role e1" "el_votes e = el_votes e1"
      "node_ok N n e" using e1(2) sv by (simp_all add: e t node_ok_def)
    have none: "cl_votes c n t = None"
    proof (cases "cl_votes c n t")
      case (Some y)
      then have "el_voted_for e1 = y \<and> y \<noteq> ''''" using mem1[OF Some] mem(2)[OF Some] t
        by (auto simp: remembers_def)
      then show ?thesis using g(2) novote Some by auto
    qed
    have older: "s < t" if "cl_votes c n s = Some y" for s y
      using mem1[OF that] none that t by (cases "s = t") (auto simp: remembers_def)
    define c2 where "c2 = cl_put n e c1"
    have c2: "cl_inv N c2" unfolding c2_def
    proof (rule inv_put[OF c1 n(1) fields(5)])
      show "remembers e s y" if "cl_votes c1 n s = Some y" for s y
        using older that by (simp add: same remembers_def fields sv)
      show "fst (el_saved (cl_node c1 n)) \<le> fst (el_saved e)"
        using ok order_trans[OF _ e1(3)] by (simp add: same sv node_ok_def t)
    qed (use e1 lead cand t in \<open>auto simp: same fields\<close>)
    have same2: "cl_votes c2 = cl_votes c" "requests c2 n x t = 0" "cl_node c2 n = e"
        "cl_node c2 x = cl_node c x" "pending c2 = pending c" "voters c2 = voters c"
        "cl_resps c2 = cl_resps c"
      using gone n(3) by (auto simp: c2_def cl_put_def same fun_eq_iff)
    define c3 where "c3 = cl_vote n t x c2"
    have c3: "cl_inv N c3" unfolding c3_def
      by (rule inv_vote[OF c2 assms(2) n(1,2)])
         (use none rq in \<open>auto simp: same2 remembers_def fields sv\<close>)
    have v3: "voters c3 x t = insert n (voters c x t)" "n \<notin> voters c x t" "finite (voters c x t)"
      using none voters_subset[OF assms(1), of x t] assms(2) finite_subset
      by (auto simp: c3_def cl_vote_def voters_def same2)
    have same3: "cl_node c3 = cl_node c2" "pending c3 = pending c" "cl_resps c3 = cl_resps c"
      by (auto simp: c3_def cl_vote_def same2 fun_eq_iff)
    have "cl_inv N (c3\<lparr>cl_resps := cl_resps c3 + {#(x, n, t, True)#}\<rparr>)"
    proof (rule inv_add_resp[OF c3 n(2)])
      show "cl_votes c3 n t = Some x" by (simp add: c3_def cl_vote_def)
      show "unat (el_votes (cl_node c3 x)) + Suc (pending c3 x t) \<le> card (voters c3 x t)"
        if "el_role (cl_node c3 x) = Candidate" "el_term (cl_node c3 x) = t"
        using cl_inv_candidate[OF assms(1) n(2)] that v3 by (simp add: same3 same2)
    qed
    then show ?thesis using True
      by (cases c; cases "el_role e = Leader")
         (simp_all add: fields(1) cl_put_def c1_def c2_def c3_def cl_vote_def)
  qed
qed

lemma cl_send_beats:
  assumes "cl_inv N c" "el_role e = Leader \<Longrightarrow> (el_term e, el_id e) \<in> cl_leaders c"
  shows "cl_inv N (cl_send (el_send_heartbeats e) c)"
proof -
  have reqs: "concat (map act_req (el_send_heartbeats e)) = []"
    by (auto simp: el_send_heartbeats_def)
  have "\<Union> (act_beat ` set (el_send_heartbeats e)) \<subseteq> cl_leaders c"
    using assms(2) by (auto simp: el_send_heartbeats_def split: if_splits)
  from inv_beats[OF assms(1) this] show ?thesis by (cases c) (simp add: cl_send_def reqs)
qed

lemma remembers_newer:
  "remembers e s y \<Longrightarrow> el_term e < el_term e1 \<Longrightarrow> el_saved e1 = el_saved e \<Longrightarrow> remembers e1 s y"
  by (auto simp: remembers_def)

lemma cl_send_append: "cl_send (as @ bs) c = cl_send bs (cl_send as c)"
  by (cases c) (simp add: cl_send_def add.assoc Un_assoc)

lemma cl_send_silent:
  "cl_send (BecameLeader # acts) c = cl_send acts c" "cl_send [] c = c"
  by (simp_all add: cl_send_def)

lemma majority_voters:
  assumes "el_majority e \<le> word_of_nat k" "el_cluster_size e = word_of_nat m" "odd m"
    "m < 2 ^ 32 - 1" "k \<le> m"
  shows "m < 2 * k"
proof -
  have "unat (word_of_nat m + 1 :: u32) = m + 1"
    using assms(4) by (simp add: unat_word_ariths unat_of_nat)
  then have "unat (el_majority e) = (m + 1) div 2"
    by (simp add: el_majority_def assms(2) unat_div)
  moreover have "unat (word_of_nat k :: u32) = k"
    using assms(4,5) by (simp add: unat_of_nat_u32)
  ultimately have "(m + 1) div 2 \<le> k" using assms(1) by (simp add: word_le_nat_alt)
  then show ?thesis using assms(3) by presburger
qed

lemma step_resp:
  assumes "cl_inv N c" "finite N" "odd (card N)" "card N < 2 ^ 32 - 1" "(n, v, t, g) \<in># cl_resps c"
    "el_handle_vote_resp t g (cl_node c n) = (e, acts)"
  shows "cl_inv N (cl_send acts (cl_put n e (c\<lparr>cl_resps := cl_resps c - {#(n, v, t, g)#}\<rparr>)))"
proof -
  let ?e = "cl_node c n"
  define c1 where "c1 = c\<lparr>cl_resps := cl_resps c - {#(n, v, t, g)#}\<rparr>"
  have c1: "cl_inv N c1" unfolding c1_def by (rule inv_lose_resp[OF assms(1)])
  have n: "n \<in> N" using cl_inv_resps[OF assms(1,5)] by simp
  have same: "cl_votes c1 = cl_votes c" "cl_node c1 = cl_node c" "voters c1 = voters c"
    by (auto simp: c1_def fun_eq_iff)
  have pend: "pending c1 n s = pending c n s - (if s = t \<and> g then 1 else 0)"
      "g \<Longrightarrow> 0 < pending c n t" for s
    using pending_remove[OF assms(5), of n s] pending_remove(2)[OF assms(5), of n t]
    by (auto simp: c1_def)
  have ok: "node_ok N n ?e" using cl_inv_node[OF assms(1) n] .
  have mem: "remembers ?e s y" if "cl_votes c n s = Some y" for s y
    using cl_inv_votes[OF assms(1) that] by simp
  have lead: "card N < 2 * card (voters c n (el_term ?e))" if "el_role ?e = Leader"
    using cl_inv_leaders[OF assms(1) cl_inv_leader[OF assms(1) n that]] by simp
  have cand: "unat (el_votes ?e) + pending c n (el_term ?e) \<le> card (voters c n (el_term ?e))"
    if "el_role ?e = Candidate" using cl_inv_candidate[OF assms(1) n that] .
  have most: "card (voters c n s) \<le> card N" for s
    using voters_subset[OF assms(1)] assms(2) by (rule card_mono[rotated])
  consider (newer) "t > el_term ?e" | (idle) "\<not> t > el_term ?e" "el_role ?e \<noteq> Candidate \<or> t < el_term ?e \<or> \<not> g"
    | (count) "t = el_term ?e" "el_role ?e = Candidate" g
    by (metis linorder_cases)
  then show ?thesis
  proof cases
    case newer
    let ?e1 = "?e\<lparr>el_term := t, el_voted_for := '''', el_role := Follower, el_leader := ''''\<rparr>"
    have "e = ?e1" "acts = []"
      using assms(6) newer by (auto simp: el_handle_vote_resp_def Let_def)
    moreover have "cl_inv N (cl_put n ?e1 c1)"
      by (rule inv_put[OF c1 n])
         (use ok remembers_newer[OF mem] newer in \<open>auto simp: same node_ok_def\<close>)
    ultimately show ?thesis unfolding c1_def by (simp only: cl_send_silent)
  next
    case idle
    then have "e = ?e" "acts = []"
      using assms(6) by (auto simp: el_handle_vote_resp_def Let_def split: if_splits)
    moreover have "cl_inv N (cl_put n ?e c1)"
      by (rule inv_put[OF c1 n ok]) (use mem lead cand pend in \<open>auto simp: same\<close>)
    ultimately show ?thesis unfolding c1_def by (simp only: cl_send_silent)
  next
    case count
    let ?e1 = "?e\<lparr>el_votes := el_votes ?e + 1\<rparr>"
    have le: "unat (el_votes ?e) + 1 + pending c1 n t \<le> card (voters c n t)"
      using cand[OF count(2)] count pend(1)[of t] pend(2) by simp
    have votes: "unat (el_votes ?e + 1) = unat (el_votes ?e) + 1"
      using le most[of t] assms(4) by (simp add: unat_word_ariths)
    have ok1: "node_ok N n ?e1" using ok by (simp add: node_ok_def)
    show ?thesis
    proof (cases "el_votes ?e1 < el_majority ?e1")
      case True
      then have "e = ?e1" "acts = []"
        using assms(6) count by (simp_all add: el_handle_vote_resp_def Let_def)
      moreover have "cl_inv N (cl_put n ?e1 c1)"
        by (rule inv_put[OF c1 n ok1])
           (use mem le votes count in \<open>simp_all add: same remembers_def\<close>)
      ultimately show ?thesis unfolding c1_def by (simp only: cl_send_silent)
    next
      case False
      let ?e2 = "?e1\<lparr>el_role := Leader, el_leader := el_id ?e1, el_votes := 0\<rparr>"
      have "(e, acts) = (?e2, BecameLeader # el_send_heartbeats ?e2)"
        unfolding assms(6)[symmetric] using count False
        by (simp add: el_handle_vote_resp_def el_become_leader_def Let_def)
      then have e: "e = ?e2" "acts = BecameLeader # el_send_heartbeats ?e2" by simp_all
      have "card N < 2 * unat (el_votes ?e1)"
      proof (rule majority_voters[of ?e1])
        show "el_majority ?e1 \<le> word_of_nat (unat (el_votes ?e1))" using False by simp
        show "el_cluster_size ?e1 = word_of_nat (card N)" using ok by (simp add: node_ok_def)
        show "unat (el_votes ?e1) \<le> card N" using votes le most[of t] by simp
      qed (use assms(3,4) in auto)
      then have maj: "card N < 2 * card (voters c n t)" using votes le by simp
      have inv: "cl_inv N (cl_put n ?e2 c1)"
        by (rule inv_put[OF c1 n])
           (use ok mem maj count in \<open>simp_all add: same node_ok_def remembers_def\<close>)
      show ?thesis unfolding e cl_send_silent c1_def[symmetric]
        by (rule cl_send_beats[OF inv]) (use ok in \<open>simp add: cl_put_def node_ok_def\<close>)
    qed
  qed
qed

lemma step_timeout:
  assumes "cl_inv N c" "finite N" "odd (card N)" "card N < 2 ^ 32 - 1" "n \<in> N" "length n < 2 ^ 16"
    "el_term (cl_node c n) \<noteq> - 1" "el_start_election IoDone lsn (cl_node c n) = (e, acts)"
  shows "cl_inv N (cl_send acts (cl_put n e (cl_vote n (el_term e) n c)))"
proof -
  let ?e = "cl_node c n"
  define t where "t = el_term ?e + 1"
  have "el_term ?e < - 1" by (rule order.not_eq_order_implies_strict[OF assms(7) word_n1_ge])
  then have t: "el_term ?e < t" unfolding t_def word_less_nat_alt[of _ "_ + 1"]
    by (simp add: unat_inc[of _ "- 1"])
  have ok: "node_ok N n ?e" using cl_inv_node[OF assms(1,5)] .
  then have idn: "el_id ?e = n" and svt: "fst (el_saved ?e) < t"
    using t le_less_trans by (auto simp: node_ok_def)
  define e1 where "e1 = el_persist IoDone t n
    (?e\<lparr>el_term := t, el_voted_for := n, el_votes := 1, el_role := Candidate\<rparr>)"
  have sv: "el_saved e1 = (t, n)" unfolding e1_def by (rule el_saved_persist[OF assms(6)])
  have fields: "el_term e1 = t" "el_voted_for e1 = n" "el_votes e1 = 1" "el_role e1 = Candidate"
    "el_id e1 = n" "el_peers e1 = el_peers ?e" "node_ok N n e1"
    using ok sv by (simp_all add: e1_def node_ok_def)
  define sent where "sent = el_broadcast_vote_req lsn e1"
  have run: "(e, acts) = (if 1 \<ge> el_majority e1
      then (fst (el_become_leader e1), sent @ snd (el_become_leader e1)) else (e1, sent))"
    unfolding assms(8)[symmetric] sent_def e1_def t_def
    by (simp add: el_start_election_def Let_def idn case_prod_unfold)
  have fresh: "cl_votes c v t \<noteq> Some n" "requests c v n t = 0" "pending c n t = 0" for v
  proof -
    have no: "\<not> t \<le> fst (el_saved ?e)" using svt by simp
    show "cl_votes c v t \<noteq> Some n" using cl_inv_votes[OF assms(1), of v t n] no by auto
    show "requests c v n t = 0" using cl_inv_reqs[OF assms(1), of v n t] no by auto
    show "pending c n t = 0"
      using cl_inv_resps[OF assms(1)] cl_inv_votes[OF assms(1), of _ t n] no
      by (fastforce simp: pending_def)
  qed
  have old: "remembers e1 s y \<and> s < t" if "cl_votes c n s = Some y" for s y
    using cl_inv_votes[OF assms(1) that] t less_trans[OF _ t] unfolding remembers_def sv fields
    by auto
  define e0 where "e0 = e1\<lparr>el_role := Follower\<rparr>"
  have "cl_inv N (cl_put n e0 c)"
    by (rule inv_put[OF assms(1,5)])
       (use fields old sv less_imp_le[OF svt] in \<open>auto simp: e0_def node_ok_def remembers_def\<close>)
  moreover define c1 where "c1 = cl_put n e0 c"
  ultimately have c1: "cl_inv N c1" by simp
  define c2 where "c2 = cl_vote n t n c1"
  have c2: "cl_inv N c2" unfolding c2_def
  proof (rule inv_vote[OF c1 assms(2,5,5)])
    have "cl_votes c n t = None" using old[of t] by (cases "cl_votes c n t") auto
    then show "cl_votes c1 n t = None \<or> cl_votes c1 n t = Some n" by (simp add: c1_def cl_put_def)
    show "remembers (cl_node c1 n) t n" "t \<le> fst (el_saved (cl_node c1 n))"
      by (simp_all add: c1_def cl_put_def e0_def remembers_def fields sv)
    show "requests c1 n n t = 0" using fresh(2) by (simp add: c1_def cl_put_def e0_def)
  qed
  have v2: "voters c2 n t = {n}" "pending c2 n t = 0" "requests c2 v n t = 0" for v
    using fresh by (auto simp: c2_def c1_def cl_vote_def cl_put_def voters_def e0_def
        simp del: fun_upd_apply simp add: fun_upd_def)
  have mem2: "remembers e1 s y" if "cl_votes c2 n s = Some y" for s y
  proof (cases "s = t")
    case True
    then have "y = n" using that by (simp add: c2_def cl_vote_def)
    then show ?thesis using True by (simp add: remembers_def fields sv)
  next
    case False
    then show ?thesis using that old by (simp add: c2_def c1_def cl_vote_def cl_put_def)
  qed
  define c3 where "c3 = c2\<lparr>cl_node := (cl_node c2)(n := e1)\<rparr>"
  have c3: "cl_inv N c3" unfolding c3_def
  proof (rule inv_node[OF c2 assms(5) fields(7) mem2])
    show "fst (el_saved (cl_node c2 n)) \<le> fst (el_saved e1)"
      by (simp add: c2_def c1_def cl_vote_def cl_put_def e0_def)
  qed (use v2 fields in simp_all)
  have put1: "c3 = cl_put n e1 (cl_vote n t n c)"
    by (cases c) (simp add: c3_def c2_def c1_def cl_vote_def cl_put_def fields e0_def)
  have sent: "cl_send sent c3
      = c3\<lparr>cl_reqs := cl_reqs c3 + mset (map (\<lambda>p. (p, n, t, lsn)) (el_peers e1))\<rparr>"
    by (cases c3) (auto simp: cl_send_def sent_def el_broadcast_vote_req_def fields comp_def)
  have c4: "cl_inv N (cl_send sent c3)" unfolding sent
    by (rule inv_add_reqs[OF c3 assms(5)])
       (use ok v2 fresh fields sv in \<open>auto simp: node_ok_def c3_def c2_def c1_def cl_vote_def cl_put_def\<close>)
  show ?thesis
  proof (cases "el_majority e1 \<le> 1")
    case False
    then have "e = e1" "acts = sent" using run by simp_all
    then show ?thesis using c4 put1 fields(1) by simp
  next
    case True
    let ?e2 = "e1\<lparr>el_role := Leader, el_leader := el_id e1, el_votes := 0\<rparr>"
    have e: "e = ?e2" "acts = sent @ BecameLeader # el_send_heartbeats ?e2"
      using run True by (simp_all add: el_become_leader_def Let_def)
    have "card N < 2 * 1"
      by (rule majority_voters[of e1])
         (use True assms(2-5) fields(7) in \<open>auto simp: node_ok_def Suc_le_eq card_gt_0_iff\<close>)
    then have maj: "card N < 2 * card (voters c3 n t)" using v2 by (simp add: c3_def)
    have c5: "cl_inv N (cl_put n ?e2 (cl_send sent c3))"
    proof (rule inv_put[OF c4 assms(5)])
      show "node_ok N n ?e2" using fields(7) by (simp add: node_ok_def)
      show "remembers ?e2 s y" if "cl_votes (cl_send sent c3) n s = Some y" for s y
      proof -
        have "cl_votes c2 n s = Some y" using that unfolding sent by (simp add: c3_def)
        from mem2[OF this] show ?thesis by (simp add: remembers_def)
      qed
    qed (use maj in \<open>simp_all add: sent fields sv\<close>, simp add: c3_def sv)
    have "cl_inv N (cl_send (el_send_heartbeats ?e2) (cl_put n ?e2 (cl_send sent c3)))"
      by (rule cl_send_beats[OF c5]) (simp add: cl_put_def fields)
    moreover have "cl_send acts (cl_put n e (cl_vote n (el_term e) n c))
        = cl_send (el_send_heartbeats ?e2) (cl_put n ?e2 (cl_send sent c3))"
      unfolding e cl_send_append cl_send_silent put1 fields(1)
      by (cases c) (simp add: cl_send_def cl_put_def cl_vote_def fields)
    ultimately show ?thesis by simp
  qed
qed

lemma el_restarted_fields:
  "el_id (el_restarted e) = el_id e" "el_peers (el_restarted e) = el_peers e"
  "el_cluster_size (el_restarted e) = el_cluster_size e" "el_role (el_restarted e) = Follower"
  "el_term (el_restarted e) = fst (el_saved e)" "el_voted_for (el_restarted e) = snd (el_saved e)"
  "el_saved (el_restarted e) = el_saved e"
  by (simp_all add: el_restarted_def el_start_def el_load_def el_saved_def Let_def split: option.split)

lemma step_restart:
  assumes "cl_inv N c" "n \<in> N"
  shows "cl_inv N (c\<lparr>cl_node := (cl_node c)(n := el_restarted (cl_node c n))\<rparr>)"
proof (rule inv_node[OF assms])
  show "node_ok N n (el_restarted (cl_node c n))"
    using cl_inv_node[OF assms] by (simp add: node_ok_def el_restarted_fields)
  show "remembers (el_restarted (cl_node c n)) t x" if "cl_votes c n t = Some x" for t x
    using cl_inv_votes[OF assms(1) that] by (auto simp: remembers_def el_restarted_fields prod_eq_iff)
qed (simp_all add: el_restarted_fields)

lemma el_turn_timeout:
  "el_turn out lsn [] e
     = (if el_role e = Leader then (e, el_send_heartbeats e) else el_start_election out lsn e)"
  by (simp add: el_turn_def)

lemma cl_step_inv:
  assumes "cl_step N c c'" "cl_inv N c" "finite N" "odd (card N)" "card N < 2 ^ 32 - 1" "'''' \<notin> N"
    "\<And>x. x \<in> N \<Longrightarrow> length x < 2 ^ 16"
  shows "cl_inv N c'"
  using assms(1)
proof cases
  case (timeout n lsn e acts)
  then show ?thesis
    using step_timeout[OF assms(2-5) timeout(2) assms(7)[OF timeout(2)] timeout(4)]
    by (simp add: el_turn_timeout)
next
  case (send_beats n lsn e acts)
  let ?e = "cl_node c n"
  have run: "e = ?e" "acts = el_send_heartbeats ?e"
    using send_beats(3,4) by (auto simp: el_turn_timeout)
  have ok: "node_ok N n ?e" using cl_inv_node[OF assms(2) send_beats(2)] .
  have "cl_inv N (cl_put n ?e c)"
  proof (rule inv_put[OF assms(2) send_beats(2) ok])
    show "remembers ?e t x" if "cl_votes c n t = Some x" for t x
      using cl_inv_votes[OF assms(2) that] by simp
    show "card N < 2 * card (voters c n (el_term ?e))" if "el_role ?e = Leader"
      using cl_inv_leaders[OF assms(2) cl_inv_leader[OF assms(2) send_beats(2) that]] by simp
  qed (use send_beats(3) in simp_all)
  then show ?thesis unfolding send_beats(1) run
    by (rule cl_send_beats) (use ok send_beats(3) in \<open>simp add: cl_put_def node_ok_def\<close>)
next
  case (beat n t l lsn e acts)
  then show ?thesis using step_beat[OF assms(2,3) beat(2,3) assms(6)] by (simp add: el_process_msg_def)
next
  case (req n x t lsn my_lsn e acts granted)
  show ?thesis unfolding req(1)
    by (rule step_req[OF assms(2,3,6,7) req(2) _ req(4)]) (use req(3) in \<open>simp_all add: el_process_msg_def\<close>)
next
  case (resp n v t g lsn e acts)
  then show ?thesis using step_resp[OF assms(2-5) resp(2)] by (simp add: el_process_msg_def)
next
  case (lose_req m)
  then show ?thesis using inv_lose_req[OF assms(2)] by simp
next
  case (lose_resp r)
  then show ?thesis using inv_lose_resp[OF assms(2)] by simp
next
  case (restart n)
  then show ?thesis using step_restart[OF assms(2)] by simp
qed

lemma cl_init_inv:
  assumes "cl_config ns"
  shows "cl_inv (set ns) (cl_init ns)"
proof -
  have "node_ok (set ns) n (cl_node (cl_init ns) n)" if "n \<in> set ns" for n
  proof -
    have "length ns \<noteq> 0" "length ns < 4294967296" using assms that by (auto simp: cl_config_def)
    then have "(word_of_nat (length ns) :: u32) \<noteq> 0"
      by (metis unat_0 unat_of_nat_u32)
    then show ?thesis using assms
      by (auto simp: cl_config_def node_ok_def cl_init_def el_start_def el_load_def el_new_def
          el_saved_def distinct_card filter_map comp_def distinct_map)
  qed
  then show ?thesis
    by (auto simp: cl_inv_def voters_def requests_def pending_def)
       (auto simp: cl_init_def el_start_def el_load_def el_new_def)
qed

lemma cl_reachable_inv:
  assumes "cl_config ns" "cl_reachable ns c"
  shows "cl_inv (set ns) c"
  using assms(2)
proof induction
  case cl_start
  then show ?case using cl_init_inv[OF assms(1)] .
next
  case (cl_next c c')
  have "card (set ns) = length ns" using assms(1) by (simp add: cl_config_def distinct_card)
  then show ?case using assms(1)
    by (intro cl_step_inv[OF cl_next(2,3)]) (auto simp: cl_config_def list_all_iff)
qed

section \<open>Properties\<close>

text \<open>
  C2: election safety. In a cluster of an odd number of nodes configured as followers, whatever
  timeouts, losses, delays, repeated heartbeats and restarts happen (each request and response
  delivered at most once, the state file written when the code writes it), no term ever has two
  leaders: two nodes that are leader of the same term are the same node, and so are two nodes
  that were leader of the same term at any two points of the run.
\<close>

theorem election_safety:
  assumes "cl_config ns" "cl_reachable ns c"
  shows "(\<forall>n \<in> set ns. \<forall>m \<in> set ns. el_role (cl_node c n) = Leader \<longrightarrow> el_role (cl_node c m) = Leader
            \<longrightarrow> el_term (cl_node c n) = el_term (cl_node c m) \<longrightarrow> n = m)
     \<and> (\<forall>t n m. (t, n) \<in> cl_leaders c \<longrightarrow> (t, m) \<in> cl_leaders c \<longrightarrow> n = m)"
proof -
  note inv = cl_reachable_inv[OF assms]
  have fin: "finite (set ns)" by simp
  show ?thesis using one_leader[OF inv fin] cl_inv_leader[OF inv] by metis
qed

text \<open>A run of three nodes in which \<open>a\<close> asks, \<open>b\<close> grants, and \<open>a\<close> becomes leader.\<close>

lemma majority_3: "(4 :: u32) div 2 = 2" "\<not> (2 :: u32) \<le> 1"
  by (simp_all add: word_unat_eq_iff unat_div word_le_nat_alt)

lemmas el_run_simps = el_turn_def el_start_election_def el_broadcast_vote_req_def el_majority_def
  el_become_leader_def el_send_heartbeats_def el_process_msg_def el_handle_vote_req_def
  el_handle_vote_resp_def el_start_def el_load_def el_new_def Let_def majority_3
  cl_send_def cl_put_def cl_vote_def cl_init_def

lemma sample_election:
  "\<exists>c. cl_reachable [''a'', ''b'', ''c''] c \<and> el_role (cl_node c ''a'') = Leader
     \<and> (1, ''a'') \<in> cl_leaders c"
proof -
  let ?ns = "[''a'', ''b'', ''c'']"
  let ?N = "set ?ns"
  define c0 where "c0 = cl_init ?ns"
  have r0: "cl_reachable ?ns c0" unfolding c0_def by (rule cl_start)
  obtain e1 a1 where t1: "el_turn IoDone 0 [] (cl_node c0 ''a'') = (e1, a1)" by fastforce
  define c1 where "c1 = cl_send a1 (cl_put ''a'' e1 (cl_vote ''a'' (el_term e1) ''a'' c0))"
  have f1: "el_term e1 = 1" "el_role e1 = Candidate" "el_votes e1 = 1" "el_majority e1 = 2"
      "a1 = [SendVoteReq ''b'' 1 ''a'' 0, SendVoteReq ''c'' 1 ''a'' 0]"
    using t1 by (auto simp: c0_def el_run_simps)
  have "cl_step ?N c0 c1" unfolding c1_def
    by (rule cl_step.timeout[OF _ _ _ t1]) (simp_all add: c0_def el_run_simps)
  then have r1: "cl_reachable ?ns c1" using r0 cl_next by blast
  have n1: "cl_node c1 ''a'' = e1" "cl_node c1 ''b'' = cl_node c0 ''b''"
    "(''b'', ''a'', 1, 0) \<in># cl_reqs c1"
    by (simp_all add: c1_def cl_send_def cl_put_def cl_vote_def f1)
  obtain e2 a2 where t2: "el_process_msg IoDone 0 (VoteReq 1 ''a'' 0) (cl_node c1 ''b'') = (e2, a2)"
    by fastforce
  have f2: "el_term e2 = 1" "Respond True \<in> set a2"
    using t2 unfolding n1(2) by (auto simp: c0_def el_run_simps)
  define c2 where "c2 = (cl_vote ''b'' 1 ''a'' (cl_put ''b'' e2 c1))
     \<lparr>cl_reqs := cl_reqs c1 - {#(''b'', ''a'', 1, 0)#},
      cl_resps := cl_resps c1 + {#(''a'', ''b'', el_term e2, True)#}\<rparr>"
  have "cl_step ?N c1 c2"
    using cl_step.req[OF n1(3) t2 refl, of ?N] f2(2) by (simp add: c2_def)
  then have r2: "cl_reachable ?ns c2" using r1 cl_next by blast
  have n2: "cl_node c2 ''a'' = e1" "(''a'', ''b'', 1, True) \<in># cl_resps c2"
    using n1(1) by (simp_all add: c2_def cl_vote_def cl_put_def f2(1))
  obtain e3 a3 where t3: "el_process_msg IoDone 0 (VoteResp 1 True) (cl_node c2 ''a'') = (e3, a3)"
    by fastforce
  have f3: "el_role e3 = Leader" "el_term e3 = 1"
  proof -
    have "el_majority (e1\<lparr>el_votes := 2\<rparr>) = 2" using f1(4) by (simp add: el_majority_def)
    then show "el_role e3 = Leader" "el_term e3 = 1"
      using t3 f1(1-3) unfolding n2(1)
      by (auto simp: el_process_msg_def el_handle_vote_resp_def el_become_leader_def Let_def)
  qed
  have "cl_step ?N c2 (cl_send a3 (cl_put ''a'' e3 (c2\<lparr>cl_resps := cl_resps c2 - {#(''a'', ''b'', 1, True)#}\<rparr>)))"
    by (rule cl_step.resp[OF n2(2) t3])
  then have "cl_reachable ?ns
      (cl_send a3 (cl_put ''a'' e3 (c2\<lparr>cl_resps := cl_resps c2 - {#(''a'', ''b'', 1, True)#}\<rparr>)))"
    using r2 cl_next by blast
  moreover have "cl_node (cl_send a3 (cl_put ''a'' e3 c)) ''a'' = e3"
    "(1, ''a'') \<in> cl_leaders (cl_send a3 (cl_put ''a'' e3 c))" for c
    using f3 by (simp_all add: cl_send_def cl_put_def)
  ultimately show ?thesis using f3(1) by metis
qed

theorem election_safety_witness:
  "\<exists>c. cl_config [''a'', ''b'', ''c''] \<and> cl_reachable [''a'', ''b'', ''c''] c
     \<and> el_role (cl_node c ''a'') = Leader \<and> (\<forall>m. (1, m) \<in> cl_leaders c \<longrightarrow> m = ''a'')"
proof -
  obtain c where c: "cl_reachable [''a'', ''b'', ''c''] c" "el_role (cl_node c ''a'') = Leader"
    "(1, ''a'') \<in> cl_leaders c" using sample_election by blast
  have config: "cl_config [''a'', ''b'', ''c'']" by (simp add: cl_config_def)
  show ?thesis using election_safety[OF config c(1)] config c by blast
qed

text \<open>Grants of the candidate's term are counted one by one.\<close>

lemma grants_run:
  assumes "el_role e = Candidate" "unat (el_votes e) + k < unat (el_majority e)"
  shows "fst (el_process_all out lsn (replicate k (VoteResp (el_term e) True)) e)
           = e\<lparr>el_votes := el_votes e + word_of_nat k\<rparr>"
  using assms
proof (induction k arbitrary: e)
  case (Suc k)
  let ?e = "e\<lparr>el_votes := el_votes e + 1\<rparr>"
  have inc: "unat (el_votes e + 1) = unat (el_votes e) + 1"
    using Suc.prems(2) unsigned_less[of "el_majority e", where ?'a = nat]
    by (simp add: unat_word_ariths)
  have maj: "el_majority ?e = el_majority e" by (simp add: el_majority_def)
  have "el_process_msg out lsn (VoteResp (el_term e) True) e = (?e, [])"
    using Suc.prems inc
    by (simp add: el_process_msg_def el_handle_vote_resp_def Let_def maj word_less_nat_alt)
  moreover have "fst (el_process_all out lsn (replicate k (VoteResp (el_term ?e) True)) ?e)
      = ?e\<lparr>el_votes := el_votes ?e + word_of_nat k\<rparr>"
    by (rule Suc.IH) (use Suc.prems inc maj in simp_all)
  ultimately show ?case by (simp add: case_prod_unfold add.assoc)
qed simp

lemma leader_ignores_grants:
  "el_role e = Leader
     \<Longrightarrow> fst (el_process_all out lsn (replicate k (VoteResp (el_term e) True)) e) = e"
  by (induction k) (simp_all add: el_process_msg_def el_handle_vote_resp_def case_prod_unfold)

lemma grants_append:
  "fst (el_process_all out lsn (ms @ ks) e)
     = fst (el_process_all out lsn ks (fst (el_process_all out lsn ms e)))"
  by (induction ms arbitrary: e) (simp_all add: case_prod_unfold)

text \<open>
  C20: a candidate wins exactly with a majority. A node that has just started an election in a
  cluster of \<open>n\<close> nodes and then processes \<open>k\<close> granted responses of its term is leader if
  and only if its own vote and the grants reach half of the cluster, rounded up; until then it
  stays candidate of that term.
\<close>

theorem candidate_elected_iff_majority:
  assumes "el_cluster_size e = word_of_nat n" "0 < n" "n < 2 ^ 32 - 1"
    "el_start_election out lsn e = (e1, acts)"
  shows "el_role (fst (el_process_all out lsn (replicate k (VoteResp (el_term e1) True)) e1))
           = (if (n + 1) div 2 \<le> 1 + k then Leader else Candidate)"
proof -
  let ?run = "\<lambda>k e. fst (el_process_all out lsn (replicate k (VoteResp (el_term e1) True)) e)"
  define e0 where "e0 = el_persist out (el_term e + 1) (el_id e)
    (e\<lparr>el_term := el_term e + 1, el_voted_for := el_id e, el_votes := 1, el_role := Candidate\<rparr>)"
  have maj: "unat (el_majority e0) = (n + 1) div 2"
    using assms(1,3) by (simp add: el_majority_def e0_def unat_div unat_word_ariths unat_of_nat)
  have run: "(e1, acts) = (if el_majority e0 \<le> 1
      then (fst (el_become_leader e0), el_broadcast_vote_req lsn e0 @ snd (el_become_leader e0))
      else (e0, el_broadcast_vote_req lsn e0))"
    unfolding assms(4)[symmetric] e0_def by (simp add: el_start_election_def Let_def case_prod_unfold)
  show ?thesis
  proof (cases "el_majority e0 \<le> 1")
    case True
    then have "el_role e1 = Leader" using run by (simp add: el_become_leader_def Let_def)
    moreover have "(n + 1) div 2 \<le> 1" using True maj by (simp add: word_le_nat_alt)
    ultimately show ?thesis using leader_ignores_grants by simp
  next
    case False
    then have e1: "e1 = e0" using run by simp
    have gt: "1 < (n + 1) div 2" using False maj by (simp add: word_le_nat_alt)
    have cand: "el_role e0 = Candidate" "el_votes e0 = 1" by (simp_all add: e0_def)
    show ?thesis
    proof (cases "1 + k < (n + 1) div 2")
      case True
      then show ?thesis using grants_run[OF cand(1), of k out lsn] cand maj by (simp add: e1)
    next
      case ge: False
      define j where "j = (n + 1) div 2 - 2"
      obtain r where k: "k = j + Suc r" using ge gt by (metis j_def add_Suc_right le_Suc_ex
            Suc_diff_Suc diff_Suc_1 less_imp_Suc_add not_less_eq add_diff_inverse_nat nat_less_le
            le_diff_conv Suc_1 plus_1_eq_Suc not_less)
      define e2 where "e2 = e0\<lparr>el_votes := 1 + word_of_nat j\<rparr>"
      have 2: "?run j e0 = e2"
        using grants_run[OF cand(1), of j out lsn] cand maj gt by (simp add: e1 e2_def j_def)
      have votes: "unat (1 + word_of_nat j + 1 :: u32) = (n + 1) div 2"
        using gt assms(3) by (simp add: j_def unat_word_ariths unat_of_nat)
      have "el_role (fst (el_process_msg out lsn (VoteResp (el_term e1) True) e2)) = Leader
          \<and> el_term (fst (el_process_msg out lsn (VoteResp (el_term e1) True) e2)) = el_term e1"
        using votes maj cand
        by (simp add: el_process_msg_def el_handle_vote_resp_def e2_def e1 Let_def el_majority_def
            el_become_leader_def word_less_nat_alt)
      then have "el_role (?run (Suc r) e2) = Leader"
        using leader_ignores_grants[of "fst (el_process_msg out lsn (VoteResp (el_term e1) True) e2)"]
        by (simp add: case_prod_unfold)
      then have "el_role (?run k e0) = Leader"
        unfolding k replicate_add grants_append 2 .
      then have "el_role (?run k e1) = Leader" unfolding e1 .
      then show ?thesis using ge by simp
    qed
  qed
qed

theorem candidate_elected_iff_majority_witness:
  "\<exists>e1 acts. el_start_election IoDone 0 (el_new ''a'' [(''a'', ''a''), (''b'', ''b''), (''c'', ''c'')] None)
       = (e1, acts)
     \<and> el_role (fst (el_process_all IoDone 0 (replicate 0 (VoteResp (el_term e1) True)) e1)) = Candidate
     \<and> el_role (fst (el_process_all IoDone 0 (replicate 1 (VoteResp (el_term e1) True)) e1)) = Leader"
proof -
  let ?e = "el_new ''a'' [(''a'', ''a''), (''b'', ''b''), (''c'', ''c'')] None"
  obtain e1 acts where run: "el_start_election IoDone 0 ?e = (e1, acts)" by fastforce
  have size: "el_cluster_size ?e = word_of_nat 3" by (simp add: el_new_def)
  show ?thesis
    using candidate_elected_iff_majority[OF size _ _ run, of 0]
      candidate_elected_iff_majority[OF size _ _ run, of 1] run by simp
qed

text \<open>
  C21: a vote survives a restart. When a node grants a vote and its state file is written, a
  restart reads back the term and the candidate it voted for, and in that term the node then
  refuses every other candidate, whatever position the candidate's log is at.
\<close>

theorem vote_survives_restart:
  assumes "el_handle_vote_req IoDone my_lsn t x lsn e = (e1, acts)" "Respond True \<in> set acts"
    "x \<noteq> ''''" "length x < 2 ^ 16" "y \<noteq> x"
  shows "el_term (el_restarted e1) = t \<and> el_voted_for (el_restarted e1) = x
    \<and> Respond True \<notin> set (snd (el_handle_vote_req IoDone lsn1 t y lsn2 (el_restarted e1)))"
proof -
  define e0 where "e0 = (if t > el_term e
    then e\<lparr>el_term := t, el_voted_for := '''', el_role := Follower\<rparr> else e)"
  have g: "t \<ge> el_term e0" "e1 = el_persist IoDone (el_term e0) x (e0\<lparr>el_voted_for := x\<rparr>)"
    using assms(1,2) by (auto simp: el_handle_vote_req_def Let_def e0_def split: if_splits)
  have "t \<le> el_term e0" by (auto simp: e0_def)
  then have "el_saved e1 = (t, x)" using g el_saved_persist[OF assms(4)] by simp
  then have "el_term (el_restarted e1) = t" "el_voted_for (el_restarted e1) = x"
    by (simp_all add: el_restarted_fields)
  then show ?thesis using assms(3,5) by (simp add: el_handle_vote_req_def Let_def)
qed

theorem vote_survives_restart_witness:
  "\<exists>e1 acts. el_handle_vote_req IoDone 0 1 ''b'' 0 (el_new ''a'' [(''a'', ''a''), (''b'', ''b'')] None)
       = (e1, acts)
     \<and> el_term (el_restarted e1) = 1 \<and> el_voted_for (el_restarted e1) = ''b''
     \<and> Respond True \<notin> set (snd (el_handle_vote_req IoDone 0 1 ''c'' 9 (el_restarted e1)))"
proof -
  let ?e = "el_new ''a'' [(''a'', ''a''), (''b'', ''b'')] None"
  obtain e1 acts where run: "el_handle_vote_req IoDone 0 1 ''b'' 0 ?e = (e1, acts)" by fastforce
  moreover have "Respond True \<in> set acts"
    using run by (auto simp: el_handle_vote_req_def el_new_def Let_def)
  ultimately show ?thesis using vote_survives_restart[OF run, of "''c''" 0 9] by auto
qed

section \<open>Where safety ends\<close>

text \<open>With an even number of nodes half of them count as a majority: two nodes lead term 1.\<close>

lemma even_cluster_two_leaders:
  "\<exists>c. cl_reachable [''a'', ''b''] c \<and> el_role (cl_node c ''a'') = Leader
     \<and> el_role (cl_node c ''b'') = Leader \<and> el_term (cl_node c ''a'') = el_term (cl_node c ''b'')"
proof -
  let ?ns = "[''a'', ''b'']"
  define c0 where "c0 = cl_init ?ns"
  have r0: "cl_reachable ?ns c0" unfolding c0_def by (rule cl_start)
  have maj: "(3 :: u32) div 2 = 1" by (simp add: word_unat_eq_iff unat_div)
  obtain e1 a1 where t1: "el_turn IoDone 0 [] (cl_node c0 ''a'') = (e1, a1)" by fastforce
  define c1 where "c1 = cl_send a1 (cl_put ''a'' e1 (cl_vote ''a'' (el_term e1) ''a'' c0))"
  have f1: "el_term e1 = 1" "el_role e1 = Leader"
    using t1 by (auto simp: c0_def el_run_simps maj)
  have "cl_step (set ?ns) c0 c1" unfolding c1_def
    by (rule cl_step.timeout[OF _ _ _ t1]) (simp_all add: c0_def el_run_simps)
  then have r1: "cl_reachable ?ns c1" using r0 cl_next by blast
  have n1: "cl_node c1 ''a'' = e1" "cl_node c1 ''b'' = cl_node c0 ''b''"
    by (simp_all add: c1_def cl_send_def cl_put_def cl_vote_def)
  obtain e2 a2 where t2: "el_turn IoDone 0 [] (cl_node c1 ''b'') = (e2, a2)" by fastforce
  define c2 where "c2 = cl_send a2 (cl_put ''b'' e2 (cl_vote ''b'' (el_term e2) ''b'' c1))"
  have f2: "el_term e2 = 1" "el_role e2 = Leader"
    using t2 unfolding n1(2) by (auto simp: c0_def el_run_simps maj)
  have "cl_step (set ?ns) c1 c2" unfolding c2_def
    by (rule cl_step.timeout[OF _ _ _ t2]) (simp_all add: n1(2), simp_all add: c0_def el_run_simps)
  then have "cl_reachable ?ns c2" using r1 cl_next by blast
  moreover have "cl_node c2 ''a'' = e1" "cl_node c2 ''b'' = e2"
    using n1(1) by (simp_all add: c2_def cl_send_def cl_put_def cl_vote_def)
  ultimately show ?thesis using f1 f2 by auto
qed

text \<open>
  A node configured as leader starts as leader of whatever term its state file holds, without an
  election: also of a term in which it voted for another node.
\<close>

lemma configured_leader_claims_term:
  assumes "el_saved e = (t, ''b'')" "0 < t" "el_term e = 0" "el_voted_for e = ''''"
  shows "el_role (el_start True e) = Leader \<and> el_term (el_start True e) = t
    \<and> el_voted_for (el_start True e) = ''b''"
proof -
  have "e\<lparr>el_term := 0, el_voted_for := ''''\<rparr> = e" using assms(3,4) by (cases e) simp
  then have "el_term (el_load e) = t" "el_voted_for (el_load e) = ''b''"
    using assms(1) by (simp_all add: el_saved_def Let_def)
  then show ?thesis using assms(2) by (simp add: el_start_def Let_def)
qed

end
