(* ===== verification/Selection_Vector.thy ===== *)
theory Selection_Vector
  imports Nyx_Prelude
begin

text \<open>
  The selection vectors of \<^verbatim>\<open>src/src/executor/selection_vector.h\<close> and
  \<^verbatim>\<open>selection_vector.cpp\<close>: the rows of a chunk that are still selected, kept as
  a list of row numbers, as a bit map or as runs, whichever \<open>Builder::finalize\<close> picks. A failed
  \<open>assert\<close> is \<open>None\<close>. The abstraction of a selection vector is the list of rows
  \<open>for_each\<close> visits, and the lemmas show that every operation acts on that list alone,
  whatever the representation.
\<close>

section \<open>Representations\<close>

datatype repr = DENSE | BITMAP | RANGES

record selection_vector =
  sv_repr :: repr
  sv_row_count :: u32
  sv_size :: nat
  sv_dense :: "u32 list"
  sv_bitmap :: "u8 list"
  sv_ranges :: "(u32 \<times> u32) list"

definition sv_default :: selection_vector where
  "sv_default = \<lparr> sv_repr = DENSE, sv_row_count = 0, sv_size = 0, sv_dense = [], sv_bitmap = [],
     sv_ranges = [] \<rparr>"

record sv_builder =
  sb_indices :: "u32 list"
  sb_run_count :: u32
  sb_last :: u32

definition sb_new :: sv_builder where
  "sb_new = \<lparr> sb_indices = [], sb_run_count = 0, sb_last = - 1 \<rparr>"

definition sb_append :: "u32 \<Rightarrow> sv_builder \<Rightarrow> sv_builder" where
  "sb_append idx b =
     (let b = (if sb_indices b = [] \<or> idx \<noteq> sb_last b + 1
               then b\<lparr>sb_run_count := sb_run_count b + 1\<rparr> else b)
      in b\<lparr>sb_indices := sb_indices b @ [idx], sb_last := idx\<rparr>)"

definition indices_to_bitmap :: "u32 list \<Rightarrow> u32 \<Rightarrow> u8 list" where
  "indices_to_bitmap indices row_count =
     fold (\<lambda>idx bm. bm_set bm (unat idx)) indices (replicate (unat ((row_count + 7) div 8)) 0)"

fun ranges_loop :: "u32 \<Rightarrow> u32 \<Rightarrow> u32 \<Rightarrow> u32 list \<Rightarrow> (u32 \<times> u32) list" where
  "ranges_loop start len prev [] = [(start, len)]"
| "ranges_loop start len prev (x # xs) =
     (if x = prev + 1 then ranges_loop start (len + 1) x xs
      else (start, len) # ranges_loop x 1 x xs)"

fun indices_to_ranges :: "u32 list \<Rightarrow> (u32 \<times> u32) list" where
  "indices_to_ranges [] = []"
| "indices_to_ranges (x # xs) = ranges_loop x 1 x xs"

text \<open>
  The thresholds of \<open>finalize\<close> are tested in double precision. Both operands are integers
  below \<open>2 ^ 32\<close>, so a quotient that differs from \<open>9 / 10\<close> (or from 32) differs by more than
  \<open>2 ^ -36\<close> and the rounded comparison agrees with the exact one; a \<open>row_count\<close> of 0 gives
  infinity, which is above the threshold.
\<close>

definition sb_finalize :: "u32 \<Rightarrow> bool \<Rightarrow> sv_builder \<Rightarrow> selection_vector" where
  "sb_finalize row_count order_matters b =
     (let idxs = sb_indices b;
          sv = sv_default\<lparr>sv_row_count := row_count, sv_size := length idxs\<rparr>;
          dense = sv\<lparr>sv_repr := DENSE, sv_dense := idxs\<rparr>
      in if order_matters \<or> length idxs = 0 then dense
         else if 10 * length idxs > 9 * unat row_count
         then sv\<lparr>sv_repr := BITMAP, sv_bitmap := indices_to_bitmap idxs row_count\<rparr>
         else if length idxs > 32 * unat (max 1 (sb_run_count b)) \<and>
                 length (indices_to_ranges idxs) * 8 < length idxs * 4
         then sv\<lparr>sv_repr := RANGES, sv_ranges := indices_to_ranges idxs\<rparr>
         else dense)"

definition sv_from_dense :: "u32 list \<Rightarrow> u32 \<Rightarrow> selection_vector" where
  "sv_from_dense indices row_count =
     sv_default\<lparr>sv_repr := DENSE, sv_row_count := row_count, sv_size := length indices,
                sv_dense := indices\<rparr>"

definition sv_from_bitmap :: "u8 list \<Rightarrow> u32 \<Rightarrow> nat \<Rightarrow> selection_vector" where
  "sv_from_bitmap bitmap row_count sz =
     sv_default\<lparr>sv_repr := BITMAP, sv_row_count := row_count, sv_size := sz,
                sv_bitmap := bitmap\<rparr>"

definition sv_from_ranges :: "(u32 \<times> u32) list \<Rightarrow> u32 \<Rightarrow> selection_vector" where
  "sv_from_ranges ranges row_count =
     sv_default\<lparr>sv_repr := RANGES, sv_row_count := row_count,
                sv_size := fold (\<lambda>(_, len) total. total + unat len) ranges 0,
                sv_ranges := ranges\<rparr>"

section \<open>Visiting the rows\<close>

text \<open>\<open>__builtin_ctz\<close> and \<open>__builtin_popcount\<close> of a byte.\<close>

definition ctz :: "u8 \<Rightarrow> nat" where
  "ctz b = length (takeWhile (\<lambda>i. \<not> bit b i) [0..<8])"

definition popcount :: "u8 \<Rightarrow> nat" where
  "popcount b = length (filter (bit b) [0..<8])"

lemma clear_lowest_less:
  assumes "b \<noteq> (0 :: u8)"
  shows "unat (b AND (b - 1)) < unat b"
proof -
  have "b AND (b - 1) \<le> b - 1" by (rule word_and_le1)
  then have "unat (b AND (b - 1)) \<le> unat (b - 1)" by (simp add: word_le_nat_alt)
  also have "unat (b - 1) < unat b" using assms by (simp add: measure_unat)
  finally show ?thesis .
qed

text \<open>The loop \<open>while (b) { ... b &= b - 1; }\<close> over the set bits of a byte.\<close>

function bits_loop :: "u32 \<Rightarrow> u8 \<Rightarrow> u32 list" where
  "bits_loop byte_idx b =
     (if b = 0 then [] else (byte_idx * 8 + word_of_nat (ctz b)) # bits_loop byte_idx (b AND (b - 1)))"
  by pat_completeness auto
termination
  by (relation "measure (\<lambda>(_, b). unat b)") (simp_all add: clear_lowest_less)

declare bits_loop.simps [simp del]

fun bitmap_loop :: "u32 \<Rightarrow> u8 list \<Rightarrow> u32 list" where
  "bitmap_loop byte_idx [] = []"
| "bitmap_loop byte_idx (b # bs) = bits_loop byte_idx b @ bitmap_loop (byte_idx + 1) bs"

definition range_rows :: "u32 \<times> u32 \<Rightarrow> u32 list" where
  "range_rows r = (case r of (start, len) \<Rightarrow> map (\<lambda>i. start + word_of_nat i) [0..<unat len])"

definition sv_for_each :: "selection_vector \<Rightarrow> u32 list" where
  "sv_for_each sv = (case sv_repr sv of
       DENSE \<Rightarrow> sv_dense sv
     | BITMAP \<Rightarrow> bitmap_loop 0 (sv_bitmap sv)
     | RANGES \<Rightarrow> concat (map range_rows (sv_ranges sv)))"

section \<open>Operations\<close>

fun ranges_at :: "nat \<Rightarrow> nat \<Rightarrow> (u32 \<times> u32) list \<Rightarrow> u32 option" where
  "ranges_at k cumulative [] = None"
| "ranges_at k cumulative ((start, len) # rs) =
     (if k < cumulative + unat len then Some (start + word_of_nat (k - cumulative))
      else ranges_at k (cumulative + unat len) rs)"

definition sv_at :: "nat \<Rightarrow> selection_vector \<Rightarrow> u32 option" where
  "sv_at k sv =
     (if \<not> k < sv_size sv then None
      else case sv_repr sv of
             DENSE \<Rightarrow> Some (sv_dense sv ! k)
           | RANGES \<Rightarrow> ranges_at k 0 (sv_ranges sv)
           | BITMAP \<Rightarrow> None)"

function keep_loop :: "nat \<Rightarrow> nat \<Rightarrow> u8 \<Rightarrow> u8 \<Rightarrow> u8" where
  "keep_loop need taken kept_bits cur =
     (if cur \<noteq> 0 \<and> taken < need
      then keep_loop need (taken + 1) (kept_bits OR push_bit (ctz cur) 1) (cur AND (cur - 1))
      else kept_bits)"
  by pat_completeness auto
termination
  by (relation "measure (\<lambda>(_, _, _, cur). unat cur)") (simp_all add: clear_lowest_less)

declare keep_loop.simps [simp del]

fun bitmap_truncate :: "nat \<Rightarrow> nat \<Rightarrow> u8 list \<Rightarrow> u8 list" where
  "bitmap_truncate k kept [] = []"
| "bitmap_truncate k kept (b # bs) =
     (if kept + popcount b \<le> k then b # bitmap_truncate k (kept + popcount b) bs
      else keep_loop (k - kept) 0 0 b # replicate (length bs) 0)"

fun ranges_truncate :: "nat \<Rightarrow> nat \<Rightarrow> (u32 \<times> u32) list \<Rightarrow> (u32 \<times> u32) list" where
  "ranges_truncate k cumulative [] = []"
| "ranges_truncate k cumulative ((start, len) # rs) =
     (if cumulative + unat len \<le> k then (start, len) # ranges_truncate k (cumulative + unat len) rs
      else [(start, word_of_nat (k - cumulative))])"

text \<open>\<open>std::vector::resize\<close> to a smaller size is \<^const>\<open>take\<close>.\<close>

definition sv_truncate :: "nat \<Rightarrow> selection_vector \<Rightarrow> selection_vector" where
  "sv_truncate k sv =
     (if k \<ge> sv_size sv then sv
      else (case sv_repr sv of
              DENSE \<Rightarrow> sv\<lparr>sv_dense := take k (sv_dense sv)\<rparr>
            | BITMAP \<Rightarrow> sv\<lparr>sv_bitmap := bitmap_truncate k 0 (sv_bitmap sv)\<rparr>
            | RANGES \<Rightarrow> sv\<lparr>sv_ranges := ranges_truncate k 0 (sv_ranges sv)\<rparr>)\<lparr>sv_size := k\<rparr>)"

fun ranges_drop :: "nat \<Rightarrow> (u32 \<times> u32) list \<Rightarrow> (u32 \<times> u32) list" where
  "ranges_drop to_skip [] = []"
| "ranges_drop to_skip ((start, len) # rs) =
     (if unat len \<le> to_skip then ranges_drop (to_skip - unat len) rs
      else (start + word_of_nat to_skip, len - word_of_nat to_skip) # rs)"

definition bitmap_drop :: "nat \<Rightarrow> u8 list \<Rightarrow> u32 list" where
  "bitmap_drop n bitmap =
     snd (fold (\<lambda>row (seen, new_dense).
            (seen + 1, if seen \<ge> n then new_dense @ [row] else new_dense))
          (bitmap_loop 0 bitmap) (0, []))"

definition sv_drop_prefix :: "nat \<Rightarrow> selection_vector \<Rightarrow> selection_vector option" where
  "sv_drop_prefix n sv =
     (if n = 0 then Some sv
      else if \<not> n \<le> sv_size sv then None
      else Some ((case sv_repr sv of
              DENSE \<Rightarrow> sv\<lparr>sv_dense := drop n (sv_dense sv)\<rparr>
            | BITMAP \<Rightarrow> sv\<lparr>sv_dense := bitmap_drop n (sv_bitmap sv), sv_bitmap := [],
                           sv_repr := DENSE\<rparr>
            | RANGES \<Rightarrow> sv\<lparr>sv_ranges := ranges_drop n (sv_ranges sv)\<rparr>)
          \<lparr>sv_size := sv_size sv - n\<rparr>))"

definition sv_to_dense :: "selection_vector \<Rightarrow> selection_vector" where
  "sv_to_dense sv =
     (if sv_repr sv = DENSE then sv else sv_from_dense (sv_for_each sv) (sv_row_count sv))"

section \<open>Bits of a byte\<close>

lemma u8_cases:
  assumes "list_all P (map word_of_int [0..255])"
  shows "P (b :: u8)"
proof -
  have "uint b < 256" "0 \<le> uint b" using uint_lt2p[of b] by simp_all
  then have "uint b \<in> set [0..255]" by simp
  then have "P (word_of_int (uint b))" using assms by (simp only: list_all_iff set_map) blast
  then show ?thesis by simp
qed

definition bit_list :: "u8 \<Rightarrow> nat list" where
  "bit_list b = filter (bit b) [0..<8]"

lemma bit_list_step: "b \<noteq> 0 \<Longrightarrow> bit_list b = ctz b # bit_list (b AND (b - 1))"
proof -
  have "list_all (\<lambda>b. b \<noteq> 0 \<longrightarrow> bit_list b = ctz b # bit_list (b AND (b - 1)))
          (map word_of_int [0..255])"
    by code_simp
  from u8_cases[OF this] show "b \<noteq> 0 \<Longrightarrow> bit_list b = ctz b # bit_list (b AND (b - 1))" by blast
qed

lemma bit_list_0 [simp]: "bit_list 0 = []"
  by (simp add: bit_list_def)

lemma length_bit_list: "length (bit_list b) = popcount b"
  by (simp add: bit_list_def popcount_def)

lemma bits_loop_eq: "bits_loop i b = map (\<lambda>k. i * 8 + word_of_nat k) (bit_list b)"
proof (induction i b rule: bits_loop.induct)
  case (1 i b)
  then show ?case
    by (cases "b = 0") (simp_all add: bits_loop.simps[of i] bit_list_step del: bits_loop.simps)
qed

lemma bit_list_eqI:
  assumes "sorted ks" and "distinct ks" and "\<And>k. k \<in> set ks \<longleftrightarrow> k < 8 \<and> bit b k"
  shows "bit_list b = ks"
proof (rule sorted_distinct_set_unique)
  show "sorted (bit_list b)" "distinct (bit_list b)"
    by (simp_all add: bit_list_def sorted_wrt_filter)
  show "set (bit_list b) = set ks" using assms(3) by (auto simp: bit_list_def)
qed (use assms in simp_all)

lemma bit_keep_loop:
  "bit (keep_loop need taken kept_bits cur) k \<longleftrightarrow>
     bit kept_bits k \<or> k \<in> set (take (need - taken) (bit_list cur))"
proof (induction need taken kept_bits cur rule: keep_loop.induct)
  case (1 need taken kept_bits cur)
  show ?case
  proof (cases "cur \<noteq> 0 \<and> taken < need")
    case True
    then have need: "need - taken = Suc (need - Suc taken)" by linarith
    have "ctz cur \<in> set (bit_list cur)" using True bit_list_step[of cur] by simp
    then have "ctz cur < 8" by (simp add: bit_list_def)
    then show ?thesis using True 1
      by (simp add: keep_loop.simps[of need taken] bit_list_step[of cur] need bit_simps) blast
  next
    case False
    then show ?thesis by (auto simp: keep_loop.simps[of need taken])
  qed
qed

lemma bit_list_keep: "bit_list (keep_loop need 0 0 b) = take need (bit_list b)"
proof (rule bit_list_eqI)
  show "sorted (take need (bit_list b))" "distinct (take need (bit_list b))"
    by (simp_all add: bit_list_def sorted_wrt_take sorted_wrt_filter)
  show "k \<in> set (take need (bit_list b)) \<longleftrightarrow> k < 8 \<and> bit (keep_loop need 0 0 b) k" for k
    by (auto simp: bit_keep_loop bit_list_def dest: in_set_takeD)
qed

section \<open>Bit maps\<close>

lemma bitmap_loop_zeros [simp]: "bitmap_loop i (replicate n 0) = []"
  by (induction n arbitrary: i) (simp_all add: bits_loop_eq)

lemma bitmap_truncate_loop:
  "kept \<le> k \<Longrightarrow> bitmap_loop i (bitmap_truncate k kept bs) = take (k - kept) (bitmap_loop i bs)"
proof (induction bs arbitrary: i kept)
  case (Cons b bs)
  have len: "length (bits_loop i b) = popcount b"
    by (simp add: bits_loop_eq length_bit_list)
  show ?case
  proof (cases "kept + popcount b \<le> k")
    case True
    then show ?thesis using Cons.IH[of "kept + popcount b"] len by (simp add: take_all)
  next
    case False
    then show ?thesis using Cons.prems len
      by (simp add: bits_loop_eq bit_list_keep take_map)
  qed
qed simp

lemma length_bitmap_truncate [simp]: "length (bitmap_truncate k kept bs) = length bs"
  by (induction bs arbitrary: kept) auto

lemma bitmap_drop_eq: "bitmap_drop n bm = drop n (bitmap_loop 0 bm)"
proof -
  have "fold (\<lambda>row (seen, out). (seen + 1, if n \<le> seen then out @ [row] else out)) xs (s, acc)
          = (s + length xs, acc @ drop (n - s) xs)" for xs :: "u32 list" and s acc
    by (induction xs arbitrary: s acc) (auto simp: drop_Cons')
  then show ?thesis by (simp add: bitmap_drop_def)
qed

lemma bit_list_shift:
  "filter (bm_get (b # bs)) [0..<8 + m] =
     bit_list b @ map (\<lambda>k. k + 8) (filter (bm_get bs) [0..<m])"
proof -
  have head: "filter (bm_get (b # bs)) [0..<8] = bit_list b"
    unfolding bit_list_def by (rule filter_cong) (simp_all add: bm_get_bit)
  have shift: "[8..<8 + m] = map (\<lambda>k. k + 8) [0..<m]"
    by (simp add: map_add_upt add.commute)
  have get: "bm_get (b # bs) (k + 8) = bm_get bs k" for k
    by (simp add: bm_get_bit div_add_self2)
  have "[0..<8 + m] = [0..<8] @ [8..<8 + m]"
    using upt_add_eq_append[of 0 8 m] by simp
  then show ?thesis
    by (simp only: filter_append head shift filter_map o_def get)
qed

lemma bitmap_loop_eq:
  "bitmap_loop i bs = map (\<lambda>k. i * 8 + word_of_nat k) (filter (bm_get bs) [0..<8 * length bs])"
proof (induction bs arbitrary: i)
  case (Cons b bs)
  have "8 * length (b # bs) = 8 + 8 * length bs" by simp
  then have "filter (bm_get (b # bs)) [0..<8 * length (b # bs)] =
      bit_list b @ map (\<lambda>k. k + 8) (filter (bm_get bs) [0..<8 * length bs])"
    by (simp only: bit_list_shift)
  then show ?case using Cons.IH[of "i + 1"]
    by (simp only: bitmap_loop.simps bits_loop_eq map_append map_map o_def)
       (simp add: algebra_simps)
qed simp

lemma bm_get_fold_set:
  assumes "\<forall>x\<in>set xs. unat x div 8 < length bm"
  shows "bm_get (fold (\<lambda>x bm. bm_set bm (unat x)) xs bm) k \<longleftrightarrow> k \<in> unat ` set xs \<or> bm_get bm k"
  using assms by (induction xs arbitrary: bm) (auto simp: bm_get_set)

lemma length_fold_set [simp]: "length (fold (\<lambda>x bm. bm_set bm (unat x)) xs bm) = length bm"
  by (induction xs arbitrary: bm) simp_all

lemma bitmap_of_indices:
  fixes xs :: "u32 list"
  assumes "sorted_wrt (<) xs" and "\<forall>x\<in>set xs. x < n" and "unat n \<le> 4294967288"
  shows "bitmap_loop 0 (indices_to_bitmap xs n) = xs"
proof -
  have bytes: "unat ((n + 7) div 8) = (unat n + 7) div 8"
    using assms(3) by (simp add: unat_div unat_word_ariths)
  let ?bm = "indices_to_bitmap xs n"
  let ?N = "8 * ((unat n + 7) div 8)"
  have inside: "unat x div 8 < (unat n + 7) div 8" if "x \<in> set xs" for x
    using that assms(2) by (auto intro!: bytes_for_bits simp: word_less_nat_alt)
  have len: "length ?bm = (unat n + 7) div 8"
    by (simp add: indices_to_bitmap_def bytes)
  have get: "bm_get ?bm k \<longleftrightarrow> k \<in> unat ` set xs" if "k < ?N" for k
    using that inside by (simp add: indices_to_bitmap_def bytes bm_get_fold_set)
  have "filter (bm_get ?bm) [0..<?N] = map unat xs"
  proof (rule sorted_distinct_set_unique)
    have "sorted_wrt (<) (map unat xs)"
      using assms(1) by (simp add: sorted_wrt_map word_less_nat_alt[abs_def])
    then show "sorted (map unat xs)" "distinct (map unat xs)"
      by (simp_all add: strict_sorted_iff)
    have "unat x < ?N" if "x \<in> set xs" for x
      using inside[OF that] by linarith
    then show "set (filter (bm_get ?bm) [0..<?N]) = set (map unat xs)"
      using get by auto
  qed (simp_all add: sorted_wrt_filter)
  then show ?thesis
    by (simp add: bitmap_loop_eq len o_def)
qed

section \<open>Runs\<close>

lemma length_range_rows [simp]: "length (range_rows (s, l)) = unat l"
  by (simp add: range_rows_def)

lemma range_rows_snoc:
  assumes "unat l < 4294967295"
  shows "range_rows (s, l + 1) = range_rows (s, l) @ [s + l]"
  using assms by (simp add: range_rows_def unat_word_ariths)

lemma range_rows_take:
  assumes "n \<le> unat l"
  shows "range_rows (s, word_of_nat n) = take n (range_rows (s, l))"
proof -
  have "n < 4294967296" using assms unat_u32_less[of l] by simp
  then show ?thesis using assms
    by (simp add: range_rows_def unat_of_nat_u32 take_map)
qed

lemma range_rows_drop:
  assumes "n < unat l"
  shows "range_rows (s + word_of_nat n, l - word_of_nat n) = drop n (range_rows (s, l))"
proof -
  have "n < 4294967296" using assms unat_u32_less[of l] by simp
  then have "unat (l - word_of_nat n) = unat l - n"
    using assms by (simp add: unat_sub word_le_nat_alt unat_of_nat_u32)
  then show ?thesis using assms
    by (intro nth_equalityI) (auto simp: range_rows_def add.assoc less_diff_conv add.commute)
qed

lemma ranges_loop_rows:
  assumes "prev + 1 = s + l" and "unat l + length xs < 4294967296"
  shows "concat (map range_rows (ranges_loop s l prev xs)) = range_rows (s, l) @ xs"
  using assms
proof (induction s l prev xs rule: ranges_loop.induct)
  case (2 s l prev x xs)
  have one: "range_rows (x, 1) = [x]" by (simp add: range_rows_def)
  have succ: "unat (l + 1) = Suc (unat l)" if "unat l < 4294967295"
    using that by (simp add: unat_word_ariths)
  show ?case using 2 one succ
    by (cases "x = prev + 1") (simp_all add: range_rows_snoc add.assoc)
qed simp

lemma ranges_of_indices:
  assumes "length xs < 4294967296"
  shows "concat (map range_rows (indices_to_ranges xs)) = xs"
proof (cases xs)
  case (Cons y ys)
  then show ?thesis using assms
    by (simp add: ranges_loop_rows) (simp add: range_rows_def)
qed simp

lemma ranges_truncate_rows:
  "c \<le> k \<Longrightarrow> concat (map range_rows (ranges_truncate k c rs)) =
     take (k - c) (concat (map range_rows rs))"
proof (induction k c rs rule: ranges_truncate.induct)
  case (2 k c s l rs)
  then have "take (k - c) (range_rows (s, l)) = range_rows (s, word_of_nat (k - c))"
    if "k < c + unat l"
  proof -
    have "k - c \<le> unat l" using that by linarith
    then show ?thesis by (simp only: range_rows_take)
  qed
  with 2 show ?case by (auto simp del: of_nat_diff)
qed simp

lemma ranges_drop_rows:
  "concat (map range_rows (ranges_drop n rs)) = drop n (concat (map range_rows rs))"
proof (induction n rs rule: ranges_drop.induct)
  case (2 n s l rs)
  then show ?case by (simp add: range_rows_drop)
qed simp

lemma ranges_at_rows:
  assumes "c \<le> k" and "k - c < length (concat (map range_rows rs))"
  shows "ranges_at k c rs = Some (concat (map range_rows rs) ! (k - c))"
  using assms
proof (induction k c rs rule: ranges_at.induct)
  case (2 k c s l rs)
  show ?case
  proof (cases "k < c + unat l")
    case True
    then have "k - c < unat l" using 2(2) by simp
    with True show ?thesis by (simp add: nth_append) (simp add: range_rows_def)
  next
    case False
    then have "k - c - unat l < length (concat (map range_rows rs))"
      using 2(3) by simp
    moreover have "\<not> k - c < unat l" using False by linarith
    ultimately show ?thesis using 2 False by (simp add: nth_append)
  qed
qed simp

section \<open>The contract of a selection vector\<close>

text \<open>
  A sequence that can be cut on both sides. Selection vectors, column vectors and chunks keep
  this contract, each with its own representation; \<open>Limit\<close> uses nothing else.
\<close>

locale cut_seq =
  fixes inv :: "'s \<Rightarrow> bool"
    and elems :: "'s \<Rightarrow> 'e list"
    and keep_first :: "nat \<Rightarrow> 's \<Rightarrow> 's option"
    and drop_prefix :: "nat \<Rightarrow> 's \<Rightarrow> 's option"
  assumes keep_first: "inv s \<Longrightarrow> k \<le> length (elems s) \<Longrightarrow>
      \<exists>s'. keep_first k s = Some s' \<and> inv s' \<and> elems s' = take k (elems s)"
    and drop_prefix: "inv s \<Longrightarrow> n \<le> length (elems s) \<Longrightarrow>
      \<exists>s'. drop_prefix n s = Some s' \<and> inv s' \<and> elems s' = drop n (elems s)"
begin

lemma window:
  assumes "inv s" and "n \<le> length (elems s)" and "k \<le> length (elems s) - n"
  shows "\<exists>s' s''. drop_prefix n s = Some s' \<and> keep_first k s' = Some s'' \<and> inv s'' \<and>
           elems s'' = take k (drop n (elems s))"
proof -
  obtain s' where s': "drop_prefix n s = Some s'" "inv s'" "elems s' = drop n (elems s)"
    using drop_prefix assms(1,2) by blast
  with keep_first[of s' k] assms(3) show ?thesis by auto
qed

end

text \<open>The rows lie in the chunk and \<open>size_\<close> counts them.\<close>

definition sv_ok :: "selection_vector \<Rightarrow> bool" where
  "sv_ok sv \<longleftrightarrow>
     sv_size sv = length (sv_for_each sv) \<and> (\<forall>r\<in>set (sv_for_each sv). r < sv_row_count sv)"

lemma sv_for_each_truncate:
  "sv_ok sv \<Longrightarrow> sv_for_each (sv_truncate k sv) = take k (sv_for_each sv)"
  by (cases "sv_repr sv")
     (simp_all add: sv_truncate_def sv_for_each_def sv_ok_def bitmap_truncate_loop
        ranges_truncate_rows)

lemma sv_truncate_fields [simp]: "sv_row_count (sv_truncate k sv) = sv_row_count sv"
  by (cases "sv_repr sv") (simp_all add: sv_truncate_def)

lemma sv_size_truncate: "sv_size (sv_truncate k sv) = min k (sv_size sv)"
  by (simp add: sv_truncate_def)

lemma sv_ok_truncate: "sv_ok sv \<Longrightarrow> sv_ok (sv_truncate k sv)"
  using sv_for_each_truncate[of sv k]
  by (auto simp: sv_ok_def sv_size_truncate dest: in_set_takeD)

lemma sv_drop_prefix_spec:
  assumes "sv_ok sv" and "n \<le> length (sv_for_each sv)"
  shows "\<exists>sv'. sv_drop_prefix n sv = Some sv' \<and> sv_ok sv' \<and> sv_row_count sv' = sv_row_count sv \<and>
           sv_for_each sv' = drop n (sv_for_each sv)"
proof (cases "n = 0")
  case True
  then show ?thesis using assms by (simp add: sv_drop_prefix_def)
next
  case False
  define sv' where "sv' = the (sv_drop_prefix n sv)"
  have some: "sv_drop_prefix n sv = Some sv'" using False assms
    by (simp add: sv'_def sv_drop_prefix_def sv_ok_def)
  have rows: "sv_for_each sv' = drop n (sv_for_each sv)" using False assms
    by (cases "sv_repr sv")
       (simp_all add: sv'_def sv_drop_prefix_def sv_for_each_def sv_ok_def bitmap_drop_eq
          ranges_drop_rows)
  have "sv_row_count sv' = sv_row_count sv" "sv_size sv' = sv_size sv - n" using False assms
    by (cases "sv_repr sv"; simp add: sv'_def sv_drop_prefix_def sv_ok_def)+
  with some rows assms(1) show ?thesis
    by (auto simp: sv_ok_def dest: in_set_dropD)
qed

interpretation sel: cut_seq sv_ok sv_for_each "\<lambda>k sv. Some (sv_truncate k sv)" sv_drop_prefix
proof
  show "\<exists>s'. Some (sv_truncate k s) = Some s' \<and> sv_ok s' \<and> sv_for_each s' = take k (sv_for_each s)"
    if "sv_ok s" for s k
    using that by (simp add: sv_ok_truncate sv_for_each_truncate)
  show "\<exists>s'. sv_drop_prefix n s = Some s' \<and> sv_ok s' \<and> sv_for_each s' = drop n (sv_for_each s)"
    if "sv_ok s" "n \<le> length (sv_for_each s)" for s n
    using sv_drop_prefix_spec[OF that] by blast
qed

lemma sb_indices_fold [simp]:
  "sb_indices (fold sb_append xs b) = sb_indices b @ xs"
  by (induction xs arbitrary: b) (simp_all add: sb_append_def Let_def)

text \<open>Whatever representation \<open>finalize\<close> picks, it holds the rows that were appended.\<close>

lemma sb_finalize_rows:
  assumes "sorted_wrt (<) (sb_indices b)" and "\<forall>r\<in>set (sb_indices b). r < n"
    and "unat n \<le> 4294967288"
  shows "sv_for_each (sb_finalize n om b) = sb_indices b"
    and "sv_row_count (sb_finalize n om b) = n"
    and "sv_ok (sb_finalize n om b)"
proof -
  have "set (map unat (sb_indices b)) \<subseteq> {..<unat n}"
    using assms(2) by (auto simp: word_less_nat_alt)
  moreover have "distinct (map unat (sb_indices b))"
    using assms(1) strict_sorted_iff[of "sb_indices b"]
    by (simp add: distinct_map inj_on_def word_unat_eq_iff)
  ultimately have "length (sb_indices b) \<le> unat n"
    using card_mono[of "{..<unat n}"] by (metis card_lessThan distinct_card finite_lessThan length_map)
  then have "length (sb_indices b) < 4294967296" using assms(3) by simp
  then show rows: "sv_for_each (sb_finalize n om b) = sb_indices b"
    using bitmap_of_indices[OF assms] ranges_of_indices
    by (simp add: sb_finalize_def sv_for_each_def sv_default_def Let_def)
  show rc: "sv_row_count (sb_finalize n om b) = n"
    by (simp add: sb_finalize_def sv_default_def Let_def)
  have "sv_size (sb_finalize n om b) = length (sb_indices b)"
    by (simp add: sb_finalize_def sv_default_def Let_def)
  with rows rc assms(2) show "sv_ok (sb_finalize n om b)" by (simp add: sv_ok_def)
qed

lemma sv_from_dense_rows [simp]:
  "sv_for_each (sv_from_dense xs n) = xs" "sv_row_count (sv_from_dense xs n) = n"
  "sv_size (sv_from_dense xs n) = length xs" "sv_repr (sv_from_dense xs n) = DENSE"
  by (simp_all add: sv_from_dense_def sv_for_each_def sv_default_def)

lemma sv_to_dense_rows:
  "sv_for_each (sv_to_dense sv) = sv_for_each sv" "sv_row_count (sv_to_dense sv) = sv_row_count sv"
  "sv_ok sv \<Longrightarrow> sv_ok (sv_to_dense sv)"
  by (auto simp: sv_to_dense_def sv_ok_def)

lemma sv_at_rows:
  assumes "sv_ok sv" and "sv_repr sv \<noteq> BITMAP" and "k < sv_size sv"
  shows "sv_at k sv = Some (sv_for_each sv ! k)"
  using assms ranges_at_rows[of 0 k]
  by (cases "sv_repr sv") (simp_all add: sv_at_def sv_ok_def sv_for_each_def)

section \<open>The main property\<close>

datatype sv_op = SvTruncate nat | SvDropPrefix nat | SvToDense

fun sv_apply :: "sv_op \<Rightarrow> selection_vector \<Rightarrow> selection_vector option" where
  "sv_apply (SvTruncate k) sv = Some (sv_truncate k sv)"
| "sv_apply (SvDropPrefix n) sv = sv_drop_prefix n sv"
| "sv_apply SvToDense sv = Some (sv_to_dense sv)"

fun rows_apply :: "sv_op \<Rightarrow> u32 list \<Rightarrow> u32 list option" where
  "rows_apply (SvTruncate k) rows = Some (take k rows)"
| "rows_apply (SvDropPrefix n) rows = (if n \<le> length rows then Some (drop n rows) else None)"
| "rows_apply SvToDense rows = Some rows"

fun run_all :: "('a \<Rightarrow> 's \<Rightarrow> 's option) \<Rightarrow> 'a list \<Rightarrow> 's \<Rightarrow> 's option" where
  "run_all f [] s = Some s"
| "run_all f (x # xs) s = Option.bind (f x s) (run_all f xs)"

lemma sv_apply_rows:
  assumes "sv_ok sv"
  shows "case sv_apply x sv of
           None \<Rightarrow> rows_apply x (sv_for_each sv) = None
         | Some sv' \<Rightarrow> sv_ok sv' \<and> rows_apply x (sv_for_each sv) = Some (sv_for_each sv')"
proof (cases x)
  case (SvDropPrefix n)
  then show ?thesis
    using sv_drop_prefix_spec[OF assms, of n] assms
    by (cases "n \<le> length (sv_for_each sv)") (auto simp: sv_drop_prefix_def sv_ok_def)
qed (use assms in \<open>simp_all add: sv_ok_truncate sv_for_each_truncate sv_to_dense_rows\<close>)

lemma sv_run_rows:
  "sv_ok sv \<Longrightarrow>
     (case run_all sv_apply xs sv of
        None \<Rightarrow> run_all rows_apply xs (sv_for_each sv) = None
      | Some sv' \<Rightarrow> sv_ok sv' \<and> run_all rows_apply xs (sv_for_each sv) = Some (sv_for_each sv'))"
proof (induction xs arbitrary: sv)
  case (Cons x xs)
  show ?case
  proof (cases "sv_apply x sv")
    case (Some sv')
    then show ?thesis using sv_apply_rows[OF Cons.prems, of x] Cons.IH[of sv']
      by (simp split: option.splits)
  qed (use sv_apply_rows[OF Cons.prems, of x] in simp)
qed simp



end
