(* ===== verification/Column_Vector.thy ===== *)
theory Column_Vector
  imports Column_Page Selection_Vector "HOL-Library.Monad_Syntax"
begin

text \<open>
  Column vectors (\<^verbatim>\<open>src/src/executor/column_vector.h\<close>): the byte buffer, the string
  buffer and the null bit map of a vector, its accessors, appends, gathers and in-place
  compactions. A failed \<open>assert\<close> is \<open>None\<close>. The abstraction of a vector is its list of values,
  \<open>VNull\<close> where the null bit is set; \<open>cv_rep\<close> relates the two, and there is one law per
  operation.
\<close>

section \<open>Column vectors\<close>

record column_vector =
  cv_type :: type_id
  cv_nullable :: bool
  cv_has_nulls :: bool
  cv_size :: nat
  cv_data :: "u8 list"
  cv_str_data :: "string list"
  cv_null_bitmap :: "u8 list"

text \<open>\<open>std::vector::resize(n, x)\<close>.\<close>

definition vec_resize :: "nat \<Rightarrow> 'a \<Rightarrow> 'a list \<Rightarrow> 'a list" where
  "vec_resize n x xs = take n xs @ replicate (n - length xs) x"

definition cv_resize :: "nat \<Rightarrow> column_vector \<Rightarrow> column_vector" where
  "cv_resize new_size cv =
     (let cv = (if cv_type cv = VARCHAR
                then cv\<lparr>cv_str_data := vec_resize new_size '''' (cv_str_data cv)\<rparr>
                else cv\<lparr>cv_data := vec_resize (new_size * type_size (cv_type cv) 0) 0 (cv_data cv)\<rparr>);
          cv = (if cv_nullable cv
                then cv\<lparr>cv_null_bitmap := vec_resize ((new_size + 7) div 8) 0 (cv_null_bitmap cv)\<rparr>
                else cv)
      in cv\<lparr>cv_size := new_size\<rparr>)"

text \<open>\<open>empty\<close> only reserves memory beyond the private constructor.\<close>

definition cv_empty :: "type_id \<Rightarrow> bool \<Rightarrow> column_vector" where
  "cv_empty t nullable =
     \<lparr> cv_type = t, cv_nullable = nullable, cv_has_nulls = False, cv_size = 0, cv_data = [],
       cv_str_data = [], cv_null_bitmap = [] \<rparr>"

definition cv_make :: "type_id \<Rightarrow> nat \<Rightarrow> bool \<Rightarrow> column_vector" where
  "cv_make t n nullable = cv_resize n (cv_empty t nullable)"

definition cv_is_null :: "nat \<Rightarrow> column_vector \<Rightarrow> bool option" where
  "cv_is_null i cv =
     (if \<not> i < cv_size cv then None
      else if \<not> cv_nullable cv then Some False
      else Some (bm_get (cv_null_bitmap cv) i))"

text \<open>
  The fixed-width accessors differ in the type they assert and in the width; \<open>get_str\<close> asserts
  no null bit. \<open>raw_get\<close> and \<open>raw_set\<close> are the \<open>memcpy\<close> alone.
\<close>

definition raw_get :: "nat \<Rightarrow> nat \<Rightarrow> column_vector \<Rightarrow> 'a::len word" where
  "raw_get w i cv = le_word (slice (i * w) w (cv_data cv))"

definition raw_set :: "nat \<Rightarrow> nat \<Rightarrow> 'a::len word \<Rightarrow> column_vector \<Rightarrow> column_vector" where
  "raw_set w i v cv = cv\<lparr>cv_data := blit (i * w) (le_bytes w v) (cv_data cv)\<rparr>"

definition cv_clear_null :: "nat \<Rightarrow> column_vector \<Rightarrow> column_vector" where
  "cv_clear_null i cv =
     (if cv_nullable cv then cv\<lparr>cv_null_bitmap := bm_clear (cv_null_bitmap cv) i\<rparr> else cv)"

definition cv_get_fixed :: "type_id \<Rightarrow> nat \<Rightarrow> nat \<Rightarrow> column_vector \<Rightarrow> 'a::len word option" where
  "cv_get_fixed t w i cv =
     (if cv_type cv = t \<and> cv_is_null i cv = Some False then Some (raw_get w i cv) else None)"

definition cv_get_i32 :: "nat \<Rightarrow> column_vector \<Rightarrow> i32 option" where
  "cv_get_i32 = cv_get_fixed INT32 4"

definition cv_get_i64 :: "nat \<Rightarrow> column_vector \<Rightarrow> i64 option" where
  "cv_get_i64 = cv_get_fixed INT64 8"

definition cv_get_f64 :: "nat \<Rightarrow> column_vector \<Rightarrow> f64 option" where
  "cv_get_f64 = cv_get_fixed DOUBLE 8"

definition cv_get_date :: "nat \<Rightarrow> column_vector \<Rightarrow> i32 option" where
  "cv_get_date = cv_get_fixed DATE 4"

definition cv_get_timestamp :: "nat \<Rightarrow> column_vector \<Rightarrow> i64 option" where
  "cv_get_timestamp = cv_get_fixed TIMESTAMP 8"

definition cv_get_bool :: "nat \<Rightarrow> column_vector \<Rightarrow> bool option" where
  "cv_get_bool i cv = map_option (\<lambda>v :: u8. v \<noteq> 0) (cv_get_fixed BOOL 1 i cv)"

definition cv_get_str :: "nat \<Rightarrow> column_vector \<Rightarrow> string option" where
  "cv_get_str i cv =
     (if cv_type cv = VARCHAR \<and> i < cv_size cv then Some (cv_str_data cv ! i) else None)"

definition cv_set_fixed ::
  "type_id \<Rightarrow> nat \<Rightarrow> nat \<Rightarrow> 'a::len word \<Rightarrow> column_vector \<Rightarrow> column_vector option" where
  "cv_set_fixed t w i v cv =
     (if cv_type cv = t \<and> i < cv_size cv then Some (cv_clear_null i (raw_set w i v cv)) else None)"

definition cv_set_i32 :: "nat \<Rightarrow> i32 \<Rightarrow> column_vector \<Rightarrow> column_vector option" where
  "cv_set_i32 = cv_set_fixed INT32 4"

definition cv_set_i64 :: "nat \<Rightarrow> i64 \<Rightarrow> column_vector \<Rightarrow> column_vector option" where
  "cv_set_i64 = cv_set_fixed INT64 8"

definition cv_set_f64 :: "nat \<Rightarrow> f64 \<Rightarrow> column_vector \<Rightarrow> column_vector option" where
  "cv_set_f64 = cv_set_fixed DOUBLE 8"

definition cv_set_date :: "nat \<Rightarrow> i32 \<Rightarrow> column_vector \<Rightarrow> column_vector option" where
  "cv_set_date = cv_set_fixed DATE 4"

definition cv_set_timestamp :: "nat \<Rightarrow> i64 \<Rightarrow> column_vector \<Rightarrow> column_vector option" where
  "cv_set_timestamp = cv_set_fixed TIMESTAMP 8"

definition cv_set_bool :: "nat \<Rightarrow> bool \<Rightarrow> column_vector \<Rightarrow> column_vector option" where
  "cv_set_bool i v = cv_set_fixed BOOL 1 i (if v then 1 else 0 :: u8)"

definition cv_set_str :: "nat \<Rightarrow> string \<Rightarrow> column_vector \<Rightarrow> column_vector option" where
  "cv_set_str i s cv =
     (if cv_type cv = VARCHAR \<and> i < cv_size cv
      then Some (cv_clear_null i (cv\<lparr>cv_str_data := (cv_str_data cv)[i := s]\<rparr>)) else None)"

definition cv_set_null :: "nat \<Rightarrow> column_vector \<Rightarrow> column_vector option" where
  "cv_set_null i cv =
     (if cv_nullable cv \<and> i < cv_size cv
      then Some (cv\<lparr>cv_null_bitmap := bm_set (cv_null_bitmap cv) i, cv_has_nulls := True\<rparr>)
      else None)"

definition cv_append_fixed ::
  "type_id \<Rightarrow> nat \<Rightarrow> 'a::len word \<Rightarrow> column_vector \<Rightarrow> column_vector option" where
  "cv_append_fixed t w v cv =
     (if cv_type cv = t then Some (raw_set w (cv_size cv) v (cv_resize (cv_size cv + 1) cv))
      else None)"

definition cv_append_i32 :: "i32 \<Rightarrow> column_vector \<Rightarrow> column_vector option" where
  "cv_append_i32 = cv_append_fixed INT32 4"

definition cv_append_i64 :: "i64 \<Rightarrow> column_vector \<Rightarrow> column_vector option" where
  "cv_append_i64 = cv_append_fixed INT64 8"

definition cv_append_f64 :: "f64 \<Rightarrow> column_vector \<Rightarrow> column_vector option" where
  "cv_append_f64 = cv_append_fixed DOUBLE 8"

definition cv_append_date :: "i32 \<Rightarrow> column_vector \<Rightarrow> column_vector option" where
  "cv_append_date = cv_append_fixed DATE 4"

definition cv_append_timestamp :: "i64 \<Rightarrow> column_vector \<Rightarrow> column_vector option" where
  "cv_append_timestamp = cv_append_fixed TIMESTAMP 8"

definition cv_append_bool :: "bool \<Rightarrow> column_vector \<Rightarrow> column_vector option" where
  "cv_append_bool v = cv_append_fixed BOOL 1 (if v then 1 else 0 :: u8)"

definition cv_append_str :: "string \<Rightarrow> column_vector \<Rightarrow> column_vector option" where
  "cv_append_str s cv =
     (if cv_type cv = VARCHAR
      then let strs = cv_str_data cv @ [s]
           in Some (cv\<lparr>cv_str_data := strs,
                       cv_null_bitmap := (if cv_nullable cv
                         then vec_resize ((length strs + 7) div 8) 0 (cv_null_bitmap cv)
                         else cv_null_bitmap cv),
                       cv_size := length strs\<rparr>)
      else None)"

definition cv_append_null :: "column_vector \<Rightarrow> column_vector option" where
  "cv_append_null cv =
     (if cv_nullable cv
      then let old = cv_size cv; cv = cv_resize (old + 1) cv
           in Some (cv\<lparr>cv_null_bitmap := bm_set (cv_null_bitmap cv) old, cv_has_nulls := True\<rparr>)
      else None)"

text \<open>One row moved inside a vector: the null bit, then the value.\<close>

definition move_null :: "nat \<Rightarrow> nat \<Rightarrow> u8 list \<Rightarrow> u8 list" where
  "move_null src dst bm =
     (let src_null = bm_get bm src; bm = bm_clear bm dst
      in if src_null then bm_set bm dst else bm)"

definition cv_drop_prefix :: "nat \<Rightarrow> column_vector \<Rightarrow> column_vector option" where
  "cv_drop_prefix n cv =
     (if \<not> n \<le> cv_size cv then None
      else if n = 0 then Some cv
      else let new_size = cv_size cv - n;
               bytes = type_size (cv_type cv) 0;
               shifted = (if cv_nullable cv
                          then fold (\<lambda>i. move_null (i + n) i) [0..<new_size] (cv_null_bitmap cv)
                          else cv_null_bitmap cv)
           in if cv_type cv = VARCHAR
              then Some (cv\<lparr>cv_str_data := drop n (cv_str_data cv),
                            cv_null_bitmap := (if cv_nullable cv
                              then vec_resize ((new_size + 7) div 8) 0 shifted else shifted),
                            cv_size := new_size\<rparr>)
              else Some (cv_resize new_size
                     (cv\<lparr>cv_data := (if new_size > 0
                           then blit 0 (slice (n * bytes) (new_size * bytes) (cv_data cv)) (cv_data cv)
                           else cv_data cv),
                         cv_null_bitmap := shifted\<rparr>)))"

definition cv_move :: "nat \<Rightarrow> nat \<Rightarrow> column_vector \<Rightarrow> column_vector" where
  "cv_move r w cv =
     (let bytes = type_size (cv_type cv) 0;
          cv = (if cv_type cv = VARCHAR
                then cv\<lparr>cv_str_data := (cv_str_data cv)[w := cv_str_data cv ! r]\<rparr>
                else cv\<lparr>cv_data := blit (w * bytes) (slice (r * bytes) bytes (cv_data cv)) (cv_data cv)\<rparr>)
      in if cv_nullable cv then cv\<lparr>cv_null_bitmap := move_null r w (cv_null_bitmap cv)\<rparr> else cv)"

definition mask_keeps :: "nat \<Rightarrow> column_vector \<Rightarrow> bool option" where
  "mask_keeps r msk =
     do { nl \<leftarrow> cv_is_null r msk;
          if nl then Some False else do { v \<leftarrow> cv_get_i32 r msk; Some (v \<noteq> 0) } }"

text \<open>
  \<open>std::move(str_data_[r])\<close> leaves the source slot in an unspecified state; it is read no
  more, since later reads are at greater positions, and the slots from \<open>w\<close> on are cut off.
\<close>

fun compact_loop :: "column_vector \<Rightarrow> nat list \<Rightarrow> nat \<Rightarrow> column_vector \<Rightarrow> column_vector option" where
  "compact_loop msk [] w cv = Some (cv_resize w cv)"
| "compact_loop msk (r # rs) w cv =
     do { keep \<leftarrow> mask_keeps r msk;
          if \<not> keep then compact_loop msk rs w cv
          else compact_loop msk rs (w + 1) (if w \<noteq> r then cv_move r w cv else cv) }"

definition cv_compact_in_place :: "column_vector \<Rightarrow> column_vector \<Rightarrow> column_vector option" where
  "cv_compact_in_place msk cv =
     (if cv_type msk = INT32 \<and> cv_size msk = cv_size cv
      then compact_loop msk [0..<cv_size cv] 0 cv else None)"

definition gather_step ::
  "column_vector \<Rightarrow> u32 \<Rightarrow> column_vector \<times> nat \<Rightarrow> column_vector \<times> nat" where
  "gather_step src phys acc = (case acc of (out, out_idx) \<Rightarrow>
     (let bytes = type_size (cv_type src) 0;
          out = (if cv_type src = VARCHAR
                 then out\<lparr>cv_str_data := (cv_str_data out)[out_idx := cv_str_data src ! unat phys]\<rparr>
                 else out\<lparr>cv_data := blit (out_idx * bytes)
                            (slice (unat phys * bytes) bytes (cv_data src)) (cv_data out)\<rparr>);
          out = (if cv_nullable src \<and> bm_get (cv_null_bitmap src) (unat phys)
                 then out\<lparr>cv_null_bitmap := bm_set (cv_null_bitmap out) out_idx, cv_has_nulls := True\<rparr>
                 else out)
      in (out, out_idx + 1)))"

definition gather_via_sel :: "column_vector \<Rightarrow> selection_vector \<Rightarrow> column_vector" where
  "gather_via_sel src sel =
     fst (fold (gather_step src) (sv_for_each sel)
            (cv_make (cv_type src) (sv_size sel) (cv_nullable src), 0))"

section \<open>The values of a vector\<close>

text \<open>The stored content of a slot: its bytes, or its string.\<close>

definition cv_cell :: "column_vector \<Rightarrow> nat \<Rightarrow> u8 list + string" where
  "cv_cell cv i =
     (if cv_type cv = VARCHAR then Inr (cv_str_data cv ! i)
      else Inl (slice (i * type_size (cv_type cv) 0) (type_size (cv_type cv) 0) (cv_data cv)))"

definition cell_value :: "type_id \<Rightarrow> u8 list + string \<Rightarrow> val" where
  "cell_value t c = (case c of Inl bs \<Rightarrow> cell_val t bs | Inr s \<Rightarrow> VStr s)"

definition cv_null_at :: "column_vector \<Rightarrow> nat \<Rightarrow> bool" where
  "cv_null_at cv i \<longleftrightarrow> cv_nullable cv \<and> bm_get (cv_null_bitmap cv) i"

definition cv_val :: "column_vector \<Rightarrow> nat \<Rightarrow> val" where
  "cv_val cv i = (if cv_null_at cv i then VNull else cell_value (cv_type cv) (cv_cell cv i))"

definition cv_vals :: "column_vector \<Rightarrow> val list" where
  "cv_vals cv = map (cv_val cv) [0..<cv_size cv]"

text \<open>The types a vector can have, and the well-formedness of its buffers.\<close>

definition vec_type :: "type_id \<Rightarrow> bool" where
  "vec_type t \<longleftrightarrow> t \<in> {INT32, INT64, DOUBLE, VARCHAR, BOOL, DATE, TIMESTAMP}"

definition cv_wf :: "column_vector \<Rightarrow> bool" where
  "cv_wf cv \<longleftrightarrow>
     vec_type (cv_type cv) \<and>
     (if cv_type cv = VARCHAR then length (cv_str_data cv) = cv_size cv
      else length (cv_data cv) = cv_size cv * type_size (cv_type cv) 0) \<and>
     (cv_nullable cv \<longrightarrow> length (cv_null_bitmap cv) = (cv_size cv + 7) div 8) \<and>
     (cv_type cv = BOOL \<longrightarrow> set (cv_data cv) \<subseteq> {0, 1})"

text \<open>\<open>cv_rep t nl vs cv\<close>: the vector \<open>cv\<close> of type \<open>t\<close> holds the values \<open>vs\<close>.\<close>

definition cv_rep :: "type_id \<Rightarrow> bool \<Rightarrow> val list \<Rightarrow> column_vector \<Rightarrow> bool" where
  "cv_rep t nl vs cv \<longleftrightarrow>
     cv_wf cv \<and> cv_type cv = t \<and> cv_nullable cv = nl \<and> cv_vals cv = vs"

lemma length_cv_vals [simp]: "length (cv_vals cv) = cv_size cv"
  by (simp add: cv_vals_def)

lemma cv_rep_size: "cv_rep t nl vs cv \<Longrightarrow> cv_size cv = length vs"
  by (auto simp: cv_rep_def)

lemma cv_rep_nth: "cv_rep t nl vs cv \<Longrightarrow> i < length vs \<Longrightarrow> vs ! i = cv_val cv i"
  by (auto simp: cv_rep_def cv_vals_def)

lemma cv_repI:
  assumes "cv_wf cv" and "cv_type cv = t" and "cv_nullable cv = nl" and "cv_size cv = length vs"
    and "\<And>i. i < length vs \<Longrightarrow> cv_val cv i = vs ! i"
  shows "cv_rep t nl vs cv"
  using assms by (auto simp: cv_rep_def cv_vals_def intro: nth_equalityI)

lemma slot_blit:
  assumes "i < n" and "j < n" and "length dst = n * e" and "length src = e"
  shows "slice (j * e) e (blit (i * e) src dst) = (if i = j then src else slice (j * e) e dst)"
proof -
  have i: "i * e + e \<le> n * e" using slot_step[OF assms(1)] .
  consider "i = j" | "i < j" | "j < i" by linarith
  then show ?thesis
  proof cases
    case 2
    then show ?thesis using i assms slot_step[of i j e] by (simp add: slice_blit_after)
  next
    case 3
    then show ?thesis using i assms slot_step[of j i e] by (simp add: slice_blit_before)
  qed (use i assms in \<open>simp add: slice_blit_same\<close>)
qed

lemma set_blit: "set (blit off src dst) \<subseteq> set src \<union> set dst"
  by (auto simp: blit_def dest: in_set_takeD in_set_dropD)

text \<open>A slot of the right width for a type.\<close>

definition cell_fits :: "type_id \<Rightarrow> u8 list + string \<Rightarrow> bool" where
  "cell_fits t c = (case c of
       Inl bs \<Rightarrow> t \<noteq> VARCHAR \<and> length bs = type_size t 0 \<and> (t = BOOL \<longrightarrow> set bs \<subseteq> {0, 1})
     | Inr s \<Rightarrow> t = VARCHAR)"

lemma cv_cell_fits:
  assumes "cv_wf cv" and "i < cv_size cv"
  shows "cell_fits (cv_type cv) (cv_cell cv i)"
proof -
  let ?e = "type_size (cv_type cv) 0"
  have "i * ?e + ?e \<le> cv_size cv * ?e" using slot_step[OF assms(2)] .
  then show ?thesis using assms
    by (auto simp: cell_fits_def cv_cell_def cv_wf_def slice_def dest!: in_set_takeD in_set_dropD)
qed

lemma cell_value_type:
  assumes "cell_fits t c" and "vec_type t"
  shows "holds_type t (cell_value t c)"
  using assms by (cases c) (auto simp: cell_fits_def vec_type_def cell_value_def cell_val_def)

lemma cv_rep_typed:
  assumes "cv_rep t nl vs cv" and "i < length vs"
  shows "vs ! i = VNull \<and> nl \<or> holds_type t (vs ! i)"
  using assms cv_rep_nth[OF assms] cell_value_type[OF cv_cell_fits[of cv i]] cv_rep_size[OF assms(1)]
  by (auto simp: cv_rep_def cv_val_def cv_null_at_def cv_wf_def)

lemma cv_is_null_at: "i < cv_size cv \<Longrightarrow> cv_is_null i cv = Some (cv_null_at cv i)"
  by (simp add: cv_is_null_def cv_null_at_def)

lemma holds_type_not_null: "holds_type t v \<Longrightarrow> v \<noteq> VNull"
  by (cases v; cases t) auto

lemma cv_null_iff:
  assumes "cv_rep t nl vs cv" and "i < length vs"
  shows "cv_null_at cv i \<longleftrightarrow> vs ! i = VNull"
  using assms cv_rep_nth[OF assms] cell_value_type[OF cv_cell_fits[of cv i]] cv_rep_size[OF assms(1)]
    holds_type_not_null[of t]
  by (auto simp: cv_rep_def cv_val_def cv_wf_def)

lemma cv_is_null_rep:
  "cv_rep t nl vs cv \<Longrightarrow> i < length vs \<Longrightarrow> cv_is_null i cv = Some (vs ! i = VNull)"
  by (simp add: cv_is_null_at cv_rep_size cv_null_iff)

section \<open>Writing a slot\<close>

definition cv_put :: "nat \<Rightarrow> u8 list + string \<Rightarrow> column_vector \<Rightarrow> column_vector" where
  "cv_put i c cv = (case c of
       Inl bs \<Rightarrow> cv\<lparr>cv_data := blit (i * type_size (cv_type cv) 0) bs (cv_data cv)\<rparr>
     | Inr s \<Rightarrow> cv\<lparr>cv_str_data := (cv_str_data cv)[i := s]\<rparr>)"

lemma cv_put_fields [simp]:
  "cv_type (cv_put i c cv) = cv_type cv" "cv_nullable (cv_put i c cv) = cv_nullable cv"
  "cv_size (cv_put i c cv) = cv_size cv" "cv_null_bitmap (cv_put i c cv) = cv_null_bitmap cv"
  by (cases c; simp add: cv_put_def)+

lemma cv_put_cell:
  assumes "cv_wf cv" and "i < cv_size cv" and "j < cv_size cv" and "cell_fits (cv_type cv) c"
  shows "cv_cell (cv_put i c cv) j = (if i = j then c else cv_cell cv j)"
  using assms slot_blit[OF assms(2,3)]
  by (cases c) (auto simp: cv_put_def cv_cell_def cell_fits_def cv_wf_def)

lemma cv_wf_put:
  assumes "cv_wf cv" and "i < cv_size cv" and "cell_fits (cv_type cv) c"
  shows "cv_wf (cv_put i c cv)"
proof (cases c)
  case (Inl bs)
  let ?e = "type_size (cv_type cv) 0"
  have "i * ?e + ?e \<le> cv_size cv * ?e" using slot_step[OF assms(2)] .
  then have "length (blit (i * ?e) bs (cv_data cv)) = length (cv_data cv)"
    using assms Inl by (auto simp: cell_fits_def cv_wf_def)
  then show ?thesis using assms Inl set_blit[of "i * ?e" bs "cv_data cv"]
    by (auto simp: cv_wf_def cv_put_def cell_fits_def)
qed (use assms in \<open>auto simp: cv_wf_def cv_put_def cell_fits_def\<close>)

lemma cv_rep_put:
  assumes rep: "cv_rep t nl vs cv" and i: "i < length vs" and fits: "cell_fits t c"
    and bm: "nl \<Longrightarrow> length bm = length (cv_null_bitmap cv)"
    and bits: "\<And>j. nl \<Longrightarrow> j < length vs \<Longrightarrow>
      bm_get bm j = (if j = i then b else bm_get (cv_null_bitmap cv) j)"
    and b: "b \<Longrightarrow> nl"
  shows "cv_rep t nl (vs[i := if b then VNull else cell_value t c])
           ((cv_put i c cv)\<lparr>cv_null_bitmap := bm, cv_has_nulls := h\<rparr>)"
proof (rule cv_repI)
  have wf: "cv_wf cv" and t: "cv_type cv = t" and nl: "cv_nullable cv = nl"
    and size: "cv_size cv = length vs"
    using rep by (auto simp: cv_rep_def)
  let ?cv = "(cv_put i c cv)\<lparr>cv_null_bitmap := bm, cv_has_nulls := h\<rparr>"
  show "cv_wf ?cv"
    using cv_wf_put[OF wf, of i c] i fits t nl size bm wf by (simp add: cv_wf_def)
  fix j assume j: "j < length (vs[i := if b then VNull else cell_value t c])"
  have "cv_cell ?cv j = cv_cell (cv_put i c cv) j" by (simp add: cv_cell_def)
  then have cell: "cv_cell ?cv j = (if i = j then c else cv_cell cv j)"
    using cv_put_cell[OF wf, of i j c] i j fits t size by simp
  have "cv_null_at ?cv j \<longleftrightarrow> (if i = j then b else cv_null_at cv j)"
    using bits[of j] b j nl by (auto simp: cv_null_at_def)
  then show "cv_val ?cv j = vs[i := if b then VNull else cell_value t c] ! j"
    using cell j t cv_rep_nth[OF rep, of j] by (auto simp: cv_val_def nth_list_update)
qed (use rep in \<open>auto simp: cv_rep_def\<close>)

lemma bit_in_bitmap:
  assumes "cv_wf cv" and "cv_nullable cv" and "i < cv_size cv"
  shows "i div 8 < length (cv_null_bitmap cv)"
  using assms bytes_for_bits[of i "cv_size cv"] by (simp add: cv_wf_def)

lemma cv_put_Inl:
  "cv_type cv = t \<Longrightarrow> type_size t 0 = w \<Longrightarrow> raw_set w i v cv = cv_put i (Inl (le_bytes w v)) cv"
  by (auto simp: raw_set_def cv_put_def)

lemma cv_rep_set:
  assumes "cv_rep t nl vs cv" and "i < length vs" and "cell_fits t c"
  shows "cv_rep t nl (vs[i := cell_value t c]) (cv_clear_null i (cv_put i c cv))"
proof -
  let ?bm = "if nl then bm_clear (cv_null_bitmap cv) i else cv_null_bitmap cv"
  have "cv_rep t nl (vs[i := if False then VNull else cell_value t c])
      ((cv_put i c cv)\<lparr>cv_null_bitmap := ?bm, cv_has_nulls := cv_has_nulls cv\<rparr>)"
    using assms bit_in_bitmap[of cv i]
    by (intro cv_rep_put[OF assms]) (auto simp: bm_get_clear cv_rep_def)
  moreover have "(cv_put i c cv)\<lparr>cv_null_bitmap := ?bm, cv_has_nulls := cv_has_nulls cv\<rparr> =
      cv_clear_null i (cv_put i c cv)"
    using assms(1) by (cases c) (auto simp: cv_clear_null_def cv_put_def cv_rep_def)
  ultimately show ?thesis by simp
qed

lemma cv_set_fixed_rep:
  assumes "cv_rep t nl vs cv" and "i < length vs" and "type_size t 0 = w" and "t \<noteq> VARCHAR"
    and "t = BOOL \<Longrightarrow> set (le_bytes w v) \<subseteq> {0, 1}"
  shows "\<exists>cv'. cv_set_fixed t w i v cv = Some cv' \<and>
           cv_rep t nl (vs[i := cell_val t (le_bytes w v)]) cv'"
proof -
  have "cell_fits t (Inl (le_bytes w v))" using assms by (simp add: cell_fits_def)
  from cv_rep_set[OF assms(1,2) this] show ?thesis using assms cv_rep_size[OF assms(1)]
    by (auto simp: cv_set_fixed_def cv_put_Inl cell_value_def cv_rep_def)
qed

lemma cv_set_i32_rep: "cv_rep INT32 nl vs cv \<Longrightarrow> i < length vs \<Longrightarrow>
    \<exists>cv'. cv_set_i32 i x cv = Some cv' \<and> cv_rep INT32 nl (vs[i := VI32 x]) cv'"
  and cv_set_i64_rep: "cv_rep INT64 nl vs cv \<Longrightarrow> i < length vs \<Longrightarrow>
    \<exists>cv'. cv_set_i64 i y cv = Some cv' \<and> cv_rep INT64 nl (vs[i := VI64 y]) cv'"
  and cv_set_f64_rep: "cv_rep DOUBLE nl vs cv \<Longrightarrow> i < length vs \<Longrightarrow>
    \<exists>cv'. cv_set_f64 i z cv = Some cv' \<and> cv_rep DOUBLE nl (vs[i := VF64 z]) cv'"
  and cv_set_date_rep: "cv_rep DATE nl vs cv \<Longrightarrow> i < length vs \<Longrightarrow>
    \<exists>cv'. cv_set_date i x cv = Some cv' \<and> cv_rep DATE nl (vs[i := VDate x]) cv'"
  and cv_set_timestamp_rep: "cv_rep TIMESTAMP nl vs cv \<Longrightarrow> i < length vs \<Longrightarrow>
    \<exists>cv'. cv_set_timestamp i y cv = Some cv' \<and> cv_rep TIMESTAMP nl (vs[i := VTimestamp y]) cv'"
  using cv_set_fixed_rep[of _ nl vs cv i 4 x] cv_set_fixed_rep[of _ nl vs cv i 8 y]
    cv_set_fixed_rep[of _ nl vs cv i 8 z]
  by (force simp: cv_set_i32_def cv_set_i64_def cv_set_f64_def cv_set_date_def
      cv_set_timestamp_def cell_val_def)+

lemma le_bytes_1: "le_bytes (Suc 0) (b :: u8) = [b]"
proof -
  have "b AND 0xFF = b" by (rule bit_word_eqI) (simp add: byte_bits del: bit_numeral_simps)
  then show ?thesis by (simp add: le_bytes_def)
qed

lemma cv_set_bool_rep:
  assumes "cv_rep BOOL nl vs cv" and "i < length vs"
  shows "\<exists>cv'. cv_set_bool i x cv = Some cv' \<and> cv_rep BOOL nl (vs[i := VBool x]) cv'"
  using cv_set_fixed_rep[OF assms, of 1 "if x then 1 else 0 :: u8"]
  by (auto simp: cv_set_bool_def cell_val_def le_bytes_1)

lemma cv_set_str_rep:
  assumes "cv_rep VARCHAR nl vs cv" and "i < length vs"
  shows "\<exists>cv'. cv_set_str i s cv = Some cv' \<and> cv_rep VARCHAR nl (vs[i := VStr s]) cv'"
  using cv_rep_set[OF assms, of "Inr s"] assms cv_rep_size[OF assms(1)]
  by (simp add: cv_set_str_def cv_put_def cell_fits_def cell_value_def cv_rep_def)

lemma cv_set_null_rep:
  assumes "cv_rep t True vs cv" and "i < length vs"
  shows "\<exists>cv'. cv_set_null i cv = Some cv' \<and> cv_rep t True (vs[i := VNull]) cv'"
proof -
  let ?cv = "cv\<lparr>cv_null_bitmap := bm_set (cv_null_bitmap cv) i, cv_has_nulls := True\<rparr>"
  have "cv_rep t True (vs[i := VNull]) ?cv"
  proof (rule cv_repI)
    fix j assume "j < length (vs[i := VNull])"
    then show "cv_val ?cv j = vs[i := VNull] ! j"
      using assms bit_in_bitmap[of cv i] cv_rep_nth[OF assms(1), of j] cv_rep_size[OF assms(1)]
      by (auto simp: cv_val_def cv_null_at_def bm_get_set cv_rep_def cv_cell_def nth_list_update)
  qed (use assms in \<open>auto simp: cv_rep_def cv_wf_def\<close>)
  then show ?thesis using assms cv_rep_size[OF assms(1)]
    by (auto simp: cv_set_null_def cv_rep_def)
qed

section \<open>Reading a slot\<close>

lemma cv_get_fixed_rep:
  assumes "cv_rep t nl vs cv" and "i < length vs" and "vs ! i \<noteq> VNull"
    and "type_size t 0 = w" and "t \<noteq> VARCHAR"
  shows "cv_get_fixed t w i cv = Some (raw_get w i cv)"
    and "vs ! i = cell_val t (slice (i * w) w (cv_data cv))"
proof -
  have t: "cv_type cv = t" using assms(1) by (simp add: cv_rep_def)
  then show "cv_get_fixed t w i cv = Some (raw_get w i cv)"
    using assms(3) cv_is_null_rep[OF assms(1,2)] by (simp add: cv_get_fixed_def)
  have "vs ! i = cell_value t (cv_cell cv i)"
  proof -
    have "\<not> cv_null_at cv i" using assms(3) cv_null_iff[OF assms(1,2)] by simp
    then have "cv_val cv i = cell_value t (cv_cell cv i)" using t by (simp add: cv_val_def)
    then show ?thesis using cv_rep_nth[OF assms(1,2)] by simp
  qed
  then show "vs ! i = cell_val t (slice (i * w) w (cv_data cv))"
    using t assms(4,5) by (simp add: cell_value_def cv_cell_def)
qed

lemma cv_get_i32_rep: "cv_rep INT32 nl vs cv \<Longrightarrow> i < length vs \<Longrightarrow> vs ! i = VI32 x \<Longrightarrow>
    cv_get_i32 i cv = Some x"
  and cv_get_i64_rep: "cv_rep INT64 nl vs cv \<Longrightarrow> i < length vs \<Longrightarrow> vs ! i = VI64 y \<Longrightarrow>
    cv_get_i64 i cv = Some y"
  and cv_get_f64_rep: "cv_rep DOUBLE nl vs cv \<Longrightarrow> i < length vs \<Longrightarrow> vs ! i = VF64 y \<Longrightarrow>
    cv_get_f64 i cv = Some y"
  and cv_get_date_rep: "cv_rep DATE nl vs cv \<Longrightarrow> i < length vs \<Longrightarrow> vs ! i = VDate x \<Longrightarrow>
    cv_get_date i cv = Some x"
  and cv_get_timestamp_rep: "cv_rep TIMESTAMP nl vs cv \<Longrightarrow> i < length vs \<Longrightarrow>
    vs ! i = VTimestamp y \<Longrightarrow> cv_get_timestamp i cv = Some y"
  using cv_get_fixed_rep[of _ nl vs cv i 4] cv_get_fixed_rep[of _ nl vs cv i 8]
  by (force simp: cv_get_i32_def cv_get_i64_def cv_get_f64_def cv_get_date_def
      cv_get_timestamp_def cell_val_def raw_get_def)+

lemma cv_get_str_rep:
  assumes "cv_rep VARCHAR nl vs cv" and "i < length vs" and "vs ! i = VStr s"
  shows "cv_get_str i cv = Some s"
  using assms cv_rep_nth[OF assms(1,2)] cv_rep_size[OF assms(1)]
  by (auto simp: cv_get_str_def cv_rep_def cv_val_def cell_value_def cv_cell_def split: if_splits)

definition mask_true :: "val \<Rightarrow> bool" where
  "mask_true v \<longleftrightarrow> (case v of VI32 x \<Rightarrow> x \<noteq> 0 | _ \<Rightarrow> False)"

lemma holds_INT32: "holds_type INT32 v \<longleftrightarrow> (\<exists>x. v = VI32 x)"
  by (cases v) auto

lemma mask_keeps_rep:
  assumes "cv_rep INT32 nl ms msk" and "i < length ms"
  shows "mask_keeps i msk = Some (mask_true (ms ! i))"
  using cv_rep_typed[OF assms] cv_is_null_rep[OF assms] cv_get_i32_rep[OF assms]
  by (auto simp: mask_keeps_def mask_true_def holds_INT32)

section \<open>Resizing\<close>

lemma cv_resize_fields [simp]:
  "cv_type (cv_resize n cv) = cv_type cv" "cv_nullable (cv_resize n cv) = cv_nullable cv"
  "cv_size (cv_resize n cv) = n"
  by (simp_all add: cv_resize_def Let_def)

lemma cv_resize_buffers:
  "cv_type cv = VARCHAR \<Longrightarrow> cv_str_data (cv_resize n cv) = vec_resize n '''' (cv_str_data cv)"
  "cv_type cv \<noteq> VARCHAR \<Longrightarrow>
     cv_data (cv_resize n cv) = vec_resize (n * type_size (cv_type cv) 0) 0 (cv_data cv)"
  "cv_nullable cv \<Longrightarrow>
     cv_null_bitmap (cv_resize n cv) = vec_resize ((n + 7) div 8) 0 (cv_null_bitmap cv)"
  by (simp_all add: cv_resize_def Let_def)

lemma length_vec_resize [simp]: "length (vec_resize n x xs) = n"
  by (simp add: vec_resize_def)

lemma nth_vec_resize:
  "i < n \<Longrightarrow> vec_resize n x xs ! i = (if i < length xs then xs ! i else x)"
  by (auto simp: vec_resize_def nth_append)

lemma slice_vec_resize: "i + k \<le> n \<Longrightarrow> i + k \<le> length xs \<Longrightarrow>
    slice i k (vec_resize n x xs) = slice i k xs"
  by (simp add: slice_def vec_resize_def drop_take min_def)

lemma bm_get_vec_resize:
  "i div 8 < n \<Longrightarrow> bm_get (vec_resize n 0 bm) i \<longleftrightarrow> i div 8 < length bm \<and> bm_get bm i"
  by (simp add: bm_get_bit nth_vec_resize)

lemma set_vec_resize: "set (vec_resize n x xs) \<subseteq> insert x (set xs)"
  by (auto simp: vec_resize_def dest: in_set_takeD)

lemma cv_wf_resize:
  assumes "cv_wf cv"
  shows "cv_wf (cv_resize n cv)"
  using assms set_vec_resize[of "n" 0 "cv_data cv"]
  by (auto simp: cv_wf_def cv_resize_buffers split: if_splits)

lemma cv_cell_resize:
  assumes "cv_wf cv" and "i < cv_size cv" and "i < n"
  shows "cv_cell (cv_resize n cv) i = cv_cell cv i"
  using assms slot_step[of i "cv_size cv"] slot_step[of i n]
  by (auto simp: cv_cell_def cv_wf_def cv_resize_buffers nth_vec_resize slice_vec_resize
      split: if_splits)

lemma cv_null_resize:
  assumes "cv_wf cv" and "i < n"
  shows "cv_null_at (cv_resize n cv) i \<longleftrightarrow>
           i div 8 < length (cv_null_bitmap cv) \<and> cv_null_at cv i"
  using bytes_for_bits[OF assms(2)]
  by (auto simp: cv_null_at_def cv_resize_buffers bm_get_vec_resize)

lemma cv_resize_rep:
  assumes "cv_rep t nl vs cv" and "k \<le> length vs"
  shows "cv_rep t nl (take k vs) (cv_resize k cv)"
proof (rule cv_repI)
  have wf: "cv_wf cv" using assms(1) by (simp add: cv_rep_def)
  then show "cv_wf (cv_resize k cv)" by (rule cv_wf_resize)
  fix i assume "i < length (take k vs)"
  then have i: "i < k" "i < length vs" by simp_all
  then have size: "i < cv_size cv" using cv_rep_size[OF assms(1)] by simp
  have "cv_null_at (cv_resize k cv) i = cv_null_at cv i"
    using cv_null_resize[OF wf i(1)] bit_in_bitmap[OF wf] size by (auto simp: cv_null_at_def)
  then show "cv_val (cv_resize k cv) i = take k vs ! i"
    using cv_cell_resize[OF wf size i(1)] cv_rep_nth[OF assms(1) i(2)] i
    by (simp add: cv_val_def)
qed (use assms in \<open>auto simp: cv_rep_def\<close>)

section \<open>Compacting\<close>

lemma bm_get_move_null:
  assumes "src div 8 < length bm" and "dst div 8 < length bm"
  shows "bm_get (move_null src dst bm) j = (if j = dst then bm_get bm src else bm_get bm j)"
  using assms by (auto simp: move_null_def Let_def bm_get_set bm_get_clear)

lemma length_move_null [simp]: "length (move_null src dst bm) = length bm"
  by (simp add: move_null_def Let_def)

lemma cv_move_put:
  "cv_move r w cv = (cv_put w (cv_cell cv r) cv)\<lparr>cv_null_bitmap :=
     (if cv_nullable cv then move_null r w (cv_null_bitmap cv) else cv_null_bitmap cv)\<rparr>"
  by (cases cv) (simp add: cv_move_def cv_put_def cv_cell_def Let_def)

lemma cv_move_rep:
  assumes "cv_rep t nl vs cv" and "r < length vs" and "w < length vs"
  shows "cv_rep t nl (vs[w := vs ! r]) (cv_move r w cv)"
proof -
  have fits: "cell_fits t (cv_cell cv r)" and nl: "cv_nullable cv = nl"
    using assms cv_cell_fits[of cv r] cv_rep_size[OF assms(1)] by (auto simp: cv_rep_def)
  let ?bm = "if nl then move_null r w (cv_null_bitmap cv) else cv_null_bitmap cv"
  have "cv_rep t nl (vs[w := if cv_null_at cv r then VNull else cell_value t (cv_cell cv r)])
      ((cv_put w (cv_cell cv r) cv)\<lparr>cv_null_bitmap := ?bm, cv_has_nulls := cv_has_nulls cv\<rparr>)"
    using assms bit_in_bitmap[of cv] nl cv_rep_size[OF assms(1)]
    by (intro cv_rep_put[OF assms(1,3) fits])
       (auto simp: bm_get_move_null cv_null_at_def cv_rep_def)
  moreover have "vs ! r = (if cv_null_at cv r then VNull else cell_value t (cv_cell cv r))"
    using cv_rep_nth[OF assms(1,2)] assms(1) by (simp add: cv_val_def cv_rep_def)
  moreover have "(cv_put w (cv_cell cv r) cv)\<lparr>cv_null_bitmap := ?bm, cv_has_nulls := cv_has_nulls cv\<rparr>
      = cv_move r w cv"
    using nl by (cases "cv_cell cv r") (simp_all add: cv_move_put cv_put_def)
  ultimately show ?thesis by simp
qed

lemma compact_loop_rep:
  assumes "cv_rep t nl vs cv" and "w \<le> r" and "r \<le> length vs"
    and "cv_rep INT32 mnl ms msk" and "length ms = length vs"
  shows "\<exists>cv'. compact_loop msk [r..<length vs] w cv = Some cv' \<and>
           cv_rep t nl (take w vs @ map ((!) vs) (filter (\<lambda>j. mask_true (ms ! j)) [r..<length vs])) cv'"
  using assms
proof (induction "length vs - r" arbitrary: r w vs cv)
  case 0
  then show ?case using cv_resize_rep[of t nl vs cv w] by simp
next
  case (Suc m)
  then have r: "r < length vs" by simp
  then have upt: "[r..<length vs] = r # [Suc r..<length vs]" by (simp add: upt_rec)
  have keep: "mask_keeps r msk = Some (mask_true (ms ! r))"
    using Suc.prems r by (simp add: mask_keeps_rep)
  show ?case
  proof (cases "mask_true (ms ! r)")
    case False
    then show ?thesis using Suc.hyps(1)[of vs "Suc r" cv w] Suc.hyps(2) Suc.prems r
      by (simp add: upt keep)
  next
    case True
    define cv1 where "cv1 = (if w \<noteq> r then cv_move r w cv else cv)"
    define vs1 where "vs1 = vs[w := vs ! r]"
    have rep1: "cv_rep t nl vs1 cv1" and len: "length vs1 = length vs"
      using cv_move_rep[OF Suc.prems(1) r, of w] Suc.prems r by (auto simp: cv1_def vs1_def)
    let ?P = "\<lambda>j. mask_true (ms ! j)"
    have tk: "take (w + 1) vs1 = take w vs @ [vs ! r]"
      using Suc.prems(2) r by (simp add: vs1_def take_Suc_conv_app_nth)
    have same: "map ((!) vs1) (filter ?P [Suc r..<length vs]) =
        map ((!) vs) (filter ?P [Suc r..<length vs])"
      using Suc.prems(2) by (auto simp: vs1_def)
    have "\<exists>cv'. compact_loop msk [Suc r..<length vs] (w + 1) cv1 = Some cv' \<and>
        cv_rep t nl (take (w + 1) vs1 @ map ((!) vs1) (filter ?P [Suc r..<length vs])) cv'"
      using Suc.hyps(1)[of vs1 "Suc r" cv1 "w + 1"] Suc.hyps(2) Suc.prems r rep1 len by simp
    then show ?thesis unfolding tk same by (simp add: upt keep True cv1_def[symmetric])
  qed
qed

definition keep_vals :: "val list \<Rightarrow> 'a list \<Rightarrow> 'a list" where
  "keep_vals ms xs = map ((!) xs) (filter (\<lambda>j. mask_true (ms ! j)) [0..<length xs])"

lemma cv_compact_rep:
  assumes "cv_rep t nl vs cv" and "cv_rep INT32 mnl ms msk" and "length ms = length vs"
  shows "\<exists>cv'. cv_compact_in_place msk cv = Some cv' \<and> cv_rep t nl (keep_vals ms vs) cv'"
  using compact_loop_rep[OF assms(1) _ _ assms(2,3), of 0 0] assms cv_rep_size[OF assms(1)]
    cv_rep_size[OF assms(2)]
  by (simp add: cv_compact_in_place_def keep_vals_def cv_rep_def)

section \<open>Gathering\<close>

lemma cv_wf_make: "vec_type t \<Longrightarrow> cv_wf (cv_make t n nl)"
  unfolding cv_make_def by (rule cv_wf_resize) (simp add: cv_wf_def cv_empty_def)

lemma cv_make_fields [simp]:
  "cv_type (cv_make t n nl) = t" "cv_nullable (cv_make t n nl) = nl" "cv_size (cv_make t n nl) = n"
  by (simp_all add: cv_make_def cv_empty_def)

lemma cv_make_null: "i < n \<Longrightarrow> \<not> cv_null_at (cv_make t n nl) i"
  unfolding cv_make_def using cv_null_resize[of "cv_empty t nl" i n]
  by (simp add: cv_null_at_def cv_resize_buffers bm_get_vec_resize bytes_for_bits cv_empty_def)

lemma cv_make_rep:
  "vec_type t \<Longrightarrow> \<exists>vs. cv_rep t nl vs (cv_make t n nl) \<and> length vs = n \<and> VNull \<notin> set vs"
proof -
  assume t: "vec_type t"
  let ?vs = "cv_vals (cv_make t n nl)"
  have rep: "cv_rep t nl ?vs (cv_make t n nl)" using cv_wf_make[OF t] by (simp add: cv_rep_def)
  moreover have "?vs ! i \<noteq> VNull" if "i < n" for i
    using cv_null_iff[OF rep, of i] cv_make_null[OF that] that by simp
  ultimately show ?thesis by (metis cv_make_fields(3) in_set_conv_nth length_cv_vals)
qed

lemma gather_step_put:
  assumes "cv_type out = cv_type src"
  shows "gather_step src phys (out, k) =
     ((cv_put k (cv_cell src (unat phys)) out)
        \<lparr>cv_null_bitmap := (if cv_null_at src (unat phys) then bm_set (cv_null_bitmap out) k
                            else cv_null_bitmap out),
         cv_has_nulls := (cv_null_at src (unat phys) \<or> cv_has_nulls out)\<rparr>, k + 1)"
  using assms
  by (cases out) (auto simp: gather_step_def cv_put_def cv_cell_def cv_null_at_def Let_def)

lemma gather_step_rep:
  assumes "cv_rep t nl os out" and "k < length os" and "os ! k \<noteq> VNull"
    and "cv_rep t nl vs src" and "unat phys < length vs"
  shows "\<exists>out'. gather_step src phys (out, k) = (out', k + 1) \<and>
           cv_rep t nl (os[k := vs ! unat phys]) out'"
proof -
  let ?p = "unat phys"
  have t: "cv_type src = t" "cv_nullable src = nl" "cv_wf src" "cv_size src = length vs"
    using assms(4) by (auto simp: cv_rep_def)
  have fits: "cell_fits t (cv_cell src ?p)"
    using cv_cell_fits[of src ?p] t assms(5) by simp
  have bit: "nl \<Longrightarrow> \<not> bm_get (cv_null_bitmap out) k"
    using cv_null_iff[OF assms(1,2)] assms(1,3) by (auto simp: cv_null_at_def cv_rep_def)
  have val: "vs ! ?p = (if cv_null_at src ?p then VNull else cell_value t (cv_cell src ?p))"
    using cv_rep_nth[OF assms(4,5)] t by (simp add: cv_val_def)
  have "cv_rep t nl (os[k := vs ! ?p])
      ((cv_put k (cv_cell src ?p) out)
        \<lparr>cv_null_bitmap := (if cv_null_at src ?p then bm_set (cv_null_bitmap out) k
                            else cv_null_bitmap out),
         cv_has_nulls := (cv_null_at src ?p \<or> cv_has_nulls out)\<rparr>)"
    unfolding val
    using bit bit_in_bitmap[of out k] assms(1,2) t cv_rep_size[OF assms(1)]
    by (intro cv_rep_put[OF assms(1,2) fits])
       (auto simp: bm_get_set cv_null_at_def cv_rep_def)
  then show ?thesis using gather_step_put[of out src phys k] assms(1) t by (simp add: cv_rep_def)
qed

lemma gather_fold_rep:
  assumes "cv_rep t nl vs src" and "\<forall>r\<in>set rows. unat r < length vs"
    and "cv_rep t nl os out" and "k + length rows = length os"
    and "\<forall>j. k \<le> j \<longrightarrow> j < length os \<longrightarrow> os ! j \<noteq> VNull"
  shows "cv_rep t nl (take k os @ map (\<lambda>r. vs ! unat r) rows) (fst (fold (gather_step src) rows (out, k)))"
  using assms(2-)
proof (induction rows arbitrary: os out k)
  case (Cons r rows)
  obtain out' where out': "gather_step src r (out, k) = (out', k + 1)"
      "cv_rep t nl (os[k := vs ! unat r]) out'"
    using gather_step_rep[OF Cons.prems(2) _ _ assms(1), of k r] Cons.prems by auto
  have "take (k + 1) (os[k := vs ! unat r]) = take k os @ [vs ! unat r]"
    using Cons.prems by (simp add: take_Suc_conv_app_nth)
  then show ?case
    using Cons.IH[OF _ out'(2), of "k + 1"] Cons.prems out'(1) by simp
qed simp

lemma gather_via_sel_rep:
  assumes "cv_rep t nl vs src" and "\<forall>r\<in>set (sv_for_each sel). unat r < length vs"
    and "sv_size sel = length (sv_for_each sel)"
  shows "cv_rep t nl (map (\<lambda>r. vs ! unat r) (sv_for_each sel)) (gather_via_sel src sel)"
proof -
  have src: "cv_type src = t" "cv_nullable src = nl" "vec_type t"
    using assms(1) by (auto simp: cv_rep_def cv_wf_def)
  then obtain os where "cv_rep t nl os (cv_make t (sv_size sel) nl)" "length os = sv_size sel"
      "VNull \<notin> set os"
    using cv_make_rep by blast
  then show ?thesis
    using gather_fold_rep[OF assms(1,2), of os _ 0] assms(3) src nth_mem[of _ os]
    by (fastforce simp: gather_via_sel_def)
qed

section \<open>Dropping and appending\<close>

lemma bm_get_shift:
  assumes "0 < n" and "\<forall>i<k. (i + n) div 8 < length bm"
  shows "bm_get (fold (\<lambda>i. move_null (i + n) i) [0..<k] bm) j =
           (if j < k then bm_get bm (j + n) else bm_get bm j)"
    and "length (fold (\<lambda>i. move_null (i + n) i) [0..<k] bm) = length bm"
proof -
  have len: "length (fold (\<lambda>i. move_null (i + n) i) is b) = length b" for "is" b
    by (induction "is" arbitrary: b) simp_all
  show "length (fold (\<lambda>i. move_null (i + n) i) [0..<k] bm) = length bm" by (rule len)
  show "bm_get (fold (\<lambda>i. move_null (i + n) i) [0..<k] bm) j =
           (if j < k then bm_get bm (j + n) else bm_get bm j)"
    using assms(2)
  proof (induction k arbitrary: j)
    case (Suc k)
    have "k div 8 \<le> (k + n) div 8" by (simp add: div_le_mono)
    then have "(k + n) div 8 < length bm" "k div 8 < length bm"
      using Suc.prems le_less_trans by blast+
    then show ?case using Suc assms(1)
      by (auto simp: bm_get_move_null len less_Suc_eq)
  qed simp
qed

lemma blit_front_slot:
  assumes "length d = (n + m) * e" and "i < m"
  shows "slice (i * e) e (take (m * e) (blit 0 (slice (n * e) (m * e) d) d)) =
           slice ((i + n) * e) e d"
proof -
  have len: "length (slice (n * e) (m * e) d) = m * e"
    using assms(1) by (simp add: algebra_simps)
  then have "take (m * e) (blit 0 (slice (n * e) (m * e) d) d) = slice (n * e) (m * e) d"
    by (simp add: blit_def)
  moreover have "i * e + e \<le> m * e" using slot_step[OF assms(2)] .
  ultimately show ?thesis by (simp add: slice_slice algebra_simps)
qed

text \<open>The buffers of \<open>drop_prefix\<close> before they are cut to the new size.\<close>

definition cv_shifted :: "nat \<Rightarrow> column_vector \<Rightarrow> column_vector" where
  "cv_shifted n cv =
     (let m = cv_size cv - n; e = type_size (cv_type cv) 0 in
      cv\<lparr>cv_data := (if m > 0 \<and> cv_type cv \<noteq> VARCHAR
           then blit 0 (slice (n * e) (m * e) (cv_data cv)) (cv_data cv) else cv_data cv),
         cv_str_data := (if cv_type cv = VARCHAR then drop n (cv_str_data cv) else cv_str_data cv),
         cv_null_bitmap := (if cv_nullable cv
           then fold (\<lambda>i. move_null (i + n) i) [0..<m] (cv_null_bitmap cv)
           else cv_null_bitmap cv)\<rparr>)"

lemma cv_shifted_fields [simp]:
  "cv_type (cv_shifted n cv) = cv_type cv" "cv_nullable (cv_shifted n cv) = cv_nullable cv"
  by (simp_all add: cv_shifted_def Let_def)

lemma cv_drop_prefix_shifted:
  assumes "cv_wf cv" and "0 < n" and "n \<le> cv_size cv"
  shows "cv_drop_prefix n cv = Some (cv_resize (cv_size cv - n) (cv_shifted n cv))"
  using assms
  by (cases cv) (auto simp: cv_drop_prefix_def cv_shifted_def cv_resize_def Let_def cv_wf_def
      vec_resize_def)

lemma cv_shifted_cell:
  assumes "cv_wf cv" and "n \<le> cv_size cv" and "i < cv_size cv - n"
  shows "cv_cell (cv_resize (cv_size cv - n) (cv_shifted n cv)) i = cv_cell cv (i + n)"
proof (cases "cv_type cv = VARCHAR")
  case True
  then show ?thesis using assms
    by (simp add: cv_cell_def cv_resize_buffers nth_vec_resize)
       (simp add: cv_shifted_def Let_def add.commute cv_wf_def)
next
  case False
  let ?m = "cv_size cv - n" and ?e = "type_size (cv_type cv) 0"
  have len: "length (cv_data cv) = (n + ?m) * ?e" using assms False by (simp add: cv_wf_def)
  have "n < cv_size cv" using assms(3) by linarith
  then have data:
      "cv_data (cv_shifted n cv) = blit 0 (slice (n * ?e) (?m * ?e) (cv_data cv)) (cv_data cv)"
    using False by (simp add: cv_shifted_def Let_def)
  moreover have "?m * ?e \<le> length (cv_data (cv_shifted n cv))"
    using len by (simp add: data blit_def algebra_simps)
  ultimately show ?thesis using False blit_front_slot[OF len assms(3)]
    by (simp add: cv_cell_def cv_resize_buffers vec_resize_def)
qed

lemma cv_shifted_null:
  assumes "cv_wf cv" and "0 < n" and "n \<le> cv_size cv" and "i < cv_size cv - n"
  shows "cv_null_at (cv_resize (cv_size cv - n) (cv_shifted n cv)) i \<longleftrightarrow> cv_null_at cv (i + n)"
proof (cases "cv_nullable cv")
  case True
  let ?m = "cv_size cv - n"
  have bits: "\<forall>i<?m. (i + n) div 8 < length (cv_null_bitmap cv)"
    using bit_in_bitmap[OF assms(1) True] by simp
  have "i div 8 < (?m + 7) div 8" using assms(4) by (simp add: bytes_for_bits)
  moreover have "i div 8 < length (cv_null_bitmap cv)"
    using bit_in_bitmap[OF assms(1) True, of i] assms by simp
  ultimately show ?thesis
    using True bm_get_shift(1)[OF assms(2) bits, of i] bm_get_shift(2)[OF assms(2) bits] assms(4)
    by (simp add: cv_null_at_def cv_resize_buffers bm_get_vec_resize)
       (simp add: cv_shifted_def Let_def)
qed (simp add: cv_null_at_def)

lemma cv_shifted_wf:
  assumes "cv_wf cv"
  shows "cv_wf (cv_resize m (cv_shifted n cv))"
proof -
  have "set (cv_data (cv_shifted n cv)) \<subseteq> set (cv_data cv)"
    by (auto simp: cv_shifted_def Let_def blit_def slice_def dest: in_set_takeD in_set_dropD)
  then have "set (vec_resize k 0 (cv_data (cv_shifted n cv))) \<subseteq> insert 0 (set (cv_data cv))" for k
    using set_vec_resize[of k 0 "cv_data (cv_shifted n cv)"] by blast
  then show ?thesis using assms by (auto simp: cv_wf_def cv_resize_buffers)
qed

lemma cv_drop_prefix_rep:
  assumes "cv_rep t nl vs cv" and "n \<le> length vs"
  shows "\<exists>cv'. cv_drop_prefix n cv = Some cv' \<and> cv_rep t nl (drop n vs) cv'"
proof (cases "n = 0")
  case True
  then show ?thesis using assms by (simp add: cv_drop_prefix_def)
next
  case False
  have cv: "cv_wf cv" "cv_type cv = t" "cv_nullable cv = nl" and size: "cv_size cv = length vs"
    using assms(1) by (auto simp: cv_rep_def)
  let ?cv = "cv_resize (cv_size cv - n) (cv_shifted n cv)"
  have "cv_rep t nl (drop n vs) ?cv"
  proof (rule cv_repI)
    fix i assume "i < length (drop n vs)"
    then have i: "i < cv_size cv - n" "i + n < length vs" using size by simp_all
    then show "cv_val ?cv i = drop n vs ! i"
      using cv_shifted_cell[OF cv(1) _ i(1)] cv_shifted_null[OF cv(1) _ _ i(1)] False assms(2)
        cv_rep_nth[OF assms(1) i(2)] size by (simp add: cv_val_def add.commute)
  qed (use cv size in \<open>simp_all add: cv_shifted_wf\<close>)
  then show ?thesis using cv_drop_prefix_shifted[OF cv(1), of n] False assms(2) size by simp
qed

lemma cv_rep_vals: "cv_wf cv \<Longrightarrow> cv_rep (cv_type cv) (cv_nullable cv) (cv_vals cv) cv"
  by (simp add: cv_rep_def)

interpretation vec: cut_seq cv_wf cv_vals "\<lambda>k cv. Some (cv_resize k cv)" cv_drop_prefix
proof
  show "\<exists>s'. Some (cv_resize k s) = Some s' \<and> cv_wf s' \<and> cv_vals s' = take k (cv_vals s)"
    if "cv_wf s" "k \<le> length (cv_vals s)" for s k
    using cv_resize_rep[OF cv_rep_vals[OF that(1)] that(2)] by (simp add: cv_rep_def)
  show "\<exists>s'. cv_drop_prefix n s = Some s' \<and> cv_wf s' \<and> cv_vals s' = drop n (cv_vals s)"
    if "cv_wf s" "n \<le> length (cv_vals s)" for s n
    using cv_drop_prefix_rep[OF cv_rep_vals[OF that(1)] that(2)] by (auto simp: cv_rep_def)
qed

text \<open>
  Appending relies on the bits past the end being clear, as they are in a vector that has only
  grown. \<open>resize\<close> to a smaller size leaves them as they are.
\<close>

definition cv_tail_clear :: "column_vector \<Rightarrow> bool" where
  "cv_tail_clear cv \<longleftrightarrow> (cv_nullable cv \<longrightarrow>
     (\<forall>i. cv_size cv \<le> i \<longrightarrow> i div 8 < length (cv_null_bitmap cv) \<longrightarrow> \<not> bm_get (cv_null_bitmap cv) i))"

lemma cv_grow_null:
  assumes "cv_wf cv" and "cv_tail_clear cv" and "cv_nullable cv"
  shows "i div 8 < (cv_size cv + 1 + 7) div 8 \<Longrightarrow>
     bm_get (cv_null_bitmap (cv_resize (cv_size cv + 1) cv)) i \<longleftrightarrow>
       i < cv_size cv \<and> bm_get (cv_null_bitmap cv) i"
  using assms bit_in_bitmap[of cv i]
  by (auto simp: cv_resize_buffers bm_get_vec_resize cv_tail_clear_def not_le[symmetric])

lemma cv_grow_rep:
  assumes "cv_rep t nl vs cv" and "cv_tail_clear cv"
  shows "\<exists>x. cv_rep t nl (vs @ [x]) (cv_resize (cv_size cv + 1) cv) \<and> x \<noteq> VNull"
    and "cv_tail_clear (cv_resize (cv_size cv + 1) cv)"
proof -
  have cv: "cv_wf cv" "cv_type cv = t" "cv_nullable cv = nl" and size: "cv_size cv = length vs"
    using assms(1) by (auto simp: cv_rep_def)
  let ?cv = "cv_resize (cv_size cv + 1) cv"
  have wf: "cv_wf ?cv" using cv_wf_resize[OF cv(1)] .
  have bits: "bm_get (cv_null_bitmap ?cv) i \<longleftrightarrow> i < cv_size cv \<and> bm_get (cv_null_bitmap cv) i"
    if "i div 8 < (cv_size cv + 1 + 7) div 8" nl for i
    using cv_grow_null[OF cv(1) assms(2)] cv(3) that by blast
  then show "cv_tail_clear ?cv" using wf cv by (auto simp: cv_tail_clear_def cv_wf_def)
  let ?x = "cv_val ?cv (cv_size cv)"
  have rep: "cv_rep t nl (vs @ [?x]) ?cv"
  proof (rule cv_repI)
    fix i assume "i < length (vs @ [?x])"
    then have i: "i < cv_size cv \<or> i = cv_size cv" and b: "i div 8 < (cv_size cv + 1 + 7) div 8"
      using size by (auto simp: bytes_for_bits)
    show "cv_val ?cv i = (vs @ [?x]) ! i"
    proof (cases "i < cv_size cv")
      case True
      then have "cv_null_at ?cv i = cv_null_at cv i" "cv_cell ?cv i = cv_cell cv i"
        using bits[OF b] cv cv_cell_resize[OF cv(1) True] by (auto simp: cv_null_at_def)
      then show ?thesis using True size cv_rep_nth[OF assms(1), of i]
        by (simp add: cv_val_def nth_append)
    qed (use i size in \<open>simp add: nth_append\<close>)
  qed (use wf cv size in simp_all)
  have "\<not> cv_null_at ?cv (cv_size cv)"
    using bits[of "cv_size cv"] cv bytes_for_bits[of "cv_size cv" "cv_size cv + 1"]
    by (auto simp: cv_null_at_def)
  then have "?x \<noteq> VNull" using cv_null_iff[OF rep, of "cv_size cv"] size by (simp add: nth_append)
  with rep show "\<exists>x. cv_rep t nl (vs @ [x]) ?cv \<and> x \<noteq> VNull" by blast
qed

text \<open>\<open>cv_grows t nl vs cv\<close>: a vector that has been built by appending \<open>vs\<close>.\<close>

definition cv_grows :: "type_id \<Rightarrow> bool \<Rightarrow> val list \<Rightarrow> column_vector \<Rightarrow> bool" where
  "cv_grows t nl vs cv \<longleftrightarrow> cv_rep t nl vs cv \<and> cv_tail_clear cv"

lemma cv_grows_put:
  assumes "cv_grows t nl vs cv" and "cell_fits t c"
  shows "cv_grows t nl (vs @ [cell_value t c]) (cv_put (cv_size cv) c (cv_resize (cv_size cv + 1) cv))"
proof -
  let ?cv = "cv_resize (cv_size cv + 1) cv"
  have grown: "cv_rep t nl vs cv" "cv_tail_clear cv" using assms(1) by (simp_all add: cv_grows_def)
  obtain x where x: "cv_rep t nl (vs @ [x]) ?cv" "x \<noteq> VNull"
    using cv_grow_rep(1)[OF grown] by blast
  have tail: "cv_tail_clear ?cv" using cv_grow_rep(2)[OF grown] .
  have size: "cv_size cv = length vs" using assms(1) by (auto simp: cv_grows_def cv_rep_def)
  have bit: "nl \<Longrightarrow> \<not> bm_get (cv_null_bitmap ?cv) (length vs)"
    using cv_null_iff[OF x(1), of "length vs"] x by (auto simp: cv_null_at_def cv_rep_def)
  have "cv_rep t nl ((vs @ [x])[length vs := if False then VNull else cell_value t c])
      ((cv_put (length vs) c ?cv)\<lparr>cv_null_bitmap := cv_null_bitmap ?cv, cv_has_nulls := cv_has_nulls ?cv\<rparr>)"
    by (rule cv_rep_put[OF x(1) _ assms(2)]) (use bit in auto)
  moreover have "(cv_put (length vs) c ?cv)\<lparr>cv_null_bitmap := cv_null_bitmap ?cv,
      cv_has_nulls := cv_has_nulls ?cv\<rparr> = cv_put (length vs) c ?cv"
    by (cases c) (simp_all add: cv_put_def)
  moreover have "cv_tail_clear (cv_put (length vs) c ?cv)"
    using tail by (simp add: cv_tail_clear_def)
  ultimately show ?thesis using size by (simp add: cv_grows_def)
qed

lemma cv_append_fixed_grows:
  assumes "cv_grows t nl vs cv" and "type_size t 0 = w" and "t \<noteq> VARCHAR"
    and "t = BOOL \<Longrightarrow> set (le_bytes w v) \<subseteq> {0, 1}"
  shows "\<exists>cv'. cv_append_fixed t w v cv = Some cv' \<and>
           cv_grows t nl (vs @ [cell_val t (le_bytes w v)]) cv'"
proof -
  have "cell_fits t (Inl (le_bytes w v))" using assms by (simp add: cell_fits_def)
  from cv_grows_put[OF assms(1) this] show ?thesis using assms
    by (auto simp: cv_append_fixed_def cv_put_Inl cell_value_def cv_grows_def cv_rep_def)
qed

lemma cv_append_i32_grows: "cv_grows INT32 nl vs cv \<Longrightarrow>
    \<exists>cv'. cv_append_i32 x cv = Some cv' \<and> cv_grows INT32 nl (vs @ [VI32 x]) cv'"
  and cv_append_i64_grows: "cv_grows INT64 nl vs cv \<Longrightarrow>
    \<exists>cv'. cv_append_i64 y cv = Some cv' \<and> cv_grows INT64 nl (vs @ [VI64 y]) cv'"
  and cv_append_f64_grows: "cv_grows DOUBLE nl vs cv \<Longrightarrow>
    \<exists>cv'. cv_append_f64 z cv = Some cv' \<and> cv_grows DOUBLE nl (vs @ [VF64 z]) cv'"
  and cv_append_date_grows: "cv_grows DATE nl vs cv \<Longrightarrow>
    \<exists>cv'. cv_append_date x cv = Some cv' \<and> cv_grows DATE nl (vs @ [VDate x]) cv'"
  and cv_append_timestamp_grows: "cv_grows TIMESTAMP nl vs cv \<Longrightarrow>
    \<exists>cv'. cv_append_timestamp y cv = Some cv' \<and> cv_grows TIMESTAMP nl (vs @ [VTimestamp y]) cv'"
  using cv_append_fixed_grows[of _ nl vs cv 4 x] cv_append_fixed_grows[of _ nl vs cv 8 y]
    cv_append_fixed_grows[of _ nl vs cv 8 z]
  by (force simp: cv_append_i32_def cv_append_i64_def cv_append_f64_def cv_append_date_def
      cv_append_timestamp_def cell_val_def)+

lemma cv_append_bool_grows:
  assumes "cv_grows BOOL nl vs cv"
  shows "\<exists>cv'. cv_append_bool x cv = Some cv' \<and> cv_grows BOOL nl (vs @ [VBool x]) cv'"
  using cv_append_fixed_grows[OF assms, of 1 "if x then 1 else 0 :: u8"]
  by (auto simp: cv_append_bool_def cell_val_def le_bytes_1)

lemma cv_append_str_grows:
  assumes "cv_grows VARCHAR nl vs cv"
  shows "\<exists>cv'. cv_append_str s cv = Some cv' \<and> cv_grows VARCHAR nl (vs @ [VStr s]) cv'"
proof -
  have cv: "cv_type cv = VARCHAR" "length (cv_str_data cv) = cv_size cv"
    using assms by (auto simp: cv_grows_def cv_rep_def cv_wf_def)
  then have "cv_append_str s cv = Some (cv_put (cv_size cv) (Inr s) (cv_resize (cv_size cv + 1) cv))"
    by (cases cv) (auto simp: cv_append_str_def cv_put_def cv_resize_def Let_def vec_resize_def)
  then show ?thesis using cv_grows_put[OF assms, of "Inr s"] by (simp add: cell_fits_def cell_value_def)
qed

lemma cv_append_null_grows:
  assumes "cv_grows t True vs cv"
  shows "\<exists>cv'. cv_append_null cv = Some cv' \<and> cv_grows t True (vs @ [VNull]) cv'"
proof -
  let ?cv = "cv_resize (cv_size cv + 1) cv"
  have grown: "cv_rep t True vs cv" "cv_tail_clear cv" using assms by (simp_all add: cv_grows_def)
  obtain x where x: "cv_rep t True (vs @ [x]) ?cv"
    using cv_grow_rep(1)[OF grown] by blast
  have tail: "cv_tail_clear ?cv" using cv_grow_rep(2)[OF grown] .
  have cv: "cv_nullable cv" "cv_size cv = length vs" using assms by (auto simp: cv_grows_def cv_rep_def)
  obtain cv' where cv': "cv_set_null (length vs) ?cv = Some cv'"
      "cv_rep t True ((vs @ [x])[length vs := VNull]) cv'"
    using cv_set_null_rep[OF x, of "length vs"] by auto
  have wf: "cv_wf ?cv" using x by (simp add: cv_rep_def)
  have "bit_in": "length vs div 8 < length (cv_null_bitmap ?cv)"
    using bit_in_bitmap[OF wf, of "length vs"] cv by simp
  have "cv_append_null cv = Some cv'"
    using cv' cv by (auto simp: cv_append_null_def cv_set_null_def Let_def)
  moreover have "cv_tail_clear cv'"
    using cv' tail cv "bit_in" by (auto simp: cv_set_null_def cv_tail_clear_def bm_get_set)
  ultimately show ?thesis using cv' by (simp add: cv_grows_def)
qed

lemma cv_empty_grows: "vec_type t \<Longrightarrow> cv_grows t nl [] (cv_empty t nl)"
  by (simp add: cv_grows_def cv_rep_def cv_wf_def cv_empty_def cv_vals_def cv_tail_clear_def)

text \<open>
  After a shrinking \<open>resize\<close> the law fails: the null bit of a row that was cut off comes back
  with the next value appended.
\<close>

lemma append_after_resize_reads_null:
  defines "cv \<equiv> the (cv_append_null (the (cv_append_i32 1 (cv_empty INT32 True))))"
  shows "cv_vals cv = [VI32 1, VNull]"
    and "map_option cv_vals (cv_append_i32 7 (cv_resize 1 cv)) = Some [VI32 1, VNull]"
  unfolding cv_def
  by (simp_all add: cv_append_i32_def cv_append_fixed_def cv_append_null_def cv_empty_def
      cv_resize_def Let_def vec_resize_def raw_set_def cv_vals_def cv_val_def cv_null_at_def
      cell_value_def cv_cell_def cell_val_def bm_set_def bm_get_def blit_def slice_def upt_rec)

end
