(* ===== verification/Chunk.thy ===== *)
theory Chunk
  imports Column_Vector
begin

text \<open>
  Chunks (\<^verbatim>\<open>src/src/executor/chunk.h\<close>): column vectors of one length under an
  optional selection vector. The abstraction of a chunk is the list of its logical rows; the
  lemmas say what every operation does to that list.
\<close>

section \<open>Operations\<close>

record chunk =
  ck_row_count :: nat
  ck_columns :: "column_vector list"
  ck_sel :: "selection_vector option"

definition ck_new :: "nat \<Rightarrow> column_vector list \<Rightarrow> chunk option" where
  "ck_new row_count columns =
     (if \<forall>c\<in>set columns. cv_size c = row_count
      then Some \<lparr> ck_row_count = row_count, ck_columns = columns, ck_sel = None \<rparr> else None)"

definition ck_logical_size :: "chunk \<Rightarrow> nat" where
  "ck_logical_size c = (case ck_sel c of Some sel \<Rightarrow> sv_size sel | None \<Rightarrow> ck_row_count c)"

definition ck_set_sel :: "selection_vector \<Rightarrow> chunk \<Rightarrow> chunk option" where
  "ck_set_sel sv c =
     (if unat (sv_row_count sv) = ck_row_count c then Some (c\<lparr>ck_sel := Some sv\<rparr>) else None)"

definition ck_resize :: "nat \<Rightarrow> chunk \<Rightarrow> chunk option" where
  "ck_resize k c = (case ck_sel c of
       Some sel \<Rightarrow> if k \<le> sv_size sel then Some (c\<lparr>ck_sel := Some (sv_truncate k sel)\<rparr>) else None
     | None \<Rightarrow> if k \<le> ck_row_count c
               then Some (c\<lparr>ck_columns := map (cv_resize k) (ck_columns c), ck_row_count := k\<rparr>)
               else None)"

definition ck_drop_prefix :: "nat \<Rightarrow> chunk \<Rightarrow> chunk option" where
  "ck_drop_prefix n c = (case ck_sel c of
       Some sel \<Rightarrow> if n \<le> sv_size sel
                   then map_option (\<lambda>sel'. c\<lparr>ck_sel := Some sel'\<rparr>) (sv_drop_prefix n sel) else None
     | None \<Rightarrow> if n \<le> ck_row_count c
               then map_option (\<lambda>cols. c\<lparr>ck_columns := cols, ck_row_count := ck_row_count c - n\<rparr>)
                      (those (map (cv_drop_prefix n) (ck_columns c)))
               else None)"

definition ck_compact_in_place :: "column_vector \<Rightarrow> chunk \<Rightarrow> chunk option" where
  "ck_compact_in_place msk c =
     (if ck_sel c = None \<and> cv_size msk = ck_row_count c
      then map_option (\<lambda>cols. c\<lparr>ck_columns := cols,
                                ck_row_count := (if cols = [] then 0 else cv_size (hd cols))\<rparr>)
             (those (map (cv_compact_in_place msk) (ck_columns c)))
      else None)"

text \<open>The rows of a selection that a msk keeps: \<open>k\<close> counts the rows visited.\<close>

fun keep_rows :: "column_vector \<Rightarrow> nat \<Rightarrow> u32 list \<Rightarrow> u32 list option" where
  "keep_rows msk k [] = Some []"
| "keep_rows msk k (phys # rest) =
     do { keep \<leftarrow> mask_keeps k msk;
          more \<leftarrow> keep_rows msk (k + 1) rest;
          Some (if keep then phys # more else more) }"

definition ck_compact_from_sel :: "column_vector \<Rightarrow> chunk \<Rightarrow> chunk option" where
  "ck_compact_from_sel msk c = (case ck_sel c of
       None \<Rightarrow> None
     | Some sel \<Rightarrow>
         if cv_size msk = sv_size sel
         then do { keep \<leftarrow> keep_rows msk 0 (sv_for_each sel);
                   let keep_sel = sv_from_dense keep (word_of_nat (ck_row_count c));
                   Some (c\<lparr>ck_columns := map (\<lambda>col. gather_via_sel col keep_sel) (ck_columns c),
                           ck_row_count := sv_size keep_sel, ck_sel := None\<rparr>) }
         else None)"

definition ck_materialize :: "chunk \<Rightarrow> chunk" where
  "ck_materialize c = (case ck_sel c of
       None \<Rightarrow> c
     | Some sel \<Rightarrow> c\<lparr>ck_columns := map (\<lambda>col. gather_via_sel col sel) (ck_columns c),
                     ck_row_count := sv_size sel, ck_sel := None\<rparr>)"

section \<open>The rows of a chunk\<close>

definition ck_phys :: "chunk \<Rightarrow> nat list" where
  "ck_phys c = (case ck_sel c of None \<Rightarrow> [0..<ck_row_count c] | Some sel \<Rightarrow> map unat (sv_for_each sel))"

definition ck_row :: "chunk \<Rightarrow> nat \<Rightarrow> val list" where
  "ck_row c r = map (\<lambda>col. cv_val col r) (ck_columns c)"

definition ck_rows :: "chunk \<Rightarrow> val list list" where
  "ck_rows c = map (ck_row c) (ck_phys c)"

text \<open>The type and nullability of each column.\<close>

type_synonym shape = "(type_id \<times> bool) list"

definition ck_shape :: "chunk \<Rightarrow> shape" where
  "ck_shape c = map (\<lambda>col. (cv_type col, cv_nullable col)) (ck_columns c)"

text \<open>
  Row counts stay below \<open>2 ^ 32 - 7\<close>: the code casts them to \<open>u32\<close> and rounds them up to
  whole bytes.
\<close>

definition ck_ok :: "chunk \<Rightarrow> bool" where
  "ck_ok c \<longleftrightarrow>
     (\<forall>col\<in>set (ck_columns c). cv_wf col \<and> cv_size col = ck_row_count c) \<and>
     ck_row_count c \<le> 4294967288 \<and>
     (case ck_sel c of None \<Rightarrow> True
      | Some sel \<Rightarrow> sv_ok sel \<and> unat (sv_row_count sel) = ck_row_count c \<and>
                    sv_size sel \<le> 4294967288)"

lemma ck_phys_bound: "ck_ok c \<Longrightarrow> r \<in> set (ck_phys c) \<Longrightarrow> r < ck_row_count c"
  by (auto simp: ck_ok_def ck_phys_def sv_ok_def word_less_nat_alt split: option.splits)

lemma length_ck_rows: "length (ck_rows c) = length (ck_phys c)"
  by (simp add: ck_rows_def)

lemma ck_logical_size: "ck_ok c \<Longrightarrow> ck_logical_size c = length (ck_rows c)"
  by (auto simp: ck_ok_def ck_logical_size_def length_ck_rows ck_phys_def sv_ok_def split: option.splits)

text \<open>New columns that hold the values of chosen rows.\<close>

definition cols_pick :: "nat list \<Rightarrow> column_vector list \<Rightarrow> column_vector list \<Rightarrow> bool" where
  "cols_pick is cols cols' \<longleftrightarrow>
     list_all2 (\<lambda>col col'. cv_rep (cv_type col) (cv_nullable col) (map (cv_val col) is) col') cols cols'"

lemma cols_pick_rows:
  assumes "cols_pick is cols cols'" and "k < length is"
  shows "map (\<lambda>col. cv_val col k) cols' = map (\<lambda>col. cv_val col (is ! k)) cols"
  using assms(1) unfolding cols_pick_def
proof (induction rule: list_all2_induct)
  case (Cons col cols col' cols')
  then show ?case using cv_rep_nth[of _ _ _ col' k] assms(2) by fastforce
qed simp

lemma ck_pick:
  assumes "cols_pick is (ck_columns c) cols'" and "length is \<le> 4294967288"
  defines "c' \<equiv> \<lparr> ck_row_count = length is, ck_columns = cols', ck_sel = None \<rparr>"
  shows "ck_ok c'" and "ck_shape c' = ck_shape c" and "ck_rows c' = map (ck_row c) is"
proof -
  have each: "cv_wf col \<and> cv_size col = length is" if "col \<in> set cols'" for col
    using assms(1) that unfolding cols_pick_def
    by (induction rule: list_all2_induct) (auto dest: cv_rep_size, auto simp: cv_rep_def)
  then show "ck_ok c'" using assms(2) by (simp add: c'_def ck_ok_def)
  show "ck_shape c' = ck_shape c"
    using assms(1) unfolding cols_pick_def c'_def ck_shape_def
    by (induction rule: list_all2_induct) (auto simp: cv_rep_def)
  show "ck_rows c' = map (ck_row c) is"
    using cols_pick_rows[OF assms(1)]
    by (auto simp: c'_def ck_rows_def ck_row_def ck_phys_def intro!: nth_equalityI)
qed

lemma those_list_all2:
  assumes "\<And>x. x \<in> set xs \<Longrightarrow> \<exists>y. f x = Some y \<and> P x y"
  shows "\<exists>ys. those (map f xs) = Some ys \<and> list_all2 P xs ys"
  using assms
proof (induction xs)
  case (Cons x xs)
  then obtain y ys where "f x = Some y" "P x y" "those (map f xs) = Some ys" "list_all2 P xs ys"
    by (metis list.set_intros)
  then show ?case by simp
qed simp

lemma cv_val_map: "cv_wf col \<Longrightarrow> cv_vals col = map (cv_val col) [0..<cv_size col]"
  by (simp add: cv_vals_def)

lemma ck_resize_rows:
  assumes "ck_ok c" and "k \<le> length (ck_rows c)"
  shows "\<exists>c'. ck_resize k c = Some c' \<and> ck_ok c' \<and> ck_shape c' = ck_shape c \<and>
           ck_rows c' = take k (ck_rows c)"
proof (cases "ck_sel c")
  case (Some sel)
  then have sel: "sv_ok sel" "unat (sv_row_count sel) = ck_row_count c" and k: "k \<le> sv_size sel"
    using assms by (auto simp: ck_ok_def length_ck_rows ck_phys_def sv_ok_def)
  define c' where "c' = c\<lparr>ck_sel := Some (sv_truncate k sel)\<rparr>"
  have "ck_ok c'" "ck_shape c' = ck_shape c"
    using assms(1) Some sel sv_ok_truncate[OF sel(1)]
    by (simp_all add: c'_def ck_ok_def ck_shape_def sv_size_truncate min.coboundedI2)
  moreover have "ck_rows c' = take k (ck_rows c)"
    using Some sv_for_each_truncate[OF sel(1)]
    by (simp add: c'_def ck_rows_def ck_phys_def ck_row_def take_map)
  ultimately show ?thesis using Some k by (simp add: ck_resize_def c'_def)
next
  case None
  then have k: "k \<le> ck_row_count c" using assms by (simp add: length_ck_rows ck_phys_def)
  have cols: "cols_pick [0..<k] (ck_columns c) (map (cv_resize k) (ck_columns c))"
  proof -
    have "cv_rep (cv_type col) (cv_nullable col) (map (cv_val col) [0..<k]) (cv_resize k col)"
      if "col \<in> set (ck_columns c)" for col
    proof -
      have col: "cv_wf col" "cv_size col = ck_row_count c" using that assms(1) by (auto simp: ck_ok_def)
      then have "take k (cv_vals col) = map (cv_val col) [0..<k]"
        using k by (simp add: cv_vals_def take_map)
      then show ?thesis using cv_resize_rep[OF cv_rep_vals[OF col(1)], of k] col k by simp
    qed
    then show ?thesis by (simp add: cols_pick_def list_all2_conv_all_nth)
  qed
  have c': "ck_resize k c = Some \<lparr> ck_row_count = length [0..<k],
      ck_columns = map (cv_resize k) (ck_columns c), ck_sel = None \<rparr>"
    using None k by (cases c) (simp add: ck_resize_def)
  have "take k (ck_rows c) = map (ck_row c) [0..<k]"
    using None k by (simp add: ck_rows_def ck_phys_def take_map)
  then show ?thesis using ck_pick[OF cols] c' k assms(1) by (auto simp: ck_ok_def)
qed

lemma ck_drop_prefix_rows:
  assumes "ck_ok c" and "n \<le> length (ck_rows c)"
  shows "\<exists>c'. ck_drop_prefix n c = Some c' \<and> ck_ok c' \<and> ck_shape c' = ck_shape c \<and>
           ck_rows c' = drop n (ck_rows c)"
proof (cases "ck_sel c")
  case (Some sel)
  then have sel: "sv_ok sel" "unat (sv_row_count sel) = ck_row_count c"
    and n: "n \<le> sv_size sel" "n \<le> length (sv_for_each sel)"
    using assms by (auto simp: ck_ok_def length_ck_rows ck_phys_def sv_ok_def)
  obtain sel' where sel': "sv_drop_prefix n sel = Some sel'" "sv_ok sel'"
      "sv_row_count sel' = sv_row_count sel" "sv_for_each sel' = drop n (sv_for_each sel)"
    using sv_drop_prefix_spec[OF sel(1) n(2)] by blast
  define c' where "c' = c\<lparr>ck_sel := Some sel'\<rparr>"
  have "ck_ok c'" "ck_shape c' = ck_shape c"
    using assms(1) Some sel sel'
    by (simp_all add: c'_def ck_ok_def ck_shape_def sv_ok_def le_diff_conv trans_le_add1)
  moreover have "ck_rows c' = drop n (ck_rows c)"
    using Some sel' by (simp add: c'_def ck_rows_def ck_phys_def ck_row_def drop_map)
  ultimately show ?thesis using Some n sel' by (simp add: ck_drop_prefix_def c'_def)
next
  case None
  let ?is = "[n..<ck_row_count c]"
  have n: "n \<le> ck_row_count c" using None assms by (simp add: length_ck_rows ck_phys_def)
  let ?P = "\<lambda>col. cv_rep (cv_type col) (cv_nullable col) (map (cv_val col) ?is)"
  have each: "\<exists>col'. cv_drop_prefix n col = Some col' \<and> ?P col col'"
    if "col \<in> set (ck_columns c)" for col
  proof -
    have col: "cv_wf col" "cv_size col = ck_row_count c" using that assms(1) by (auto simp: ck_ok_def)
    then have "drop n (cv_vals col) = map (cv_val col) ?is" by (simp add: cv_vals_def drop_map)
    then show ?thesis using cv_drop_prefix_rep[OF cv_rep_vals[OF col(1)], of n] col n by simp
  qed
  obtain cols where cols: "those (map (cv_drop_prefix n) (ck_columns c)) = Some cols"
      "cols_pick ?is (ck_columns c) cols"
    using those_list_all2[of "ck_columns c" "cv_drop_prefix n" ?P, OF each] unfolding cols_pick_def
    by blast
  have c': "ck_drop_prefix n c = Some \<lparr> ck_row_count = length ?is, ck_columns = cols, ck_sel = None \<rparr>"
    using None n cols by (cases c) (simp add: ck_drop_prefix_def)
  have "drop n (ck_rows c) = map (ck_row c) ?is"
    using None by (simp add: ck_rows_def ck_phys_def drop_map)
  then show ?thesis using ck_pick[OF cols(2)] c' assms(1) by (auto simp: ck_ok_def)
qed

interpretation chunks: cut_seq ck_ok ck_rows ck_resize ck_drop_prefix
proof
  show "\<exists>s'. ck_resize k s = Some s' \<and> ck_ok s' \<and> ck_rows s' = take k (ck_rows s)"
    if "ck_ok s" "k \<le> length (ck_rows s)" for s k
    using ck_resize_rows[OF that] by blast
  show "\<exists>s'. ck_drop_prefix n s = Some s' \<and> ck_ok s' \<and> ck_rows s' = drop n (ck_rows s)"
    if "ck_ok s" "n \<le> length (ck_rows s)" for s n
    using ck_drop_prefix_rows[OF that] by blast
qed

section \<open>Filtering the rows of a chunk\<close>

lemma keep_vals_zip:
  "length ms = length xs \<Longrightarrow> keep_vals ms xs = map snd (filter (mask_true \<circ> fst) (zip ms xs))"
proof -
  assume "length ms = length xs"
  then have "zip ms xs = map (\<lambda>j. (ms ! j, xs ! j)) [0..<length xs]"
    by (auto intro: nth_equalityI)
  then show ?thesis by (simp add: keep_vals_def filter_map o_def)
qed

lemma keep_vals_map: "keep_vals ms (map f xs) = map f (keep_vals ms xs)"
  by (auto simp: keep_vals_def)

lemma keep_vals_subset: "set (keep_vals ms xs) \<subseteq> set xs" "length (keep_vals ms xs) \<le> length xs"
proof -
  show "set (keep_vals ms xs) \<subseteq> set xs" by (auto simp: keep_vals_def)
  show "length (keep_vals ms xs) \<le> length xs"
    using length_filter_le[of "\<lambda>j. mask_true (ms ! j)" "[0..<length xs]"] by (simp add: keep_vals_def)
qed

lemma keep_rows_eq:
  assumes "cv_rep INT32 nl ms msk" and "k + length rows = length ms"
  shows "keep_rows msk k rows = Some (map snd (filter (mask_true \<circ> fst) (zip (drop k ms) rows)))"
  using assms(2)
proof (induction rows arbitrary: k)
  case (Cons r rows)
  then have k: "k < length ms" by simp
  then have "drop k ms = ms ! k # drop (Suc k) ms" by (simp add: Cons_nth_drop_Suc)
  then show ?case using Cons.IH[of "Suc k"] Cons.prems mask_keeps_rep[OF assms(1) k] by simp
qed simp

lemma keep_rows_vals:
  "cv_rep INT32 nl ms msk \<Longrightarrow> length rows = length ms \<Longrightarrow> keep_rows msk 0 rows = Some (keep_vals ms rows)"
  by (simp add: keep_rows_eq keep_vals_zip)

lemma ck_compact_in_place_rows:
  assumes "ck_ok c" and "ck_sel c = None" and "ck_columns c \<noteq> []"
    and "cv_rep INT32 nl ms msk" and "length ms = length (ck_rows c)"
  shows "\<exists>c'. ck_compact_in_place msk c = Some c' \<and> ck_ok c' \<and> ck_shape c' = ck_shape c \<and>
           ck_sel c' = None \<and> ck_rows c' = keep_vals ms (ck_rows c)"
proof -
  have len: "length ms = ck_row_count c"
    using assms(2,5) by (simp add: length_ck_rows ck_phys_def)
  let ?is = "filter (\<lambda>j. mask_true (ms ! j)) [0..<ck_row_count c]"
  let ?P = "\<lambda>col. cv_rep (cv_type col) (cv_nullable col) (map (cv_val col) ?is)"
  have each: "\<exists>col'. cv_compact_in_place msk col = Some col' \<and> ?P col col'"
    if "col \<in> set (ck_columns c)" for col
  proof -
    have col: "cv_wf col" "cv_size col = ck_row_count c" using that assms(1) by (auto simp: ck_ok_def)
    then have "keep_vals ms (cv_vals col) = map (cv_val col) ?is"
      by (simp add: cv_vals_def keep_vals_map) (simp add: keep_vals_def)
    then show ?thesis using cv_compact_rep[OF cv_rep_vals[OF col(1)] assms(4)] col len by simp
  qed
  obtain cols where cols: "those (map (cv_compact_in_place msk) (ck_columns c)) = Some cols"
      "cols_pick ?is (ck_columns c) cols"
    using those_list_all2[of "ck_columns c" "cv_compact_in_place msk" ?P, OF each]
    unfolding cols_pick_def by blast
  have "cols \<noteq> []" using cols(2) assms(3) by (auto simp: cols_pick_def)
  moreover have "cv_size (hd cols) = length ?is"
    using cols(2) assms(3) \<open>cols \<noteq> []\<close> unfolding cols_pick_def
    by (cases cols; cases "ck_columns c") (auto dest: cv_rep_size)
  ultimately have c': "ck_compact_in_place msk c =
      Some \<lparr> ck_row_count = length ?is, ck_columns = cols, ck_sel = None \<rparr>"
    using assms(2) cols(1) len cv_rep_size[OF assms(4)]
    by (cases c) (simp add: ck_compact_in_place_def)
  have rows: "keep_vals ms (ck_rows c) = map (ck_row c) ?is"
    using assms(2) by (simp add: ck_rows_def ck_phys_def keep_vals_map) (simp add: keep_vals_def)
  have "length ?is \<le> ck_row_count c"
    using length_filter_le[of "\<lambda>j. mask_true (ms ! j)" "[0..<ck_row_count c]"] by simp
  then show ?thesis using ck_pick[OF cols(2)] c' rows assms(1) by (simp add: ck_ok_def)
qed

lemma gather_rows:
  assumes "ck_ok c" and "\<forall>r\<in>set (sv_for_each sel). unat r < ck_row_count c"
    and "sv_size sel = length (sv_for_each sel)" and "sv_size sel \<le> 4294967288"
  defines "c' \<equiv> \<lparr> ck_row_count = sv_size sel,
                  ck_columns = map (\<lambda>col. gather_via_sel col sel) (ck_columns c), ck_sel = None \<rparr>"
  shows "ck_ok c'" and "ck_shape c' = ck_shape c"
    and "ck_rows c' = map (ck_row c) (map unat (sv_for_each sel))"
proof -
  let ?is = "map unat (sv_for_each sel)"
  have "cv_rep (cv_type col) (cv_nullable col) (map (cv_val col) ?is) (gather_via_sel col sel)"
    if "col \<in> set (ck_columns c)" for col
  proof -
    have col: "cv_wf col" "cv_size col = ck_row_count c" using that assms(1) by (auto simp: ck_ok_def)
    have vals: "map (\<lambda>r. cv_vals col ! unat r) (sv_for_each sel) = map (cv_val col) ?is"
      using assms(2) col by (auto simp: cv_vals_def)
    have "cv_rep (cv_type col) (cv_nullable col)
        (map (\<lambda>r. cv_vals col ! unat r) (sv_for_each sel)) (gather_via_sel col sel)"
      using gather_via_sel_rep[OF cv_rep_vals[OF col(1)] _ assms(3)] assms(2) col by simp
    then show ?thesis unfolding vals .
  qed
  then have "cols_pick ?is (ck_columns c) (map (\<lambda>col. gather_via_sel col sel) (ck_columns c))"
    by (simp add: cols_pick_def list_all2_conv_all_nth)
  from ck_pick[OF this] assms(3,4) show "ck_ok c'" "ck_shape c' = ck_shape c"
    "ck_rows c' = map (ck_row c) ?is"
    by (simp_all add: c'_def)
qed

lemma ck_compact_from_sel_rows:
  assumes "ck_ok c" and "ck_sel c = Some sel"
    and "cv_rep INT32 nl ms msk" and "length ms = length (ck_rows c)"
  shows "\<exists>c'. ck_compact_from_sel msk c = Some c' \<and> ck_ok c' \<and> ck_shape c' = ck_shape c \<and>
           ck_sel c' = None \<and> ck_rows c' = keep_vals ms (ck_rows c)"
proof -
  let ?keep = "keep_vals ms (sv_for_each sel)"
  let ?sel = "sv_from_dense ?keep (word_of_nat (ck_row_count c))"
  have sel: "sv_size sel = length (sv_for_each sel)" "sv_size sel \<le> 4294967288"
    using assms(1,2) by (auto simp: ck_ok_def sv_ok_def)
  have len: "length ms = length (sv_for_each sel)"
    using assms(2,4) by (simp add: length_ck_rows ck_phys_def)
  have "\<forall>r\<in>set ?keep. unat r < ck_row_count c"
    using ck_phys_bound[OF assms(1)] assms(2) keep_vals_subset(1)[of ms "sv_for_each sel"]
    by (auto simp: ck_phys_def)
  then have new: "ck_ok \<lparr> ck_row_count = sv_size ?sel,
      ck_columns = map (\<lambda>col. gather_via_sel col ?sel) (ck_columns c), ck_sel = None \<rparr>"
    "ck_shape \<lparr> ck_row_count = sv_size ?sel,
      ck_columns = map (\<lambda>col. gather_via_sel col ?sel) (ck_columns c), ck_sel = None \<rparr> = ck_shape c"
    "ck_rows \<lparr> ck_row_count = sv_size ?sel,
      ck_columns = map (\<lambda>col. gather_via_sel col ?sel) (ck_columns c), ck_sel = None \<rparr> =
        map (ck_row c) (map unat ?keep)"
    using gather_rows[OF assms(1), of ?sel] keep_vals_subset(2)[of ms "sv_for_each sel"] sel
    by simp_all
  have "ck_compact_from_sel msk c = Some \<lparr> ck_row_count = sv_size ?sel,
      ck_columns = map (\<lambda>col. gather_via_sel col ?sel) (ck_columns c), ck_sel = None \<rparr>"
    using assms(2) keep_rows_vals[OF assms(3)] len sel cv_rep_size[OF assms(3)]
    by (cases c) (simp add: ck_compact_from_sel_def)
  moreover have "map (ck_row c) (map unat ?keep) = keep_vals ms (ck_rows c)"
    using assms(2) by (simp add: ck_rows_def ck_phys_def keep_vals_map)
  ultimately show ?thesis using new by simp
qed

lemma ck_materialize_rows:
  assumes "ck_ok c"
  shows "ck_ok (ck_materialize c)" and "ck_shape (ck_materialize c) = ck_shape c"
    and "ck_sel (ck_materialize c) = None" and "ck_rows (ck_materialize c) = ck_rows c"
proof -
  show "ck_sel (ck_materialize c) = None" by (simp add: ck_materialize_def split: option.splits)
  have "ck_ok (ck_materialize c) \<and> ck_shape (ck_materialize c) = ck_shape c \<and>
    ck_rows (ck_materialize c) = ck_rows c"
  proof (cases "ck_sel c")
    case (Some sel)
    have m: "ck_materialize c = \<lparr> ck_row_count = sv_size sel,
        ck_columns = map (\<lambda>col. gather_via_sel col sel) (ck_columns c), ck_sel = None \<rparr>"
      using Some by (cases c) (simp add: ck_materialize_def)
    have "\<forall>r\<in>set (sv_for_each sel). unat r < ck_row_count c"
      using ck_phys_bound[OF assms] Some by (auto simp: ck_phys_def)
    from gather_rows[OF assms this] Some assms
    show ?thesis by (simp add: m ck_ok_def sv_ok_def ck_rows_def ck_phys_def)
  qed (use assms in \<open>simp add: ck_materialize_def\<close>)
  then show "ck_ok (ck_materialize c)" "ck_shape (ck_materialize c) = ck_shape c"
    "ck_rows (ck_materialize c) = ck_rows c"
    by simp_all
qed

end
