(* ===== verification/Expression.thy ===== *)
theory Expression
  imports Chunk
begin

text \<open>
  Expressions (\<^verbatim>\<open>src/src/executor/expression.h\<close> and \<^verbatim>\<open>expression.cpp\<close>): the
  expression tree, the vectorised kernels and \<open>evaluate\<close>, against a reference semantics that
  computes one row at a time with three-valued logic. The result is \<open>None\<close> when the process
  does not get to return: a failed \<open>assert\<close>, or the quotient \<open>INT_MIN / -1\<close>, which traps.
  Signed overflow of \<open>+\<close>, \<open>-\<close> and \<open>*\<close> wraps around, as the generated code does. Arithmetic on
  doubles is done by the processor: \<open>fpu\<close> is an argument of the definitions.
\<close>

section \<open>Expression trees\<close>

datatype expr =
    ColumnRef nat type_id
  | Literal val
  | BinaryOp binary_op_kind expr expr
  | LogicalOp logical_op_kind expr expr
  | NotOp expr
  | NullCheckOp null_check_kind expr

definition is_comparison :: "binary_op_kind \<Rightarrow> bool" where
  "is_comparison op \<longleftrightarrow> op \<in> {LT, LE, EQ, GE, GT, NE}"

fun variant_type :: "val \<Rightarrow> type_id" where
  "variant_type (VI32 _) = INT32"
| "variant_type (VI64 _) = INT64"
| "variant_type (VF64 _) = DOUBLE"
| "variant_type (VStr _) = VARCHAR"
| "variant_type (VBool _) = BOOL"
| "variant_type (VDate _) = DATE"
| "variant_type (VTimestamp _) = TIMESTAMP"
| "variant_type VNull = INVALID"

fun output_type :: "expr \<Rightarrow> type_id" where
  "output_type (ColumnRef _ t) = t"
| "output_type (Literal v) = variant_type v"
| "output_type (BinaryOp op l _) = (if is_comparison op then INT32 else output_type l)"
| "output_type (LogicalOp _ _ _) = INT32"
| "output_type (NotOp _) = INT32"
| "output_type (NullCheckOp _ _) = INT32"

text \<open>The assertions of the constructors.\<close>

fun expr_constructs :: "expr \<Rightarrow> bool" where
  "expr_constructs (ColumnRef _ t) \<longleftrightarrow> t \<noteq> INVALID"
| "expr_constructs (Literal v) \<longleftrightarrow> variant_type v \<noteq> INVALID"
| "expr_constructs (BinaryOp op l r) \<longleftrightarrow>
     expr_constructs l \<and> expr_constructs r \<and> output_type l = output_type r \<and>
     output_type l \<in> {INT32, INT64, DOUBLE, VARCHAR, BOOL, DATE, TIMESTAMP} \<and>
     (output_type l \<in> {VARCHAR, BOOL, DATE, TIMESTAMP} \<longrightarrow> is_comparison op)"
| "expr_constructs (LogicalOp _ l r) \<longleftrightarrow>
     expr_constructs l \<and> expr_constructs r \<and> output_type l = INT32 \<and> output_type r = INT32"
| "expr_constructs (NotOp c) \<longleftrightarrow> expr_constructs c \<and> output_type c = INT32"
| "expr_constructs (NullCheckOp _ c) \<longleftrightarrow>
     expr_constructs c \<and> output_type c \<in> {INT32, INT64, DOUBLE, VARCHAR}"

section \<open>Scalar operations\<close>

record fpu =
  f_add :: "f64 \<Rightarrow> f64 \<Rightarrow> f64"
  f_sub :: "f64 \<Rightarrow> f64 \<Rightarrow> f64"
  f_mul :: "f64 \<Rightarrow> f64 \<Rightarrow> f64"
  f_div :: "f64 \<Rightarrow> f64 \<Rightarrow> f64"

text \<open>The operators of a C++ arithmetic type, as \<open>std::plus<T>\<close> and its kin use them.\<close>

record 'a scalar =
  sc_width :: nat
  sc_add :: "'a \<Rightarrow> 'a \<Rightarrow> 'a"
  sc_sub :: "'a \<Rightarrow> 'a \<Rightarrow> 'a"
  sc_mul :: "'a \<Rightarrow> 'a \<Rightarrow> 'a"
  sc_div :: "'a \<Rightarrow> 'a \<Rightarrow> 'a option"
  sc_lt :: "'a \<Rightarrow> 'a \<Rightarrow> bool"
  sc_eq :: "'a \<Rightarrow> 'a \<Rightarrow> bool"
  sc_zero :: 'a

text \<open>Signed division truncates towards zero.\<close>

definition signed_quot :: "'a::len word \<Rightarrow> 'a word \<Rightarrow> 'a word option" where
  "signed_quot a b =
     (if sint a = - (2 ^ (LENGTH('a) - 1)) \<and> sint b = -1 then None
      else Some (word_of_int (sgn (sint a) * sgn (sint b) * (\<bar>sint a\<bar> div \<bar>sint b\<bar>))))"

definition signed_scalar :: "nat \<Rightarrow> 'a::len word scalar" where
  "signed_scalar w =
     \<lparr> sc_width = w, sc_add = (+), sc_sub = (-), sc_mul = (*), sc_div = signed_quot,
       sc_lt = (\<lambda>a b. sint a < sint b), sc_eq = (=), sc_zero = 0 \<rparr>"

definition u8_scalar :: "u8 scalar" where
  "u8_scalar =
     \<lparr> sc_width = 1, sc_add = (+), sc_sub = (-), sc_mul = (*), sc_div = (\<lambda>a b. Some (a div b)),
       sc_lt = (<), sc_eq = (=), sc_zero = 0 \<rparr>"

definition f64_scalar :: "fpu \<Rightarrow> f64 scalar" where
  "f64_scalar F =
     \<lparr> sc_width = 8, sc_add = f_add F, sc_sub = f_sub F, sc_mul = f_mul F,
       sc_div = (\<lambda>a b. Some (f_div F a b)), sc_lt = f64_lt, sc_eq = f64_eq, sc_zero = 0 \<rparr>"

section \<open>Kernels\<close>

text \<open>The loop over the rows of a kernel; an error ends it.\<close>

fun for_rows :: "(nat \<Rightarrow> column_vector \<Rightarrow> column_vector result option) \<Rightarrow> nat list \<Rightarrow>
    column_vector \<Rightarrow> column_vector result option" where
  "for_rows step [] out = Some (ok out)"
| "for_rows step (i # is) out =
     do { r \<leftarrow> step i out;
          case r of Inl e \<Rightarrow> Some (err e) | Inr out' \<Rightarrow> for_rows step is out' }"

definition either_null :: "bool \<Rightarrow> nat \<Rightarrow> column_vector \<Rightarrow> column_vector \<Rightarrow> bool option" where
  "either_null nullable i l r =
     (if \<not> nullable then Some False
      else do { ln \<leftarrow> cv_is_null i l; if ln then Some True else cv_is_null i r })"

text \<open>\<open>set_at<T>\<close> and \<open>get_at<T>\<close>: no assertion on the type.\<close>

definition set_at :: "nat \<Rightarrow> nat \<Rightarrow> 'a::len word \<Rightarrow> column_vector \<Rightarrow> column_vector" where
  "set_at w i v cv = cv_clear_null i (raw_set w i v cv)"

definition arith_kernel :: "('a::len word \<Rightarrow> 'a word \<Rightarrow> 'a word) \<Rightarrow> nat \<Rightarrow> column_vector \<Rightarrow>
    column_vector \<Rightarrow> type_id \<Rightarrow> column_vector result option" where
  "arith_kernel f w l r out_type =
     (let nullable = cv_nullable l \<or> cv_nullable r; n = cv_size l
      in for_rows (\<lambda>i out.
             do { nl \<leftarrow> either_null nullable i l r;
                  if nl then map_option ok (cv_set_null i out)
                  else Some (ok (set_at w i (f (raw_get w i l) (raw_get w i r)) out)) })
           [0..<n] (cv_make out_type n nullable))"

definition div_kernel :: "'a::len word scalar \<Rightarrow> column_vector \<Rightarrow> column_vector \<Rightarrow> type_id \<Rightarrow>
    column_vector result option" where
  "div_kernel sc l r out_type =
     (let nullable = cv_nullable l \<or> cv_nullable r; n = cv_size l; w = sc_width sc
      in for_rows (\<lambda>i out.
             do { nl \<leftarrow> either_null nullable i l r;
                  if nl then map_option ok (cv_set_null i out)
                  else let b = raw_get w i r
                       in if sc_eq sc b (sc_zero sc) then Some (err ''division by zero'')
                          else do { q \<leftarrow> sc_div sc (raw_get w i l) b;
                                    Some (ok (set_at w i q out)) } })
           [0..<n] (cv_make out_type n nullable))"

definition cmp_kernel :: "('a::len word \<Rightarrow> 'a word \<Rightarrow> bool) \<Rightarrow> nat \<Rightarrow> column_vector \<Rightarrow>
    column_vector \<Rightarrow> column_vector result option" where
  "cmp_kernel f w l r =
     (let nullable = cv_nullable l \<or> cv_nullable r; n = cv_size l
      in for_rows (\<lambda>i out.
             do { nl \<leftarrow> either_null nullable i l r;
                  if nl then map_option ok (cv_set_null i out)
                  else map_option ok
                    (cv_set_i32 i (if f (raw_get w i l) (raw_get w i r) then 1 else 0) out) })
           [0..<n] (cv_make INT32 n nullable))"

definition str_cmp_kernel :: "(string \<Rightarrow> string \<Rightarrow> bool) \<Rightarrow> column_vector \<Rightarrow> column_vector \<Rightarrow>
    column_vector result option" where
  "str_cmp_kernel f l r =
     (let nullable = cv_nullable l \<or> cv_nullable r; n = cv_size l
      in for_rows (\<lambda>i out.
             do { nl \<leftarrow> either_null nullable i l r;
                  if nl then map_option ok (cv_set_null i out)
                  else do { a \<leftarrow> cv_get_str i l; b \<leftarrow> cv_get_str i r;
                            map_option ok (cv_set_i32 i (if f a b then 1 else 0) out) } })
           [0..<n] (cv_make INT32 n nullable))"

text \<open>\<open>std::less_equal\<close> and \<open>std::greater_equal\<close> are false on a NaN, \<open>std::not_equal_to\<close> is true.\<close>

definition compare_op :: "('a \<Rightarrow> 'a \<Rightarrow> bool) \<Rightarrow> ('a \<Rightarrow> 'a \<Rightarrow> bool) \<Rightarrow> binary_op_kind \<Rightarrow> 'a \<Rightarrow> 'a \<Rightarrow> bool" where
  "compare_op lt eq op a b = (case op of
       LT \<Rightarrow> lt a b | LE \<Rightarrow> lt a b \<or> eq a b | EQ \<Rightarrow> eq a b
     | GE \<Rightarrow> lt b a \<or> eq a b | GT \<Rightarrow> lt b a | NE \<Rightarrow> \<not> eq a b | _ \<Rightarrow> False)"

definition binary_dispatch :: "'a::len word scalar \<Rightarrow> binary_op_kind \<Rightarrow> column_vector \<Rightarrow>
    column_vector \<Rightarrow> type_id \<Rightarrow> column_vector result option" where
  "binary_dispatch sc op l r t = (case op of
       ADD \<Rightarrow> arith_kernel (sc_add sc) (sc_width sc) l r t
     | SUB \<Rightarrow> arith_kernel (sc_sub sc) (sc_width sc) l r t
     | MUL \<Rightarrow> arith_kernel (sc_mul sc) (sc_width sc) l r t
     | DIV \<Rightarrow> div_kernel sc l r t
     | _ \<Rightarrow> cmp_kernel (compare_op (sc_lt sc) (sc_eq sc) op) (sc_width sc) l r)"

definition null_flag :: "nat \<Rightarrow> column_vector \<Rightarrow> bool option" where
  "null_flag i c = (if cv_nullable c then cv_is_null i c else Some False)"

text \<open>\<open>!null && get_i32(i) == 0\<close>, and its counterpart for \<open>or\<close>.\<close>

definition i32_is :: "(i32 \<Rightarrow> bool) \<Rightarrow> bool \<Rightarrow> nat \<Rightarrow> column_vector \<Rightarrow> bool option" where
  "i32_is p null i c = (if null then Some False else map_option p (cv_get_i32 i c))"

definition and_kernel :: "column_vector \<Rightarrow> column_vector \<Rightarrow> column_vector result option" where
  "and_kernel l r =
     for_rows (\<lambda>i out.
         do { ln \<leftarrow> null_flag i l; rn \<leftarrow> null_flag i r;
              l_false \<leftarrow> i32_is (\<lambda>v. v = 0) ln i l; r_false \<leftarrow> i32_is (\<lambda>v. v = 0) rn i r;
              map_option ok
                (if l_false \<or> r_false then cv_set_i32 i 0 out
                 else if ln \<or> rn then cv_set_null i out
                 else cv_set_i32 i 1 out) })
       [0..<cv_size l] (cv_make INT32 (cv_size l) (cv_nullable l \<or> cv_nullable r))"

definition or_kernel :: "column_vector \<Rightarrow> column_vector \<Rightarrow> column_vector result option" where
  "or_kernel l r =
     for_rows (\<lambda>i out.
         do { ln \<leftarrow> null_flag i l; rn \<leftarrow> null_flag i r;
              l_true \<leftarrow> i32_is (\<lambda>v. v \<noteq> 0) ln i l; r_true \<leftarrow> i32_is (\<lambda>v. v \<noteq> 0) rn i r;
              map_option ok
                (if l_true \<or> r_true then cv_set_i32 i 1 out
                 else if ln \<or> rn then cv_set_null i out
                 else cv_set_i32 i 0 out) })
       [0..<cv_size l] (cv_make INT32 (cv_size l) (cv_nullable l \<or> cv_nullable r))"

definition not_kernel :: "column_vector \<Rightarrow> column_vector result option" where
  "not_kernel c =
     for_rows (\<lambda>i out.
         do { nl \<leftarrow> null_flag i c;
              if nl then map_option ok (cv_set_null i out)
              else do { v \<leftarrow> cv_get_i32 i c;
                        map_option ok (cv_set_i32 i (if v = 0 then 1 else 0) out) } })
       [0..<cv_size c] (cv_make INT32 (cv_size c) (cv_nullable c))"

definition is_null_kernel :: "column_vector \<Rightarrow> bool \<Rightarrow> column_vector result option" where
  "is_null_kernel c negate =
     for_rows (\<lambda>i out.
         do { nl \<leftarrow> null_flag i c;
              map_option ok (cv_set_i32 i (if nl \<noteq> negate then 1 else 0) out) })
       [0..<cv_size c] (cv_make INT32 (cv_size c) False)"

text \<open>\<open>Literal::evaluate\<close>; the last branch is \<open>std::get<f64>\<close> on another alternative, which throws.\<close>

definition set_literal :: "val \<Rightarrow> nat \<Rightarrow> column_vector \<Rightarrow> column_vector option" where
  "set_literal value i out = (case value of
       VI32 v \<Rightarrow> cv_set_i32 i v out
     | VI64 v \<Rightarrow> cv_set_i64 i v out
     | VStr v \<Rightarrow> cv_set_str i v out
     | VBool v \<Rightarrow> cv_set_bool i v out
     | VDate v \<Rightarrow> cv_set_date i v out
     | VTimestamp v \<Rightarrow> cv_set_timestamp i v out
     | VF64 v \<Rightarrow> cv_set_f64 i v out
     | VNull \<Rightarrow> None)"

definition ev_bind :: "'a result option \<Rightarrow> ('a \<Rightarrow> 'b result option) \<Rightarrow> 'b result option" where
  "ev_bind m f = (case m of
       None \<Rightarrow> None | Some (Inl e) \<Rightarrow> Some (err e) | Some (Inr x) \<Rightarrow> f x)"

definition str_dispatch :: "binary_op_kind \<Rightarrow> column_vector \<Rightarrow> column_vector \<Rightarrow> column_vector result option" where
  "str_dispatch op l r =
     (if is_comparison op then str_cmp_kernel (compare_op str_less (=) op) l r
      else Some (err ''VARCHAR only supports comparison operators''))"

definition eval_binary :: "fpu \<Rightarrow> type_id \<Rightarrow> binary_op_kind \<Rightarrow> column_vector \<Rightarrow> column_vector \<Rightarrow>
    column_vector result option" where
  "eval_binary F input_type op l r = (case input_type of
       INT32 \<Rightarrow> binary_dispatch (signed_scalar 4 :: i32 scalar) op l r INT32
     | INT64 \<Rightarrow> binary_dispatch (signed_scalar 8 :: i64 scalar) op l r INT64
     | DOUBLE \<Rightarrow> binary_dispatch (f64_scalar F) op l r DOUBLE
     | BOOL \<Rightarrow> binary_dispatch u8_scalar op l r BOOL
     | DATE \<Rightarrow> binary_dispatch (signed_scalar 4 :: i32 scalar) op l r DATE
     | TIMESTAMP \<Rightarrow> binary_dispatch (signed_scalar 8 :: i64 scalar) op l r TIMESTAMP
     | VARCHAR \<Rightarrow> str_dispatch op l r
     | _ \<Rightarrow> Some (err ''unsupported input type''))"

fun evaluate :: "fpu \<Rightarrow> chunk \<Rightarrow> expr \<Rightarrow> column_vector result option" where
  "evaluate F input (ColumnRef index t) =
     (if index < length (ck_columns input) \<and> cv_type (ck_columns input ! index) = t
      then Some (ok (case ck_sel input of
             Some sel \<Rightarrow> gather_via_sel (ck_columns input ! index) sel
           | None \<Rightarrow> ck_columns input ! index))
      else None)"
| "evaluate F input (Literal v) =
     (let n = ck_logical_size input
      in if v = VNull then None
         else for_rows (\<lambda>i out. map_option ok (set_literal v i out)) [0..<n]
                (cv_make (variant_type v) n False))"
| "evaluate F input (BinaryOp op l r) =
     ev_bind (evaluate F input l) (\<lambda>lc. ev_bind (evaluate F input r) (\<lambda>rc.
       eval_binary F (output_type l) op lc rc))"
| "evaluate F input (LogicalOp op l r) =
     ev_bind (evaluate F input l) (\<lambda>lc. ev_bind (evaluate F input r) (\<lambda>rc.
       case op of LOGICAL_AND \<Rightarrow> and_kernel lc rc | LOGICAL_OR \<Rightarrow> or_kernel lc rc))"
| "evaluate F input (NotOp c) = ev_bind (evaluate F input c) not_kernel"
| "evaluate F input (NullCheckOp kind c) =
     ev_bind (evaluate F input c) (\<lambda>cc. is_null_kernel cc (kind = IS_NOT_NULL))"

section \<open>One row at a time\<close>

text \<open>
  The reference semantics: SQL's three-valued logic on the values of a single row.
\<close>

definition truth :: "bool \<Rightarrow> val" where
  "truth b = VI32 (if b then 1 else 0)"

definition scalar_row :: "'a scalar \<Rightarrow> ('a \<Rightarrow> val) \<Rightarrow> binary_op_kind \<Rightarrow> 'a \<Rightarrow> 'a \<Rightarrow> val result option" where
  "scalar_row sc mk op a b = (case op of
       ADD \<Rightarrow> Some (ok (mk (sc_add sc a b)))
     | SUB \<Rightarrow> Some (ok (mk (sc_sub sc a b)))
     | MUL \<Rightarrow> Some (ok (mk (sc_mul sc a b)))
     | DIV \<Rightarrow> if sc_eq sc b (sc_zero sc) then Some (err ''division by zero'')
              else map_option (\<lambda>q. ok (mk q)) (sc_div sc a b)
     | _ \<Rightarrow> Some (ok (truth (compare_op (sc_lt sc) (sc_eq sc) op a b))))"

definition binary_row :: "fpu \<Rightarrow> binary_op_kind \<Rightarrow> val \<Rightarrow> val \<Rightarrow> val result option" where
  "binary_row F op a b = (case (a, b) of
       (VI32 x, VI32 y) \<Rightarrow> scalar_row (signed_scalar 4) VI32 op x y
     | (VI64 x, VI64 y) \<Rightarrow> scalar_row (signed_scalar 8) VI64 op x y
     | (VF64 x, VF64 y) \<Rightarrow> scalar_row (f64_scalar F) VF64 op x y
     | (VStr x, VStr y) \<Rightarrow> Some (ok (truth (compare_op str_less (=) op x y)))
     | (VBool x, VBool y) \<Rightarrow> Some (ok (truth (compare_op (<) (=) op x y)))
     | (VDate x, VDate y) \<Rightarrow> Some (ok (truth (compare_op (\<lambda>x y. sint x < sint y) (=) op x y)))
     | (VTimestamp x, VTimestamp y) \<Rightarrow>
         Some (ok (truth (compare_op (\<lambda>x y. sint x < sint y) (=) op x y)))
     | _ \<Rightarrow> Some (ok VNull))"

fun logical_row :: "logical_op_kind \<Rightarrow> val \<Rightarrow> val \<Rightarrow> val" where
  "logical_row LOGICAL_AND a b =
     (if a = VI32 0 \<or> b = VI32 0 then truth False
      else if a = VNull \<or> b = VNull then VNull else truth True)"
| "logical_row LOGICAL_OR a b =
     (if mask_true a \<or> mask_true b then truth True
      else if a = VNull \<or> b = VNull then VNull else truth False)"

definition not_row :: "val \<Rightarrow> val" where
  "not_row a = (if a = VNull then VNull else truth (a = VI32 0))"

fun eval_row :: "fpu \<Rightarrow> val list \<Rightarrow> expr \<Rightarrow> val result option" where
  "eval_row F row (ColumnRef i _) = Some (ok (row ! i))"
| "eval_row F row (Literal v) = Some (ok v)"
| "eval_row F row (BinaryOp op l r) =
     ev_bind (eval_row F row l) (\<lambda>a. ev_bind (eval_row F row r) (\<lambda>b. binary_row F op a b))"
| "eval_row F row (LogicalOp op l r) =
     ev_bind (eval_row F row l) (\<lambda>a. ev_bind (eval_row F row r) (\<lambda>b. Some (ok (logical_row op a b))))"
| "eval_row F row (NotOp c) = ev_bind (eval_row F row c) (\<lambda>a. Some (ok (not_row a)))"
| "eval_row F row (NullCheckOp kind c) =
     ev_bind (eval_row F row c) (\<lambda>a. Some (ok (truth ((a = VNull) = (kind = IS_NULL)))))"

text \<open>What the chunk has to provide for the columns an expression refers to.\<close>

fun expr_typed :: "shape \<Rightarrow> expr \<Rightarrow> bool" where
  "expr_typed sh (ColumnRef i t) \<longleftrightarrow> i < length sh \<and> fst (sh ! i) = t"
| "expr_typed sh (Literal v) \<longleftrightarrow> True"
| "expr_typed sh (BinaryOp _ l r) \<longleftrightarrow> expr_typed sh l \<and> expr_typed sh r"
| "expr_typed sh (LogicalOp _ l r) \<longleftrightarrow> expr_typed sh l \<and> expr_typed sh r"
| "expr_typed sh (NotOp c) \<longleftrightarrow> expr_typed sh c"
| "expr_typed sh (NullCheckOp _ c) \<longleftrightarrow> expr_typed sh c"

fun expr_nullable :: "shape \<Rightarrow> expr \<Rightarrow> bool" where
  "expr_nullable sh (ColumnRef i _) = snd (sh ! i)"
| "expr_nullable sh (Literal _) = False"
| "expr_nullable sh (BinaryOp _ l r) = (expr_nullable sh l \<or> expr_nullable sh r)"
| "expr_nullable sh (LogicalOp _ l r) = (expr_nullable sh l \<or> expr_nullable sh r)"
| "expr_nullable sh (NotOp c) = expr_nullable sh c"
| "expr_nullable sh (NullCheckOp _ _) = False"

section \<open>Loops over rows\<close>

text \<open>The outcome of a column from the outcomes of its rows: the first error, or all values.\<close>

fun collect :: "'a result list \<Rightarrow> 'a list result" where
  "collect [] = ok []"
| "collect (Inl e # rs) = err e"
| "collect (Inr x # rs) = (case collect rs of Inl e \<Rightarrow> err e | Inr xs \<Rightarrow> ok (x # xs))"

definition column_outcome :: "type_id \<Rightarrow> bool \<Rightarrow> val result list \<Rightarrow> column_vector result option \<Rightarrow> bool" where
  "column_outcome t nl rs res = (case collect rs of
       Inl e \<Rightarrow> res = Some (err e)
     | Inr vs \<Rightarrow> \<exists>cv. res = Some (ok cv) \<and> cv_rep t nl vs cv)"

text \<open>What one step of a loop has to do to row \<open>i\<close> of the output.\<close>

definition row_step :: "type_id \<Rightarrow> bool \<Rightarrow> nat \<Rightarrow> nat \<Rightarrow> val result \<Rightarrow>
    (column_vector \<Rightarrow> column_vector result option) \<Rightarrow> bool" where
  "row_step t nl n i o' f \<longleftrightarrow> (\<forall>vs out. cv_rep t nl vs out \<longrightarrow> length vs = n \<longrightarrow>
     (case o' of
        Inl e \<Rightarrow> f out = Some (err e)
      | Inr v \<Rightarrow> \<exists>out'. f out = Some (ok out') \<and> cv_rep t nl (vs[i := v]) out'))"

lemma for_rows_from:
  assumes "cv_rep t nl vs out" and "length vs = n" and "k \<le> n" and "length rs = n - k"
    and "\<And>i. k \<le> i \<Longrightarrow> i < n \<Longrightarrow> row_step t nl n i (rs ! (i - k)) (step i)"
  shows "case collect rs of
           Inl e \<Rightarrow> for_rows step [k..<n] out = Some (err e)
         | Inr ws \<Rightarrow> \<exists>cv. for_rows step [k..<n] out = Some (ok cv) \<and> cv_rep t nl (take k vs @ ws) cv"
  using assms
proof (induction rs arbitrary: k vs out)
  case Nil
  then show ?case by simp
next
  case (Cons r rs)
  then have k: "k < n" by simp
  then have upt: "[k..<n] = k # [Suc k..<n]" by (simp add: upt_rec)
  have first: "row_step t nl n k r (step k)" using Cons.prems(5)[of k] k by simp
  show ?case
  proof (cases r)
    case (Inl e)
    then show ?thesis using first Cons.prems(1,2) by (auto simp: row_step_def upt)
  next
    case (Inr v)
    then obtain out' where out': "step k out = Some (ok out')" "cv_rep t nl (vs[k := v]) out'"
      using first Cons.prems(1,2) by (auto simp: row_step_def)
    have "row_step t nl n i (rs ! (i - Suc k)) (step i)" if "Suc k \<le> i" "i < n" for i
      using Cons.prems(5)[of i] that by (simp add: nth_Cons' Suc_diff_Suc)
    then have IH: "case collect rs of
        Inl e \<Rightarrow> for_rows step [Suc k..<n] out' = Some (err e)
      | Inr ws \<Rightarrow> \<exists>cv. for_rows step [Suc k..<n] out' = Some (ok cv) \<and>
          cv_rep t nl (take (Suc k) (vs[k := v]) @ ws) cv"
      using Cons.IH[OF out'(2), of "Suc k"] Cons.prems k by simp
    have "take (Suc k) (vs[k := v]) = take k vs @ [v]"
      using Cons.prems(2) k by (simp add: take_Suc_conv_app_nth)
    with IH show ?thesis by (auto simp: upt Inr out' split: sum.splits)
  qed
qed

lemma for_rows_outcome:
  assumes "vec_type t" and "length rs = n"
    and "\<And>i. i < n \<Longrightarrow> row_step t nl n i (rs ! i) (step i)"
  shows "column_outcome t nl rs (for_rows step [0..<n] (cv_make t n nl))"
proof -
  obtain vs where "cv_rep t nl vs (cv_make t n nl)" "length vs = n"
    using cv_make_rep[OF assms(1)] by blast
  then show ?thesis using for_rows_from[of t nl vs "cv_make t n nl" n 0 rs step] assms(2,3)
    by (cases "collect rs") (simp_all add: column_outcome_def)
qed

lemma collect_oks: "collect (map Inr vs) = ok vs"
  by (induction vs) simp_all

lemma collect_ok_iff: "collect rs = ok vs \<longleftrightarrow> rs = map Inr vs"
proof (induction rs arbitrary: vs)
  case (Cons r rs)
  then show ?case by (cases r; cases vs) (auto split: sum.splits simp: collect_oks)
qed auto

lemma collect_err: "collect rs = err e \<Longrightarrow> Inl e \<in> set rs"
proof (induction rs)
  case (Cons r rs)
  then show ?case by (cases r) (auto split: sum.splits)
qed simp

lemma collect_is_err: "Inl e \<in> set rs \<Longrightarrow> \<exists>e'. collect rs = err e'"
proof (induction rs)
  case (Cons r rs)
  then show ?case by (cases r) (auto split: sum.splits)
qed simp

lemma row_step_err: "row_step t nl n i (err e) (\<lambda>out. Some (err e))"
  by (simp add: row_step_def)

lemma row_step_null: "i < n \<Longrightarrow> row_step t True n i (ok VNull) (\<lambda>out. map_option ok (cv_set_null i out))"
  using cv_set_null_rep by (fastforce simp: row_step_def)

lemma row_step_i32: "i < n \<Longrightarrow> row_step INT32 nl n i (ok (VI32 x)) (\<lambda>out. map_option ok (cv_set_i32 i x out))"
  using cv_set_i32_rep by (fastforce simp: row_step_def)

lemma row_step_truth:
  "i < n \<Longrightarrow> row_step INT32 nl n i (ok (truth b)) (\<lambda>out. map_option ok (cv_set_i32 i (if b then 1 else 0) out))"
  using row_step_i32 by (simp add: truth_def)

lemma row_step_set_at:
  assumes "i < n" and "type_size t 0 = w" and "t \<noteq> VARCHAR" and "t \<noteq> BOOL"
  shows "row_step t nl n i (ok (cell_val t (le_bytes w v))) (\<lambda>out. Some (ok (set_at w i v out)))"
proof -
  have "cv_rep t nl (vs[i := cell_val t (le_bytes w v)]) (set_at w i v out)"
    if "cv_rep t nl vs out" "length vs = n" for vs out
  proof -
    have "cell_fits t (Inl (le_bytes w v))" using assms by (simp add: cell_fits_def)
    from cv_rep_set[OF that(1) _ this, of i] show ?thesis using that assms
      by (simp add: set_at_def cv_put_Inl[of out t w] cell_value_def cv_rep_def)
  qed
  then show ?thesis by (simp add: row_step_def)
qed

lemma either_null_rep:
  assumes "cv_rep t lnl ls l" and "cv_rep t' rnl rs r" and "i < length ls" and "length rs = length ls"
  shows "either_null (lnl \<or> rnl) i l r = Some (ls ! i = VNull \<or> rs ! i = VNull)"
proof (cases "lnl \<or> rnl")
  case True
  then show ?thesis using cv_is_null_rep[OF assms(1,3)] cv_is_null_rep[OF assms(2), of i] assms(3,4)
    by (simp add: either_null_def)
next
  case False
  have "holds_type t (ls ! i)" "holds_type t' (rs ! i)"
    using False cv_rep_typed[OF assms(1,3)] cv_rep_typed[OF assms(2), of i] assms(3,4) by auto
  then show ?thesis using False holds_type_not_null by (auto simp: either_null_def)
qed

lemma null_flag_rep:
  assumes "cv_rep t nl vs cv" and "i < length vs"
  shows "null_flag i cv = Some (vs ! i = VNull)"
proof (cases nl)
  case True
  then show ?thesis using assms cv_is_null_rep[OF assms] by (simp add: null_flag_def cv_rep_def)
next
  case False
  then have "vs ! i \<noteq> VNull" using cv_rep_typed[OF assms] holds_type_not_null by blast
  then show ?thesis using False assms(1) by (simp add: null_flag_def cv_rep_def)
qed

lemma null_imp_nullable:
  assumes "cv_rep t nl vs cv" and "i < length vs" and "vs ! i = VNull"
  shows nl
  using cv_rep_typed[OF assms(1,2)] assms(3) holds_type_not_null by fastforce

text \<open>The frame of the binary kernels: a null operand gives a null.\<close>

lemma binary_kernel_outcome:
  assumes "cv_rep t' lnl ls l" and "cv_rep t'' rnl rs r" and "length rs = length ls"
    and "vec_type t" and "length os = length ls"
    and nulls: "\<And>i. i < length ls \<Longrightarrow> ls ! i = VNull \<or> rs ! i = VNull \<Longrightarrow> os ! i = ok VNull"
    and steps: "\<And>i. i < length ls \<Longrightarrow> ls ! i \<noteq> VNull \<Longrightarrow> rs ! i \<noteq> VNull \<Longrightarrow>
      row_step t (lnl \<or> rnl) (length ls) i (os ! i) (f i)"
  shows "column_outcome t (lnl \<or> rnl) os
     (for_rows (\<lambda>i out. either_null (cv_nullable l \<or> cv_nullable r) i l r \<bind>
         (\<lambda>nl. if nl then map_option ok (cv_set_null i out) else f i out))
       [0..<cv_size l] (cv_make t (cv_size l) (cv_nullable l \<or> cv_nullable r)))"
proof -
  have size: "cv_size l = length ls" "cv_nullable l = lnl" "cv_nullable r = rnl"
    using assms by (auto simp: cv_rep_def)
  show ?thesis unfolding size
  proof (rule for_rows_outcome[OF assms(4,5)])
    fix i assume i: "i < length ls"
    note null = either_null_rep[OF assms(1,2) i assms(3)]
    show "row_step t (lnl \<or> rnl) (length ls) i (os ! i)
        (\<lambda>out. either_null (lnl \<or> rnl) i l r \<bind>
           (\<lambda>nl. if nl then map_option ok (cv_set_null i out) else f i out))"
    proof (cases "ls ! i = VNull \<or> rs ! i = VNull")
      case True
      then have nl: "lnl \<or> rnl"
        using null_imp_nullable[OF assms(1) i] null_imp_nullable[OF assms(2), of i] assms(3) i by auto
      have "row_step t (lnl \<or> rnl) (length ls) i (os ! i) (\<lambda>out. map_option ok (cv_set_null i out))"
        using row_step_null[OF i] nulls[OF i True] nl by simp
      then show ?thesis using True unfolding null by simp
    next
      case False
      then show ?thesis using steps[OF i] unfolding null by simp
    qed
  qed
qed

section \<open>Kernels on scalar types\<close>

text \<open>
  What the kernels rely on: raw bytes of a slot read as the C++ type \<open>T\<close> are the scalar of the
  value stored there. Arithmetic types also write scalars back.
\<close>

locale scalar_type =
  fixes t :: type_id
    and un :: "val \<Rightarrow> 'a::len word"
    and sc :: "'a word scalar"
  assumes vec: "vec_type t" "t \<noteq> VARCHAR"
    and width: "type_size t 0 = sc_width sc"
    and reads: "cell_fits t (Inl bs) \<Longrightarrow> un (cell_val t bs) = le_word bs"
begin

lemma raw_get_un:
  assumes "cv_rep t nl vs cv" and "i < length vs" and "vs ! i \<noteq> VNull"
  shows "raw_get (sc_width sc) i cv = un (vs ! i)"
proof -
  have cv: "cv_wf cv" "cv_type cv = t" "i < cv_size cv"
    using assms cv_rep_size[OF assms(1)] by (auto simp: cv_rep_def)
  then have "cell_fits t (Inl (slice (i * sc_width sc) (sc_width sc) (cv_data cv)))"
    using cv_cell_fits[of cv i] vec(2) by (simp add: cv_cell_def width)
  then show ?thesis
    using reads cv_get_fixed_rep(2)[OF assms width vec(2)] by (simp add: raw_get_def)
qed

lemma cmp_kernel_outcome:
  assumes "cv_rep t lnl ls l" and "cv_rep t rnl rs r" and "length rs = length ls"
  shows "column_outcome INT32 (lnl \<or> rnl)
     (map2 (\<lambda>a b. ok (if a = VNull \<or> b = VNull then VNull else truth (f (un a) (un b)))) ls rs)
     (cmp_kernel f (sc_width sc) l r)"
  unfolding cmp_kernel_def Let_def
  using assms(3) row_step_truth raw_get_un[OF assms(1)] raw_get_un[OF assms(2)]
  by (intro binary_kernel_outcome[OF assms]) (simp_all add: vec_type_def)

end

locale arith_type = scalar_type t un sc
  for t :: type_id and un :: "val \<Rightarrow> 'a::len word" and sc :: "'a word scalar" +
  fixes mk :: "'a word \<Rightarrow> val"
  assumes not_bool: "t \<noteq> BOOL"
    and writes: "cell_val t (le_bytes (sc_width sc) x) = mk x"
begin

lemma step_set_at:
  "i < n \<Longrightarrow> row_step t nl n i (ok (mk v)) (\<lambda>out. Some (ok (set_at (sc_width sc) i v out)))"
  using row_step_set_at[OF _ width vec(2) not_bool, where v = v] by (simp add: writes)

lemma arith_kernel_outcome:
  assumes "cv_rep t lnl ls l" and "cv_rep t rnl rs r" and "length rs = length ls"
  shows "column_outcome t (lnl \<or> rnl)
     (map2 (\<lambda>a b. ok (if a = VNull \<or> b = VNull then VNull else mk (f (un a) (un b)))) ls rs)
     (arith_kernel f (sc_width sc) l r t)"
  unfolding arith_kernel_def Let_def
  using assms(3) step_set_at raw_get_un[OF assms(1)] raw_get_un[OF assms(2)] vec(1)
  by (intro binary_kernel_outcome[OF assms]) simp_all

lemma div_kernel_outcome:
  assumes "cv_rep t lnl ls l" and "cv_rep t rnl rs r" and "length rs = length ls"
    and "map2 (\<lambda>a b. if a = VNull \<or> b = VNull then Some (ok VNull)
                     else scalar_row sc mk DIV (un a) (un b)) ls rs = map Some os"
  shows "column_outcome t (lnl \<or> rnl) os (div_kernel sc l r t)"
proof -
  have len: "length os = length ls" using arg_cong[OF assms(4), of length] assms(3) by simp
  have outcome: "(if ls ! i = VNull \<or> rs ! i = VNull then Some (ok VNull)
      else scalar_row sc mk DIV (un (ls ! i)) (un (rs ! i))) = Some (os ! i)" if "i < length ls" for i
    using arg_cong[OF assms(4), of "\<lambda>xs. xs ! i"] that assms(3) len by simp
  show ?thesis unfolding div_kernel_def Let_def
  proof (rule binary_kernel_outcome[OF assms(1-3) vec(1) len])
    fix i assume i: "i < length ls"
    show "ls ! i = VNull \<or> rs ! i = VNull \<Longrightarrow> os ! i = ok VNull" using outcome[OF i] by simp
    assume nn: "ls ! i \<noteq> VNull" "rs ! i \<noteq> VNull"
    have "scalar_row sc mk DIV (un (ls ! i)) (un (rs ! i)) = Some (os ! i)"
      using outcome[OF i] nn by simp
    then show "row_step t (lnl \<or> rnl) (length ls) i (os ! i)
        (\<lambda>out. if sc_eq sc (raw_get (sc_width sc) i r) (sc_zero sc)
               then Some (err ''division by zero'')
               else sc_div sc (raw_get (sc_width sc) i l) (raw_get (sc_width sc) i r) \<bind>
                      (\<lambda>q. Some (ok (set_at (sc_width sc) i q out))))"
      using i nn step_set_at row_step_err raw_get_un[OF assms(1)] raw_get_un[OF assms(2)] assms(3)
      by (auto simp: scalar_row_def split: if_splits dest!: sym[of _ "os ! i"])
  qed
qed

lemma dispatch_outcome:
  assumes "cv_rep t lnl ls l" and "cv_rep t rnl rs r" and "length rs = length ls"
    and "map2 (\<lambda>a b. if a = VNull \<or> b = VNull then Some (ok VNull)
                     else scalar_row sc mk op (un a) (un b)) ls rs = map Some os"
  shows "column_outcome (if is_comparison op then INT32 else t) (lnl \<or> rnl) os
           (binary_dispatch sc op l r t)"
proof -
  have total: "os = map2 g ls rs"
    if "\<And>a b. (if a = VNull \<or> b = VNull then Some (ok VNull)
                else scalar_row sc mk op (un a) (un b)) = Some (g a b)" for g
  proof -
    have "map Some os = map Some (map2 g ls rs)" using assms(4) by (simp add: that o_def split_def)
    then show ?thesis by (simp only: inj_map_eq_map inj_Some)
  qed
  show ?thesis
  proof (cases op)
    case ADD
    then show ?thesis using arith_kernel_outcome[OF assms(1-3), of "sc_add sc"]
        total[of "\<lambda>a b. ok (if a = VNull \<or> b = VNull then VNull else mk (sc_add sc (un a) (un b)))"]
      by (simp add: binary_dispatch_def scalar_row_def is_comparison_def)
  next
    case SUB
    then show ?thesis using arith_kernel_outcome[OF assms(1-3), of "sc_sub sc"]
        total[of "\<lambda>a b. ok (if a = VNull \<or> b = VNull then VNull else mk (sc_sub sc (un a) (un b)))"]
      by (simp add: binary_dispatch_def scalar_row_def is_comparison_def)
  next
    case MUL
    then show ?thesis using arith_kernel_outcome[OF assms(1-3), of "sc_mul sc"]
        total[of "\<lambda>a b. ok (if a = VNull \<or> b = VNull then VNull else mk (sc_mul sc (un a) (un b)))"]
      by (simp add: binary_dispatch_def scalar_row_def is_comparison_def)
  next
    case DIV
    then show ?thesis using div_kernel_outcome[OF assms(1-3), of os] assms(4)
      by (simp only: DIV binary_dispatch_def is_comparison_def binary_op_kind.case) simp
  qed (use cmp_kernel_outcome[OF assms(1-3), of "compare_op (sc_lt sc) (sc_eq sc) op"]
        total[of "\<lambda>a b. ok (if a = VNull \<or> b = VNull then VNull
          else truth (compare_op (sc_lt sc) (sc_eq sc) op (un a) (un b)))"] in
        \<open>simp_all add: binary_dispatch_def scalar_row_def is_comparison_def\<close>)
qed

end

definition un32 :: "val \<Rightarrow> 32 word" where
  "un32 v = (case v of VI32 x \<Rightarrow> x | VDate x \<Rightarrow> x | _ \<Rightarrow> 0)"

definition un64 :: "val \<Rightarrow> 64 word" where
  "un64 v = (case v of VI64 x \<Rightarrow> x | VF64 x \<Rightarrow> x | VTimestamp x \<Rightarrow> x | _ \<Rightarrow> 0)"

definition un8 :: "val \<Rightarrow> u8" where
  "un8 v = (case v of VBool b \<Rightarrow> of_bool b | _ \<Rightarrow> 0)"

interpretation k_i32: arith_type INT32 un32 "signed_scalar 4" VI32
  by unfold_locales (simp_all add: vec_type_def signed_scalar_def un32_def cell_val_def)

interpretation k_i64: arith_type INT64 un64 "signed_scalar 8" VI64
  by unfold_locales (simp_all add: vec_type_def signed_scalar_def un64_def cell_val_def)

interpretation k_f64: arith_type DOUBLE un64 "f64_scalar F" VF64 for F
  by unfold_locales (simp_all add: vec_type_def f64_scalar_def un64_def cell_val_def)

interpretation k_date: scalar_type DATE un32 "signed_scalar 4"
  by unfold_locales (simp_all add: vec_type_def signed_scalar_def un32_def cell_val_def)

interpretation k_timestamp: scalar_type TIMESTAMP un64 "signed_scalar 8"
  by unfold_locales (simp_all add: vec_type_def signed_scalar_def un64_def cell_val_def)

interpretation k_bool: scalar_type BOOL un8 u8_scalar
proof
  fix bs :: "u8 list"
  assume "cell_fits BOOL (Inl bs)"
  then obtain b where "bs = [b]" "b = 0 \<or> b = 1"
    by (cases bs) (auto simp: cell_fits_def)
  then show "un8 (cell_val BOOL bs) = le_word bs"
    by (auto simp: cell_val_def un8_def le_word_def)
qed (simp_all add: vec_type_def u8_scalar_def)

section \<open>Dispatch on the type of the operands\<close>

lemma map2_cong_nth:
  assumes "length ls = length rs" and "\<And>i. i < length ls \<Longrightarrow> f (ls ! i) (rs ! i) = g (ls ! i) (rs ! i)"
  shows "map2 f ls rs = map2 g ls rs"
  using assms by (auto simp: set_zip)

lemma str_cmp_kernel_outcome:
  assumes "cv_rep VARCHAR lnl ls l" and "cv_rep VARCHAR rnl rs r" and "length rs = length ls"
  shows "column_outcome INT32 (lnl \<or> rnl)
     (map2 (\<lambda>a b. ok (case (a, b) of (VStr x, VStr y) \<Rightarrow> truth (f x y) | _ \<Rightarrow> VNull)) ls rs)
     (str_cmp_kernel f l r)"
  unfolding str_cmp_kernel_def Let_def
proof (rule binary_kernel_outcome[OF assms])
  fix i assume i: "i < length ls"
  then have ir: "i < length rs" using assms(3) by simp
  show "ls ! i = VNull \<or> rs ! i = VNull \<Longrightarrow>
      map2 (\<lambda>a b. ok (case (a, b) of (VStr x, VStr y) \<Rightarrow> truth (f x y) | _ \<Rightarrow> VNull)) ls rs ! i = ok VNull"
    using i ir by (auto split: val.splits)
  assume "ls ! i \<noteq> VNull" "rs ! i \<noteq> VNull"
  then have "holds_type VARCHAR (ls ! i)" "holds_type VARCHAR (rs ! i)"
    using cv_rep_typed[OF assms(1) i] cv_rep_typed[OF assms(2) ir] by auto
  then obtain x y where "ls ! i = VStr x" "rs ! i = VStr y"
    by (cases "ls ! i"; cases "rs ! i") auto
  then show "row_step INT32 (lnl \<or> rnl) (length ls) i
      (map2 (\<lambda>a b. ok (case (a, b) of (VStr x, VStr y) \<Rightarrow> truth (f x y) | _ \<Rightarrow> VNull)) ls rs ! i)
      (\<lambda>out. cv_get_str i l \<bind> (\<lambda>a. cv_get_str i r \<bind>
         (\<lambda>b. map_option ok (cv_set_i32 i (if f a b then 1 else 0) out))))"
    using i ir row_step_truth[OF i] cv_get_str_rep[OF assms(1) i] cv_get_str_rep[OF assms(2) ir] by simp
qed (use assms(3) in \<open>simp_all add: vec_type_def\<close>)

text \<open>Operand pairs of one type, as the reference semantics sees them.\<close>

lemma binary_row_arith:
  assumes "a = VNull \<or> holds_type t a" and "b = VNull \<or> holds_type t b"
  shows "t = INT32 \<Longrightarrow> binary_row F op a b = (if a = VNull \<or> b = VNull then Some (ok VNull)
           else scalar_row (signed_scalar 4) VI32 op (un32 a) (un32 b))"
    and "t = INT64 \<Longrightarrow> binary_row F op a b = (if a = VNull \<or> b = VNull then Some (ok VNull)
           else scalar_row (signed_scalar 8) VI64 op (un64 a) (un64 b))"
    and "t = DOUBLE \<Longrightarrow> binary_row F op a b = (if a = VNull \<or> b = VNull then Some (ok VNull)
           else scalar_row (f64_scalar F) VF64 op (un64 a) (un64 b))"
  using assms by (cases a; cases b; simp add: binary_row_def un32_def un64_def)+

lemma compare_bool:
  "compare_op (<) (=) op (of_bool x :: u8) (of_bool y) = compare_op (<) (=) op x y"
  by (cases op; cases x; cases y) (simp_all add: compare_op_def)

lemma binary_row_compare:
  assumes "a = VNull \<or> holds_type t a" and "b = VNull \<or> holds_type t b"
  shows "t = DATE \<Longrightarrow> binary_row F op a b = Some (ok (if a = VNull \<or> b = VNull then VNull
           else truth (compare_op (\<lambda>x y. sint x < sint y) (=) op (un32 a) (un32 b))))"
    and "t = TIMESTAMP \<Longrightarrow> binary_row F op a b = Some (ok (if a = VNull \<or> b = VNull then VNull
           else truth (compare_op (\<lambda>x y. sint x < sint y) (=) op (un64 a) (un64 b))))"
    and "t = BOOL \<Longrightarrow> binary_row F op a b = Some (ok (if a = VNull \<or> b = VNull then VNull
           else truth (compare_op (<) (=) op (un8 a) (un8 b))))"
    and "t = VARCHAR \<Longrightarrow> binary_row F op a b =
           Some (ok (case (a, b) of (VStr x, VStr y) \<Rightarrow> truth (compare_op str_less (=) op x y)
                     | _ \<Rightarrow> VNull))"
  using assms
  by (cases a; cases b; simp add: binary_row_def un32_def un64_def un8_def compare_bool)+

lemma map2_some: "map2 (\<lambda>a b. Some (g a b)) ls rs = map Some os \<longleftrightarrow> os = map2 g ls rs"
proof -
  have "map2 (\<lambda>a b. Some (g a b)) ls rs = map Some (map2 g ls rs)" by (simp add: split_def o_def)
  then show ?thesis by (metis inj_map_eq_map inj_Some)
qed

lemma compare_dispatch:
  "is_comparison op \<Longrightarrow>
     binary_dispatch sc op l r t = cmp_kernel (compare_op (sc_lt sc) (sc_eq sc) op) (sc_width sc) l r"
  by (cases op) (simp_all add: binary_dispatch_def is_comparison_def)

lemma eval_binary_outcome:
  assumes l: "cv_rep t lnl ls l" and r: "cv_rep t rnl rs r" and len: "length rs = length ls"
    and op: "t \<in> {VARCHAR, BOOL, DATE, TIMESTAMP} \<longrightarrow> is_comparison op"
    and rows: "map2 (binary_row F op) ls rs = map Some os"
  shows "column_outcome (if is_comparison op then INT32 else t) (lnl \<or> rnl) os
           (eval_binary F t op l r)"
proof -
  have typed: "ls ! i = VNull \<or> holds_type t (ls ! i)" "rs ! i = VNull \<or> holds_type t (rs ! i)"
    if "i < length ls" for i
    using cv_rep_typed[OF l that] cv_rep_typed[OF r, of i] that len by auto
  have cong: "map2 g ls rs = map Some os"
    if "\<And>i. i < length ls \<Longrightarrow> binary_row F op (ls ! i) (rs ! i) = g (ls ! i) (rs ! i)" for g
    using map2_cong_nth[of ls rs "binary_row F op" g] that len rows by simp
  have t: "vec_type t" using l by (auto simp: cv_rep_def cv_wf_def)
  consider "t = INT32" | "t = INT64" | "t = DOUBLE" | "t = VARCHAR" | "t = BOOL" | "t = DATE"
    | "t = TIMESTAMP" using t by (auto simp: vec_type_def)
  then show ?thesis
  proof cases
    case 1
    have "map2 (\<lambda>a b. if a = VNull \<or> b = VNull then Some (ok VNull)
        else scalar_row (signed_scalar 4) VI32 op (un32 a) (un32 b)) ls rs = map Some os"
      by (rule cong) (rule binary_row_arith(1)[OF typed 1])
    from k_i32.dispatch_outcome[OF l[unfolded 1] r[unfolded 1] len this]
    show ?thesis unfolding 1 eval_binary_def type_id.case .
  next
    case 2
    have "map2 (\<lambda>a b. if a = VNull \<or> b = VNull then Some (ok VNull)
        else scalar_row (signed_scalar 8) VI64 op (un64 a) (un64 b)) ls rs = map Some os"
      by (rule cong) (rule binary_row_arith(2)[OF typed 2])
    from k_i64.dispatch_outcome[OF l[unfolded 2] r[unfolded 2] len this]
    show ?thesis unfolding 2 eval_binary_def type_id.case .
  next
    case 3
    have "map2 (\<lambda>a b. if a = VNull \<or> b = VNull then Some (ok VNull)
        else scalar_row (f64_scalar F) VF64 op (un64 a) (un64 b)) ls rs = map Some os"
      by (rule cong) (rule binary_row_arith(3)[OF typed 3])
    from k_f64.dispatch_outcome[OF l[unfolded 3] r[unfolded 3] len this]
    show ?thesis unfolding 3 eval_binary_def type_id.case .
  next
    case 4
    have "map2 (\<lambda>a b. Some (ok (case (a, b) of
        (VStr x, VStr y) \<Rightarrow> truth (compare_op str_less (=) op x y) | _ \<Rightarrow> VNull))) ls rs = map Some os"
      by (rule cong) (rule binary_row_compare(4)[OF typed 4])
    then have "os = map2 (\<lambda>a b. ok (case (a, b) of
        (VStr x, VStr y) \<Rightarrow> truth (compare_op str_less (=) op x y) | _ \<Rightarrow> VNull)) ls rs"
      by (simp only: map2_some)
    then show ?thesis
      using str_cmp_kernel_outcome[OF l[unfolded 4] r[unfolded 4] len, of "compare_op str_less (=) op"] op
      by (simp add: 4 eval_binary_def str_dispatch_def)
  next
    case 5
    have "map2 (\<lambda>a b. Some (ok (if a = VNull \<or> b = VNull then VNull
        else truth (compare_op (<) (=) op (un8 a) (un8 b))))) ls rs = map Some os"
      by (rule cong) (rule binary_row_compare(3)[OF typed 5])
    then have "os = map2 (\<lambda>a b. ok (if a = VNull \<or> b = VNull then VNull
        else truth (compare_op (<) (=) op (un8 a) (un8 b)))) ls rs"
      by (simp only: map2_some)
    then show ?thesis
      using k_bool.cmp_kernel_outcome[OF l[unfolded 5] r[unfolded 5] len, of "compare_op (<) (=) op"] op
      by (simp add: 5 eval_binary_def compare_dispatch) (simp add: u8_scalar_def)
  next
    case 6
    have "map2 (\<lambda>a b. Some (ok (if a = VNull \<or> b = VNull then VNull
        else truth (compare_op (\<lambda>x y. sint x < sint y) (=) op (un32 a) (un32 b))))) ls rs = map Some os"
      by (rule cong) (rule binary_row_compare(1)[OF typed 6])
    then have "os = map2 (\<lambda>a b. ok (if a = VNull \<or> b = VNull then VNull
        else truth (compare_op (\<lambda>x y. sint x < sint y) (=) op (un32 a) (un32 b)))) ls rs"
      by (simp only: map2_some)
    then show ?thesis
      using k_date.cmp_kernel_outcome[OF l[unfolded 6] r[unfolded 6] len, of "compare_op (\<lambda>x y. sint x < sint y) (=) op"] op
      by (simp add: 6 eval_binary_def compare_dispatch) (simp add: signed_scalar_def)
  next
    case 7
    have "map2 (\<lambda>a b. Some (ok (if a = VNull \<or> b = VNull then VNull
        else truth (compare_op (\<lambda>x y. sint x < sint y) (=) op (un64 a) (un64 b))))) ls rs = map Some os"
      by (rule cong) (rule binary_row_compare(2)[OF typed 7])
    then have "os = map2 (\<lambda>a b. ok (if a = VNull \<or> b = VNull then VNull
        else truth (compare_op (\<lambda>x y. sint x < sint y) (=) op (un64 a) (un64 b)))) ls rs"
      by (simp only: map2_some)
    then show ?thesis
      using k_timestamp.cmp_kernel_outcome[OF l[unfolded 7] r[unfolded 7] len, of "compare_op (\<lambda>x y. sint x < sint y) (=) op"] op
      by (simp add: 7 eval_binary_def compare_dispatch) (simp add: signed_scalar_def)
  qed
qed

section \<open>The remaining kernels\<close>

lemma i32_cases:
  assumes "cv_rep INT32 nl vs cv" and "i < length vs"
  shows "vs ! i = VNull \<or> (\<exists>x. vs ! i = VI32 x)"
  using cv_rep_typed[OF assms] by (auto simp: holds_INT32)

lemma i32_is_rep:
  assumes "cv_rep INT32 nl vs cv" and "i < length vs"
  shows "i32_is p (vs ! i = VNull) i cv = Some (\<exists>x. vs ! i = VI32 x \<and> p x)"
  using i32_cases[OF assms] cv_get_i32_rep[OF assms] by (auto simp: i32_is_def)

lemma logical_kernel_outcome:
  assumes l: "cv_rep INT32 lnl ls l" and r: "cv_rep INT32 rnl rs r" and len: "length rs = length ls"
  shows "column_outcome INT32 (lnl \<or> rnl) (map2 (\<lambda>a b. ok (logical_row op a b)) ls rs)
           (case op of LOGICAL_AND \<Rightarrow> and_kernel l r | LOGICAL_OR \<Rightarrow> or_kernel l r)"
proof -
  have size: "cv_size l = length ls" "cv_nullable l = lnl" "cv_nullable r = rnl"
    using l r by (auto simp: cv_rep_def)
  have facts: "null_flag i l = Some (ls ! i = VNull)" "null_flag i r = Some (rs ! i = VNull)"
    "\<And>p. i32_is p (ls ! i = VNull) i l = Some (\<exists>x. ls ! i = VI32 x \<and> p x)"
    "\<And>p. i32_is p (rs ! i = VNull) i r = Some (\<exists>x. rs ! i = VI32 x \<and> p x)"
    if "i < length ls" for i
    using that len null_flag_rep[OF l] null_flag_rep[OF r] i32_is_rep[OF l] i32_is_rep[OF r] by auto
  have nullable: "(lnl \<or> rnl) = True" if "ls ! i = VNull \<or> rs ! i = VNull" "i < length ls" for i
    using that null_imp_nullable[OF l, of i] null_imp_nullable[OF r, of i] len by metis
  note steps = row_step_i32[where n = "length ls"] row_step_null[where n = "length ls"]
  show ?thesis
  proof (cases op)
    case LOGICAL_AND
    have "row_step INT32 (lnl \<or> rnl) (length ls) i (ok (logical_row LOGICAL_AND (ls ! i) (rs ! i)))
        (\<lambda>out. map_option ok
           (if (\<exists>x. ls ! i = VI32 x \<and> x = 0) \<or> (\<exists>x. rs ! i = VI32 x \<and> x = 0) then cv_set_i32 i 0 out
            else if ls ! i = VNull \<or> rs ! i = VNull then cv_set_null i out
            else cv_set_i32 i 1 out))" if i: "i < length ls" for i
      using steps[OF i] nullable[OF _ i] by (auto simp: truth_def)
    then show ?thesis unfolding LOGICAL_AND and_kernel_def size logical_op_kind.case
      by (intro for_rows_outcome) (simp_all add: vec_type_def len facts)
  next
    case LOGICAL_OR
    have "row_step INT32 (lnl \<or> rnl) (length ls) i (ok (logical_row LOGICAL_OR (ls ! i) (rs ! i)))
        (\<lambda>out. map_option ok
           (if (\<exists>x. ls ! i = VI32 x \<and> x \<noteq> 0) \<or> (\<exists>x. rs ! i = VI32 x \<and> x \<noteq> 0) then cv_set_i32 i 1 out
            else if ls ! i = VNull \<or> rs ! i = VNull then cv_set_null i out
            else cv_set_i32 i 0 out))" if i: "i < length ls" for i
      using steps[OF i] nullable[OF _ i] i32_cases[OF l i] i32_cases[OF r, of i] i len
      by (auto simp: truth_def mask_true_def)
    then show ?thesis unfolding LOGICAL_OR or_kernel_def size logical_op_kind.case
      by (intro for_rows_outcome) (simp_all add: vec_type_def len facts)
  qed
qed

lemma not_kernel_outcome:
  assumes c: "cv_rep INT32 nl vs c"
  shows "column_outcome INT32 nl (map (\<lambda>a. ok (not_row a)) vs) (not_kernel c)"
proof -
  have size: "cv_size c = length vs" "cv_nullable c = nl" using c by (auto simp: cv_rep_def)
  show ?thesis unfolding not_kernel_def size
  proof (rule for_rows_outcome)
    fix i assume i: "i < length vs"
    show "row_step INT32 nl (length vs) i (map (\<lambda>a. ok (not_row a)) vs ! i)
        (\<lambda>out. null_flag i c \<bind> (\<lambda>nl. if nl then map_option ok (cv_set_null i out)
           else cv_get_i32 i c \<bind> (\<lambda>v. map_option ok (cv_set_i32 i (if v = 0 then 1 else 0) out))))"
    proof (cases "vs ! i = VNull")
      case True
      then show ?thesis using i null_imp_nullable[OF c i] row_step_null[OF i]
        by (simp add: null_flag_rep[OF c i] not_row_def)
    next
      case False
      then obtain x where "vs ! i = VI32 x" using i32_cases[OF c i] by blast
      then show ?thesis using i row_step_truth[OF i, of nl "x = 0"]
        by (simp add: null_flag_rep[OF c i] not_row_def cv_get_i32_rep[OF c i])
    qed
  qed (simp_all add: vec_type_def)
qed

lemma is_null_kernel_outcome:
  assumes c: "cv_rep t nl vs c"
  shows "column_outcome INT32 False (map (\<lambda>a. ok (truth ((a = VNull) \<noteq> negate))) vs)
           (is_null_kernel c negate)"
proof -
  have size: "cv_size c = length vs" using c by (auto simp: cv_rep_def)
  show ?thesis unfolding is_null_kernel_def size
    by (rule for_rows_outcome)
       (simp_all add: vec_type_def null_flag_rep[OF c] row_step_truth)
qed

lemma literal_outcome:
  assumes "v \<noteq> VNull"
  shows "column_outcome (variant_type v) False (replicate n (ok v))
     (for_rows (\<lambda>i out. map_option ok (set_literal v i out)) [0..<n] (cv_make (variant_type v) n False))"
proof (rule for_rows_outcome)
  show "vec_type (variant_type v)" using assms by (cases v) (simp_all add: vec_type_def)
  fix i assume "i < n"
  then show "row_step (variant_type v) False n i (replicate n (ok v) ! i)
      (\<lambda>out. map_option ok (set_literal v i out))"
    using assms cv_set_i32_rep[of False _ _ i] cv_set_i64_rep[of False _ _ i]
      cv_set_f64_rep[of False _ _ i] cv_set_str_rep[of False _ _ i] cv_set_bool_rep[of False _ _ i]
      cv_set_date_rep[of False _ _ i] cv_set_timestamp_rep[of False _ _ i]
    by (cases v) (fastforce simp: row_step_def set_literal_def)+
qed simp

section \<open>Evaluation\<close>

lemma column_ref_outcome:
  assumes "ck_ok c" and "i < length (ck_columns c)"
  shows "cv_rep (fst (ck_shape c ! i)) (snd (ck_shape c ! i)) (map (\<lambda>row. row ! i) (ck_rows c))
     (case ck_sel c of Some sel \<Rightarrow> gather_via_sel (ck_columns c ! i) sel | None \<Rightarrow> ck_columns c ! i)"
proof -
  let ?col = "ck_columns c ! i"
  have col: "cv_wf ?col" "cv_size ?col = ck_row_count c"
    using assms nth_mem[OF assms(2)] by (auto simp: ck_ok_def)
  have sh: "fst (ck_shape c ! i) = cv_type ?col" "snd (ck_shape c ! i) = cv_nullable ?col"
    using assms(2) by (simp_all add: ck_shape_def)
  have vals: "map (\<lambda>row. row ! i) (ck_rows c) = map (cv_val ?col) (ck_phys c)"
    using assms(2) by (simp add: ck_rows_def ck_row_def)
  show ?thesis
  proof (cases "ck_sel c")
    case None
    then show ?thesis using cv_rep_vals[OF col(1)] col(2)
      unfolding vals sh by (simp add: ck_phys_def cv_vals_def)
  next
    case (Some sel)
    have bound: "\<forall>r\<in>set (sv_for_each sel). unat r < length (cv_vals ?col)"
      using ck_phys_bound[OF assms(1)] Some col by (auto simp: ck_phys_def)
    have "map (cv_val ?col) (ck_phys c) = map (\<lambda>r. cv_vals ?col ! unat r) (sv_for_each sel)"
      using Some bound by (auto simp: ck_phys_def cv_vals_def)
    moreover have "sv_size sel = length (sv_for_each sel)"
      using assms(1) Some by (auto simp: ck_ok_def sv_ok_def)
    ultimately show ?thesis using gather_via_sel_rep[OF cv_rep_vals[OF col(1)] bound] Some
      unfolding vals sh by simp
  qed
qed

lemma scalar_row_error: "scalar_row sc mk op x y = Some (Inl msg) \<Longrightarrow> msg = ''division by zero''"
  by (cases op) (auto simp: scalar_row_def split: if_splits)

lemma binary_row_error: "binary_row F op a b = Some (Inl msg) \<Longrightarrow> msg = ''division by zero''"
  by (cases a; cases b) (auto simp: binary_row_def dest: scalar_row_error)

lemma ev_bind_error:
  "ev_bind m f = Some (Inl e) \<longleftrightarrow> m = Some (Inl e) \<or> (\<exists>x. m = Some (Inr x) \<and> f x = Some (Inl e))"
  by (simp add: ev_bind_def split: option.splits sum.splits)

lemma eval_row_error: "eval_row F row e = Some (Inl msg) \<Longrightarrow> msg = ''division by zero''"
  by (induction e arbitrary: msg) (auto simp: ev_bind_error dest: binary_row_error)

text \<open>
  Evaluating a subexpression on a whole column and then applying a kernel agrees with binding
  row by row: an error of the subexpression in any row is an error of the column.
\<close>

lemma bind_outcome:
  assumes sub: "\<And>los. map el R = map Some los \<Longrightarrow> column_outcome tyl lnl los ml"
    and rows: "map (\<lambda>row. ev_bind (el row) (g row)) R = map Some os"
    and errs: "\<And>row e. el row = Some (Inl e) \<Longrightarrow> e = msg"
      "\<And>row a e. g row a = Some (Inl e) \<Longrightarrow> e = msg"
    and kernel: "\<And>lc vs. cv_rep tyl lnl vs lc \<Longrightarrow> length vs = length R \<Longrightarrow>
      map2 g R vs = map Some os \<Longrightarrow> column_outcome t nl os (k lc)"
  shows "column_outcome t nl os (ev_bind ml k)"
proof -
  have len: "length os = length R" using arg_cong[OF rows, of length] by simp
  have row: "ev_bind (el (R ! i)) (g (R ! i)) = Some (os ! i)" if "i < length R" for i
    using arg_cong[OF rows, of "\<lambda>xs. xs ! i"] that len by simp
  define los where "los = map (\<lambda>row. the (el row)) R"
  have los: "el (R ! i) = Some (los ! i)" if "i < length R" for i
    using row[OF that] that by (cases "el (R ! i)") (simp_all add: ev_bind_def los_def)
  moreover have "length los = length R" by (simp add: los_def)
  ultimately have "map el R = map Some los" by (intro nth_equalityI) simp_all
  from sub[OF this] have out: "column_outcome tyl lnl los ml" .
  show ?thesis
  proof (cases "collect los")
    case (Inl e)
    then obtain i where i: "i < length R" "los ! i = Inl e"
      using collect_err[OF Inl] by (auto simp: in_set_conv_nth los_def)
    then have "os ! i = Inl e" using row[OF i(1)] los[OF i(1)] by (simp add: ev_bind_def)
    then have "Inl e \<in> set os" using i(1) len by (metis nth_mem)
    then obtain e' where e': "collect os = err e'" using collect_is_err by blast
    then obtain j where j: "j < length R" "os ! j = Inl e'"
      using collect_err[OF e'] len by (auto simp: in_set_conv_nth)
    have "e' = msg"
      using row[OF j(1)] j(2) errs by (auto simp: ev_bind_error)
    moreover have "e = msg" using los[OF i(1)] i(2) errs(1) by simp
    ultimately show ?thesis using out Inl e' by (simp add: column_outcome_def ev_bind_def)
  next
    case (Inr vs)
    then have vs: "los = map Inr vs" by (simp add: collect_ok_iff)
    then have vlen: "length vs = length R" by (metis length_map los_def)
    obtain lc where lc: "ml = Some (ok lc)" "cv_rep tyl lnl vs lc"
      using out Inr by (auto simp: column_outcome_def)
    have "map2 g R vs = map Some os"
    proof (rule nth_equalityI)
      fix i assume "i < length (map2 g R vs)"
      then have i: "i < length R" by simp
      then show "map2 g R vs ! i = map Some os ! i"
        using row[OF i] los[OF i] vs vlen len by (simp add: ev_bind_def)
    qed (use vlen len in simp)
    from kernel[OF lc(2) vlen this] show ?thesis by (simp add: lc(1) ev_bind_def)
  qed
qed

lemma bind2_outcome:
  assumes subl: "\<And>los. map el R = map Some los \<Longrightarrow> column_outcome tyl lnl los ml"
    and subr: "\<And>ros. map er R = map Some ros \<Longrightarrow> column_outcome tyr rnl ros mr"
    and rows: "map (\<lambda>row. ev_bind (el row) (\<lambda>a. ev_bind (er row) (\<lambda>b. g a b))) R = map Some os"
    and errs: "\<And>row e. el row = Some (Inl e) \<Longrightarrow> e = msg" "\<And>row e. er row = Some (Inl e) \<Longrightarrow> e = msg"
      "\<And>a b e. g a b = Some (Inl e) \<Longrightarrow> e = msg"
    and kernel: "\<And>lc rc ls rs. cv_rep tyl lnl ls lc \<Longrightarrow> cv_rep tyr rnl rs rc \<Longrightarrow>
      length rs = length ls \<Longrightarrow> map2 g ls rs = map Some os \<Longrightarrow> column_outcome t nl os (k lc rc)"
  shows "column_outcome t nl os (ev_bind ml (\<lambda>lc. ev_bind mr (\<lambda>rc. k lc rc)))"
proof (rule bind_outcome[OF subl rows errs(1)])
  show "\<And>row a e. ev_bind (er row) (g a) = Some (Inl e) \<Longrightarrow> e = msg"
    using errs(2,3) by (auto simp: ev_bind_error)
  fix lc ls assume lc: "cv_rep tyl lnl ls lc" "length ls = length R"
    "map2 (\<lambda>row a. ev_bind (er row) (\<lambda>b. g a b)) R ls = map Some os"
  show "column_outcome t nl os (ev_bind mr (k lc))"
  proof (rule bind_outcome[where R = "zip R ls" and el = "\<lambda>(row, a). er row"
        and g = "\<lambda>(row, a) b. g a b" and msg = msg])
    have "map (\<lambda>(row, a). er row) (zip R ls) = map er R"
      using lc(2) by (auto intro: nth_equalityI)
    then show "column_outcome tyr rnl ros mr" if "map (\<lambda>(row, a). er row) (zip R ls) = map Some ros" for ros
      using that subr by simp
    show "map (\<lambda>ra. ev_bind (case ra of (row, a) \<Rightarrow> er row) ((case ra of (row, a) \<Rightarrow> \<lambda>b. g a b))) (zip R ls)
        = map Some os"
      using lc(3) by (simp add: split_def)
    fix rc rs assume rc: "cv_rep tyr rnl rs rc" "length rs = length (zip R ls)"
      "map2 (\<lambda>(row, a). g a) (zip R ls) rs = map Some os"
    have "map2 g ls rs = map2 (\<lambda>(row, a). g a) (zip R ls) rs"
      using lc(2) rc(2) by (auto intro: nth_equalityI)
    then show "column_outcome t nl os (k lc rc)"
      using kernel[OF lc(1) rc(1)] rc lc(2) by simp
  qed (use errs in auto)
qed (use errs in auto)

lemma evaluate_outcome:
  assumes "ck_ok c" and "expr_constructs e" and "expr_typed (ck_shape c) e"
    and "map (\<lambda>row. eval_row F row e) (ck_rows c) = map Some os"
  shows "column_outcome (output_type e) (expr_nullable (ck_shape c) e) os (evaluate F c e)"
  using assms(2-)
proof (induction e arbitrary: os)
  case (ColumnRef i t)
  then have i: "i < length (ck_columns c)" by (simp add: ck_shape_def)
  have "map Some os = map Some (map Inr (map (\<lambda>row. row ! i) (ck_rows c)))"
    using ColumnRef.prems(3) by (simp add: o_def)
  then have "os = map Inr (map (\<lambda>row. row ! i) (ck_rows c))" by (simp only: inj_map_eq_map inj_Some)
  then have "collect os = ok (map (\<lambda>row. row ! i) (ck_rows c))" by (simp only: collect_oks)
  moreover have "cv_type (ck_columns c ! i) = t" using ColumnRef.prems(2) i by (simp add: ck_shape_def)
  ultimately show ?case using column_ref_outcome[OF assms(1) i] i ColumnRef.prems(2)
    by (simp add: column_outcome_def)
next
  case (Literal v)
  have "os = replicate (length (ck_rows c)) (ok v)"
  proof (rule nth_equalityI)
    show len: "length os = length (replicate (length (ck_rows c)) (ok v))"
      using arg_cong[OF Literal.prems(3), of length] by simp
    fix i assume "i < length os"
    then show "os ! i = replicate (length (ck_rows c)) (ok v) ! i"
      using arg_cong[OF Literal.prems(3), of "\<lambda>xs. xs ! i"] len by simp
  qed
  moreover have "v \<noteq> VNull" using Literal.prems(1) by auto
  ultimately show ?case using literal_outcome[of v "length (ck_rows c)"]
    by (simp add: ck_logical_size[OF assms(1)] Let_def)
next
  case (BinaryOp op l r)
  show ?case unfolding evaluate.simps
  proof (rule bind2_outcome[OF BinaryOp.IH(1) BinaryOp.IH(2), where msg = "''division by zero''"])
    show "map (\<lambda>row. ev_bind (eval_row F row l) (\<lambda>a. ev_bind (eval_row F row r) (binary_row F op a)))
        (ck_rows c) = map Some os"
      using BinaryOp.prems(3) by simp
    fix lc rc ls rs
    assume kernel: "cv_rep (output_type l) (expr_nullable (ck_shape c) l) ls lc"
      "cv_rep (output_type r) (expr_nullable (ck_shape c) r) rs rc" "length rs = length ls"
      "map2 (binary_row F op) ls rs = map Some os"
    moreover have "output_type r = output_type l"
      "output_type l \<in> {VARCHAR, BOOL, DATE, TIMESTAMP} \<longrightarrow> is_comparison op"
      using BinaryOp.prems(1) by simp_all
    ultimately show "column_outcome (output_type (BinaryOp op l r)) (expr_nullable (ck_shape c) (BinaryOp op l r))
        os (eval_binary F (output_type l) op lc rc)"
      using eval_binary_outcome[of "output_type l" _ ls lc _ rs rc op F os] by simp
  qed (use BinaryOp.prems in \<open>auto dest: eval_row_error binary_row_error\<close>)
next
  case (LogicalOp op l r)
  show ?case unfolding evaluate.simps
  proof (rule bind2_outcome[OF LogicalOp.IH(1) LogicalOp.IH(2), where msg = "''division by zero''"])
    show "map (\<lambda>row. ev_bind (eval_row F row l) (\<lambda>a. ev_bind (eval_row F row r)
        (\<lambda>b. Some (ok (logical_row op a b))))) (ck_rows c) = map Some os"
      using LogicalOp.prems(3) by simp
    fix lc rc ls rs
    assume kernel: "cv_rep (output_type l) (expr_nullable (ck_shape c) l) ls lc"
      "cv_rep (output_type r) (expr_nullable (ck_shape c) r) rs rc" "length rs = length ls"
      "map2 (\<lambda>a b. Some (ok (logical_row op a b))) ls rs = map Some os"
    then show "column_outcome (output_type (LogicalOp op l r)) (expr_nullable (ck_shape c) (LogicalOp op l r))
        os (case op of LOGICAL_AND \<Rightarrow> and_kernel lc rc | LOGICAL_OR \<Rightarrow> or_kernel lc rc)"
      using logical_kernel_outcome[of _ ls lc _ rs rc op] LogicalOp.prems(1) by (simp add: map2_some)
  qed (use LogicalOp.prems in \<open>auto dest: eval_row_error\<close>)
next
  case (NotOp e)
  show ?case unfolding evaluate.simps
  proof (rule bind_outcome[OF NotOp.IH, where msg = "''division by zero''"])
    show "map (\<lambda>row. ev_bind (eval_row F row e) (\<lambda>a. Some (ok (not_row a)))) (ck_rows c) = map Some os"
      using NotOp.prems(3) by simp
    fix lc vs
    assume kernel: "cv_rep (output_type e) (expr_nullable (ck_shape c) e) vs lc"
      "length vs = length (ck_rows c)" "map2 (\<lambda>row a. Some (ok (not_row a))) (ck_rows c) vs = map Some os"
    then have "os = map (\<lambda>a. ok (not_row a)) vs" by (auto simp: map2_some intro: nth_equalityI)
    then show "column_outcome (output_type (NotOp e)) (expr_nullable (ck_shape c) (NotOp e)) os (not_kernel lc)"
      using not_kernel_outcome[of _ vs lc] kernel(1) NotOp.prems(1) by simp
  qed (use NotOp.prems in \<open>auto dest: eval_row_error\<close>)
next
  case (NullCheckOp kind e)
  show ?case unfolding evaluate.simps
  proof (rule bind_outcome[OF NullCheckOp.IH, where msg = "''division by zero''"])
    show "map (\<lambda>row. ev_bind (eval_row F row e)
        (\<lambda>a. Some (ok (truth ((a = VNull) = (kind = IS_NULL)))))) (ck_rows c) = map Some os"
      using NullCheckOp.prems(3) by simp
    fix lc vs
    assume kernel: "cv_rep (output_type e) (expr_nullable (ck_shape c) e) vs lc"
      "length vs = length (ck_rows c)"
      "map2 (\<lambda>row a. Some (ok (truth ((a = VNull) = (kind = IS_NULL))))) (ck_rows c) vs = map Some os"
    then have "os = map (\<lambda>a. ok (truth ((a = VNull) \<noteq> (kind = IS_NOT_NULL)))) vs"
      by (cases kind) (auto simp: map2_some intro!: nth_equalityI)
    then show "column_outcome (output_type (NullCheckOp kind e))
        (expr_nullable (ck_shape c) (NullCheckOp kind e)) os (is_null_kernel lc (kind = IS_NOT_NULL))"
      using is_null_kernel_outcome[OF kernel(1), of "kind = IS_NOT_NULL"] by simp
  qed (use NullCheckOp.prems in \<open>auto dest: eval_row_error\<close>)
qed

section \<open>The main properties\<close>

text \<open>An expression without division has a value on every row.\<close>

fun div_free :: "expr \<Rightarrow> bool" where
  "div_free (ColumnRef _ _) = True"
| "div_free (Literal _) = True"
| "div_free (BinaryOp op l r) = (op \<noteq> DIV \<and> div_free l \<and> div_free r)"
| "div_free (LogicalOp _ l r) = (div_free l \<and> div_free r)"
| "div_free (NotOp c) = div_free c"
| "div_free (NullCheckOp _ c) = div_free c"

lemma scalar_row_div_free: "op \<noteq> DIV \<Longrightarrow> \<exists>v. scalar_row sc mk op x y = Some (ok v)"
  by (cases op) (simp_all add: scalar_row_def)

lemma binary_row_div_free: "op \<noteq> DIV \<Longrightarrow> \<exists>v. binary_row F op a b = Some (ok v)"
  by (cases a; cases b) (simp_all add: binary_row_def scalar_row_div_free)

lemma eval_row_div_free: "div_free e \<Longrightarrow> \<exists>v. eval_row F row e = Some (ok v)"
  by (induction e) (auto simp: ev_bind_def binary_row_div_free)

lemma evaluate_div_free:
  assumes "ck_ok c" and "expr_constructs e" and "expr_typed (ck_shape c) e" and "div_free e"
  shows "\<exists>cv vs. evaluate F c e = Some (ok cv) \<and>
     cv_rep (output_type e) (expr_nullable (ck_shape c) e) vs cv \<and>
     map (\<lambda>row. eval_row F row e) (ck_rows c) = map (Some \<circ> ok) vs"
proof -
  obtain val where val: "\<And>row. eval_row F row e = Some (ok (val row))"
    using eval_row_div_free[OF assms(4)] by metis
  let ?vs = "map val (ck_rows c)"
  have "map (\<lambda>row. eval_row F row e) (ck_rows c) = map Some (map Inr ?vs)" by (simp add: val)
  from evaluate_outcome[OF assms(1-3) this] show ?thesis
    by (auto simp: column_outcome_def collect_oks val o_def intro!: exI[of _ ?vs] simp del: map_map)
       (simp add: o_def)
qed

text \<open>
  C3: Vectorised evaluation computes what the expression means on each row. On a well-formed
  chunk, for an expression whose constructors' assertions hold and whose column references match
  the chunk, let every row have an outcome of the row-at-a-time semantics (no row divides the
  least integer by \<open>-1\<close>, which traps). If no row fails, \<open>evaluate\<close> returns a column with the
  type and nullability of the expression whose values are those of the rows, in order, with or
  without a selection vector; if some row fails, it returns the error of the first.
\<close>

theorem vectorised_evaluation:
  assumes "ck_ok c" and "expr_constructs e" and "expr_typed (ck_shape c) e"
    and "map (\<lambda>row. eval_row F row e) (ck_rows c) = map Some os"
  shows "case collect os of
           Inl msg \<Rightarrow> evaluate F c e = Some (err msg)
         | Inr vs \<Rightarrow> \<exists>cv. evaluate F c e = Some (ok cv) \<and> cv_type cv = output_type e \<and>
                       cv_nullable cv = expr_nullable (ck_shape c) e \<and> cv_vals cv = vs"
  using evaluate_outcome[OF assms]
  by (auto simp: column_outcome_def cv_rep_def split: sum.splits)

definition sample_column :: column_vector where
  "sample_column = \<lparr> cv_type = INT32, cv_nullable = True, cv_has_nulls = True, cv_size = 3,
     cv_data = [7, 0, 0, 0, 0, 0, 0, 0, 2, 0, 0, 0], cv_str_data = [], cv_null_bitmap = [2] \<rparr>"

definition sample_chunk :: chunk where
  "sample_chunk = \<lparr> ck_row_count = 3, ck_columns = [sample_column], ck_sel = None \<rparr>"

definition no_fpu :: fpu where
  "no_fpu = \<lparr> f_add = (\<lambda>a b. 0), f_sub = (\<lambda>a b. 0), f_mul = (\<lambda>a b. 0), f_div = (\<lambda>a b. 0) \<rparr>"

lemma sample_chunk_ok:
  "ck_ok sample_chunk" "ck_shape sample_chunk = [(INT32, True)]"
  "ck_rows sample_chunk = [[VI32 7], [VNull], [VI32 2]]"
proof -
  show "ck_ok sample_chunk"
    by (simp add: ck_ok_def sample_chunk_def sample_column_def cv_wf_def vec_type_def)
  show "ck_shape sample_chunk = [(INT32, True)]"
    by (simp add: ck_shape_def sample_chunk_def sample_column_def)
  have "cv_val sample_column 0 = VI32 7" "cv_val sample_column 1 = VNull" "cv_val sample_column 2 = VI32 2"
    by (simp_all add: sample_column_def cv_val_def cv_null_at_def bm_get_bit cell_value_def cv_cell_def
        cell_val_def slice_def le_word_def)
  then show "ck_rows sample_chunk = [[VI32 7], [VNull], [VI32 2]]"
    by (simp add: ck_rows_def ck_row_def ck_phys_def sample_chunk_def upt_rec numeral_2_eq_2)
qed

theorem vectorised_evaluation_witness:
  "\<exists>cv. evaluate no_fpu sample_chunk (BinaryOp GT (ColumnRef 0 INT32) (Literal (VI32 5))) = Some (ok cv) \<and>
     cv_type cv = INT32 \<and> cv_nullable cv \<and> cv_vals cv = [VI32 1, VNull, VI32 0]"
proof -
  let ?e = "BinaryOp GT (ColumnRef 0 INT32) (Literal (VI32 5))"
  have hyps: "expr_constructs ?e" "expr_typed (ck_shape sample_chunk) ?e"
    "map (\<lambda>row. eval_row no_fpu row ?e) (ck_rows sample_chunk) =
       map Some [ok (VI32 1), ok VNull, ok (VI32 0)]"
    by (simp_all add: is_comparison_def sample_chunk_ok ev_bind_def binary_row_def scalar_row_def
        compare_op_def truth_def signed_scalar_def)
  show ?thesis
    using vectorised_evaluation[OF sample_chunk_ok(1) hyps] by (simp add: sample_chunk_ok is_comparison_def)
qed

text \<open>
  C19: Type safety. On a chunk that matches its column references, an expression that satisfies
  the constructors' assertions and contains no division always evaluates to a column: no
  assertion of an accessor fails, no error is returned, and the column has the static output
  type, one value per logical row, and a null only where the expression is statically nullable.
\<close>

theorem expression_type_safe:
  assumes "ck_ok c" and "expr_constructs e" and "expr_typed (ck_shape c) e" and "div_free e"
  shows "\<exists>cv. evaluate F c e = Some (ok cv) \<and> cv_type cv = output_type e \<and>
           cv_size cv = ck_logical_size c \<and>
           (\<forall>i < cv_size cv. cv_vals cv ! i = VNull \<and> expr_nullable (ck_shape c) e \<or>
                             holds_type (output_type e) (cv_vals cv ! i))"
proof -
  obtain cv vs where cv: "evaluate F c e = Some (ok cv)"
      "cv_rep (output_type e) (expr_nullable (ck_shape c) e) vs cv"
      "map (\<lambda>row. eval_row F row e) (ck_rows c) = map (Some \<circ> ok) vs"
    using evaluate_div_free[OF assms] by blast
  have "length vs = ck_logical_size c"
    using arg_cong[OF cv(3), of length] ck_logical_size[OF assms(1)] by simp
  moreover have "cv_type cv = output_type e" "cv_vals cv = vs" "cv_size cv = length vs"
    using cv(2) by (auto simp: cv_rep_def)
  ultimately show ?thesis using cv(1) cv_rep_typed[OF cv(2)] by simp
qed

theorem expression_type_safe_witness:
  "\<exists>cv. evaluate no_fpu sample_chunk (NullCheckOp IS_NULL (ColumnRef 0 INT32)) = Some (ok cv) \<and>
     cv_type cv = INT32 \<and> cv_size cv = 3"
  using expression_type_safe[OF sample_chunk_ok(1), of "NullCheckOp IS_NULL (ColumnRef 0 INT32)" no_fpu]
  by (auto simp: sample_chunk_ok ck_logical_size[OF sample_chunk_ok(1)])

text \<open>The trap that the hypothesis of the first property excludes is reached by plain data.\<close>

lemma least_integer_by_minus_one:
  "eval_row F [VI32 0x80000000] (BinaryOp DIV (ColumnRef 0 INT32) (Literal (VI32 (- 1)))) = None"
  by (simp add: ev_bind_def binary_row_def scalar_row_def signed_scalar_def signed_quot_def)

end
