(* ===== verification/Operators.thy ===== *)
theory Operators
  imports Expression
begin

text \<open>
  The operators \<open>Filter\<close>, \<open>Project\<close> and \<open>Limit\<close> (\<^verbatim>\<open>src/src/executor/filter.cpp\<close>,
  \<^verbatim>\<open>project.cpp\<close>, \<^verbatim>\<open>limit.cpp\<close>) over an arbitrary child that implements the
  interface of \<^verbatim>\<open>operator.h\<close>. The child is a record of functions on a state; a call of
  \<open>next\<close> that does not return (a failed assertion, a trap, an endless loop) is \<open>None\<close>. \<open>drains\<close>
  describes the chunks a parent receives until the child is exhausted or fails, and the lemmas
  relate the stream of an operator to the stream of its child.
\<close>

section \<open>The operator interface\<close>

record 's operator =
  op_open :: "'s \<Rightarrow> unit result \<times> 's"
  op_next :: "'s \<Rightarrow> (chunk option result \<times> 's) option"
  op_close :: "'s \<Rightarrow> 's"

inductive drains :: "('s \<Rightarrow> (chunk option result \<times> 's) option) \<Rightarrow> 's \<Rightarrow> chunk list \<Rightarrow> unit result \<Rightarrow> 's \<Rightarrow> bool"
  for nxt where
  drained: "nxt s = Some (ok None, s') \<Longrightarrow> drains nxt s [] (ok ()) s'"
| failed: "nxt s = Some (err e, s') \<Longrightarrow> drains nxt s [] (err e) s'"
| chunk: "nxt s = Some (ok (Some c), s') \<Longrightarrow> drains nxt s' cs r s'' \<Longrightarrow> drains nxt s (c # cs) r s''"

section \<open>Filter\<close>

datatype filter_strategy = COMPACT | SELECTION_VECTOR

record 's filter_op =
  fi_child :: 's
  fi_opened :: bool

definition filter_open :: "'s operator \<Rightarrow> 's filter_op \<Rightarrow> unit result \<times> 's filter_op" where
  "filter_open C f = (case op_open C (fi_child f) of
       (Inl e, s) \<Rightarrow> (err e, f\<lparr>fi_child := s\<rparr>)
     | (Inr _, s) \<Rightarrow> (ok (), f\<lparr>fi_child := s, fi_opened := True\<rparr>))"

definition filter_close :: "'s operator \<Rightarrow> 's filter_op \<Rightarrow> 's filter_op" where
  "filter_close C f = f\<lparr>fi_child := op_close C (fi_child f)\<rparr>"

text \<open>What one chunk becomes: \<open>None\<close> inside when no row is left and the loop goes on.\<close>

definition filter_chunk :: "filter_strategy \<Rightarrow> column_vector \<Rightarrow> chunk \<Rightarrow> chunk option option" where
  "filter_chunk strategy msk c = (case strategy of
       COMPACT \<Rightarrow>
         do { c' \<leftarrow> (if ck_sel c \<noteq> None then ck_compact_from_sel msk c else ck_compact_in_place msk c);
              Some (if ck_row_count c' = 0 then None else Some c') }
     | SELECTION_VECTOR \<Rightarrow>
         do { rows \<leftarrow> keep_rows msk 0 (case ck_sel c of
                  Some sel \<Rightarrow> sv_for_each sel
                | None \<Rightarrow> map word_of_nat [0..<unat (word_of_nat (cv_size msk) :: u32)]);
              if rows = [] then Some None
              else map_option Some
                (ck_set_sel (sb_finalize (word_of_nat (ck_row_count c)) False
                   (fold sb_append rows sb_new)) c) })"

partial_function (option) filter_next ::
  "'s operator \<Rightarrow> fpu \<Rightarrow> expr \<Rightarrow> filter_strategy \<Rightarrow> 's filter_op \<Rightarrow> (chunk option result \<times> 's filter_op) option"
where
  "filter_next C F pred strategy f =
     (if \<not> fi_opened f then None
      else Option.bind (op_next C (fi_child f)) (\<lambda>(r, s).
        case r of
          Inl e \<Rightarrow> Some (err e, f\<lparr>fi_child := s\<rparr>)
        | Inr None \<Rightarrow> Some (ok None, f\<lparr>fi_child := s\<rparr>)
        | Inr (Some c) \<Rightarrow>
            Option.bind (evaluate F c pred) (\<lambda>m.
              case m of
                Inl e \<Rightarrow> Some (err e, f\<lparr>fi_child := s\<rparr>)
              | Inr msk \<Rightarrow>
                  Option.bind (filter_chunk strategy msk c) (\<lambda>out.
                    case out of
                      None \<Rightarrow> filter_next C F pred strategy (f\<lparr>fi_child := s\<rparr>)
                    | Some c' \<Rightarrow> Some (ok (Some c'), f\<lparr>fi_child := s\<rparr>)))))"

section \<open>Project\<close>

record 's project_op =
  pr_child :: 's
  pr_opened :: bool

record project_item =
  pi_expr :: expr
  pi_name :: string
  pi_nullable :: bool

definition project_schema :: "project_item list \<Rightarrow> schema" where
  "project_schema items = map (\<lambda>it.
     \<lparr> col_name = pi_name it, col_type = output_type (pi_expr it), col_nullable = pi_nullable it,
       col_max_len = 0, col_default = None \<rparr>) items"

definition project_open :: "'s operator \<Rightarrow> 's project_op \<Rightarrow> unit result \<times> 's project_op" where
  "project_open C p = (case op_open C (pr_child p) of
       (Inl e, s) \<Rightarrow> (err e, p\<lparr>pr_child := s\<rparr>)
     | (Inr _, s) \<Rightarrow> (ok (), p\<lparr>pr_child := s, pr_opened := True\<rparr>))"

definition project_close :: "'s operator \<Rightarrow> 's project_op \<Rightarrow> 's project_op" where
  "project_close C p = p\<lparr>pr_child := op_close C (pr_child p)\<rparr>"

fun project_columns :: "fpu \<Rightarrow> chunk \<Rightarrow> expr list \<Rightarrow> column_vector list result option" where
  "project_columns F c [] = Some (ok [])"
| "project_columns F c (e # es) =
     ev_bind (evaluate F c e) (\<lambda>col. ev_bind (project_columns F c es) (\<lambda>cols. Some (ok (col # cols))))"

definition project_next ::
  "'s operator \<Rightarrow> fpu \<Rightarrow> project_item list \<Rightarrow> 's project_op \<Rightarrow> (chunk option result \<times> 's project_op) option"
where
  "project_next C F items p =
     (if \<not> pr_opened p then None
      else do { (r, s) \<leftarrow> op_next C (pr_child p);
        let p = p\<lparr>pr_child := s\<rparr>;
        case r of
          Inl e \<Rightarrow> Some (err e, p)
        | Inr None \<Rightarrow> Some (ok None, p)
        | Inr (Some c) \<Rightarrow>
            do { outs \<leftarrow> project_columns F c (map pi_expr items);
                 case outs of
                   Inl e \<Rightarrow> Some (err e, p)
                 | Inr cols \<Rightarrow> map_option (\<lambda>c'. (ok (Some c'), p)) (ck_new (ck_logical_size c) cols) } })"

section \<open>Limit\<close>

record 's limit_op =
  li_child :: 's
  li_offset :: nat
  li_limit :: nat
  li_skipped :: nat
  li_emitted :: nat
  li_opened :: bool
  li_exhausted :: bool

definition limit_open :: "'s operator \<Rightarrow> 's limit_op \<Rightarrow> unit result \<times> 's limit_op" where
  "limit_open C l = (case op_open C (li_child l) of
       (Inl e, s) \<Rightarrow> (err e, l\<lparr>li_child := s\<rparr>)
     | (Inr _, s) \<Rightarrow> (ok (), l\<lparr>li_child := s, li_opened := True\<rparr>))"

definition limit_close_child_eager :: "'s operator \<Rightarrow> 's limit_op \<Rightarrow> 's limit_op" where
  "limit_close_child_eager C l = l\<lparr>li_child := op_close C (li_child l), li_exhausted := True\<rparr>"

definition limit_close :: "'s operator \<Rightarrow> 's limit_op \<Rightarrow> 's limit_op" where
  "limit_close C l = (if \<not> li_exhausted l then limit_close_child_eager C l else l)"

text \<open>The end of the loop body: the chunk is emitted, cut to what remains.\<close>

definition limit_emit :: "'s operator \<Rightarrow> chunk \<Rightarrow> 's limit_op \<Rightarrow> (chunk option result \<times> 's limit_op) option" where
  "limit_emit C c l =
     (let remaining = li_limit l - li_emitted l in
      if ck_logical_size c \<le> remaining
      then let l = l\<lparr>li_emitted := li_emitted l + ck_logical_size c\<rparr>
           in Some (ok (Some c),
                    if li_emitted l = li_limit l then limit_close_child_eager C l else l)
      else map_option (\<lambda>c'. (ok (Some c'), limit_close_child_eager C (l\<lparr>li_emitted := li_limit l\<rparr>)))
             (ck_resize remaining c))"

partial_function (option) limit_loop ::
  "'s operator \<Rightarrow> 's limit_op \<Rightarrow> (chunk option result \<times> 's limit_op) option" where
  "limit_loop C l =
     Option.bind (op_next C (li_child l)) (\<lambda>(r, s).
       case r of
         Inl e \<Rightarrow> Some (err e, l\<lparr>li_child := s\<rparr>)
       | Inr None \<Rightarrow> Some (ok None, limit_close_child_eager C (l\<lparr>li_child := s\<rparr>))
       | Inr (Some c) \<Rightarrow>
           if li_skipped l < li_offset l
           then (if ck_logical_size c \<le> li_offset l - li_skipped l
                 then limit_loop C (l\<lparr>li_child := s, li_skipped := li_skipped l + ck_logical_size c\<rparr>)
                 else Option.bind (ck_drop_prefix (li_offset l - li_skipped l) c) (\<lambda>c'.
                        limit_emit C c' (l\<lparr>li_child := s, li_skipped := li_offset l\<rparr>)))
           else limit_emit C c (l\<lparr>li_child := s\<rparr>))"

definition limit_next :: "'s operator \<Rightarrow> 's limit_op \<Rightarrow> (chunk option result \<times> 's limit_op) option" where
  "limit_next C l =
     (if \<not> li_opened l then None
      else if li_exhausted l then Some (ok None, l)
      else if li_emitted l \<ge> li_limit l then Some (ok None, limit_close_child_eager C l)
      else limit_loop C l)"

section \<open>Streams\<close>

inductive_cases drains_NilE: "drains nxt s [] r s'"
inductive_cases drains_ConsE: "drains nxt s (c # cs) r s'"

lemma drains_same_next:
  assumes "nxt s = nxt t" and "drains nxt t cs r s'"
  shows "drains nxt s cs r s'"
  using assms(2)
proof cases
  case drained
  then show ?thesis using assms(1) by (simp add: drains.drained)
next
  case failed
  then show ?thesis using assms(1) by (simp add: drains.failed)
next
  case (chunk c s1 cs1)
  then show ?thesis using assms(1) by (simp add: drains.chunk)
qed

text \<open>The chunks of a stream: one shape, and selections in ascending order.\<close>

definition stream_chunk :: "shape \<Rightarrow> chunk \<Rightarrow> bool" where
  "stream_chunk sh c \<longleftrightarrow> ck_ok c \<and> ck_shape c = sh \<and>
     (case ck_sel c of None \<Rightarrow> True | Some sel \<Rightarrow> sorted_wrt (<) (sv_for_each sel))"

definition stream_rows :: "chunk list \<Rightarrow> val list list" where
  "stream_rows cs = concat (map ck_rows cs)"

lemma stream_rows_simps [simp]:
  "stream_rows [] = []" "stream_rows (c # cs) = ck_rows c @ stream_rows cs"
  by (simp_all add: stream_rows_def)

text \<open>The value of an expression on a row, where it has one.\<close>

definition row_defined :: "fpu \<Rightarrow> expr \<Rightarrow> val list \<Rightarrow> bool" where
  "row_defined F e row \<longleftrightarrow> (case eval_row F row e of Some (Inr _) \<Rightarrow> True | _ \<Rightarrow> False)"

definition row_val :: "fpu \<Rightarrow> expr \<Rightarrow> val list \<Rightarrow> val" where
  "row_val F e row = (case eval_row F row e of Some (Inr v) \<Rightarrow> v | _ \<Rightarrow> VNull)"

lemma row_defined_val: "row_defined F e row \<Longrightarrow> eval_row F row e = Some (ok (row_val F e row))"
  by (auto simp: row_defined_def row_val_def split: option.splits sum.splits)

lemma evaluate_defined:
  assumes "ck_ok c" and "expr_constructs e" and "expr_typed (ck_shape c) e"
    and "\<forall>row\<in>set (ck_rows c). row_defined F e row"
  shows "\<exists>cv. evaluate F c e = Some (ok cv) \<and>
     cv_rep (output_type e) (expr_nullable (ck_shape c) e) (map (row_val F e) (ck_rows c)) cv"
proof -
  let ?vs = "map (row_val F e) (ck_rows c)"
  have "map (\<lambda>row. eval_row F row e) (ck_rows c) = map Some (map Inr ?vs)"
    using assms(4) by (simp add: row_defined_val)
  from evaluate_outcome[OF assms(1-3) this] show ?thesis
    by (simp add: column_outcome_def collect_oks del: map_map)
qed

lemma keep_vals_filter: "keep_vals (map f xs) xs = filter (\<lambda>x. mask_true (f x)) xs"
proof -
  have "keep_vals (map f xs) xs = map snd (filter (mask_true \<circ> fst) (zip (map f xs) xs))"
    by (simp add: keep_vals_zip)
  also have "\<dots> = filter (\<lambda>x. mask_true (f x)) xs" by (induction xs) simp_all
  finally show ?thesis .
qed

lemma sorted_keep_vals: "sorted_wrt P xs \<Longrightarrow> sorted_wrt P (keep_vals ms xs)"
proof -
  assume P: "sorted_wrt P xs"
  let ?is = "filter (\<lambda>j. mask_true (ms ! j)) [0..<length xs]"
  have "sorted_wrt (<) ?is" by (simp add: sorted_wrt_filter)
  then have "sorted_wrt (\<lambda>i j. P (xs ! i) (xs ! j)) ?is"
    by (rule sorted_wrt_mono_rel[rotated]) (use P in \<open>auto intro: sorted_wrt_nth_less\<close>)
  then show ?thesis by (simp add: keep_vals_def sorted_wrt_map)
qed

section \<open>Filter: lemmas\<close>

lemma unat_of_nat_small: "n \<le> 4294967288 \<Longrightarrow> unat (word_of_nat n :: u32) = n"
  by (rule unat_of_nat_u32) simp

lemma filter_select:
  assumes c: "stream_chunk sh c" and msk: "cv_rep INT32 nl ms msk" "length ms = length (ck_rows c)"
  shows "\<exists>out. filter_chunk SELECTION_VECTOR msk c = Some out \<and>
     (case out of None \<Rightarrow> keep_vals ms (ck_rows c) = []
      | Some c' \<Rightarrow> stream_chunk sh c' \<and> ck_rows c' = keep_vals ms (ck_rows c))"
proof -
  have okc: "ck_ok c" and sh: "ck_shape c = sh" using c by (auto simp: stream_chunk_def)
  let ?n = "ck_row_count c"
  have n: "?n \<le> 4294967288" "unat (word_of_nat ?n :: u32) = ?n"
    using okc unat_of_nat_small by (auto simp: ck_ok_def)
  define rows where "rows = (case ck_sel c of Some sel \<Rightarrow> sv_for_each sel
    | None \<Rightarrow> map word_of_nat [0..<unat (word_of_nat (cv_size msk) :: u32)])"
  have phys: "ck_phys c = map unat rows" and asc: "sorted_wrt (<) rows"
  proof -
    have "ck_phys c = map unat rows \<and> sorted_wrt (<) rows"
    proof (cases "ck_sel c")
      case None
      then have rows: "rows = map word_of_nat [0..<?n]"
        using msk(2) cv_rep_size[OF msk(1)] n by (simp add: rows_def length_ck_rows ck_phys_def)
      have each: "unat (word_of_nat j :: u32) = j" if "j < ?n" for j
        using that n by (simp add: unat_of_nat_u32)
      have "sorted_wrt (<) rows"
        by (auto simp: rows sorted_wrt_iff_nth_less word_less_nat_alt each)
      moreover have "map unat rows = [0..<?n]" by (auto simp: rows each intro!: map_idI)
      ultimately show ?thesis using None by (simp add: ck_phys_def)
    qed (use c in \<open>auto simp: stream_chunk_def rows_def ck_phys_def\<close>)
    then show "ck_phys c = map unat rows" "sorted_wrt (<) rows" by simp_all
  qed
  let ?keep = "keep_vals ms rows"
  let ?sv = "sb_finalize (word_of_nat ?n) False (fold sb_append ?keep sb_new)"
  have bound: "\<forall>r\<in>set ?keep. r < word_of_nat ?n"
    using ck_phys_bound[OF okc] keep_vals_subset(1)[of ms rows] n by (auto simp: phys word_less_nat_alt)
  have idx: "sb_indices (fold sb_append ?keep sb_new) = ?keep" by (simp add: sb_new_def)
  have sv: "sv_for_each ?sv = ?keep" "sv_row_count ?sv = word_of_nat ?n" "sv_ok ?sv"
    using sb_finalize_rows[of "fold sb_append ?keep sb_new" "word_of_nat ?n" False]
      sorted_keep_vals[OF asc] bound n by (simp_all only: idx)
  have klen: "length rows = length ms" using msk(2) phys by (simp add: length_ck_rows)
  have size: "sv_size ?sv \<le> 4294967288"
  proof -
    have "length rows \<le> 4294967288"
      using okc arg_cong[OF phys, of length]
      by (cases "ck_sel c") (auto simp: ck_phys_def ck_ok_def sv_ok_def)
    then show ?thesis
      using sv keep_vals_subset(2)[of ms rows] by (simp add: sv_ok_def)
  qed
  let ?c = "c\<lparr>ck_sel := Some ?sv\<rparr>"
  have "stream_chunk sh ?c"
    using okc sh sv n size sorted_keep_vals[OF asc]
    by (auto simp: stream_chunk_def ck_ok_def ck_shape_def split: option.splits)
  moreover have "ck_rows ?c = keep_vals ms (ck_rows c)"
    by (simp add: ck_rows_def ck_phys_def sv phys[unfolded ck_phys_def] ck_row_def keep_vals_map)
  moreover have "keep_vals ms (ck_rows c) = [] \<longleftrightarrow> ?keep = []"
    by (simp add: ck_rows_def phys keep_vals_map)
  moreover have "ck_set_sel ?sv c = Some ?c" using sv n by (simp add: ck_set_sel_def)
  ultimately show ?thesis using keep_rows_vals[OF msk(1) klen]
    by (cases "?keep = []") (simp_all add: filter_chunk_def rows_def[symmetric])
qed

lemma filter_compact:
  assumes c: "stream_chunk sh c" "sh \<noteq> []" and msk: "cv_rep INT32 nl ms msk" "length ms = length (ck_rows c)"
  shows "\<exists>out. filter_chunk COMPACT msk c = Some out \<and>
     (case out of None \<Rightarrow> keep_vals ms (ck_rows c) = []
      | Some c' \<Rightarrow> stream_chunk sh c' \<and> ck_rows c' = keep_vals ms (ck_rows c))"
proof -
  have okc: "ck_ok c" and sh: "ck_shape c = sh" using c by (auto simp: stream_chunk_def)
  have cols: "ck_columns c \<noteq> []" using c(2) sh by (auto simp: ck_shape_def)
  obtain c' where c': "(if ck_sel c \<noteq> None then ck_compact_from_sel msk c else ck_compact_in_place msk c) = Some c'"
      "ck_ok c'" "ck_shape c' = sh" "ck_sel c' = None" "ck_rows c' = keep_vals ms (ck_rows c)"
    using ck_compact_in_place_rows[OF okc _ cols msk] ck_compact_from_sel_rows[OF okc _ msk] sh
    by (cases "ck_sel c") auto
  have "ck_row_count c' = 0 \<longleftrightarrow> ck_rows c' = []"
    using c'(4) by (simp add: ck_rows_def ck_phys_def)
  then show ?thesis using c' by (auto simp: filter_chunk_def stream_chunk_def)
qed

lemma filter_chunk_rows:
  assumes "stream_chunk sh c" "sh \<noteq> []" and "cv_rep INT32 nl ms msk" "length ms = length (ck_rows c)"
  shows "\<exists>out. filter_chunk strategy msk c = Some out \<and>
     (case out of None \<Rightarrow> keep_vals ms (ck_rows c) = []
      | Some c' \<Rightarrow> stream_chunk sh c' \<and> ck_rows c' = keep_vals ms (ck_rows c))"
  using filter_compact[OF assms] filter_select[OF assms(1,3,4)] by (cases strategy) auto

lemma filter_step:
  assumes "fi_opened f" and "op_next C (fi_child f) = Some (ok (Some c), s)"
    and c: "stream_chunk sh c" "sh \<noteq> []" "\<forall>row\<in>set (ck_rows c). row_defined F p row"
    and p: "expr_constructs p" "expr_typed sh p" "output_type p = INT32"
  shows "filter (\<lambda>row. mask_true (row_val F p row)) (ck_rows c) = [] \<and>
           filter_next C F p strategy f = filter_next C F p strategy (f\<lparr>fi_child := s\<rparr>) \<or>
         (\<exists>c'. filter_next C F p strategy f = Some (ok (Some c'), f\<lparr>fi_child := s\<rparr>) \<and>
           stream_chunk sh c' \<and> ck_rows c' = filter (\<lambda>row. mask_true (row_val F p row)) (ck_rows c))"
proof -
  have okc: "ck_ok c" and sh: "ck_shape c = sh" using c by (auto simp: stream_chunk_def)
  obtain msk where msk: "evaluate F c p = Some (ok msk)"
      "cv_rep INT32 (expr_nullable sh p) (map (row_val F p) (ck_rows c)) msk"
    using evaluate_defined[OF okc p(1) _ c(3)] p sh by auto
  obtain out where out: "filter_chunk strategy msk c = Some out"
      "case out of None \<Rightarrow> keep_vals (map (row_val F p) (ck_rows c)) (ck_rows c) = []
       | Some c' \<Rightarrow> stream_chunk sh c' \<and>
           ck_rows c' = keep_vals (map (row_val F p) (ck_rows c)) (ck_rows c)"
    using filter_chunk_rows[OF c(1,2) msk(2)] by auto
  show ?thesis
  proof (cases out)
    case None
    then have "filter_next C F p strategy f = filter_next C F p strategy (f\<lparr>fi_child := s\<rparr>)"
      using assms(1,2) msk(1) out(1) by (subst filter_next.simps) simp
    with None out(2) show ?thesis by (simp add: keep_vals_filter)
  next
    case (Some c')
    then have "filter_next C F p strategy f = Some (ok (Some c'), f\<lparr>fi_child := s\<rparr>)"
      using assms(1,2) msk(1) out(1) by (subst filter_next.simps) simp
    with Some out(2) show ?thesis by (simp add: keep_vals_filter)
  qed
qed

text \<open>The stream of a filter, until the child ends or the predicate fails on a chunk.\<close>

lemma filter_drains:
  assumes "drains (op_next C) s cs r s'" and "fi_opened f" and "fi_child f = s"
    and "\<forall>c\<in>set cs. stream_chunk sh c" and "sh \<noteq> []"
    and "\<forall>row\<in>set (stream_rows cs). row_defined F p row"
    and p: "expr_constructs p" "expr_typed sh p" "output_type p = INT32"
  shows "\<exists>cs'. drains (filter_next C F p strategy) f cs' r (f\<lparr>fi_child := s'\<rparr>) \<and>
           (\<forall>c\<in>set cs'. stream_chunk sh c) \<and>
           stream_rows cs' = filter (\<lambda>row. mask_true (row_val F p row)) (stream_rows cs)"
  using assms(1-6)
proof (induction arbitrary: f rule: drains.induct)
  case (drained s s')
  then have "filter_next C F p strategy f = Some (ok None, f\<lparr>fi_child := s'\<rparr>)"
    by (subst filter_next.simps) simp
  then show ?case using drains.drained by fastforce
next
  case (failed s e s')
  then have "filter_next C F p strategy f = Some (err e, f\<lparr>fi_child := s'\<rparr>)"
    by (subst filter_next.simps) simp
  then show ?case using drains.failed by fastforce
next
  case (chunk s c s1 cs r s')
  obtain cs' where cs': "drains (filter_next C F p strategy) (f\<lparr>fi_child := s1\<rparr>) cs' r (f\<lparr>fi_child := s'\<rparr>)"
      "\<forall>c\<in>set cs'. stream_chunk sh c"
      "stream_rows cs' = filter (\<lambda>row. mask_true (row_val F p row)) (stream_rows cs)"
    using chunk.IH[of "f\<lparr>fi_child := s1\<rparr>"] chunk.prems by auto
  have step: "filter (\<lambda>row. mask_true (row_val F p row)) (ck_rows c) = [] \<and>
        filter_next C F p strategy f = filter_next C F p strategy (f\<lparr>fi_child := s1\<rparr>) \<or>
      (\<exists>c'. filter_next C F p strategy f = Some (ok (Some c'), f\<lparr>fi_child := s1\<rparr>) \<and>
        stream_chunk sh c' \<and> ck_rows c' = filter (\<lambda>row. mask_true (row_val F p row)) (ck_rows c))"
    using chunk.prems chunk.hyps p by (intro filter_step[where sh = sh]) auto
  then show ?case
  proof
    assume "filter (\<lambda>row. mask_true (row_val F p row)) (ck_rows c) = [] \<and>
        filter_next C F p strategy f = filter_next C F p strategy (f\<lparr>fi_child := s1\<rparr>)"
    then show ?thesis using cs' drains_same_next[OF _ cs'(1), of f] by auto
  next
    assume "\<exists>c'. filter_next C F p strategy f = Some (ok (Some c'), f\<lparr>fi_child := s1\<rparr>) \<and>
        stream_chunk sh c' \<and> ck_rows c' = filter (\<lambda>row. mask_true (row_val F p row)) (ck_rows c)"
    then obtain c' where "filter_next C F p strategy f = Some (ok (Some c'), f\<lparr>fi_child := s1\<rparr>)"
      "stream_chunk sh c'" "ck_rows c' = filter (\<lambda>row. mask_true (row_val F p row)) (ck_rows c)"
      by blast
    then show ?thesis using cs' drains.chunk[OF _ cs'(1)] by (intro exI[of _ "c' # cs'"]) simp
  qed
qed

lemma filter_fails:
  assumes "drains (op_next C) s (cs @ c # rest) r s'" and "fi_opened f" and "fi_child f = s"
    and "\<forall>c\<in>set (cs @ [c]). stream_chunk sh c" and "sh \<noteq> []"
    and "\<forall>row\<in>set (stream_rows cs). row_defined F p row"
    and p: "expr_constructs p" "expr_typed sh p" "output_type p = INT32"
    and fails: "map (\<lambda>row. eval_row F row p) (ck_rows c) = map Some os" "collect os = err e"
  shows "\<exists>cs' f'. drains (filter_next C F p strategy) f cs' (err e) f' \<and>
           (\<forall>c\<in>set cs'. stream_chunk sh c) \<and>
           stream_rows cs' = filter (\<lambda>row. mask_true (row_val F p row)) (stream_rows cs)"
  using assms(1-4,6)
proof (induction cs arbitrary: s f)
  case Nil
  then obtain s1 where s1: "op_next C s = Some (ok (Some c), s1)" by (auto elim: drains_ConsE)
  have "evaluate F c p = Some (err e)"
    using evaluate_outcome[OF _ p(1) _ fails(1)] Nil.prems(4) p(2) fails(2)
    by (simp add: stream_chunk_def column_outcome_def)
  then have "filter_next C F p strategy f = Some (err e, f\<lparr>fi_child := s1\<rparr>)"
    using s1 Nil.prems by (subst filter_next.simps) simp
  then show ?case using drains.failed by fastforce
next
  case (Cons d cs)
  then obtain s1 where s1: "op_next C s = Some (ok (Some d), s1)"
      "drains (op_next C) s1 (cs @ c # rest) r s'" by (auto elim: drains_ConsE)
  obtain cs' f' where cs': "drains (filter_next C F p strategy) (f\<lparr>fi_child := s1\<rparr>) cs' (err e) f'"
      "\<forall>c\<in>set cs'. stream_chunk sh c"
      "stream_rows cs' = filter (\<lambda>row. mask_true (row_val F p row)) (stream_rows cs)"
    using Cons.IH[OF s1(2), of "f\<lparr>fi_child := s1\<rparr>"] Cons.prems by auto
  have step: "filter (\<lambda>row. mask_true (row_val F p row)) (ck_rows d) = [] \<and>
        filter_next C F p strategy f = filter_next C F p strategy (f\<lparr>fi_child := s1\<rparr>) \<or>
      (\<exists>c'. filter_next C F p strategy f = Some (ok (Some c'), f\<lparr>fi_child := s1\<rparr>) \<and>
        stream_chunk sh c' \<and> ck_rows c' = filter (\<lambda>row. mask_true (row_val F p row)) (ck_rows d))"
    using Cons.prems s1 assms(5) p by (intro filter_step[where sh = sh]) auto
  then show ?case
  proof (elim disjE conjE exE)
    assume "filter (\<lambda>row. mask_true (row_val F p row)) (ck_rows d) = []"
      "filter_next C F p strategy f = filter_next C F p strategy (f\<lparr>fi_child := s1\<rparr>)"
    then show ?thesis using cs' drains_same_next[OF _ cs'(1), of f] by auto
  next
    fix c' assume "filter_next C F p strategy f = Some (ok (Some c'), f\<lparr>fi_child := s1\<rparr>)"
      "stream_chunk sh c'" "ck_rows c' = filter (\<lambda>row. mask_true (row_val F p row)) (ck_rows d)"
    then show ?thesis using cs' drains.chunk[OF _ cs'(1)]
      by (intro exI[of _ "c' # cs'"] exI[of _ f']) simp
  qed
qed

section \<open>Project: lemmas\<close>

lemma project_columns_rows:
  assumes "ck_ok c" and "\<forall>e\<in>set es. expr_constructs e \<and> expr_typed (ck_shape c) e"
    and "\<forall>e\<in>set es. \<forall>row\<in>set (ck_rows c). row_defined F e row"
  shows "\<exists>cols. project_columns F c es = Some (ok cols) \<and>
     list_all2 (\<lambda>e col. cv_rep (output_type e) (expr_nullable (ck_shape c) e)
        (map (row_val F e) (ck_rows c)) col) es cols"
  using assms(2,3)
proof (induction es)
  case (Cons e es)
  then obtain cols where "project_columns F c es = Some (ok cols)"
      "list_all2 (\<lambda>e col. cv_rep (output_type e) (expr_nullable (ck_shape c) e)
        (map (row_val F e) (ck_rows c)) col) es cols" by auto
  moreover obtain col where "evaluate F c e = Some (ok col)"
      "cv_rep (output_type e) (expr_nullable (ck_shape c) e) (map (row_val F e) (ck_rows c)) col"
    using evaluate_defined[OF assms(1), of e F] Cons.prems by auto
  ultimately show ?case by (auto simp: ev_bind_def)
qed simp

definition project_shape :: "shape \<Rightarrow> expr list \<Rightarrow> shape" where
  "project_shape sh es = map (\<lambda>e. (output_type e, expr_nullable sh e)) es"

definition project_row :: "fpu \<Rightarrow> expr list \<Rightarrow> val list \<Rightarrow> val list" where
  "project_row F es row = map (\<lambda>e. row_val F e row) es"

lemma project_chunk:
  assumes "ck_ok c"
    and "list_all2 (\<lambda>e col. cv_rep (output_type e) (expr_nullable (ck_shape c) e)
        (map (row_val F e) (ck_rows c)) col) es cols"
  shows "\<exists>c'. ck_new (ck_logical_size c) cols = Some c' \<and> stream_chunk (project_shape (ck_shape c) es) c' \<and>
     ck_rows c' = map (project_row F es) (ck_rows c)"
proof -
  let ?n = "length (ck_rows c)"
  let ?c = "\<lparr> ck_row_count = ?n, ck_columns = cols, ck_sel = None \<rparr>"
  have len: "length cols = length es" using assms(2) by (simp add: list_all2_lengthD)
  have each: "cv_rep (output_type (es ! k)) (expr_nullable (ck_shape c) (es ! k))
      (map (row_val F (es ! k)) (ck_rows c)) (cols ! k)" if "k < length es" for k
    using list_all2_nthD[OF assms(2) that] .
  have sizes: "cv_wf col \<and> cv_size col = ?n" if col: "col \<in> set cols" for col
  proof -
    obtain k where k: "k < length es" "col = cols ! k" using col len by (auto simp: in_set_conv_nth)
    show ?thesis using each[OF k(1)] cv_rep_size[OF each[OF k(1)]] k(2) by (simp add: cv_rep_def)
  qed
  have "?n \<le> 4294967288"
    using assms(1) by (auto simp: ck_ok_def length_ck_rows ck_phys_def sv_ok_def split: option.splits)
  then have "ck_ok ?c" using sizes by (simp add: ck_ok_def)
  moreover have "ck_shape ?c = project_shape (ck_shape c) es"
    using each len by (auto simp: ck_shape_def project_shape_def cv_rep_def intro!: nth_equalityI)
  moreover have "ck_rows ?c = map (project_row F es) (ck_rows c)"
  proof (rule nth_equalityI)
    fix i assume "i < length (ck_rows ?c)"
    then have i: "i < ?n" by (simp add: length_ck_rows ck_phys_def)
    have "cv_val (cols ! k) i = row_val F (es ! k) (ck_rows c ! i)" if "k < length es" for k
      using cv_rep_nth[OF each[OF that], of i] i by simp
    then show "ck_rows ?c ! i = map (project_row F es) (ck_rows c) ! i"
      using i len
      by (auto simp: ck_rows_def[of ?c] ck_phys_def ck_row_def project_row_def intro!: nth_equalityI)
  qed (simp add: ck_rows_def ck_phys_def)
  ultimately show ?thesis using sizes ck_logical_size[OF assms(1)]
    by (simp add: ck_new_def stream_chunk_def)
qed

lemma project_drains:
  assumes "drains (op_next C) s cs r s'" and "pr_opened p" and "pr_child p = s"
    and "\<forall>c\<in>set cs. stream_chunk sh c"
    and "\<forall>it\<in>set items. expr_constructs (pi_expr it) \<and> expr_typed sh (pi_expr it)"
    and "\<forall>it\<in>set items. \<forall>row\<in>set (stream_rows cs). row_defined F (pi_expr it) row"
  shows "\<exists>cs'. drains (project_next C F items) p cs' r (p\<lparr>pr_child := s'\<rparr>) \<and>
           (\<forall>c\<in>set cs'. stream_chunk (project_shape sh (map pi_expr items)) c) \<and>
           stream_rows cs' = map (project_row F (map pi_expr items)) (stream_rows cs)"
  using assms(1-4,6)
proof (induction arbitrary: p rule: drains.induct)
  case (drained s s')
  then have "project_next C F items p = Some (ok None, p\<lparr>pr_child := s'\<rparr>)"
    by (simp add: project_next_def)
  then show ?case using drains.drained by fastforce
next
  case (failed s e s')
  then have "project_next C F items p = Some (err e, p\<lparr>pr_child := s'\<rparr>)"
    by (simp add: project_next_def)
  then show ?case using drains.failed by fastforce
next
  case (chunk s c s1 cs r s')
  let ?es = "map pi_expr items"
  have okc: "ck_ok c" and sh: "ck_shape c = sh" using chunk.prems(3) by (auto simp: stream_chunk_def)
  obtain cols where cols: "project_columns F c ?es = Some (ok cols)"
      "list_all2 (\<lambda>e col. cv_rep (output_type e) (expr_nullable (ck_shape c) e)
        (map (row_val F e) (ck_rows c)) col) ?es cols"
    using project_columns_rows[OF okc, of ?es F] chunk.prems assms(5) sh by auto
  obtain c' where c': "ck_new (ck_logical_size c) cols = Some c'" "stream_chunk (project_shape sh ?es) c'"
      "ck_rows c' = map (project_row F ?es) (ck_rows c)"
    using project_chunk[OF okc cols(2)] sh by auto
  have step: "project_next C F items p = Some (ok (Some c'), p\<lparr>pr_child := s1\<rparr>)"
    using chunk.prems chunk.hyps(1) cols(1) c'(1) by (simp add: project_next_def)
  obtain cs' where cs': "drains (project_next C F items) (p\<lparr>pr_child := s1\<rparr>) cs' r (p\<lparr>pr_child := s'\<rparr>)"
      "\<forall>c\<in>set cs'. stream_chunk (project_shape sh ?es) c"
      "stream_rows cs' = map (project_row F ?es) (stream_rows cs)"
    using chunk.IH[of "p\<lparr>pr_child := s1\<rparr>"] chunk.prems by auto
  from drains.chunk[of "project_next C F items", OF step cs'(1)] show ?case
    using c' cs' by (intro exI[of _ "c' # cs'"]) simp
qed

section \<open>Limit: lemmas\<close>

text \<open>A chunk of a stream can be cut on both sides and stays a chunk of the stream.\<close>

interpretation win: cut_seq "stream_chunk sh" ck_rows ck_resize ck_drop_prefix for sh
proof
  fix c k
  assume c: "stream_chunk sh c"
  then have okc: "ck_ok c" by (simp add: stream_chunk_def)
  show "\<exists>c'. ck_resize k c = Some c' \<and> stream_chunk sh c' \<and> ck_rows c' = take k (ck_rows c)"
    if "k \<le> length (ck_rows c)"
    using ck_resize_rows[OF okc that] c sv_for_each_truncate
    by (auto simp: stream_chunk_def ck_resize_def ck_ok_def sorted_wrt_take split: option.splits if_splits)
  show "\<exists>c'. ck_drop_prefix k c = Some c' \<and> stream_chunk sh c' \<and> ck_rows c' = drop k (ck_rows c)"
    if k: "k \<le> length (ck_rows c)"
  proof -
    obtain c' where c': "ck_drop_prefix k c = Some c'" "ck_ok c'" "ck_shape c' = ck_shape c"
        "ck_rows c' = drop k (ck_rows c)"
      using ck_drop_prefix_rows[OF okc k] by blast
    have "case ck_sel c' of None \<Rightarrow> True | Some sel \<Rightarrow> sorted_wrt (<) (sv_for_each sel)"
    proof (cases "ck_sel c")
      case None
      then show ?thesis using c'(1) by (auto simp: ck_drop_prefix_def split: if_splits)
    next
      case (Some sel)
      then have "sv_ok sel" "k \<le> length (sv_for_each sel)"
        using okc k by (auto simp: ck_ok_def length_ck_rows ck_phys_def)
      from sv_drop_prefix_spec[OF this] show ?thesis using c'(1) Some c
        by (auto simp: ck_drop_prefix_def stream_chunk_def sorted_wrt_drop split: if_splits)
    qed
    then show ?thesis using c' c by (auto simp: stream_chunk_def)
  qed
qed

lemma limit_exhausted:
  assumes "li_opened l" and "li_exhausted l"
  shows "drains (limit_next C) l [] (ok ()) l"
  using assms by (intro drains.drained) (simp add: limit_next_def)

text \<open>What \<open>limit_emit\<close> hands out, and whether it ends the stream.\<close>

lemma limit_emit_step:
  assumes "stream_chunk sh c" and "li_emitted l < li_limit l"
  defines "remaining \<equiv> li_limit l - li_emitted l"
  shows "\<exists>c' l'. limit_emit C c l = Some (ok (Some c'), l') \<and> stream_chunk sh c' \<and>
           ck_rows c' = take remaining (ck_rows c) \<and> li_opened l' = li_opened l \<and>
           (if remaining \<le> length (ck_rows c) then li_exhausted l'
            else l' = l\<lparr>li_emitted := li_emitted l + length (ck_rows c)\<rparr>)"
proof -
  have size: "ck_logical_size c = length (ck_rows c)"
    using assms(1) by (simp add: stream_chunk_def ck_logical_size)
  show ?thesis
  proof (cases "length (ck_rows c) \<le> remaining")
    case True
    then show ?thesis using assms size
      by (auto simp: limit_emit_def Let_def limit_close_child_eager_def remaining_def)
  next
    case False
    then obtain c' where "ck_resize remaining c = Some c'" "stream_chunk sh c'"
        "ck_rows c' = take remaining (ck_rows c)"
      using win.keep_first[OF assms(1), of remaining] by auto
    then show ?thesis using False size
      by (simp add: limit_emit_def Let_def limit_close_child_eager_def remaining_def[symmetric])
  qed
qed

definition limit_end :: "nat \<Rightarrow> nat \<Rightarrow> nat \<Rightarrow> unit result \<Rightarrow> unit result" where
  "limit_end skip want avail r = (if want = 0 \<or> skip + want \<le> avail then ok () else r)"

definition limit_skip :: "'s limit_op \<Rightarrow> nat" where
  "limit_skip l = li_offset l - li_skipped l"

definition limit_want :: "'s limit_op \<Rightarrow> nat" where
  "limit_want l = li_limit l - li_emitted l"

lemma limit_skip_step:
  assumes "li_opened l" and "\<not> li_exhausted l" and "limit_want l \<noteq> 0"
    and "op_next C (li_child l) = Some (ok (Some c), s)" and "stream_chunk sh c"
    and "length (ck_rows c) \<le> limit_skip l" and "limit_skip l \<noteq> 0"
  defines "l2 \<equiv> l\<lparr>li_child := s, li_skipped := li_skipped l + length (ck_rows c)\<rparr>"
  shows "limit_next C l = limit_next C l2" and "limit_skip l = length (ck_rows c) + limit_skip l2"
proof -
  have size: "ck_logical_size c = length (ck_rows c)"
    using assms(5) by (simp add: stream_chunk_def ck_logical_size)
  show "limit_next C l = limit_next C l2"
    using assms size by (simp add: limit_next_def limit_loop.simps[of C l] limit_skip_def limit_want_def)
  show "limit_skip l = length (ck_rows c) + limit_skip l2"
    using assms(6) unfolding l2_def limit_skip_def by simp
qed

lemma limit_keep_step:
  assumes l: "li_opened l" "\<not> li_exhausted l" "limit_want l \<noteq> 0" "li_skipped l \<le> li_offset l"
    and nxt: "op_next C (li_child l) = Some (ok (Some c), s)" and c: "stream_chunk sh c"
    and keep: "\<not> length (ck_rows c) \<le> limit_skip l \<or> limit_skip l = 0"
  shows "\<exists>c2 l2. limit_next C l = Some (ok (Some c2), l2) \<and> stream_chunk sh c2 \<and>
     ck_rows c2 = take (limit_want l) (drop (limit_skip l) (ck_rows c)) \<and> li_opened l2 \<and>
     (if limit_want l \<le> length (ck_rows c) - limit_skip l then li_exhausted l2
      else l2 = l\<lparr>li_child := s, li_skipped := li_offset l,
                  li_emitted := li_emitted l + (length (ck_rows c) - limit_skip l)\<rparr>)"
proof -
  have size: "ck_logical_size c = length (ck_rows c)"
    using c by (simp add: stream_chunk_def ck_logical_size)
  let ?l = "l\<lparr>li_child := s, li_skipped := li_offset l\<rparr>"
  have "\<exists>c1. stream_chunk sh c1 \<and> ck_rows c1 = drop (limit_skip l) (ck_rows c) \<and>
      limit_next C l = limit_emit C c1 ?l"
  proof (cases "limit_skip l = 0")
    case False
    obtain c1 where c1: "ck_drop_prefix (limit_skip l) c = Some c1" "stream_chunk sh c1"
        "ck_rows c1 = drop (limit_skip l) (ck_rows c)"
      using win.drop_prefix[OF c, of "limit_skip l"] keep False by auto
    then have "limit_next C l = limit_emit C c1 ?l"
      using l nxt False keep size
      by (simp add: limit_next_def limit_loop.simps[of C l] limit_skip_def limit_want_def)
    with c1 show ?thesis by blast
  next
    case True
    then have "li_skipped l = li_offset l" using l(4) by (simp add: limit_skip_def)
    then have same: "?l = l\<lparr>li_child := s\<rparr>" by (cases l) simp
    have "limit_next C l = limit_emit C c ?l" unfolding same
      using l nxt \<open>li_skipped l = li_offset l\<close>
      by (simp add: limit_next_def limit_loop.simps[of C l] limit_want_def)
    with c True show ?thesis by (intro exI[of _ c]) simp
  qed
  then obtain c1 where c1: "stream_chunk sh c1" "ck_rows c1 = drop (limit_skip l) (ck_rows c)"
      "limit_next C l = limit_emit C c1 ?l" by blast
  have "li_emitted ?l < li_limit ?l" using l(3) by (simp add: limit_want_def)
  from limit_emit_step[OF c1(1) this, of C] obtain c2 l2 where
    "limit_emit C c1 ?l = Some (ok (Some c2), l2)" "stream_chunk sh c2"
    "ck_rows c2 = take (limit_want l) (ck_rows c1)" "li_opened l2 = li_opened ?l"
    "if limit_want l \<le> length (ck_rows c1) then li_exhausted l2
     else l2 = ?l\<lparr>li_emitted := li_emitted ?l + length (ck_rows c1)\<rparr>"
    unfolding limit_want_def by auto
  then show ?thesis using c1 l(1)
    by (intro exI[of _ c2] exI[of _ l2]) (auto split: if_splits)
qed

lemma limit_drains:
  assumes "drains (op_next C) s cs r s'" and "li_opened l" and "\<not> li_exhausted l" and "li_child l = s"
    and "li_skipped l \<le> li_offset l" and "\<forall>c\<in>set cs. stream_chunk sh c"
  shows "\<exists>cs' l'. drains (limit_next C) l cs'
             (limit_end (limit_skip l) (limit_want l) (length (stream_rows cs)) r) l' \<and>
           (\<forall>c\<in>set cs'. stream_chunk sh c) \<and>
           stream_rows cs' = take (limit_want l) (drop (limit_skip l) (stream_rows cs))"
proof (cases "limit_want l = 0")
  case True
  then have "\<exists>l'. limit_next C l = Some (ok None, l')"
    using assms(2,3) by (auto simp: limit_next_def limit_want_def)
  then obtain l' where "drains (limit_next C) l [] (ok ()) l'" using drains.drained by metis
  then show ?thesis using True by (intro exI[of _ "[]"] exI[of _ l']) (simp add: limit_end_def)
next
  case False
  from assms this show ?thesis
  proof (induction arbitrary: l rule: drains.induct)
    case (drained s s')
    then obtain l' where "limit_next C l = Some (ok None, l')"
      by (auto simp: limit_next_def limit_loop.simps[of C l] limit_want_def)
    from drains.drained[of "limit_next C", OF this] show ?case
      by (intro exI[of _ "[]"] exI[of _ l']) (simp add: limit_end_def)
  next
    case (failed s e s')
    then obtain l' where "limit_next C l = Some (err e, l')"
      by (auto simp: limit_next_def limit_loop.simps[of C l] limit_want_def)
    from drains.failed[of "limit_next C", OF this] failed show ?case
      by (intro exI[of _ "[]"] exI[of _ l']) (simp add: limit_end_def)
  next
    case (chunk s c s1 cs r s')
    note c = chunk.prems(5)[simplified, THEN conjunct1]
    have nxt: "op_next C (li_child l) = Some (ok (Some c), s1)" using chunk.hyps(1) chunk.prems(3) by simp
    let ?n = "length (ck_rows c)"
    show ?case
    proof (cases "?n \<le> limit_skip l \<and> limit_skip l \<noteq> 0")
      case True
      define l2 where "l2 = l\<lparr>li_child := s1, li_skipped := li_skipped l + ?n\<rparr>"
      have same: "limit_next C l = limit_next C l2" and skip: "limit_skip l = ?n + limit_skip l2"
        using limit_skip_step[OF chunk.prems(1,2,6) nxt c] True by (simp_all add: l2_def)
      have want: "limit_want l2 = limit_want l" by (simp add: l2_def limit_want_def)
      have "li_skipped l2 \<le> li_offset l2"
        using True chunk.prems(4) by (simp add: l2_def limit_skip_def) linarith
      then obtain cs' l' where cs': "drains (limit_next C) l2 cs'
            (limit_end (limit_skip l2) (limit_want l) (length (stream_rows cs)) r) l'"
          "\<forall>c\<in>set cs'. stream_chunk sh c"
          "stream_rows cs' = take (limit_want l) (drop (limit_skip l2) (stream_rows cs))"
        using chunk.IH[of l2] chunk.prems want by (auto simp: l2_def)
      have "drains (limit_next C) l cs'
          (limit_end (limit_skip l2) (limit_want l) (length (stream_rows cs)) r) l'"
        using drains_same_next[of "limit_next C", OF same cs'(1)] .
      then show ?thesis using cs' skip
        by (intro exI[of _ cs'] exI[of _ l']) (simp add: limit_end_def)
    next
      case keep: False
      then obtain c2 l2 where c2: "limit_next C l = Some (ok (Some c2), l2)" "stream_chunk sh c2"
          "ck_rows c2 = take (limit_want l) (drop (limit_skip l) (ck_rows c))" "li_opened l2"
          "if limit_want l \<le> ?n - limit_skip l then li_exhausted l2
           else l2 = l\<lparr>li_child := s1, li_skipped := li_offset l,
                       li_emitted := li_emitted l + (?n - limit_skip l)\<rparr>"
        using limit_keep_step[OF chunk.prems(1,2,6,4) nxt c] by blast
      have skip_le: "limit_skip l \<le> ?n" using keep by auto
      show ?thesis
      proof (cases "limit_want l \<le> ?n - limit_skip l")
        case True
        then have "drains (limit_next C) l [c2] (ok ()) l2"
          using c2 limit_exhausted[of l2 C] drains.chunk[of "limit_next C" l c2 l2] by simp
        then show ?thesis using True skip_le c2(2,3)
          by (intro exI[of _ "[c2]"] exI[of _ l2]) (simp add: limit_end_def le_diff_conv2 add.commute)
      next
        case more: False
        then have l2: "l2 = l\<lparr>li_child := s1, li_skipped := li_offset l,
            li_emitted := li_emitted l + (?n - limit_skip l)\<rparr>" using c2(5) by simp
        have skip2: "limit_skip l2 = 0" and want2: "limit_want l2 = limit_want l - (?n - limit_skip l)"
          by (simp_all add: l2 limit_skip_def limit_want_def)
        obtain cs' l' where cs': "drains (limit_next C) l2 cs'
              (limit_end 0 (limit_want l2) (length (stream_rows cs)) r) l'"
            "\<forall>c\<in>set cs'. stream_chunk sh c"
            "stream_rows cs' = take (limit_want l2) (stream_rows cs)"
          using chunk.IH[of l2] chunk.prems more want2 skip2 by (auto simp: l2)
        have "limit_end 0 (limit_want l2) (length (stream_rows cs)) r =
            limit_end (limit_skip l) (limit_want l) (length (stream_rows (c # cs))) r"
          using more skip_le want2 by (auto simp: limit_end_def)
        moreover have "take (limit_want l) (drop (limit_skip l) (stream_rows (c # cs))) =
            ck_rows c2 @ take (limit_want l2) (stream_rows cs)"
          using more c2(3) skip_le want2 by simp
        ultimately show ?thesis
          using cs' c2(2) drains.chunk[of "limit_next C", OF c2(1) cs'(1)]
          by (intro exI[of _ "c2 # cs'"] exI[of _ l']) simp
      qed
    qed
  qed
qed

section \<open>The main properties\<close>

definition filter_operator :: "'s operator \<Rightarrow> fpu \<Rightarrow> expr \<Rightarrow> filter_strategy \<Rightarrow> 's filter_op operator" where
  "filter_operator C F p strategy =
     \<lparr> op_open = filter_open C, op_next = filter_next C F p strategy, op_close = filter_close C \<rparr>"

definition project_operator :: "'s operator \<Rightarrow> fpu \<Rightarrow> project_item list \<Rightarrow> 's project_op operator" where
  "project_operator C F items =
     \<lparr> op_open = project_open C, op_next = project_next C F items, op_close = project_close C \<rparr>"

definition limit_operator :: "'s operator \<Rightarrow> 's limit_op operator" where
  "limit_operator C = \<lparr> op_open = limit_open C, op_next = limit_next C, op_close = limit_close C \<rparr>"

definition filter_new :: "'s \<Rightarrow> 's filter_op" where
  "filter_new s = \<lparr> fi_child = s, fi_opened = False \<rparr>"

definition project_new :: "'s \<Rightarrow> 's project_op" where
  "project_new s = \<lparr> pr_child = s, pr_opened = False \<rparr>"

definition limit_new :: "'s \<Rightarrow> nat \<Rightarrow> nat \<Rightarrow> 's limit_op" where
  "limit_new s offset limit =
     \<lparr> li_child = s, li_offset = offset, li_limit = limit, li_skipped = 0, li_emitted = 0,
       li_opened = False, li_exhausted = False \<rparr>"

text \<open>
  C7: A filter passes on exactly the rows whose predicate is true. When the child opens and then
  delivers the chunks \<open>cs\<close> and ends with \<open>r\<close> (exhausted, or an error), and the predicate has a
  value on every row, the filter opens, delivers chunks of the same shape that together hold the
  rows on which the predicate is neither null nor 0, in the child's order, and ends with \<open>r\<close>.
  This holds for both strategies, with and without selection vectors in the child's chunks.
\<close>

theorem filter_stream:
  assumes "op_open C s = (ok (), s0)" and "drains (op_next C) s0 cs r s1"
    and "\<forall>c\<in>set cs. stream_chunk sh c" and "sh \<noteq> []"
    and "expr_constructs p" and "expr_typed sh p" and "output_type p = INT32"
    and "\<forall>row\<in>set (stream_rows cs). row_defined F p row"
  shows "\<exists>f cs' f'. op_open (filter_operator C F p strategy) (filter_new s) = (ok (), f) \<and>
           drains (op_next (filter_operator C F p strategy)) f cs' r f' \<and>
           (\<forall>c\<in>set cs'. stream_chunk sh c) \<and>
           stream_rows cs' = filter (\<lambda>row. mask_true (row_val F p row)) (stream_rows cs)"
proof -
  let ?f = "\<lparr> fi_child = s0, fi_opened = True \<rparr>"
  have "filter_open C (filter_new s) = (ok (), ?f)"
    using assms(1) by (simp add: filter_open_def filter_new_def)
  then show ?thesis
    using filter_drains[OF assms(2) _ _ assms(3,4,8,5-7), of ?f strategy]
    by (auto simp: filter_operator_def)
qed

text \<open>A child that hands out a list of chunks.\<close>

definition list_child :: "chunk list operator" where
  "list_child = \<lparr> op_open = (\<lambda>cs. (ok (), cs)),
     op_next = (\<lambda>cs. case cs of [] \<Rightarrow> Some (ok None, []) | c # rest \<Rightarrow> Some (ok (Some c), rest)),
     op_close = (\<lambda>cs. []) \<rparr>"

lemma list_child_drains: "drains (op_next list_child) cs cs (ok ()) []"
proof (induction cs)
  case Nil
  show ?case by (rule drains.drained) (simp add: list_child_def)
next
  case (Cons c cs)
  show ?case by (rule drains.chunk[OF _ Cons]) (simp add: list_child_def)
qed

definition sample_predicate :: expr where
  "sample_predicate = BinaryOp GT (ColumnRef 0 INT32) (Literal (VI32 1))"

lemma sample_predicate_facts:
  "expr_constructs sample_predicate" "expr_typed [(INT32, True)] sample_predicate"
  "output_type sample_predicate = INT32"
  "\<forall>row\<in>set (stream_rows [sample_chunk, sample_chunk]). row_defined no_fpu sample_predicate row"
  "filter (\<lambda>row. mask_true (row_val no_fpu sample_predicate row)) (stream_rows [sample_chunk, sample_chunk]) =
     [[VI32 7], [VI32 2], [VI32 7], [VI32 2]]"
  by (simp_all add: sample_predicate_def is_comparison_def sample_chunk_ok row_defined_def row_val_def
      ev_bind_def binary_row_def scalar_row_def compare_op_def truth_def signed_scalar_def mask_true_def)

lemma sample_stream: "\<forall>c\<in>set [sample_chunk, sample_chunk]. stream_chunk [(INT32, True)] c"
  using sample_chunk_ok by (simp add: stream_chunk_def) (simp add: sample_chunk_def)

theorem filter_stream_witness:
  "\<exists>f cs' f'. op_open (filter_operator list_child no_fpu sample_predicate SELECTION_VECTOR)
       (filter_new [sample_chunk, sample_chunk]) = (ok (), f) \<and>
     drains (op_next (filter_operator list_child no_fpu sample_predicate SELECTION_VECTOR)) f cs' (ok ()) f' \<and>
     stream_rows cs' = [[VI32 7], [VI32 2], [VI32 7], [VI32 2]]"
proof -
  have "op_open list_child [sample_chunk, sample_chunk] = (ok (), [sample_chunk, sample_chunk])"
    by (simp add: list_child_def)
  from filter_stream[OF this list_child_drains sample_stream _ sample_predicate_facts(1-4), of SELECTION_VECTOR]
  show ?thesis unfolding sample_predicate_facts(5) by blast
qed

text \<open>
  C36: An error of the predicate ends the stream with that error. If the predicate fails on a row
  of a chunk, after chunks on which it has values everywhere, then the filter delivers the rows
  that passed from the earlier chunks and then returns the error of the first failing row of
  that chunk.
\<close>

theorem filter_error:
  assumes "op_open C s = (ok (), s0)" and "drains (op_next C) s0 (cs @ c # rest) r s1"
    and "\<forall>c\<in>set (cs @ [c]). stream_chunk sh c" and "sh \<noteq> []"
    and "expr_constructs p" and "expr_typed sh p" and "output_type p = INT32"
    and "\<forall>row\<in>set (stream_rows cs). row_defined F p row"
    and "map (\<lambda>row. eval_row F row p) (ck_rows c) = map Some os" and "collect os = err e"
  shows "\<exists>f cs' f'. op_open (filter_operator C F p strategy) (filter_new s) = (ok (), f) \<and>
           drains (op_next (filter_operator C F p strategy)) f cs' (err e) f' \<and>
           stream_rows cs' = filter (\<lambda>row. mask_true (row_val F p row)) (stream_rows cs)"
proof -
  let ?f = "\<lparr> fi_child = s0, fi_opened = True \<rparr>"
  have "filter_open C (filter_new s) = (ok (), ?f)"
    using assms(1) by (simp add: filter_open_def filter_new_def)
  then show ?thesis
    using filter_fails[OF assms(2) _ _ assms(3,4,8,5-7,9,10), of ?f strategy]
    by (auto simp: filter_operator_def)
qed

theorem filter_error_witness:
  "\<exists>f cs' f'. op_open (filter_operator list_child no_fpu
         (BinaryOp DIV (Literal (VI32 1)) (Literal (VI32 0))) COMPACT) (filter_new [sample_chunk]) = (ok (), f) \<and>
     drains (op_next (filter_operator list_child no_fpu
         (BinaryOp DIV (Literal (VI32 1)) (Literal (VI32 0))) COMPACT)) f cs' (err ''division by zero'') f'"
proof -
  let ?p = "BinaryOp DIV (Literal (VI32 1)) (Literal (VI32 0))"
  let ?e = "Inl ''division by zero'' :: val result"
  have opens: "op_open list_child [sample_chunk] = (ok (), [sample_chunk])" by (simp add: list_child_def)
  have child: "drains (op_next list_child) [sample_chunk] ([] @ sample_chunk # []) (ok ()) []"
    using list_child_drains[of "[sample_chunk]"] by simp
  have hyps: "\<forall>c\<in>set ([] @ [sample_chunk]). stream_chunk [(INT32, True)] c"
    "expr_constructs ?p" "expr_typed [(INT32, True)] ?p" "output_type ?p = INT32"
    "map (\<lambda>row. eval_row no_fpu row ?p) (ck_rows sample_chunk) = map Some [?e, ?e, ?e]"
    using sample_stream
    by (simp_all add: is_comparison_def sample_chunk_ok ev_bind_def binary_row_def scalar_row_def
        signed_scalar_def)
  show ?thesis
    using filter_error[OF opens child hyps(1) _ hyps(2-4) _ hyps(5), of "''division by zero''" COMPACT]
    by (simp del: expr_constructs.simps) blast
qed

text \<open>
  C16: \<open>LIMIT\<close> and \<open>OFFSET\<close> cut the stream of rows. When the child opens and delivers rows that
  may come in any division into chunks, the operator delivers the rows from \<open>offset\<close> on, at most
  \<open>limit\<close> of them, in order. It ends normally as soon as it has them all, even when the child
  would fail later, and otherwise it ends the way the child does.
\<close>

theorem limit_stream:
  assumes "op_open C s = (ok (), s0)" and "drains (op_next C) s0 cs r s1"
    and "\<forall>c\<in>set cs. stream_chunk sh c"
  shows "\<exists>l cs' l'. op_open (limit_operator C) (limit_new s offset limit) = (ok (), l) \<and>
           drains (op_next (limit_operator C)) l cs'
             (if limit = 0 \<or> offset + limit \<le> length (stream_rows cs) then ok () else r) l' \<and>
           (\<forall>c\<in>set cs'. stream_chunk sh c) \<and>
           stream_rows cs' = take limit (drop offset (stream_rows cs))"
proof -
  let ?l = "(limit_new s0 offset limit)\<lparr>li_opened := True\<rparr>"
  have "limit_open C (limit_new s offset limit) = (ok (), ?l)"
    using assms(1) by (simp add: limit_open_def limit_new_def)
  moreover have "limit_skip ?l = offset" "limit_want ?l = limit"
    by (simp_all add: limit_skip_def limit_want_def limit_new_def)
  ultimately show ?thesis
    using limit_drains[OF assms(2), of ?l sh] assms(3)
    by (auto simp: limit_operator_def limit_end_def limit_new_def)
qed

theorem limit_stream_witness:
  "\<exists>l cs' l'. op_open (limit_operator list_child) (limit_new [sample_chunk, sample_chunk] 2 2) = (ok (), l) \<and>
     drains (op_next (limit_operator list_child)) l cs' (ok ()) l' \<and>
     stream_rows cs' = [[VI32 2], [VI32 7]]"
proof -
  have "op_open list_child [sample_chunk, sample_chunk] = (ok (), [sample_chunk, sample_chunk])"
    by (simp add: list_child_def)
  from limit_stream[OF this list_child_drains sample_stream, of 2 2] show ?thesis
    by (auto simp: sample_chunk_ok)
qed

text \<open>
  C11: Operators compose. A plan \<open>Limit (Project (Filter child))\<close> delivers, for the rows of the
  child, the projections of the rows that pass the filter, from \<open>offset\<close> on and at most \<open>limit\<close>
  of them, whatever the strategy of the filter and however the child divides its rows into
  chunks.
\<close>

theorem pipeline_rows:
  fixes C :: "'s operator" and strategy :: filter_strategy
  assumes "op_open C s = (ok (), s0)" and "drains (op_next C) s0 cs (ok ()) s1"
    and "\<forall>c\<in>set cs. stream_chunk sh c" and "sh \<noteq> []"
    and "expr_constructs p" and "expr_typed sh p" and "output_type p = INT32"
    and "\<forall>row\<in>set (stream_rows cs). row_defined F p row"
    and "\<forall>it\<in>set items. expr_constructs (pi_expr it) \<and> expr_typed sh (pi_expr it)"
    and "\<forall>it\<in>set items. \<forall>row\<in>set (stream_rows cs). row_defined F (pi_expr it) row"
  defines "plan \<equiv> limit_operator (project_operator (filter_operator C F p strategy) F items)"
  shows "\<exists>l cs' l'. op_open plan (limit_new (project_new (filter_new s)) offset limit) = (ok (), l) \<and>
           drains (op_next plan) l cs' (ok ()) l' \<and>
           stream_rows cs' = take limit (drop offset (map (project_row F (map pi_expr items))
             (filter (\<lambda>row. mask_true (row_val F p row)) (stream_rows cs))))"
proof -
  let ?C1 = "filter_operator C F p strategy"
  let ?C2 = "project_operator ?C1 F items"
  let ?f = "\<lparr> fi_child = s0, fi_opened = True \<rparr>"
  let ?p = "\<lparr> pr_child = ?f, pr_opened = True \<rparr>"
  let ?l = "(limit_new ?p offset limit)\<lparr>li_opened := True\<rparr>"
  have open1: "op_open ?C1 (filter_new s) = (ok (), ?f)"
    using assms(1) by (simp add: filter_operator_def filter_open_def filter_new_def)
  have open2: "op_open ?C2 (project_new (filter_new s)) = (ok (), ?p)"
    using open1 by (simp add: project_operator_def project_open_def project_new_def)
  have open3: "op_open plan (limit_new (project_new (filter_new s)) offset limit) = (ok (), ?l)"
    using open2 by (simp add: plan_def limit_operator_def limit_open_def limit_new_def)
  obtain cs1 f1 where cs1: "drains (op_next ?C1) ?f cs1 (ok ()) f1" "\<forall>c\<in>set cs1. stream_chunk sh c"
      "stream_rows cs1 = filter (\<lambda>row. mask_true (row_val F p row)) (stream_rows cs)"
    using filter_drains[OF assms(2) _ _ assms(3,4,8,5-7), of ?f strategy]
    by (auto simp: filter_operator_def)
  have "\<forall>it\<in>set items. \<forall>row\<in>set (stream_rows cs1). row_defined F (pi_expr it) row"
    using assms(10) cs1(3) by auto
  from project_drains[OF cs1(1) _ _ cs1(2) assms(9) this, of ?p]
  obtain cs2 p2 where cs2: "drains (op_next ?C2) ?p cs2 (ok ()) p2"
      "\<forall>c\<in>set cs2. stream_chunk (project_shape sh (map pi_expr items)) c"
      "stream_rows cs2 = map (project_row F (map pi_expr items)) (stream_rows cs1)"
    by (auto simp: project_operator_def)
  have "limit_skip ?l = offset" "limit_want ?l = limit"
    by (simp_all add: limit_skip_def limit_want_def limit_new_def)
  then obtain cs3 l3 where "drains (limit_next ?C2) ?l cs3 (ok ()) l3"
      "stream_rows cs3 = take limit (drop offset (stream_rows cs2))"
    using limit_drains[OF cs2(1) _ _ _ _ cs2(2), of ?l] by (auto simp: limit_new_def limit_end_def)
  then show ?thesis using open3 cs1(3) cs2(3) by (auto simp: plan_def limit_operator_def)
qed

theorem pipeline_rows_witness:
  "\<exists>l cs' l'. op_open (limit_operator (project_operator (filter_operator list_child no_fpu
         sample_predicate COMPACT) no_fpu
         [\<lparr> pi_expr = NotOp (ColumnRef 0 INT32), pi_name = ''n'', pi_nullable = True \<rparr>]))
       (limit_new (project_new (filter_new [sample_chunk, sample_chunk])) 1 2) = (ok (), l) \<and>
     drains (op_next (limit_operator (project_operator (filter_operator list_child no_fpu
         sample_predicate COMPACT) no_fpu
         [\<lparr> pi_expr = NotOp (ColumnRef 0 INT32), pi_name = ''n'', pi_nullable = True \<rparr>]))) l cs' (ok ()) l' \<and>
     stream_rows cs' = [[VI32 0], [VI32 0]]"
proof -
  let ?items = "[\<lparr> pi_expr = NotOp (ColumnRef 0 INT32), pi_name = ''n'', pi_nullable = True \<rparr>]"
  have opens: "op_open list_child [sample_chunk, sample_chunk] = (ok (), [sample_chunk, sample_chunk])"
    by (simp add: list_child_def)
  have items: "\<forall>it\<in>set ?items. expr_constructs (pi_expr it) \<and> expr_typed [(INT32, True)] (pi_expr it)"
    "\<forall>it\<in>set ?items. \<forall>row\<in>set (stream_rows [sample_chunk, sample_chunk]). row_defined no_fpu (pi_expr it) row"
    by (simp_all add: sample_chunk_ok row_defined_def ev_bind_def)
  from pipeline_rows[OF opens list_child_drains sample_stream _ sample_predicate_facts(1-4) items,
      of COMPACT 1 2]
  show ?thesis unfolding sample_predicate_facts(5)
    by (simp add: project_row_def row_val_def ev_bind_def not_row_def truth_def)
qed

end
