(* ===== verification/Blocking.thy ===== *)
theory Blocking
  imports Operators
begin

text \<open>
  What the operators that hold their input in memory share (\<^verbatim>\<open>src/src/executor/sort.cpp\<close>,
  \<^verbatim>\<open>nested_loop_join.cpp\<close>, \<^verbatim>\<open>hash_join.cpp\<close>, \<^verbatim>\<open>hash_aggregate.cpp\<close>): the loop that
  pulls a child dry and evaluates expressions on every chunk, the copying of single rows into
  new columns, and the delivery of the result in slices of \<open>CHUNK_SIZE\<close> rows.
\<close>

section \<open>Operations\<close>

definition CHUNK_SIZE :: nat where
  "CHUNK_SIZE = 1024"

definition ck_column :: "nat \<Rightarrow> chunk \<Rightarrow> column_vector option" where
  "ck_column i c = (if i < length (ck_columns c) then Some (ck_columns c ! i) else None)"

text \<open>One cell appended to a column, and a whole column from cells; a cell without a source is NULL.\<close>

type_synonym cell = "(column_vector \<times> nat) option"

definition append_from :: "type_id \<Rightarrow> bool \<Rightarrow> cell \<Rightarrow> column_vector \<Rightarrow> column_vector option" where
  "append_from t nullable cl out = (case cl of
       None \<Rightarrow> cv_append_null out
     | Some (src, row) \<Rightarrow>
         do { nl \<leftarrow> (if nullable then cv_is_null row src else Some False);
              if nl then cv_append_null out
              else case t of
                INT32 \<Rightarrow> do { v \<leftarrow> cv_get_i32 row src; cv_append_i32 v out }
              | INT64 \<Rightarrow> do { v \<leftarrow> cv_get_i64 row src; cv_append_i64 v out }
              | DOUBLE \<Rightarrow> do { v \<leftarrow> cv_get_f64 row src; cv_append_f64 v out }
              | VARCHAR \<Rightarrow> do { v \<leftarrow> cv_get_str row src; cv_append_str v out }
              | _ \<Rightarrow> None })"

fun append_cells :: "type_id \<Rightarrow> bool \<Rightarrow> cell list \<Rightarrow> column_vector \<Rightarrow> column_vector option" where
  "append_cells t nullable [] out = Some out"
| "append_cells t nullable (cl # cls) out =
     do { out \<leftarrow> append_from t nullable cl out; append_cells t nullable cls out }"

definition copied_type :: "type_id \<Rightarrow> bool" where
  "copied_type t \<longleftrightarrow> t \<in> {INT32, INT64, DOUBLE, VARCHAR}"

definition copy_column :: "type_id \<Rightarrow> bool \<Rightarrow> cell list \<Rightarrow> column_vector option" where
  "copy_column t nullable cls =
     (if copied_type t then append_cells t nullable cls (cv_empty t nullable) else None)"

text \<open>A chunk of the rows \<open>refs\<close>: \<open>cell j ref\<close> is the cell of column \<open>j\<close>.\<close>

definition emit_columns ::
  "shape \<Rightarrow> (nat \<Rightarrow> 'r \<Rightarrow> cell option) \<Rightarrow> 'r list \<Rightarrow> column_vector list option" where
  "emit_columns outs cell refs =
     those (map (\<lambda>j. do { cls \<leftarrow> those (map (cell j) refs);
                          copy_column (fst (outs ! j)) (snd (outs ! j)) cls }) [0..<length outs])"

definition emit_chunk :: "shape \<Rightarrow> (nat \<Rightarrow> 'r \<Rightarrow> cell option) \<Rightarrow> 'r list \<Rightarrow> chunk option" where
  "emit_chunk outs cell refs =
     do { cols \<leftarrow> emit_columns outs cell refs; ck_new (length refs) cols }"

text \<open>
  The loop that consumes a child: empty chunks are skipped, the others are materialized and the
  expressions are evaluated on them. What was buffered before an error stays buffered.
\<close>

type_synonym buffered = "(chunk \<times> column_vector list) list"

partial_function (option) buffer_loop ::
  "'s operator \<Rightarrow> fpu \<Rightarrow> expr list \<Rightarrow> 's \<Rightarrow> buffered \<Rightarrow> (unit result \<times> 's \<times> buffered) option" where
  "buffer_loop C F es s buf =
     Option.bind (op_next C s) (\<lambda>(r, s).
       case r of
         Inl e \<Rightarrow> Some (err e, s, buf)
       | Inr None \<Rightarrow> Some (ok (), s, buf)
       | Inr (Some c) \<Rightarrow>
           if ck_logical_size c = 0 then buffer_loop C F es s buf
           else Option.bind (project_columns F (ck_materialize c) es) (\<lambda>ev.
                  case ev of
                    Inl e \<Rightarrow> Some (err e, s, buf)
                  | Inr ks \<Rightarrow> buffer_loop C F es s (buf @ [(ck_materialize c, ks)])))"

section \<open>Copying\<close>

fun cell_of :: "cell \<Rightarrow> val" where
  "cell_of None = VNull"
| "cell_of (Some (src, row)) = cv_val src row"

definition cell_ok :: "type_id \<times> bool \<Rightarrow> cell \<Rightarrow> bool" where
  "cell_ok tn cl = (case cl of
       None \<Rightarrow> snd tn
     | Some (src, row) \<Rightarrow> cv_wf src \<and> cv_type src = fst tn \<and> row < cv_size src \<and>
                         (cv_nullable src \<longrightarrow> snd tn))"

lemma holds_copied:
  "holds_type INT64 v \<longleftrightarrow> (\<exists>x. v = VI64 x)" "holds_type DOUBLE v \<longleftrightarrow> (\<exists>x. v = VF64 x)"
  "holds_type VARCHAR v \<longleftrightarrow> (\<exists>x. v = VStr x)"
  by (cases v; simp)+

lemma append_from_grows:
  assumes "cv_grows t nl vs out" and "copied_type t" and "cell_ok (t, nl) cl"
  shows "\<exists>out'. append_from t nl cl out = Some out' \<and> cv_grows t nl (vs @ [cell_of cl]) out'"
proof (cases cl)
  case None
  then show ?thesis using assms cv_append_null_grows[of t vs out]
    by (auto simp: append_from_def cell_ok_def)
next
  case (Some sr)
  obtain src row where sr: "sr = (src, row)" by force
  have src: "cv_rep t (cv_nullable src) (cv_vals src) src" and row: "row < length (cv_vals src)"
    and nl: "cv_nullable src \<Longrightarrow> nl"
    using assms(3) Some sr by (auto simp: cell_ok_def cv_rep_def)
  have val: "cv_vals src ! row = cv_val src row" using row by (simp add: cv_vals_def)
  show ?thesis
  proof (cases "cv_val src row = VNull")
    case True
    then have nl: nl using cv_rep_typed[OF src row] holds_type_not_null[of t VNull] nl val by auto
    then have "cv_grows t True vs out" using assms(1) by simp
    then show ?thesis using Some sr True nl cv_is_null_rep[OF src row] val cv_append_null_grows[of t vs out]
      by (auto simp: append_from_def)
  next
    case False
    then have typed: "holds_type t (cv_val src row)" using cv_rep_typed[OF src row] val by auto
    have nn: "cv_is_null row src = Some False" using cv_is_null_rep[OF src row] val False by simp
    show ?thesis
      using assms(1,2) src row val typed nn Some sr
        cv_append_i32_grows[of nl vs out] cv_append_i64_grows[of nl vs out]
        cv_append_f64_grows[of nl vs out] cv_append_str_grows[of nl vs out]
      by (auto simp: append_from_def copied_type_def holds_INT32 holds_copied
          cv_get_i32_rep cv_get_i64_rep cv_get_f64_rep cv_get_str_rep)
  qed
qed

lemma append_cells_grows:
  assumes "cv_grows t nl vs out" and "copied_type t" and "\<forall>cl\<in>set cls. cell_ok (t, nl) cl"
  shows "\<exists>out'. append_cells t nl cls out = Some out' \<and> cv_grows t nl (vs @ map cell_of cls) out'"
  using assms(1,3)
proof (induction cls arbitrary: vs out)
  case (Cons cl cls)
  then obtain out' where "append_from t nl cl out = Some out'" "cv_grows t nl (vs @ [cell_of cl]) out'"
    using append_from_grows[OF _ assms(2)] by fastforce
  then show ?case using Cons.IH[of "vs @ [cell_of cl]" out'] Cons.prems by auto
qed simp

lemma copy_column_rep:
  assumes "copied_type t" and "\<forall>cl\<in>set cls. cell_ok (t, nl) cl"
  shows "\<exists>out. copy_column t nl cls = Some out \<and> cv_rep t nl (map cell_of cls) out"
proof -
  have "vec_type t" using assms(1) by (auto simp: copied_type_def vec_type_def)
  from append_cells_grows[OF cv_empty_grows[OF this] assms] show ?thesis
    using assms(1) by (auto simp: copy_column_def cv_grows_def)
qed

text \<open>A chunk from columns that hold the components of rows.\<close>

lemma ck_new_rows:
  assumes "length cols = length sh" and "length rows \<le> 4294967288"
    and "\<And>j. j < length sh \<Longrightarrow> cv_rep (fst (sh ! j)) (snd (sh ! j)) (map (\<lambda>r. r ! j) rows) (cols ! j)"
    and "\<And>r. r \<in> set rows \<Longrightarrow> length r = length sh"
  shows "\<exists>c. ck_new (length rows) cols = Some c \<and> stream_chunk sh c \<and> ck_sel c = None \<and> ck_rows c = rows"
proof -
  let ?c = "\<lparr> ck_row_count = length rows, ck_columns = cols, ck_sel = None \<rparr>"
  have sizes: "cv_wf col \<and> cv_size col = length rows" if col: "col \<in> set cols" for col
  proof -
    obtain j where j: "j < length sh" "col = cols ! j" using col assms(1) by (auto simp: in_set_conv_nth)
    show ?thesis using assms(3)[OF j(1)] cv_rep_size[OF assms(3)[OF j(1)]] j(2) by (simp add: cv_rep_def)
  qed
  have shape: "ck_shape ?c = sh"
    using assms(1,3) by (auto simp: ck_shape_def cv_rep_def intro!: nth_equalityI prod_eqI)
  have rows: "ck_rows ?c = rows"
  proof (rule nth_equalityI)
    fix i assume "i < length (ck_rows ?c)"
    then have i: "i < length rows" by (simp add: length_ck_rows ck_phys_def)
    have "cv_val (cols ! j) i = rows ! i ! j" if "j < length sh" for j
      using cv_rep_nth[OF assms(3)[OF that], of i] i by simp
    then show "ck_rows ?c ! i = rows ! i"
      using i assms(1) assms(4)[OF nth_mem[OF i]]
      by (auto simp: ck_rows_def ck_phys_def ck_row_def intro: nth_equalityI)
  qed (simp add: length_ck_rows ck_phys_def)
  have new: "ck_new (length rows) cols = Some ?c" using sizes by (simp add: ck_new_def)
  have "ck_ok ?c" using sizes assms(2) by (simp add: ck_ok_def)
  then have "stream_chunk sh ?c" using shape by (simp add: stream_chunk_def)
  then show ?thesis using new rows by auto
qed

lemma emit_chunk_rows:
  assumes types: "\<forall>tn\<in>set outs. copied_type (fst tn)" and refs: "length refs \<le> 4294967288"
    and cells: "\<And>j ref. j < length outs \<Longrightarrow> ref \<in> set refs \<Longrightarrow>
      \<exists>cl. cell j ref = Some cl \<and> cell_ok (outs ! j) cl \<and> cell_of cl = f ref ! j"
    and width: "\<And>ref. ref \<in> set refs \<Longrightarrow> length (f ref) = length outs"
  shows "\<exists>c. emit_chunk outs cell refs = Some c \<and> stream_chunk outs c \<and> ck_sel c = None \<and>
           ck_rows c = map f refs"
proof -
  have col: "\<exists>out. do { cls \<leftarrow> those (map (cell j) refs);
        copy_column (fst (outs ! j)) (snd (outs ! j)) cls } = Some out \<and>
      cv_rep (fst (outs ! j)) (snd (outs ! j)) (map (\<lambda>ref. f ref ! j) refs) out"
    if j: "j \<in> set [0..<length outs]" for j
  proof -
    obtain cls where cls: "those (map (cell j) refs) = Some cls"
        "list_all2 (\<lambda>ref cl. cell_ok (outs ! j) cl \<and> cell_of cl = f ref ! j) refs cls"
      using those_list_all2[of refs "cell j" "\<lambda>ref cl. cell_ok (outs ! j) cl \<and> cell_of cl = f ref ! j"]
        cells j by auto
    have "\<forall>cl\<in>set cls. cell_ok (fst (outs ! j), snd (outs ! j)) cl"
      using cls(2) by (auto simp: list_all2_conv_all_nth in_set_conv_nth)
    moreover have "map cell_of cls = map (\<lambda>ref. f ref ! j) refs"
      using cls(2) by (auto simp: list_all2_conv_all_nth intro: nth_equalityI)
    ultimately show ?thesis
      using copy_column_rep[of "fst (outs ! j)" cls "snd (outs ! j)"] types j cls(1) by simp
  qed
  obtain cols where cols: "emit_columns outs cell refs = Some cols"
      "list_all2 (\<lambda>j. cv_rep (fst (outs ! j)) (snd (outs ! j)) (map (\<lambda>ref. f ref ! j) refs))
        [0..<length outs] cols"
  proof -
    have "\<exists>cols. emit_columns outs cell refs = Some cols \<and>
        list_all2 (\<lambda>j. cv_rep (fst (outs ! j)) (snd (outs ! j)) (map (\<lambda>ref. f ref ! j) refs))
          [0..<length outs] cols"
      unfolding emit_columns_def by (rule those_list_all2) (rule col)
    then show thesis using that by blast
  qed
  have "\<exists>c. ck_new (length (map f refs)) cols = Some c \<and> stream_chunk outs c \<and> ck_sel c = None \<and>
      ck_rows c = map f refs"
  proof (rule ck_new_rows)
    show "length cols = length outs" using list_all2_lengthD[OF cols(2)] by simp
    show "cv_rep (fst (outs ! j)) (snd (outs ! j)) (map (\<lambda>r. r ! j) (map f refs)) (cols ! j)"
      if "j < length outs" for j
      using list_all2_nthD[OF cols(2), of j] that by (simp add: o_def)
  qed (use refs width in auto)
  then show ?thesis using cols(1) by (simp add: emit_chunk_def)
qed

section \<open>Consuming a child\<close>

text \<open>A chunk of the child, and what is buffered for it.\<close>

definition buffers :: "fpu \<Rightarrow> shape \<Rightarrow> expr list \<Rightarrow> chunk \<Rightarrow> chunk \<times> column_vector list \<Rightarrow> bool" where
  "buffers F sh es c b \<longleftrightarrow>
     ck_ok (fst b) \<and> ck_shape (fst b) = sh \<and> ck_sel (fst b) = None \<and> ck_rows (fst b) = ck_rows c \<and>
     list_all2 (\<lambda>e k. cv_rep (output_type e) (expr_nullable sh e) (map (row_val F e) (ck_rows c)) k)
       es (snd b)"

definition defined_on :: "fpu \<Rightarrow> shape \<Rightarrow> val list list \<Rightarrow> expr list \<Rightarrow> bool" where
  "defined_on F sh rows es \<longleftrightarrow>
     (\<forall>e\<in>set es. expr_constructs e \<and> expr_typed sh e \<and> (\<forall>row\<in>set rows. row_defined F e row))"

lemma defined_on_append [simp]:
  "defined_on F sh (rows @ rows') es \<longleftrightarrow> defined_on F sh rows es \<and> defined_on F sh rows' es"
  by (auto simp: defined_on_def)

lemma materialize_buffers:
  assumes "stream_chunk sh c" and "defined_on F sh (ck_rows c) es"
  shows "\<exists>ks. project_columns F (ck_materialize c) es = Some (ok ks) \<and> buffers F sh es c (ck_materialize c, ks)"
proof -
  have c: "ck_ok c" "ck_shape c = sh" using assms(1) by (auto simp: stream_chunk_def)
  note m = ck_materialize_rows[OF c(1)]
  have "\<exists>ks. project_columns F (ck_materialize c) es = Some (ok ks) \<and>
     list_all2 (\<lambda>e col. cv_rep (output_type e) (expr_nullable (ck_shape (ck_materialize c)) e)
        (map (row_val F e) (ck_rows (ck_materialize c))) col) es ks"
    using assms(2) m c by (intro project_columns_rows) (auto simp: defined_on_def)
  then show ?thesis using m c by (auto simp: buffers_def)
qed

lemma buffer_loop_drains:
  assumes "drains (op_next C) s cs r s'" and "\<forall>c\<in>set cs. stream_chunk sh c"
    and "defined_on F sh (stream_rows cs) es"
  shows "\<exists>bs. buffer_loop C F es s buf = Some (r, s', buf @ bs) \<and>
           list_all2 (buffers F sh es) (filter (\<lambda>c. ck_rows c \<noteq> []) cs) bs"
  using assms
proof (induction arbitrary: buf rule: drains.induct)
  case (drained s s')
  then show ?case by (subst buffer_loop.simps) simp
next
  case (failed s e s')
  then show ?case by (subst buffer_loop.simps) simp
next
  case (chunk s c s1 cs r s')
  have c: "stream_chunk sh c" "defined_on F sh (ck_rows c) es"
    and rest: "\<forall>c\<in>set cs. stream_chunk sh c" "defined_on F sh (stream_rows cs) es"
    using chunk.prems by auto
  have size: "ck_logical_size c = length (ck_rows c)"
    using c(1) by (simp add: stream_chunk_def ck_logical_size)
  show ?case
  proof (cases "ck_rows c = []")
    case True
    then show ?thesis using chunk.IH[OF rest, of buf] chunk.hyps(1) size
      by (subst buffer_loop.simps) simp
  next
    case False
    obtain ks where ks: "project_columns F (ck_materialize c) es = Some (ok ks)"
        "buffers F sh es c (ck_materialize c, ks)"
      using materialize_buffers[OF c] by blast
    obtain bs where bs: "buffer_loop C F es s1 (buf @ [(ck_materialize c, ks)]) =
          Some (r, s', (buf @ [(ck_materialize c, ks)]) @ bs)"
        "list_all2 (buffers F sh es) (filter (\<lambda>c. ck_rows c \<noteq> []) cs) bs"
      using chunk.IH[OF rest] by blast
    then show ?thesis using ks False chunk.hyps(1) size
      by (intro exI[of _ "(ck_materialize c, ks) # bs"], subst buffer_loop.simps) simp
  qed
qed

lemma buffered_rows:
  assumes "list_all2 (buffers F sh es) (filter (\<lambda>c. ck_rows c \<noteq> []) cs) bs"
  shows "stream_rows (map fst bs) = stream_rows cs"
  using assms
proof (induction cs arbitrary: bs)
  case (Cons c cs)
  then show ?case
    by (cases "ck_rows c = []") (auto simp: buffers_def list_all2_Cons1)
qed simp

lemma buffered_each:
  assumes "list_all2 (buffers F sh es) cs bs" and "b \<in> set bs"
  shows "\<exists>c. buffers F sh es c b"
  using assms by (auto simp: list_all2_conv_all_nth in_set_conv_nth)

section \<open>References to buffered rows\<close>

text \<open>
  A row of the buffered chunks by the index of the chunk and the row in it, both \<open>u32\<close>. The loop
  over the chunks counts in \<open>u32\<close> and ends only when there are fewer than \<open>2 ^ 32\<close>.
\<close>

type_synonym row_ref = "u32 \<times> u32"

definition chunk_refs :: "nat \<Rightarrow> chunk \<Rightarrow> row_ref list" where
  "chunk_refs ci c = map (\<lambda>r. (word_of_nat ci, word_of_nat r))
     [0..<unat (word_of_nat (ck_row_count c) :: u32)]"

definition all_refs :: "chunk list \<Rightarrow> row_ref list option" where
  "all_refs cs =
     (if length cs < 2 ^ 32 then Some (concat (map (\<lambda>ci. chunk_refs ci (cs ! ci)) [0..<length cs]))
      else None)"

definition ref_row :: "chunk list \<Rightarrow> row_ref \<Rightarrow> val list" where
  "ref_row cs ref = ck_row (cs ! unat (fst ref)) (unat (snd ref))"

definition ref_in :: "chunk list \<Rightarrow> row_ref \<Rightarrow> bool" where
  "ref_in cs ref \<longleftrightarrow> unat (fst ref) < length cs \<and> unat (snd ref) < ck_row_count (cs ! unat (fst ref))"

lemma u32_of_nat: "n < 2 ^ 32 \<Longrightarrow> unat (word_of_nat n :: u32) = n"
  by (simp add: unat_of_nat_u32)

lemma chunk_refs_rows:
  assumes "ck_ok (cs ! ci)" and "ck_sel (cs ! ci) = None" and "ci < length cs" and "length cs < 2 ^ 32"
  shows "map (ref_row cs) (chunk_refs ci (cs ! ci)) = ck_rows (cs ! ci)"
    and "\<forall>ref\<in>set (chunk_refs ci (cs ! ci)). ref_in cs ref"
proof -
  have n: "ck_row_count (cs ! ci) < 2 ^ 32" using assms(1) by (simp add: ck_ok_def)
  then show "map (ref_row cs) (chunk_refs ci (cs ! ci)) = ck_rows (cs ! ci)"
    using assms by (auto simp: chunk_refs_def ref_row_def ck_rows_def ck_phys_def u32_of_nat)
  show "\<forall>ref\<in>set (chunk_refs ci (cs ! ci)). ref_in cs ref"
    using assms n by (auto simp: chunk_refs_def ref_in_def u32_of_nat)
qed

lemma all_refs_rows:
  assumes "\<forall>c\<in>set cs. ck_ok c \<and> ck_sel c = None" and "length cs < 2 ^ 32"
  shows "\<exists>refs. all_refs cs = Some refs \<and> map (ref_row cs) refs = stream_rows cs \<and>
           (\<forall>ref\<in>set refs. ref_in cs ref)"
proof -
  let ?refs = "concat (map (\<lambda>ci. chunk_refs ci (cs ! ci)) [0..<length cs])"
  have each: "map (ref_row cs) (chunk_refs ci (cs ! ci)) = ck_rows (cs ! ci)"
    "\<forall>ref\<in>set (chunk_refs ci (cs ! ci)). ref_in cs ref" if "ci < length cs" for ci
    using chunk_refs_rows[OF _ _ that assms(2)] assms(1) that by auto
  have "map (ref_row cs) ?refs = concat (map (\<lambda>ci. ck_rows (cs ! ci)) [0..<length cs])"
    using each(1) by (auto simp: map_concat o_def intro!: arg_cong[where f = concat])
  also have "map (\<lambda>ci. ck_rows (cs ! ci)) [0..<length cs] = map ck_rows cs"
    by (auto intro: nth_equalityI)
  finally have "map (ref_row cs) ?refs = stream_rows cs" by (simp add: stream_rows_def)
  moreover have "\<forall>ref\<in>set ?refs. ref_in cs ref" using each(2) by auto
  ultimately show ?thesis using assms(2) by (simp add: all_refs_def)
qed

text \<open>The cell of a buffered row.\<close>

definition ref_cell :: "chunk list \<Rightarrow> nat \<Rightarrow> row_ref \<Rightarrow> cell option" where
  "ref_cell cs j ref =
     map_option (\<lambda>src. Some (src, unat (snd ref))) (ck_column j (cs ! unat (fst ref)))"

lemma ref_cell_ok:
  assumes "ref_in cs ref" and "ck_ok (cs ! unat (fst ref))" and "ck_shape (cs ! unat (fst ref)) = sh"
    and "j < length sh" and "fst out = fst (sh ! j)" and "snd (sh ! j) \<longrightarrow> snd out"
  shows "\<exists>cl. ref_cell cs j ref = Some cl \<and> cell_ok out cl \<and> cell_of cl = ref_row cs ref ! j"
proof -
  let ?c = "cs ! unat (fst ref)"
  have j: "j < length (ck_columns ?c)" using assms(3,4) by (auto simp: ck_shape_def)
  then have "cv_type (ck_columns ?c ! j) = fst (sh ! j)" "cv_nullable (ck_columns ?c ! j) = snd (sh ! j)"
    using assms(3) by (auto simp: ck_shape_def)
  moreover have "cv_wf (ck_columns ?c ! j)" "cv_size (ck_columns ?c ! j) = ck_row_count ?c"
    using assms(2) j by (auto simp: ck_ok_def)
  ultimately show ?thesis
    using assms(1,5,6) j by (simp add: ref_cell_def ck_column_def cell_ok_def ref_in_def ref_row_def ck_row_def)
qed

lemma length_ref_row:
  "ck_shape (cs ! unat (fst ref)) = sh \<Longrightarrow> length (ref_row cs ref) = length sh"
  by (auto simp: ref_row_def ck_row_def ck_shape_def)

section \<open>Slices\<close>

text \<open>
  An operator that delivers the rows \<open>rows\<close> in slices, as a function of its cursor, and then goes
  on as it does at the end of \<open>rows\<close>.
\<close>

lemma slices_drain:
  assumes emit: "\<And>k. k < length rows \<Longrightarrow> \<exists>c. nxt (st k) =
      Some (ok (Some c), st (min (k + CHUNK_SIZE) (length rows))) \<and> stream_chunk sh c \<and>
      ck_rows c = take CHUNK_SIZE (drop k rows)"
    and rest: "drains nxt (st (length rows)) cs r s'" and "k \<le> length rows"
  shows "\<exists>cs'. drains nxt (st k) (cs' @ cs) r s' \<and> (\<forall>c\<in>set cs'. stream_chunk sh c) \<and>
           stream_rows cs' = drop k rows"
  using assms(3)
proof (induction "length rows - k" arbitrary: k rule: less_induct)
  case less
  show ?case
  proof (cases "k = length rows")
    case True
    then show ?thesis using rest by (intro exI[of _ "[]"]) simp
  next
    case False
    let ?k = "min (k + CHUNK_SIZE) (length rows)"
    have k: "k < length rows" using less.prems False by simp
    obtain c where c: "nxt (st k) = Some (ok (Some c), st ?k)" "stream_chunk sh c"
        "ck_rows c = take CHUNK_SIZE (drop k rows)"
      using emit[OF k] by blast
    have "length rows - ?k < length rows - k" using k by (simp add: CHUNK_SIZE_def)
    from less.hyps[OF this] obtain cs' where cs': "drains nxt (st ?k) (cs' @ cs) r s'"
        "\<forall>c\<in>set cs'. stream_chunk sh c" "stream_rows cs' = drop ?k rows" by auto
    have "take CHUNK_SIZE (drop k rows) @ drop ?k rows = drop k rows"
    proof (cases "k + CHUNK_SIZE \<le> length rows")
      case True
      then show ?thesis by (metis append_take_drop_id drop_drop add.commute min.absorb1)
    qed simp
    then show ?thesis using c cs' drains.chunk[OF c(1) cs'(1)]
      by (intro exI[of _ "c # cs'"]) simp
  qed
qed

end
