(* ===== verification/Sort_Op.thy ===== *)
theory Sort_Op
  imports Blocking "HOL-Library.Multiset"
begin

text \<open>
  The operator \<open>Sort\<close> (\<^verbatim>\<open>src/src/executor/sort.cpp\<close>, \<^verbatim>\<open>sort.h\<close>): it buffers its child,
  orders references to the rows with \<open>std::stable_sort\<close> and delivers copies of the rows in that
  order. The locale \<open>weak_order\<close> has what a stable sort does under a strict weak order; the
  comparison of keys is one unless a DOUBLE key is NaN.
\<close>

section \<open>Operations\<close>

datatype sort_direction = ASC | DESC

datatype null_order = NULLS_FIRST | NULLS_LAST

record sort_key =
  sk_expr :: expr
  sk_direction :: sort_direction
  sk_nulls :: null_order

record 's sort_op =
  so_child :: 's
  so_opened :: bool
  so_consumed :: bool
  so_buffered :: buffered
  so_perm :: "row_ref list"
  so_emit_cursor :: nat

definition sort_new :: "'s \<Rightarrow> 's sort_op" where
  "sort_new s = \<lparr> so_child = s, so_opened = False, so_consumed = False, so_buffered = [],
     so_perm = [], so_emit_cursor = 0 \<rparr>"

definition sort_open :: "'s operator \<Rightarrow> 's sort_op \<Rightarrow> unit result \<times> 's sort_op" where
  "sort_open C q = (case op_open C (so_child q) of
       (Inl e, s) \<Rightarrow> (err e, q\<lparr>so_child := s\<rparr>)
     | (Inr _, s) \<Rightarrow> (ok (), q\<lparr>so_child := s, so_opened := True\<rparr>))"

definition sort_close :: "'s operator \<Rightarrow> 's sort_op \<Rightarrow> 's sort_op" where
  "sort_close C q = q\<lparr>so_child := op_close C (so_child q)\<rparr>"

definition compare_typed :: "column_vector \<Rightarrow> nat \<Rightarrow> column_vector \<Rightarrow> nat \<Rightarrow> int option" where
  "compare_typed lc li rc ri =
     (if cv_type lc \<noteq> cv_type rc then None
      else case cv_type lc of
        INT32 \<Rightarrow> do { a \<leftarrow> cv_get_i32 li lc; b \<leftarrow> cv_get_i32 ri rc;
                      Some (cmp_val (\<lambda>a b. sint a < sint b) a b) }
      | INT64 \<Rightarrow> do { a \<leftarrow> cv_get_i64 li lc; b \<leftarrow> cv_get_i64 ri rc;
                      Some (cmp_val (\<lambda>a b. sint a < sint b) a b) }
      | DOUBLE \<Rightarrow> do { a \<leftarrow> cv_get_f64 li lc; b \<leftarrow> cv_get_f64 ri rc; Some (cmp_val f64_lt a b) }
      | VARCHAR \<Rightarrow> do { a \<leftarrow> cv_get_str li lc; b \<leftarrow> cv_get_str ri rc; Some (cmp_val str_less a b) }
      | _ \<Rightarrow> None)"

text \<open>\<open>key_cols_\<close> of the two chunks, walked in step with the keys.\<close>

fun less_loop ::
  "sort_key list \<Rightarrow> column_vector list \<Rightarrow> nat \<Rightarrow> column_vector list \<Rightarrow> nat \<Rightarrow> bool option" where
  "less_loop (k # ks) (lc # lcs) l (rc # rcs) r =
     do { ln \<leftarrow> cv_is_null l lc;
          rn \<leftarrow> cv_is_null r rc;
          if ln \<and> rn then less_loop ks lcs l rcs r
          else if ln then Some (sk_nulls k = NULLS_FIRST)
          else if rn then Some (sk_nulls k = NULLS_LAST)
          else do { cmp \<leftarrow> compare_typed lc l rc r;
                    if cmp = 0 then less_loop ks lcs l rcs r
                    else Some (if sk_direction k = ASC then cmp < 0 else cmp > 0) } }"
| "less_loop ks lcs l rcs r = Some False"

definition sort_less :: "sort_key list \<Rightarrow> buffered \<Rightarrow> row_ref \<Rightarrow> row_ref \<Rightarrow> bool option" where
  "sort_less keys buf l r =
     less_loop keys (snd (buf ! unat (fst l))) (unat (snd l)) (snd (buf ! unat (fst r))) (unat (snd r))"

text \<open>
  \<open>std::stable_sort\<close>. Which pairs the library compares is not specified; for a comparison that
  never aborts and is a strict weak order the result is, and this insertion sort computes it.
\<close>

fun stable_insert :: "('a \<Rightarrow> 'a \<Rightarrow> bool option) \<Rightarrow> 'a \<Rightarrow> 'a list \<Rightarrow> 'a list option" where
  "stable_insert lt x [] = Some [x]"
| "stable_insert lt x (y # ys) =
     do { before \<leftarrow> lt y x;
          if before then map_option ((#) y) (stable_insert lt x ys) else Some (x # y # ys) }"

fun stable_sort :: "('a \<Rightarrow> 'a \<Rightarrow> bool option) \<Rightarrow> 'a list \<Rightarrow> 'a list option" where
  "stable_sort lt [] = Some []"
| "stable_sort lt (x # xs) = do { ys \<leftarrow> stable_sort lt xs; stable_insert lt x ys }"

definition sort_consume ::
  "'s operator \<Rightarrow> fpu \<Rightarrow> sort_key list \<Rightarrow> 's sort_op \<Rightarrow> (unit result \<times> 's sort_op) option" where
  "sort_consume C F keys q =
     do { (r, s, buf) \<leftarrow> buffer_loop C F (map sk_expr keys) (so_child q) (so_buffered q);
          let q = q\<lparr>so_child := s, so_buffered := buf\<rparr>;
          case r of
            Inl e \<Rightarrow> Some (err e, q)
          | Inr _ \<Rightarrow>
              do { refs \<leftarrow> all_refs (map fst buf);
                   perm \<leftarrow> stable_sort (sort_less keys buf) (so_perm q @ refs);
                   Some (ok (), q\<lparr>so_child := op_close C s, so_perm := perm, so_consumed := True\<rparr>) } }"

definition sort_emit_slice :: "nat \<Rightarrow> nat \<Rightarrow> 's sort_op \<Rightarrow> chunk option" where
  "sort_emit_slice begin_row end_row q =
     (if begin_row < end_row \<and> so_buffered q \<noteq> []
      then emit_chunk (ck_shape (fst (hd (so_buffered q)))) (ref_cell (map fst (so_buffered q)))
             (take (end_row - begin_row) (drop begin_row (so_perm q)))
      else None)"

definition sort_emit :: "'s sort_op \<Rightarrow> (chunk option result \<times> 's sort_op) option" where
  "sort_emit q =
     (if so_emit_cursor q \<ge> length (so_perm q) then Some (ok None, q)
      else let end_row = min (so_emit_cursor q + CHUNK_SIZE) (length (so_perm q))
           in do { out \<leftarrow> sort_emit_slice (so_emit_cursor q) end_row q;
                   Some (ok (Some out), q\<lparr>so_emit_cursor := end_row\<rparr>) })"

definition sort_next ::
  "'s operator \<Rightarrow> fpu \<Rightarrow> sort_key list \<Rightarrow> 's sort_op \<Rightarrow> (chunk option result \<times> 's sort_op) option" where
  "sort_next C F keys q =
     (if \<not> so_opened q then None
      else if so_consumed q then sort_emit q
      else do { (r, q) \<leftarrow> sort_consume C F keys q;
                case r of Inl e \<Rightarrow> Some (err e, q) | Inr _ \<Rightarrow> sort_emit q })"

definition sort_operator :: "'s operator \<Rightarrow> fpu \<Rightarrow> sort_key list \<Rightarrow> 's sort_op operator" where
  "sort_operator C F keys =
     \<lparr> op_open = sort_open C, op_next = sort_next C F keys, op_close = sort_close C \<rparr>"

section \<open>Stable sorting under a strict weak order\<close>

fun insert_by :: "('a \<Rightarrow> 'a \<Rightarrow> bool) \<Rightarrow> 'a \<Rightarrow> 'a list \<Rightarrow> 'a list" where
  "insert_by lt x [] = [x]"
| "insert_by lt x (y # ys) = (if lt y x then y # insert_by lt x ys else x # y # ys)"

definition sort_by :: "('a \<Rightarrow> 'a \<Rightarrow> bool) \<Rightarrow> 'a list \<Rightarrow> 'a list" where
  "sort_by lt xs = foldr (insert_by lt) xs []"

lemma sort_by_simps [simp]: "sort_by lt [] = []" "sort_by lt (x # xs) = insert_by lt x (sort_by lt xs)"
  by (simp_all add: sort_by_def)

lemma mset_insert_by [simp]: "mset (insert_by lt x ys) = add_mset x (mset ys)"
  by (induction ys) simp_all

lemma mset_sort_by [simp]: "mset (sort_by lt xs) = mset xs"
  by (induction xs) simp_all

lemma set_sort_by [simp]: "set (sort_by lt xs) = set xs"
  using mset_sort_by by (rule mset_eq_setD)

lemma set_insert_by [simp]: "set (insert_by lt x ys) = insert x (set ys)"
  by (induction ys) auto

lemma stable_insert_total:
  "(\<And>y. y \<in> set ys \<Longrightarrow> lt y x = Some (p y x)) \<Longrightarrow> stable_insert lt x ys = Some (insert_by p x ys)"
  by (induction ys) simp_all

lemma stable_sort_total:
  "(\<And>x y. x \<in> set xs \<Longrightarrow> y \<in> set xs \<Longrightarrow> lt x y = Some (p x y)) \<Longrightarrow>
   stable_sort lt xs = Some (sort_by p xs)"
proof (induction xs)
  case (Cons x xs)
  then show ?case using stable_insert_total[of "sort_by p xs" lt x p] by simp
qed simp

lemma map_insert_by:
  "(\<And>y. y \<in> set ys \<Longrightarrow> p y x \<longleftrightarrow> q (f y) (f x)) \<Longrightarrow>
   map f (insert_by p x ys) = insert_by q (f x) (map f ys)"
  by (induction ys) simp_all

lemma map_sort_by:
  "(\<And>x y. x \<in> set xs \<Longrightarrow> y \<in> set xs \<Longrightarrow> p x y \<longleftrightarrow> q (f x) (f y)) \<Longrightarrow>
   map f (sort_by p xs) = sort_by q (map f xs)"
proof (induction xs)
  case (Cons x xs)
  then show ?case using map_insert_by[of "sort_by p xs" p x q f] by simp
qed simp

locale weak_order =
  fixes carrier :: "'a set" and lt :: "'a \<Rightarrow> 'a \<Rightarrow> bool"
  assumes asym: "a \<in> carrier \<Longrightarrow> b \<in> carrier \<Longrightarrow> lt a b \<Longrightarrow> \<not> lt b a"
    and cotrans: "a \<in> carrier \<Longrightarrow> b \<in> carrier \<Longrightarrow> c \<in> carrier \<Longrightarrow> lt a c \<Longrightarrow> lt a b \<or> lt b c"
begin

lemma insert_sorted:
  assumes "sorted_wrt (\<lambda>a b. \<not> lt b a) ys" and "x \<in> carrier" and "set ys \<subseteq> carrier"
  shows "sorted_wrt (\<lambda>a b. \<not> lt b a) (insert_by lt x ys)"
  using assms
proof (induction ys)
  case (Cons y ys)
  then show ?case using asym[of y x] cotrans[of _ y x] by auto
qed simp

lemma sort_sorted: "set xs \<subseteq> carrier \<Longrightarrow> sorted_wrt (\<lambda>a b. \<not> lt b a) (sort_by lt xs)"
  by (induction xs) (simp_all add: insert_sorted)

lemma insert_stable:
  assumes "a \<in> carrier" and "x \<in> carrier" and "set ys \<subseteq> carrier"
  shows "filter (\<lambda>y. \<not> lt a y \<and> \<not> lt y a) (insert_by lt x ys) =
    filter (\<lambda>y. \<not> lt a y \<and> \<not> lt y a) (x # ys)"
  using assms
proof (induction ys)
  case (Cons y ys)
  then show ?case using cotrans[of y a x] by auto
qed simp

lemma sort_stable:
  assumes "a \<in> carrier" and "set xs \<subseteq> carrier"
  shows "filter (\<lambda>y. \<not> lt a y \<and> \<not> lt y a) (sort_by lt xs) = filter (\<lambda>y. \<not> lt a y \<and> \<not> lt y a) xs"
  using assms(2) by (induction xs) (simp_all add: insert_stable[OF assms(1)])

end

section \<open>The order of keys\<close>

fun val_less :: "val \<Rightarrow> val \<Rightarrow> bool" where
  "val_less (VI32 a) (VI32 b) = (sint a < sint b)"
| "val_less (VI64 a) (VI64 b) = (sint a < sint b)"
| "val_less (VF64 a) (VF64 b) = f64_lt a b"
| "val_less (VStr a) (VStr b) = str_less a b"
| "val_less _ _ = False"

definition part_less :: "sort_key \<Rightarrow> val \<Rightarrow> val \<Rightarrow> bool" where
  "part_less k v w =
     (if v = VNull \<and> w = VNull then False
      else if v = VNull then sk_nulls k = NULLS_FIRST
      else if w = VNull then sk_nulls k = NULLS_LAST
      else if sk_direction k = ASC then val_less v w else val_less w v)"

text \<open>The specification: lexicographic in the keys, NULLs where the key says, each key ascending
  or descending.\<close>

fun key_less :: "sort_key list \<Rightarrow> val list \<Rightarrow> val list \<Rightarrow> bool" where
  "key_less (k # ks) (v # vs) (w # ws) =
     (part_less k v w \<or> \<not> part_less k w v \<and> key_less ks vs ws)"
| "key_less _ _ _ = False"

definition key_val :: "sort_key \<Rightarrow> val \<Rightarrow> bool" where
  "key_val k v \<longleftrightarrow> v = VNull \<or>
     copied_type (output_type (sk_expr k)) \<and> holds_type (output_type (sk_expr k)) v \<and>
     (case v of VF64 x \<Rightarrow> \<not> f64_is_nan x | _ \<Rightarrow> True)"

lemma val_less_asym: "val_less v w \<Longrightarrow> \<not> val_less w v"
  by (cases v; cases w) (auto simp: f64_lt_def dest: str_less_asym)

lemma str_less_cotrans: "str_less a c \<Longrightarrow> str_less a b \<or> str_less b c"
  using str_less_trans str_less_total by blast

lemma val_less_cotrans:
  assumes "key_val k u" "key_val k v" "key_val k w" "u \<noteq> VNull" "v \<noteq> VNull" "w \<noteq> VNull" "val_less u w"
  shows "val_less u v \<or> val_less v w"
  using assms
  by (auto simp: key_val_def copied_type_def holds_INT32 holds_copied f64_lt_def)
     (metis str_less_cotrans)

lemma part_less_order:
  assumes "key_val k u" "key_val k v" "key_val k w"
  shows "part_less k u v \<Longrightarrow> \<not> part_less k v u"
    and "part_less k u w \<Longrightarrow> part_less k u v \<or> part_less k v w"
proof -
  show "part_less k u v \<Longrightarrow> \<not> part_less k v u"
    using val_less_asym[of u v] val_less_asym[of v u]
    by (cases "u = VNull"; cases "v = VNull"; cases "sk_nulls k"; cases "sk_direction k")
       (simp_all add: part_less_def)
  show "part_less k u w \<Longrightarrow> part_less k u v \<or> part_less k v w"
    using val_less_cotrans[OF assms] val_less_cotrans[OF assms(3,2,1)]
    by (cases "u = VNull"; cases "v = VNull"; cases "w = VNull"; cases "sk_nulls k"; cases "sk_direction k")
       (simp_all add: part_less_def disj_commute)
qed

definition key_vals :: "sort_key list \<Rightarrow> val list \<Rightarrow> bool" where
  "key_vals ks vs \<longleftrightarrow> list_all2 key_val ks vs"

lemma key_less_asym: "key_vals ks vs \<Longrightarrow> key_vals ks ws \<Longrightarrow> key_less ks vs ws \<Longrightarrow> \<not> key_less ks ws vs"
proof (induction ks vs ws rule: key_less.induct)
  case (1 k ks v vs w ws)
  then show ?case using part_less_order(1)[of k v w w] part_less_order(1)[of k w v v]
    by (auto simp: key_vals_def)
qed simp_all

lemma key_less_cotrans:
  assumes "key_vals ks us" "key_vals ks vs" "key_vals ks ws" "key_less ks us ws"
  shows "key_less ks us vs \<or> key_less ks vs ws"
  using assms
proof (induction ks arbitrary: us vs ws)
  case (Cons k ks)
  obtain u us' v vs' w ws' where l: "us = u # us'" "vs = v # vs'" "ws = w # ws'"
    using Cons.prems by (auto simp: key_vals_def list_all2_Cons1)
  have k: "key_val k u" "key_val k v" "key_val k w" and r: "key_vals ks us'" "key_vals ks vs'" "key_vals ks ws'"
    using Cons.prems l by (auto simp: key_vals_def)
  note o1 = part_less_order[OF k] part_less_order[OF k(1,3,2)] part_less_order[OF k(2,1,3)]
    part_less_order[OF k(2,3,1)] part_less_order[OF k(3,1,2)] part_less_order[OF k(3,2,1)]
  show ?case using Cons.IH[OF r] Cons.prems(4) o1 unfolding l key_less.simps by blast
qed (simp add: key_vals_def)

interpretation key_order: weak_order "{vs. key_vals ks vs}" "key_less ks" for ks
  by unfold_locales (auto dest: key_less_asym key_less_cotrans)

section \<open>The operator\<close>

text \<open>The key column \<open>c\<close> holds \<open>v\<close> in row \<open>i\<close>.\<close>

definition holds_key :: "nat \<Rightarrow> sort_key \<Rightarrow> column_vector \<Rightarrow> val \<Rightarrow> bool" where
  "holds_key i k c v \<longleftrightarrow>
     (\<exists>nl vs. cv_rep (output_type (sk_expr k)) nl vs c \<and> i < length vs \<and> vs ! i = v)"

lemma holds_key_null: "holds_key i k c v \<Longrightarrow> cv_is_null i c = Some (v = VNull)"
  by (auto simp: holds_key_def cv_is_null_rep)

lemma holds_key_type:
  assumes "holds_key i k c v"
  shows "cv_type c = output_type (sk_expr k) \<and> (v = VNull \<or> holds_type (output_type (sk_expr k)) v)"
proof -
  obtain nl vs where "cv_rep (output_type (sk_expr k)) nl vs c" "i < length vs" "vs ! i = v"
    using assms by (auto simp: holds_key_def)
  then show ?thesis using cv_rep_typed[of _ nl vs c i] by (auto simp: cv_rep_def)
qed

lemma compare_typed_vals:
  assumes "holds_key l k lc v" and "holds_key r k rc w" and "v \<noteq> VNull" and "w \<noteq> VNull"
    and "copied_type (output_type (sk_expr k))"
  shows "compare_typed lc l rc r = Some (cmp_val val_less v w)"
proof -
  obtain ln ls rn rs where rep: "cv_rep (output_type (sk_expr k)) ln ls lc" "l < length ls" "ls ! l = v"
      "cv_rep (output_type (sk_expr k)) rn rs rc" "r < length rs" "rs ! r = w"
    using assms(1,2) by (auto simp: holds_key_def)
  have "holds_type (output_type (sk_expr k)) v" "holds_type (output_type (sk_expr k)) w"
    using assms(3,4) holds_key_type[OF assms(1)] holds_key_type[OF assms(2)] by auto
  then show ?thesis
    using assms(5) rep holds_key_type[OF assms(1)] holds_key_type[OF assms(2)]
    by (auto simp: compare_typed_def copied_type_def holds_INT32 holds_copied cmp_val_def
        cv_get_i32_rep cv_get_i64_rep cv_get_f64_rep cv_get_str_rep)
qed

lemma less_loop_key_less:
  assumes "list_all2 (\<lambda>k (c, v). holds_key l k c v) ks ls"
    and "list_all2 (\<lambda>k (c, v). holds_key r k c v) ks rs"
    and "\<forall>k\<in>set ks. copied_type (output_type (sk_expr k))"
  shows "less_loop ks (map fst ls) l (map fst rs) r = Some (key_less ks (map snd ls) (map snd rs))"
  using assms
proof (induction ks arbitrary: ls rs)
  case (Cons k ks)
  then obtain lc v ls' rc w rs' where l: "ls = (lc, v) # ls'" "rs = (rc, w) # rs'"
      "holds_key l k lc v" "holds_key r k rc w"
      "list_all2 (\<lambda>k (c, v). holds_key l k c v) ks ls'"
      "list_all2 (\<lambda>k (c, v). holds_key r k c v) ks rs'"
    by (auto simp: list_all2_Cons1)
  have IH: "less_loop ks (map fst ls') l (map fst rs') r = Some (key_less ks (map snd ls') (map snd rs'))"
    using Cons.IH[OF l(5,6)] Cons.prems(3) by simp
  show ?case
  proof (cases "v = VNull \<or> w = VNull")
    case True
    then show ?thesis using IH l holds_key_null[OF l(3)] holds_key_null[OF l(4)]
      by (cases "sk_nulls k") (auto simp: part_less_def)
  next
    case False
    then show ?thesis
      using IH l holds_key_null[OF l(3)] holds_key_null[OF l(4)] Cons.prems(3) val_less_asym[of v w]
        compare_typed_vals[OF l(3,4)]
      by (cases "sk_direction k") (auto simp: part_less_def cmp_val_def)
  qed
qed simp

definition key_of :: "fpu \<Rightarrow> sort_key list \<Rightarrow> val list \<Rightarrow> val list" where
  "key_of F keys row = map (\<lambda>k. row_val F (sk_expr k) row) keys"

interpretation row_order: weak_order "{row. key_vals keys (key_of F keys row)}"
    "\<lambda>a b. key_less keys (key_of F keys a) (key_of F keys b)" for F keys
  by unfold_locales (auto dest: key_less_asym key_less_cotrans)

lemma buffered_key:
  assumes "buffers F sh (map sk_expr keys) c b" and "i < ck_row_count (fst b)"
  shows "list_all2 (\<lambda>k (c, v). holds_key i k c v) keys (zip (snd b) (key_of F keys (ck_row (fst b) i)))"
proof -
  have ks: "list_all2 (\<lambda>e k. cv_rep (output_type e) (expr_nullable sh e) (map (row_val F e) (ck_rows c)) k)
      (map sk_expr keys) (snd b)" and c: "ck_sel (fst b) = None" "ck_rows (fst b) = ck_rows c"
    using assms(1) by (auto simp: buffers_def)
  have i: "i < length (ck_rows c)" "ck_rows c ! i = ck_row (fst b) i"
    using assms(2) c(1) unfolding c(2)[symmetric] by (simp_all add: ck_rows_def ck_phys_def)
  show ?thesis
    using ks i by (fastforce simp: list_all2_conv_all_nth key_of_def holds_key_def)
qed

lemma buffered_key_vals:
  assumes "buffers F sh (map sk_expr keys) c b" and "i < ck_row_count (fst b)"
    and "\<forall>k\<in>set keys. copied_type (output_type (sk_expr k))"
    and "\<forall>k\<in>set keys. \<forall>x. row_val F (sk_expr k) (ck_row (fst b) i) = VF64 x \<longrightarrow> \<not> f64_is_nan x"
  shows "key_vals keys (key_of F keys (ck_row (fst b) i))"
proof -
  note key = buffered_key[OF assms(1,2)]
  have len: "length (snd b) = length keys"
    using assms(1) by (auto simp: buffers_def dest: list_all2_lengthD)
  have "key_val (keys ! j) (key_of F keys (ck_row (fst b) i) ! j)" if j: "j < length keys" for j
  proof -
    have "holds_key i (keys ! j) (snd b ! j) (key_of F keys (ck_row (fst b) i) ! j)"
      using list_all2_nthD[OF key j] j len by (simp add: key_of_def)
    from holds_key_type[OF this] show ?thesis
      using assms(3,4) j by (auto simp: key_val_def key_of_def split: val.splits)
  qed
  then show ?thesis by (simp add: key_vals_def list_all2_conv_all_nth key_of_def)
qed

lemma sort_less_rows:
  assumes "\<forall>b\<in>set bs. \<exists>c. buffers F sh (map sk_expr keys) c b"
    and "ref_in (map fst bs) l" and "ref_in (map fst bs) r"
    and "\<forall>k\<in>set keys. copied_type (output_type (sk_expr k))"
  shows "sort_less keys bs l r = Some (key_less keys (key_of F keys (ref_row (map fst bs) l))
     (key_of F keys (ref_row (map fst bs) r)))"
proof -
  let ?k = "\<lambda>ref. zip (snd (bs ! unat (fst ref)))
      (key_of F keys (ck_row (fst (bs ! unat (fst ref))) (unat (snd ref))))"
  have key: "list_all2 (\<lambda>k (c, v). holds_key (unat (snd ref)) k c v) keys (?k ref) \<and>
      map fst (?k ref) = snd (bs ! unat (fst ref)) \<and>
      map snd (?k ref) = key_of F keys (ref_row (map fst bs) ref)" if "ref_in (map fst bs) ref" for ref
  proof -
    have b: "unat (fst ref) < length bs" "unat (snd ref) < ck_row_count (fst (bs ! unat (fst ref)))"
      using that by (auto simp: ref_in_def)
    then obtain c where c: "buffers F sh (map sk_expr keys) c (bs ! unat (fst ref))"
      using assms(1) by (metis nth_mem)
    then have "length (snd (bs ! unat (fst ref))) = length keys"
      by (auto simp: buffers_def dest: list_all2_lengthD)
    then show ?thesis using buffered_key[OF c b(2)] b(1) by (simp add: key_of_def ref_row_def)
  qed
  show ?thesis
    using less_loop_key_less[OF conjunct1[OF key[OF assms(2)]] conjunct1[OF key[OF assms(3)]] assms(4)]
      key[OF assms(2)] key[OF assms(3)]
    by (simp add: sort_less_def)
qed

text \<open>What consuming the child leaves behind.\<close>

lemma sort_consume_drains:
  assumes "drains (op_next C) (so_child q) cs r s'" and "\<forall>c\<in>set cs. stream_chunk sh c"
    and "defined_on F sh (stream_rows cs) (map sk_expr keys)" and "length (stream_rows cs) < 2 ^ 32"
    and "\<forall>k\<in>set keys. copied_type (output_type (sk_expr k))" and "so_buffered q = []" "so_perm q = []"
  shows "\<exists>bs. (\<forall>b\<in>set bs. \<exists>c. buffers F sh (map sk_expr keys) c b) \<and>
     stream_rows (map fst bs) = stream_rows cs \<and>
     (case r of
        Inl e \<Rightarrow> sort_consume C F keys q = Some (err e, q\<lparr>so_child := s', so_buffered := bs\<rparr>)
      | Inr _ \<Rightarrow> \<exists>perm. sort_consume C F keys q = Some (ok (), q\<lparr>so_child := op_close C s',
            so_buffered := bs, so_perm := perm, so_consumed := True\<rparr>) \<and>
          (\<forall>ref\<in>set perm. ref_in (map fst bs) ref) \<and>
          map (ref_row (map fst bs)) perm =
            sort_by (\<lambda>a b. key_less keys (key_of F keys a) (key_of F keys b)) (stream_rows cs))"
proof -
  obtain bs where bs: "buffer_loop C F (map sk_expr keys) (so_child q) [] = Some (r, s', bs)"
      "list_all2 (buffers F sh (map sk_expr keys)) (filter (\<lambda>c. ck_rows c \<noteq> []) cs) bs"
    using buffer_loop_drains[OF assms(1-3), of "[]"] by auto
  have each: "\<forall>b\<in>set bs. \<exists>c. buffers F sh (map sk_expr keys) c b"
    using buffered_each[OF bs(2)] by blast
  have rows: "stream_rows (map fst bs) = stream_rows cs" using buffered_rows[OF bs(2)] .
  have "length bs \<le> length (stream_rows cs)"
  proof -
    have "length (filter (\<lambda>c. ck_rows c \<noteq> []) cs) \<le> length (stream_rows cs)"
    proof (induction cs)
      case (Cons c cs)
      then show ?case by (cases "ck_rows c") auto
    qed simp
    then show ?thesis using list_all2_lengthD[OF bs(2)] by simp
  qed
  then have len: "length (map fst bs) < 2 ^ 32" using assms(4) by simp
  have ok: "\<forall>c\<in>set (map fst bs). ck_ok c \<and> ck_sel c = None" using each by (auto simp: buffers_def)
  obtain refs where refs: "all_refs (map fst bs) = Some refs"
      "map (ref_row (map fst bs)) refs = stream_rows (map fst bs)"
      "\<forall>ref\<in>set refs. ref_in (map fst bs) ref"
    using all_refs_rows[OF ok len] by blast
  let ?p = "\<lambda>a b. key_less keys (key_of F keys (ref_row (map fst bs) a)) (key_of F keys (ref_row (map fst bs) b))"
  let ?perm = "sort_by ?p refs"
  have "stable_sort (sort_less keys bs) refs = Some ?perm"
    using sort_less_rows[OF each _ _ assms(5)] refs(3) by (intro stable_sort_total) auto
  moreover have "map (ref_row (map fst bs)) ?perm =
      sort_by (\<lambda>a b. key_less keys (key_of F keys a) (key_of F keys b)) (stream_rows cs)"
    by (subst map_sort_by[where q = "\<lambda>a b. key_less keys (key_of F keys a) (key_of F keys b)"])
       (simp_all add: refs(2) rows)
  ultimately show ?thesis
    using bs(1) each rows refs assms(6,7)
    by (intro exI[of _ bs]; cases r; cases q)
       (auto simp: sort_consume_def intro!: exI[of _ ?perm])
qed

lemma sort_emit_rows:
  assumes "\<forall>b\<in>set (so_buffered q). \<exists>c. buffers F sh es c b" and "\<forall>tn\<in>set sh. copied_type (fst tn)"
    and "\<forall>ref\<in>set (so_perm q). ref_in (map fst (so_buffered q)) ref"
    and "so_emit_cursor q = k" and "k < length (so_perm q)"
  shows "\<exists>c. sort_emit q = Some (ok (Some c),
       q\<lparr>so_emit_cursor := min (k + CHUNK_SIZE) (length (so_perm q))\<rparr>) \<and> stream_chunk sh c \<and>
     ck_rows c = take CHUNK_SIZE (drop k (map (ref_row (map fst (so_buffered q))) (so_perm q)))"
proof -
  let ?cs = "map fst (so_buffered q)"
  let ?e = "min (k + CHUNK_SIZE) (length (so_perm q))"
  let ?refs = "take (?e - k) (drop k (so_perm q))"
  have shapes: "ck_ok c \<and> ck_shape c = sh" if "c \<in> set ?cs" for c
    using assms(1) that by (auto simp: buffers_def)
  have refs: "ref_in ?cs ref" if "ref \<in> set ?refs" for ref
    using assms(3) that by (meson in_set_dropD in_set_takeD)
  have at: "ck_ok (?cs ! unat (fst ref)) \<and> ck_shape (?cs ! unat (fst ref)) = sh" if "ref \<in> set ?refs" for ref
    using shapes[OF nth_mem[of "unat (fst ref)" ?cs]] refs[OF that] by (simp add: ref_in_def)
  have nonempty: "so_buffered q \<noteq> []"
    using assms(3) nth_mem[OF assms(5)] by (auto simp: ref_in_def)
  then have proto: "ck_shape (fst (hd (so_buffered q))) = sh" using shapes by simp
  have few: "length ?refs \<le> 4294967288" by (auto simp: CHUNK_SIZE_def)
  obtain c where c: "emit_chunk sh (ref_cell ?cs) ?refs = Some c" "stream_chunk sh c"
      "ck_rows c = map (ref_row ?cs) ?refs"
  proof -
    have "\<exists>c. emit_chunk sh (ref_cell ?cs) ?refs = Some c \<and> stream_chunk sh c \<and> ck_sel c = None \<and>
        ck_rows c = map (ref_row ?cs) ?refs"
    proof (rule emit_chunk_rows[OF assms(2) few])
      fix j ref assume j: "j < length sh" and ref: "ref \<in> set ?refs"
      show "\<exists>cl. ref_cell ?cs j ref = Some cl \<and> cell_ok (sh ! j) cl \<and> cell_of cl = ref_row ?cs ref ! j"
        by (rule ref_cell_ok[OF refs[OF ref] conjunct1[OF at[OF ref]] conjunct2[OF at[OF ref]] j]) simp_all
    next
      fix ref assume "ref \<in> set ?refs"
      then show "length (ref_row ?cs ref) = length sh" by (rule length_ref_row[OF conjunct2[OF at]])
    qed
    then show thesis using that by blast
  qed
  have "take (?e - k) (drop k (so_perm q)) = take CHUNK_SIZE (drop k (so_perm q))"
    using assms(5) by (simp add: min_def)
  then have "ck_rows c = take CHUNK_SIZE (drop k (map (ref_row ?cs) (so_perm q)))"
    using c(3) by (simp add: take_map drop_map)
  moreover have "k < ?e" using assms(5) by (simp add: CHUNK_SIZE_def)
  then have "sort_emit_slice k ?e q = Some c"
    using c(1) nonempty proto by (simp only: sort_emit_slice_def) simp
  then have "sort_emit q = Some (ok (Some c), q\<lparr>so_emit_cursor := ?e\<rparr>)"
    using assms(4,5) by (simp add: sort_emit_def)
  ultimately show ?thesis using c(2) by blast
qed

lemma sort_drains:
  assumes "so_opened q" and "so_consumed q" and "so_emit_cursor q = 0"
    and "\<forall>b\<in>set (so_buffered q). \<exists>c. buffers F sh es c b" and "\<forall>tn\<in>set sh. copied_type (fst tn)"
    and "\<forall>ref\<in>set (so_perm q). ref_in (map fst (so_buffered q)) ref"
  shows "\<exists>cs' q'. drains (sort_next C F keys) q cs' (ok ()) q' \<and> (\<forall>c\<in>set cs'. stream_chunk sh c) \<and>
     stream_rows cs' = map (ref_row (map fst (so_buffered q))) (so_perm q)"
proof -
  let ?rows = "map (ref_row (map fst (so_buffered q))) (so_perm q)"
  let ?st = "\<lambda>k. q\<lparr>so_emit_cursor := k\<rparr>"
  have step: "sort_next C F keys (?st k) = sort_emit (?st k)" for k
    using assms(1,2) by (simp add: sort_next_def)
  have emit: "\<exists>c. sort_next C F keys (?st k) = Some (ok (Some c), ?st (min (k + CHUNK_SIZE) (length ?rows))) \<and>
      stream_chunk sh c \<and> ck_rows c = take CHUNK_SIZE (drop k ?rows)" if "k < length ?rows" for k
    using sort_emit_rows[of "?st k" F sh es k] assms(4-6) that unfolding step by simp
  have "sort_next C F keys (?st (length ?rows)) = Some (ok None, ?st (length ?rows))"
    unfolding step by (simp add: sort_emit_def)
  then have stop: "drains (sort_next C F keys) (?st (length ?rows)) [] (ok ()) (?st (length ?rows))"
    by (rule drains.drained)
  obtain cs' where "drains (sort_next C F keys) (?st 0) (cs' @ []) (ok ()) (?st (length ?rows))"
      "\<forall>c\<in>set cs'. stream_chunk sh c" "stream_rows cs' = drop 0 ?rows"
    using slices_drain[where st = ?st, OF emit stop, of 0] by auto
  moreover have "?st 0 = q" using assms(3) by simp
  ultimately show ?thesis by auto
qed

lemma buffered_stream_keys:
  assumes "\<forall>b\<in>set bs. \<exists>c. buffers F sh (map sk_expr keys) c b"
    and "\<forall>row\<in>set (stream_rows (map fst bs)). \<forall>k\<in>set keys. \<forall>x.
           row_val F (sk_expr k) row = VF64 x \<longrightarrow> \<not> f64_is_nan x"
    and "\<forall>k\<in>set keys. copied_type (output_type (sk_expr k))"
  shows "\<forall>row\<in>set (stream_rows (map fst bs)). key_vals keys (key_of F keys row)"
proof
  fix row assume row: "row \<in> set (stream_rows (map fst bs))"
  then obtain b where b: "b \<in> set bs" "row \<in> set (ck_rows (fst b))" by (auto simp: stream_rows_def)
  obtain c where c: "buffers F sh (map sk_expr keys) c b" using assms(1) b(1) by blast
  then obtain i where "i < ck_row_count (fst b)" "row = ck_row (fst b) i"
    using b(2) by (auto simp: buffers_def ck_rows_def ck_phys_def)
  then show "key_vals keys (key_of F keys row)"
    using buffered_key_vals[OF c _ assms(3)] assms(2) row by auto
qed

text \<open>The laws of a stable sort, for rows by their keys.\<close>

lemma sort_by_key:
  assumes "\<forall>row\<in>set rows. key_vals keys (key_of F keys row)"
  defines "lt \<equiv> \<lambda>a b. key_less keys (key_of F keys a) (key_of F keys b)"
  shows "sorted_wrt (\<lambda>a b. \<not> lt b a) (sort_by lt rows)"
    and "\<forall>a\<in>set rows. filter (\<lambda>b. \<not> lt a b \<and> \<not> lt b a) (sort_by lt rows) =
           filter (\<lambda>b. \<not> lt a b \<and> \<not> lt b a) rows"
proof -
  have rows: "set rows \<subseteq> {row. key_vals keys (key_of F keys row)}" using assms(1) by blast
  show "sorted_wrt (\<lambda>a b. \<not> lt b a) (sort_by lt rows)"
    unfolding lt_def by (rule row_order.sort_sorted[OF rows])
  show "\<forall>a\<in>set rows. filter (\<lambda>b. \<not> lt a b \<and> \<not> lt b a) (sort_by lt rows) =
      filter (\<lambda>b. \<not> lt a b \<and> \<not> lt b a) rows"
    unfolding lt_def using row_order.sort_stable[OF _ rows] rows by blast
qed

text \<open>
  C8: Sort delivers the rows of its child ordered by the keys, and is stable. With sortable key and
  column types, fewer than \<open>2 ^ 32\<close> rows and no NaN among the keys, the rows delivered are a
  permutation of the rows of the child, none is followed by one that the keys put before it, and
  rows with equivalent keys keep the order of the child. An error of the child is returned before
  any row is delivered.
\<close>

theorem sort_stream:
  fixes C :: "'s operator"
  assumes "op_open C s = (ok (), s0)" and "drains (op_next C) s0 cs r s1"
    and "\<forall>c\<in>set cs. stream_chunk sh c" and "\<forall>tn\<in>set sh. copied_type (fst tn)"
    and "length (stream_rows cs) < 2 ^ 32"
    and "defined_on F sh (stream_rows cs) (map sk_expr keys)"
    and "\<forall>k\<in>set keys. copied_type (output_type (sk_expr k))"
    and "\<forall>row\<in>set (stream_rows cs). \<forall>k\<in>set keys. \<forall>x.
           row_val F (sk_expr k) row = VF64 x \<longrightarrow> \<not> f64_is_nan x"
  defines "lt \<equiv> \<lambda>a b. key_less keys (key_of F keys a) (key_of F keys b)"
  shows "\<exists>q cs' q'. op_open (sort_operator C F keys) (sort_new s) = (ok (), q) \<and>
     drains (op_next (sort_operator C F keys)) q cs' r q' \<and> (\<forall>c\<in>set cs'. stream_chunk sh c) \<and>
     (if r = ok ()
      then mset (stream_rows cs') = mset (stream_rows cs) \<and>
           sorted_wrt (\<lambda>a b. \<not> lt b a) (stream_rows cs') \<and>
           (\<forall>a\<in>set (stream_rows cs). filter (\<lambda>b. \<not> lt a b \<and> \<not> lt b a) (stream_rows cs') =
              filter (\<lambda>b. \<not> lt a b \<and> \<not> lt b a) (stream_rows cs))
      else cs' = [])"
proof -
  let ?q = "(sort_new s0)\<lparr>so_opened := True\<rparr>"
  have opens: "sort_open C (sort_new s) = (ok (), ?q)"
    using assms(1) by (simp add: sort_open_def sort_new_def)
  have fresh: "so_opened ?q" "\<not> so_consumed ?q" "so_buffered ?q = []" "so_perm ?q = []"
      "so_child ?q = s0" "so_emit_cursor ?q = 0"
    by (simp_all add: sort_new_def)
  obtain bs where bs: "\<forall>b\<in>set bs. \<exists>c. buffers F sh (map sk_expr keys) c b"
      "stream_rows (map fst bs) = stream_rows cs"
      "case r of
        Inl e \<Rightarrow> sort_consume C F keys ?q = Some (err e, ?q\<lparr>so_child := s1, so_buffered := bs\<rparr>)
      | Inr _ \<Rightarrow> \<exists>perm. sort_consume C F keys ?q = Some (ok (), ?q\<lparr>so_child := op_close C s1,
            so_buffered := bs, so_perm := perm, so_consumed := True\<rparr>) \<and>
          (\<forall>ref\<in>set perm. ref_in (map fst bs) ref) \<and>
          map (ref_row (map fst bs)) perm = sort_by lt (stream_rows cs)"
    using sort_consume_drains[of C ?q cs r s1 sh F keys] assms(2-7) fresh unfolding lt_def by auto
  show ?thesis
  proof (cases r)
    case (Inl e)
    then have "sort_next C F keys ?q = Some (err e, ?q\<lparr>so_child := s1, so_buffered := bs\<rparr>)"
      using bs(3) fresh(1,2) by (simp add: sort_next_def)
    then show ?thesis using Inl opens drains.failed[of "sort_next C F keys" ?q e]
      by (auto simp: sort_operator_def)
  next
    case (Inr u)
    then obtain perm where perm: "sort_consume C F keys ?q = Some (ok (), ?q\<lparr>so_child := op_close C s1,
          so_buffered := bs, so_perm := perm, so_consumed := True\<rparr>)"
        "\<forall>ref\<in>set perm. ref_in (map fst bs) ref"
        "map (ref_row (map fst bs)) perm = sort_by lt (stream_rows cs)"
      using bs(3) by auto
    define q2 where "q2 = ?q\<lparr>so_child := op_close C s1, so_buffered := bs, so_perm := perm,
      so_consumed := True\<rparr>"
    have q2: "so_opened q2" "so_consumed q2" "so_emit_cursor q2 = 0" "so_buffered q2 = bs" "so_perm q2 = perm"
      by (simp_all add: q2_def sort_new_def)
    have same: "sort_next C F keys ?q = sort_next C F keys q2"
      using fresh(1,2) perm(1) q2(1,2) by (simp add: sort_next_def q2_def)
    obtain cs' q' where cs': "drains (sort_next C F keys) q2 cs' (ok ()) q'"
        "\<forall>c\<in>set cs'. stream_chunk sh c" "stream_rows cs' = sort_by lt (stream_rows cs)"
      using sort_drains[OF q2(1-3), unfolded q2(4,5), OF bs(1) assms(4) perm(2), unfolded perm(3)] by blast
    have drain: "drains (sort_next C F keys) ?q cs' (ok ()) q'"
      by (rule drains_same_next[OF same cs'(1)])
    have keys: "\<forall>row\<in>set (stream_rows cs). key_vals keys (key_of F keys row)"
      using buffered_stream_keys[OF bs(1) _ assms(7), unfolded bs(2), OF assms(8)] .
    have "sorted_wrt (\<lambda>a b. \<not> lt b a) (sort_by lt (stream_rows cs))"
      "\<forall>a\<in>set (stream_rows cs). filter (\<lambda>b. \<not> lt a b \<and> \<not> lt b a) (sort_by lt (stream_rows cs)) =
         filter (\<lambda>b. \<not> lt a b \<and> \<not> lt b a) (stream_rows cs)"
      unfolding lt_def by (rule sort_by_key[OF keys])+
    then show ?thesis
      using Inr opens drain cs'(2)
      by (simp add: sort_operator_def) (rule exI[of _ cs'], auto simp: cs'(3))
  qed
qed

theorem sort_stream_witness:
  "\<exists>q cs' q'. op_open (sort_operator list_child no_fpu
         [\<lparr> sk_expr = ColumnRef 0 INT32, sk_direction = DESC, sk_nulls = NULLS_LAST \<rparr>])
       (sort_new [sample_chunk, sample_chunk]) = (ok (), q) \<and>
     drains (op_next (sort_operator list_child no_fpu
         [\<lparr> sk_expr = ColumnRef 0 INT32, sk_direction = DESC, sk_nulls = NULLS_LAST \<rparr>])) q cs' (ok ()) q' \<and>
     mset (stream_rows cs') = mset (stream_rows [sample_chunk, sample_chunk])"
proof -
  let ?keys = "[\<lparr> sk_expr = ColumnRef 0 INT32, sk_direction = DESC, sk_nulls = NULLS_LAST \<rparr>]"
  have opens: "op_open list_child [sample_chunk, sample_chunk] = (ok (), [sample_chunk, sample_chunk])"
    by (simp add: list_child_def)
  have hyps: "\<forall>tn\<in>set [(INT32, True)]. copied_type (fst tn)"
    "length (stream_rows [sample_chunk, sample_chunk]) < 2 ^ 32"
    "defined_on no_fpu [(INT32, True)] (stream_rows [sample_chunk, sample_chunk]) (map sk_expr ?keys)"
    "\<forall>k\<in>set ?keys. copied_type (output_type (sk_expr k))"
    "\<forall>row\<in>set (stream_rows [sample_chunk, sample_chunk]). \<forall>k\<in>set ?keys. \<forall>x.
       row_val no_fpu (sk_expr k) row = VF64 x \<longrightarrow> \<not> f64_is_nan x"
    by (simp_all add: copied_type_def defined_on_def sample_chunk_ok row_defined_def row_val_def)
  from sort_stream[OF opens list_child_drains sample_stream hyps] show ?thesis by auto
qed

end
