(* ===== verification/Lexer.thy ===== *)
theory Lexer
  imports Nyx_Prelude
begin

text \<open>
  The lexer (\<^verbatim>\<open>src/src/parser/token.h\<close>, \<^verbatim>\<open>lexer.h\<close> and \<^verbatim>\<open>lexer.cpp\<close>):
  token kinds and their names, the keyword table, trivia, identifiers, numbers, strings and
  symbols, and \<open>tokenize\<close>. The state \<open>source_\<close>, \<open>pos_\<close> is the position together with the
  characters from there on. Every loop of the lexer is a terminating function; the lemmas show
  that printed tokens lex back and that the locations of the tokens cut up the source.
\<close>

section \<open>Tokens\<close>

datatype token_kind =
    INT_LITERAL | DOUBLE_LITERAL | STRING_LITERAL | IDENTIFIER | LPAREN | RPAREN | COMMA |
    SEMICOLON | DOT | STAR | PLUS | MINUS | SLASH | LT | LE | EQ | NE | GE | GT | KW_SELECT |
    KW_FROM | KW_WHERE | KW_GROUP | KW_BY | KW_HAVING | KW_ORDER | KW_ASC | KW_DESC |
    KW_LIMIT | KW_OFFSET | KW_JOIN | KW_INNER | KW_ON | KW_AS | KW_AND | KW_OR | KW_NOT |
    KW_IS | KW_NULL | KW_CREATE | KW_TABLE | KW_INSERT | KW_INTO | KW_VALUES | KW_INT |
    KW_INTEGER | KW_BIGINT | KW_DOUBLE | KW_VARCHAR | KW_NVARCHAR | KW_DROP | KW_IF |
    KW_EXISTS | KW_DELETE | KW_UPDATE | KW_SET | KW_BOOL | KW_BOOLEAN | KW_TRUE | KW_FALSE |
    KW_DATE | KW_TIMESTAMP | KW_INDEX | KW_UNIQUE | KW_SHOW | KW_INDEXES | KW_PRIMARY |
    KW_KEY | KW_DEFAULT | KW_CONSTRAINT | KW_CONSTRAINTS | KW_VACUUM | KW_PARTITION |
    KW_RANGE | KW_LESS | KW_THAN | KW_MAXVALUE | KW_ALTER | KW_ADD | END_OF_FILE

record source_loc =
  sl_offset :: u32
  sl_length :: u32

record token =
  tk_kind :: token_kind
  tk_loc :: source_loc
  tk_text :: string

primrec token_kind_name :: "token_kind \<Rightarrow> string" where
  "token_kind_name INT_LITERAL = ''INT_LITERAL''"
| "token_kind_name DOUBLE_LITERAL = ''DOUBLE_LITERAL''"
| "token_kind_name STRING_LITERAL = ''STRING_LITERAL''"
| "token_kind_name IDENTIFIER = ''IDENTIFIER''"
| "token_kind_name LPAREN = ''(''"
| "token_kind_name RPAREN = '')''"
| "token_kind_name COMMA = '',''"
| "token_kind_name SEMICOLON = '';''"
| "token_kind_name DOT = ''.''"
| "token_kind_name STAR = ''*''"
| "token_kind_name PLUS = ''+''"
| "token_kind_name MINUS = ''-''"
| "token_kind_name SLASH = ''/''"
| "token_kind_name LT = ''<''"
| "token_kind_name LE = ''<=''"
| "token_kind_name EQ = ''=''"
| "token_kind_name NE = ''<>''"
| "token_kind_name GE = ''>=''"
| "token_kind_name GT = ''>''"
| "token_kind_name KW_SELECT = ''SELECT''"
| "token_kind_name KW_FROM = ''FROM''"
| "token_kind_name KW_WHERE = ''WHERE''"
| "token_kind_name KW_GROUP = ''GROUP''"
| "token_kind_name KW_BY = ''BY''"
| "token_kind_name KW_HAVING = ''HAVING''"
| "token_kind_name KW_ORDER = ''ORDER''"
| "token_kind_name KW_ASC = ''ASC''"
| "token_kind_name KW_DESC = ''DESC''"
| "token_kind_name KW_LIMIT = ''LIMIT''"
| "token_kind_name KW_OFFSET = ''OFFSET''"
| "token_kind_name KW_JOIN = ''JOIN''"
| "token_kind_name KW_INNER = ''INNER''"
| "token_kind_name KW_ON = ''ON''"
| "token_kind_name KW_AS = ''AS''"
| "token_kind_name KW_AND = ''AND''"
| "token_kind_name KW_OR = ''OR''"
| "token_kind_name KW_NOT = ''NOT''"
| "token_kind_name KW_IS = ''IS''"
| "token_kind_name KW_NULL = ''NULL''"
| "token_kind_name KW_CREATE = ''CREATE''"
| "token_kind_name KW_TABLE = ''TABLE''"
| "token_kind_name KW_INSERT = ''INSERT''"
| "token_kind_name KW_INTO = ''INTO''"
| "token_kind_name KW_VALUES = ''VALUES''"
| "token_kind_name KW_INT = ''INT''"
| "token_kind_name KW_INTEGER = ''INTEGER''"
| "token_kind_name KW_BIGINT = ''BIGINT''"
| "token_kind_name KW_DOUBLE = ''DOUBLE''"
| "token_kind_name KW_VARCHAR = ''VARCHAR''"
| "token_kind_name KW_NVARCHAR = ''NVARCHAR''"
| "token_kind_name KW_DROP = ''DROP''"
| "token_kind_name KW_IF = ''IF''"
| "token_kind_name KW_EXISTS = ''EXISTS''"
| "token_kind_name KW_DELETE = ''DELETE''"
| "token_kind_name KW_UPDATE = ''UPDATE''"
| "token_kind_name KW_SET = ''SET''"
| "token_kind_name KW_BOOL = ''BOOL''"
| "token_kind_name KW_BOOLEAN = ''BOOLEAN''"
| "token_kind_name KW_TRUE = ''TRUE''"
| "token_kind_name KW_FALSE = ''FALSE''"
| "token_kind_name KW_DATE = ''DATE''"
| "token_kind_name KW_TIMESTAMP = ''TIMESTAMP''"
| "token_kind_name KW_INDEX = ''INDEX''"
| "token_kind_name KW_UNIQUE = ''UNIQUE''"
| "token_kind_name KW_SHOW = ''SHOW''"
| "token_kind_name KW_INDEXES = ''INDEXES''"
| "token_kind_name KW_PRIMARY = ''PRIMARY''"
| "token_kind_name KW_KEY = ''KEY''"
| "token_kind_name KW_DEFAULT = ''DEFAULT''"
| "token_kind_name KW_CONSTRAINT = ''CONSTRAINT''"
| "token_kind_name KW_CONSTRAINTS = ''CONSTRAINTS''"
| "token_kind_name KW_VACUUM = ''VACUUM''"
| "token_kind_name KW_PARTITION = ''PARTITION''"
| "token_kind_name KW_RANGE = ''RANGE''"
| "token_kind_name KW_LESS = ''LESS''"
| "token_kind_name KW_THAN = ''THAN''"
| "token_kind_name KW_MAXVALUE = ''MAXVALUE''"
| "token_kind_name KW_ALTER = ''ALTER''"
| "token_kind_name KW_ADD = ''ADD''"
| "token_kind_name END_OF_FILE = ''EOF''"

definition keyword_table :: "(string \<times> token_kind) list" where
  "keyword_table =
    [(''select'', KW_SELECT), (''from'', KW_FROM), (''where'', KW_WHERE),
     (''group'', KW_GROUP), (''by'', KW_BY), (''having'', KW_HAVING), (''order'', KW_ORDER),
     (''asc'', KW_ASC), (''desc'', KW_DESC), (''limit'', KW_LIMIT), (''offset'', KW_OFFSET),
     (''join'', KW_JOIN), (''inner'', KW_INNER), (''on'', KW_ON), (''as'', KW_AS),
     (''and'', KW_AND), (''or'', KW_OR), (''not'', KW_NOT), (''is'', KW_IS),
     (''null'', KW_NULL), (''create'', KW_CREATE), (''table'', KW_TABLE),
     (''insert'', KW_INSERT), (''into'', KW_INTO), (''values'', KW_VALUES), (''int'', KW_INT),
     (''integer'', KW_INTEGER), (''bigint'', KW_BIGINT), (''double'', KW_DOUBLE),
     (''varchar'', KW_VARCHAR), (''nvarchar'', KW_NVARCHAR), (''drop'', KW_DROP),
     (''if'', KW_IF), (''exists'', KW_EXISTS), (''delete'', KW_DELETE),
     (''update'', KW_UPDATE), (''set'', KW_SET), (''bool'', KW_BOOL),
     (''boolean'', KW_BOOLEAN), (''true'', KW_TRUE), (''false'', KW_FALSE),
     (''date'', KW_DATE), (''timestamp'', KW_TIMESTAMP), (''index'', KW_INDEX),
     (''unique'', KW_UNIQUE), (''show'', KW_SHOW), (''indexes'', KW_INDEXES),
     (''primary'', KW_PRIMARY), (''key'', KW_KEY), (''default'', KW_DEFAULT),
     (''constraint'', KW_CONSTRAINT), (''constraints'', KW_CONSTRAINTS),
     (''vacuum'', KW_VACUUM), (''partition'', KW_PARTITION), (''range'', KW_RANGE),
     (''less'', KW_LESS), (''than'', KW_THAN), (''maxvalue'', KW_MAXVALUE),
     (''alter'', KW_ALTER), (''add'', KW_ADD)]"

section \<open>Characters\<close>

text \<open>\<open>std::isdigit\<close>, \<open>std::isalpha\<close>, \<open>std::isalnum\<close> and \<open>std::tolower\<close> in the "C" locale.\<close>

definition char_code :: "char \<Rightarrow> nat" where
  "char_code c = of_char c"

definition isdigit :: "char \<Rightarrow> bool" where
  "isdigit c \<longleftrightarrow> 48 \<le> char_code c \<and> char_code c \<le> 57"

definition isupper :: "char \<Rightarrow> bool" where
  "isupper c \<longleftrightarrow> 65 \<le> char_code c \<and> char_code c \<le> 90"

definition isalpha :: "char \<Rightarrow> bool" where
  "isalpha c \<longleftrightarrow> isupper c \<or> 97 \<le> char_code c \<and> char_code c \<le> 122"

definition isalnum :: "char \<Rightarrow> bool" where
  "isalnum c \<longleftrightarrow> isalpha c \<or> isdigit c"

definition tolower :: "char \<Rightarrow> char" where
  "tolower c = (if isupper c then char_of (char_code c + 32) else c)"

section \<open>The state of the lexer\<close>

record lexer =
  lx_pos :: nat
  lx_rest :: string

definition lx_new :: "string \<Rightarrow> lexer" where
  "lx_new source = \<lparr> lx_pos = 0, lx_rest = source \<rparr>"

definition lx_peek :: "nat \<Rightarrow> lexer \<Rightarrow> char" where
  "lx_peek ahead l = (if ahead < length (lx_rest l) then lx_rest l ! ahead else CHR 0x00)"

definition lx_at_end :: "lexer \<Rightarrow> bool" where
  "lx_at_end l \<longleftrightarrow> lx_rest l = []"

definition lx_advance :: "lexer \<Rightarrow> lexer" where
  "lx_advance l = (if lx_at_end l then l else \<lparr> lx_pos = lx_pos l + 1, lx_rest = tl (lx_rest l) \<rparr>)"

text \<open>\<open>source_[pos_]\<close>; every use is guarded by \<open>!at_end_()\<close>.\<close>

definition lx_cur :: "lexer \<Rightarrow> char" where
  "lx_cur l = lx_peek 0 l"

text \<open>Two states of one run: the later one is some characters further on.\<close>

definition ahead :: "lexer \<Rightarrow> lexer \<Rightarrow> bool" where
  "ahead l l' \<longleftrightarrow> lx_pos l \<le> lx_pos l' \<and> lx_pos l' - lx_pos l \<le> length (lx_rest l) \<and>
     lx_rest l' = drop (lx_pos l' - lx_pos l) (lx_rest l)"

lemma ahead_refl [simp]: "ahead l l"
  by (simp add: ahead_def)

lemma ahead_trans [trans]: "ahead a b \<Longrightarrow> ahead b c \<Longrightarrow> ahead a c"
  by (auto simp: ahead_def)

lemma ahead_advance [simp]: "ahead l (lx_advance l)"
  by (auto simp: ahead_def lx_advance_def lx_at_end_def drop_Suc Suc_le_eq)

lemma ahead_length: "ahead l l' \<Longrightarrow> length (lx_rest l') + lx_pos l' = length (lx_rest l) + lx_pos l"
  by (auto simp: ahead_def)

lemma lx_advance_less: "\<not> lx_at_end l \<Longrightarrow> length (lx_rest (lx_advance l)) < length (lx_rest l)"
  by (simp add: lx_advance_def lx_at_end_def)

lemma ahead_le: "ahead l l' \<Longrightarrow> length (lx_rest l') \<le> length (lx_rest l)"
  by (auto simp: ahead_def)

lemma ahead_less:
  "\<not> lx_at_end l \<Longrightarrow> ahead (lx_advance l) l' \<Longrightarrow> length (lx_rest l') < length (lx_rest l)"
  using lx_advance_less[of l] ahead_le[of "lx_advance l" l'] by simp

text \<open>A loop that advances while a condition on the state holds and the end is not reached.\<close>

function lx_while :: "(lexer \<Rightarrow> bool) \<Rightarrow> lexer \<Rightarrow> lexer" where
  "lx_while cond l = (if \<not> lx_at_end l \<and> cond l then lx_while cond (lx_advance l) else l)"
  by pat_completeness auto
termination
  by (relation "measure (\<lambda>(_, l). length (lx_rest l))") (simp_all add: lx_advance_less)

declare lx_while.simps [simp del]

lemma ahead_while [simp]: "ahead l (lx_while cond l)"
proof (induction cond l rule: lx_while.induct)
  case (1 cond l)
  then show ?case by (auto simp: lx_while.simps[of cond l] intro: ahead_trans[OF ahead_advance])
qed

definition skip_line_comment :: "lexer \<Rightarrow> lexer" where
  "skip_line_comment = lx_while (\<lambda>l. lx_cur l \<noteq> CHR 0x0A)"

definition skip_block_comment :: "lexer \<Rightarrow> lexer" where
  "skip_block_comment l =
     (let l = lx_while (\<lambda>l. \<not> (lx_cur l = CHR ''*'' \<and> lx_peek 1 l = CHR ''/''))
                (lx_advance (lx_advance l))
      in if \<not> lx_at_end l then lx_advance (lx_advance l) else l)"

lemma ahead_skip_block: "ahead (lx_advance l) (skip_block_comment l)"
proof -
  define l2 where "l2 = lx_while (\<lambda>l. \<not> (lx_cur l = CHR ''*'' \<and> lx_peek 1 l = CHR ''/''))
    (lx_advance (lx_advance l))"
  have l2: "ahead (lx_advance l) l2"
    unfolding l2_def by (rule ahead_trans[OF ahead_advance ahead_while])
  then have "ahead (lx_advance l) (lx_advance (lx_advance l2))"
    by (rule ahead_trans) (rule ahead_trans[OF ahead_advance ahead_advance])
  with l2 show ?thesis unfolding skip_block_comment_def Let_def l2_def[symmetric] by simp
qed

lemma ahead_skip_line:
  "\<not> lx_at_end l \<Longrightarrow> lx_cur l = CHR ''-'' \<Longrightarrow> ahead (lx_advance l) (skip_line_comment l)"
  by (simp add: skip_line_comment_def lx_while.simps[of _ l])

definition is_blank :: "char \<Rightarrow> bool" where
  "is_blank c \<longleftrightarrow> c \<in> {CHR '' '', CHR 0x09, CHR 0x0A, CHR 0x0D}"

function skip_trivia :: "lexer \<Rightarrow> lexer" where
  "skip_trivia l =
     (if lx_at_end l then l
      else if is_blank (lx_cur l) then skip_trivia (lx_advance l)
      else if lx_cur l = CHR ''-'' \<and> lx_peek 1 l = CHR ''-'' then skip_trivia (skip_line_comment l)
      else if lx_cur l = CHR ''/'' \<and> lx_peek 1 l = CHR ''*'' then skip_trivia (skip_block_comment l)
      else l)"
  by pat_completeness auto
termination
  by (relation "measure (\<lambda>l. length (lx_rest l))")
     (simp_all add: lx_advance_less ahead_less ahead_skip_line ahead_skip_block)

declare skip_trivia.simps [simp del]

section \<open>Tokens of each class\<close>

definition lx_error :: "string \<Rightarrow> u32 \<Rightarrow> token result" where
  "lx_error message start = err (''lex error at offset '' @ to_string (unat start) @ '': '' @ message)"

function ident_loop :: "string \<Rightarrow> lexer \<Rightarrow> string \<times> lexer" where
  "ident_loop acc l =
     (if \<not> lx_at_end l \<and> (isalnum (lx_cur l) \<or> lx_cur l = CHR ''_'')
      then ident_loop (acc @ [tolower (lx_cur l)]) (lx_advance l) else (acc, l))"
  by pat_completeness auto
termination
  by (relation "measure (\<lambda>(_, l). length (lx_rest l))") (simp_all add: lx_advance_less)

declare ident_loop.simps [simp del]

definition lex_ident_or_keyword :: "lexer \<Rightarrow> token result \<times> lexer" where
  "lex_ident_or_keyword l =
     (let start = word_of_nat (lx_pos l) :: u32;
          (acc, l) = ident_loop '''' l;
          loc = \<lparr> sl_offset = start, sl_length = word_of_nat (lx_pos l) - start \<rparr>
      in (ok (case map_of keyword_table acc of
                Some k \<Rightarrow> \<lparr> tk_kind = k, tk_loc = loc, tk_text = '''' \<rparr>
              | None \<Rightarrow> \<lparr> tk_kind = IDENTIFIER, tk_loc = loc, tk_text = acc \<rparr>), l))"

definition skip_digits :: "lexer \<Rightarrow> lexer" where
  "skip_digits = lx_while (\<lambda>l. isdigit (lx_cur l))"

definition lex_fraction :: "lexer \<Rightarrow> bool \<times> lexer" where
  "lex_fraction l =
     (if \<not> lx_at_end l \<and> lx_cur l = CHR ''.'' \<and> isdigit (lx_peek 1 l)
      then (True, skip_digits (lx_advance l)) else (False, l))"

text \<open>The exponent: \<open>None\<close> when a digit is missing; otherwise whether there is one.\<close>

definition lex_exponent :: "lexer \<Rightarrow> bool option \<times> lexer" where
  "lex_exponent l =
     (if \<not> lx_at_end l \<and> (lx_cur l = CHR ''e'' \<or> lx_cur l = CHR ''E'')
      then let l = lx_advance l;
               l = (if \<not> lx_at_end l \<and> (lx_cur l = CHR ''+'' \<or> lx_cur l = CHR ''-'')
                    then lx_advance l else l)
           in if lx_at_end l \<or> \<not> isdigit (lx_cur l) then (None, l)
              else (Some True, skip_digits l)
      else (Some False, l))"

text \<open>\<open>source_.substr(start, length)\<close>: the characters between two positions.\<close>

definition lx_between :: "lexer \<Rightarrow> lexer \<Rightarrow> string" where
  "lx_between l l' = take (lx_pos l' - lx_pos l) (lx_rest l)"

definition lex_number :: "lexer \<Rightarrow> token result \<times> lexer" where
  "lex_number l0 =
     (let start = word_of_nat (lx_pos l0) :: u32;
          (frac, l) = lex_fraction (skip_digits l0);
          (ex, l) = lex_exponent l
      in case ex of
           None \<Rightarrow> (lx_error ''expected digit after exponent'' start, l)
         | Some has_exp \<Rightarrow>
             (ok \<lparr> tk_kind = (if frac \<or> has_exp then DOUBLE_LITERAL else INT_LITERAL),
                   tk_loc = \<lparr> sl_offset = start, sl_length = word_of_nat (lx_pos l) - start \<rparr>,
                   tk_text = lx_between l0 l \<rparr>, l))"

text \<open>The loop of \<open>lex_string_\<close>; \<open>None\<close> is the unterminated literal.\<close>

function string_loop :: "string \<Rightarrow> lexer \<Rightarrow> string option \<times> lexer" where
  "string_loop acc l =
     (if lx_at_end l then (None, l)
      else if lx_cur l = CHR 0x27
      then let l' = lx_advance l
           in if \<not> lx_at_end l' \<and> lx_cur l' = CHR 0x27
              then string_loop (acc @ [CHR 0x27]) (lx_advance l') else (Some acc, l')
      else string_loop (acc @ [lx_cur l]) (lx_advance l))"
  by pat_completeness auto
termination
  by (relation "measure (\<lambda>(_, l). length (lx_rest l))")
     (auto simp: lx_advance_less ahead_less)

declare string_loop.simps [simp del]

definition lex_string :: "lexer \<Rightarrow> token result \<times> lexer" where
  "lex_string l =
     (let start = word_of_nat (lx_pos l) :: u32;
          (acc, l) = string_loop '''' (lx_advance l)
      in case acc of
           None \<Rightarrow> (lx_error ''unterminated string literal'' start, l)
         | Some s \<Rightarrow>
             (ok \<lparr> tk_kind = STRING_LITERAL,
                   tk_loc = \<lparr> sl_offset = start, sl_length = word_of_nat (lx_pos l) - start \<rparr>,
                   tk_text = s \<rparr>, l))"

text \<open>\<open>lex_symbol_\<close>: the kind and the number of characters, by the first two characters.\<close>

definition symbol_kind :: "char \<Rightarrow> char \<Rightarrow> (token_kind \<times> nat) option" where
  "symbol_kind c d =
     (if c = CHR ''('' then Some (LPAREN, 1)
      else if c = CHR '')'' then Some (RPAREN, 1)
      else if c = CHR '','' then Some (COMMA, 1)
      else if c = CHR '';'' then Some (SEMICOLON, 1)
      else if c = CHR ''.'' then Some (DOT, 1)
      else if c = CHR ''*'' then Some (STAR, 1)
      else if c = CHR ''+'' then Some (PLUS, 1)
      else if c = CHR ''-'' then Some (MINUS, 1)
      else if c = CHR ''/'' then Some (SLASH, 1)
      else if c = CHR ''='' then Some (EQ, 1)
      else if c = CHR ''<'' then
        (if d = CHR ''='' then Some (LE, 2) else if d = CHR ''>'' then Some (NE, 2) else Some (LT, 1))
      else if c = CHR ''>'' then (if d = CHR ''='' then Some (GE, 2) else Some (GT, 1))
      else if c = CHR ''!'' \<and> d = CHR ''='' then Some (NE, 2)
      else None)"

definition lex_symbol :: "lexer \<Rightarrow> token result \<times> lexer" where
  "lex_symbol l =
     (let start = word_of_nat (lx_pos l) :: u32
      in case symbol_kind (lx_cur l) (lx_peek 1 l) of
           None \<Rightarrow> (lx_error (''unexpected character '' @ [CHR 0x27, lx_cur l, CHR 0x27]) start, l)
         | Some (k, n) \<Rightarrow>
             (ok \<lparr> tk_kind = k, tk_loc = \<lparr> sl_offset = start, sl_length = word_of_nat n \<rparr>,
                   tk_text = '''' \<rparr>, (lx_advance ^^ n) l))"

definition next_token :: "lexer \<Rightarrow> token result \<times> lexer" where
  "next_token l =
     (let c = lx_cur l
      in if isalpha c \<or> c = CHR ''_'' then lex_ident_or_keyword l
         else if isdigit c then lex_number l
         else if c = CHR 0x27 then lex_string l
         else lex_symbol l)"

section \<open>Progress\<close>

lemma ahead_ident_loop: "ahead l (snd (ident_loop acc l))"
proof (induction acc l rule: ident_loop.induct)
  case (1 acc l)
  then show ?case by (auto simp: ident_loop.simps[of acc l] intro: ahead_trans[OF ahead_advance])
qed

lemma ahead_string_loop: "ahead l (snd (string_loop acc l))"
proof (induction acc l rule: string_loop.induct)
  case (1 acc l)
  have two: "ahead l (lx_advance (lx_advance l))" by (rule ahead_trans[OF ahead_advance ahead_advance])
  show ?case using 1
    by (auto simp: string_loop.simps[of acc l] Let_def
        intro: ahead_trans[OF two] ahead_trans[OF ahead_advance])
qed

lemma ahead_skip_digits [simp]: "ahead l (skip_digits l)"
  by (simp add: skip_digits_def)

lemma ahead_fraction: "ahead l (snd (lex_fraction l))"
  by (auto simp: lex_fraction_def intro: ahead_trans[OF ahead_advance])

lemma ahead_exponent: "ahead l (snd (lex_exponent l))"
proof -
  define l1 where "l1 = lx_advance l"
  define l2 where "l2 = (if \<not> lx_at_end l1 \<and> (lx_cur l1 = CHR ''+'' \<or> lx_cur l1 = CHR ''-'')
    then lx_advance l1 else l1)"
  have "ahead l l1" "ahead l1 l2" by (simp_all add: l1_def l2_def)
  then have "ahead l l2" "ahead l (skip_digits l2)" by (blast intro: ahead_trans ahead_skip_digits)+
  then show ?thesis unfolding lex_exponent_def Let_def l1_def[symmetric] l2_def[symmetric] by simp
qed

lemma lx_while_first:
  "\<not> lx_at_end l \<Longrightarrow> cond l \<Longrightarrow> lx_while cond l = lx_while cond (lx_advance l)"
  by (simp add: lx_while.simps[of cond l])

lemma ahead_advances: "ahead l ((lx_advance ^^ n) l)"
  by (induction n) (auto intro: ahead_trans[OF _ ahead_advance])

text \<open>A token has at least one character.\<close>

lemma ahead_ident:
  assumes "\<not> lx_at_end l" and "isalpha (lx_cur l) \<or> lx_cur l = CHR ''_''"
  shows "ahead (lx_advance l) (snd (lex_ident_or_keyword l))"
proof -
  have "snd (lex_ident_or_keyword l) = snd (ident_loop [tolower (lx_cur l)] (lx_advance l))"
    using assms
    by (auto simp: lex_ident_or_keyword_def Let_def split_def ident_loop.simps[of "[]" l] isalnum_def)
  then show ?thesis by (simp add: ahead_ident_loop)
qed

lemma ahead_number:
  assumes "\<not> lx_at_end l" and "isdigit (lx_cur l)"
  shows "ahead (lx_advance l) (snd (lex_number l))"
proof -
  let ?l1 = "skip_digits l"
  have "ahead (lx_advance l) ?l1"
    using assms lx_while_first[of l "\<lambda>l. isdigit (lx_cur l)"] by (simp add: skip_digits_def)
  also have "ahead ?l1 (snd (lex_fraction ?l1))" by (rule ahead_fraction)
  also have "ahead (snd (lex_fraction ?l1)) (snd (lex_exponent (snd (lex_fraction ?l1))))"
    by (rule ahead_exponent)
  finally show ?thesis by (simp add: lex_number_def Let_def split_def split: option.splits)
qed

lemma ahead_symbol:
  assumes "\<not> lx_at_end l" and "fst (lex_symbol l) = ok tok"
  shows "ahead (lx_advance l) (snd (lex_symbol l))"
proof -
  obtain k n where k: "symbol_kind (lx_cur l) (lx_peek 1 l) = Some (k, n)"
    using assms(2) by (cases "symbol_kind (lx_cur l) (lx_peek 1 l)") (auto simp: lex_symbol_def lx_error_def)
  then have "n \<noteq> 0" by (auto simp: symbol_kind_def split: if_splits)
  then obtain m where "n = Suc m" by (cases n) auto
  then show ?thesis using k ahead_advances[of "lx_advance l" m]
    by (simp add: lex_symbol_def funpow_swap1)
qed

lemma ahead_next_token:
  assumes "\<not> lx_at_end l" and "fst (next_token l) = ok tok"
  shows "ahead (lx_advance l) (snd (next_token l))"
  using assms ahead_ident[OF assms(1)] ahead_number[OF assms(1)] ahead_symbol[OF assms(1)]
    ahead_string_loop[of "lx_advance l" "[]"]
  by (auto simp: next_token_def Let_def lex_string_def split_def split: option.splits if_splits)

lemma ahead_skip_trivia: "ahead l (skip_trivia l)"
proof (induction l rule: skip_trivia.induct)
  case (1 l)
  have line: "ahead l (skip_line_comment l)" by (simp add: skip_line_comment_def)
  have block: "ahead l (skip_block_comment l)" by (rule ahead_trans[OF ahead_advance ahead_skip_block])
  show ?case using 1
    by (auto simp: skip_trivia.simps[of l]
        intro: ahead_trans[OF ahead_advance] ahead_trans[OF line] ahead_trans[OF block])
qed

section \<open>The main loop\<close>

function tokenize_loop :: "lexer \<Rightarrow> token list result \<times> lexer" where
  "tokenize_loop l =
     (let l = skip_trivia l
      in if lx_at_end l then (ok [], l)
         else case next_token l of
                (Inl e, l') \<Rightarrow> (err e, l')
              | (Inr tok, l') \<Rightarrow>
                  (case tokenize_loop l' of
                     (Inl e, l'') \<Rightarrow> (err e, l'')
                   | (Inr toks, l'') \<Rightarrow> (ok (tok # toks), l'')))"
  by pat_completeness auto
termination
proof (relation "measure (\<lambda>l. length (lx_rest l))")
  fix l l1 x r l' tok
  assume "l1 = skip_trivia l" "\<not> lx_at_end l1" "(r, l') = next_token l1" "r = Inr tok"
  then have "length (lx_rest l') < length (lx_rest l1)"
    using ahead_next_token[of l1 tok] ahead_less[of l1 l'] by (metis fst_conv snd_conv)
  moreover have "length (lx_rest l1) \<le> length (lx_rest l)"
    using ahead_le[OF ahead_skip_trivia[of l]] \<open>l1 = skip_trivia l\<close> by simp
  ultimately show "(l', l) \<in> measure (\<lambda>l. length (lx_rest l))" by simp
qed auto

declare tokenize_loop.simps [simp del]

definition tokenize :: "string \<Rightarrow> token list result" where
  "tokenize source =
     (case fst (tokenize_loop (lx_new source)) of
        Inl e \<Rightarrow> err e
      | Inr toks \<Rightarrow>
          ok (toks @ [\<lparr> tk_kind = END_OF_FILE,
                        tk_loc = \<lparr> sl_offset = word_of_nat (length source), sl_length = 0 \<rparr>,
                        tk_text = '''' \<rparr>]))"

section \<open>Lexemes\<close>

lemma lx_simps [simp]:
  "lx_at_end \<lparr> lx_pos = p, lx_rest = s \<rparr> \<longleftrightarrow> s = []"
  "lx_cur \<lparr> lx_pos = p, lx_rest = c # cs \<rparr> = c"
  "lx_peek 0 \<lparr> lx_pos = p, lx_rest = c # cs \<rparr> = c"
  "lx_peek (Suc n) \<lparr> lx_pos = p, lx_rest = c # cs \<rparr> = lx_peek n \<lparr> lx_pos = p + 1, lx_rest = cs \<rparr>"
  "lx_advance \<lparr> lx_pos = p, lx_rest = c # cs \<rparr> = \<lparr> lx_pos = p + 1, lx_rest = cs \<rparr>"
  by (simp_all add: lx_at_end_def lx_cur_def lx_peek_def lx_advance_def)

definition quote_body :: "string \<Rightarrow> string" where
  "quote_body s = concat (map (\<lambda>c. if c = CHR 0x27 then [c, c] else [c]) s)"

definition quote :: "string \<Rightarrow> string" where
  "quote s = CHR 0x27 # quote_body s @ [CHR 0x27]"

lemma lx_not_end:
  assumes "\<not> lx_at_end l"
  obtains p c cs where "l = \<lparr> lx_pos = p, lx_rest = c # cs \<rparr>"
proof -
  obtain p s where l: "l = \<lparr> lx_pos = p, lx_rest = s \<rparr>" by (cases l)
  with assms that show thesis by (cases s) simp_all
qed

lemma between_step:
  assumes "\<not> lx_at_end l" and "ahead (lx_advance l) l'"
  shows "lx_between l l' = lx_cur l # lx_between (lx_advance l) l'"
proof -
  obtain p c cs where l: "l = \<lparr> lx_pos = p, lx_rest = c # cs \<rparr>" using lx_not_end[OF assms(1)] .
  show ?thesis using assms(2) unfolding l by (auto simp: lx_between_def ahead_def take_Cons')
qed

lemma between_refl [simp]: "lx_between l l = []"
  by (simp add: lx_between_def)

lemma length_between: "ahead l l' \<Longrightarrow> length (lx_between l l') = lx_pos l' - lx_pos l"
  by (auto simp: lx_between_def ahead_def)

lemma ident_loop_between:
  "ident_loop acc l = (acc', l') \<Longrightarrow> acc' = acc @ map tolower (lx_between l l')"
proof (induction acc l arbitrary: acc' l' rule: ident_loop.induct)
  case (1 acc l)
  show ?case
  proof (cases "\<not> lx_at_end l \<and> (isalnum (lx_cur l) \<or> lx_cur l = CHR ''_'')")
    case True
    then have step: "ident_loop (acc @ [tolower (lx_cur l)]) (lx_advance l) = (acc', l')"
      using 1(2) by (simp add: ident_loop.simps[of acc l])
    moreover have "ahead (lx_advance l) l'"
      using ahead_ident_loop[of "lx_advance l" "acc @ [tolower (lx_cur l)]"] step by simp
    ultimately show ?thesis using 1(1) True between_step[of l l'] by simp
  next
    case False
    then have "acc' = acc" "l' = l" using 1(2) by (auto simp: ident_loop.simps[of acc l])
    then show ?thesis by simp
  qed
qed

lemma string_loop_between:
  "string_loop acc l = (Some s, l') \<Longrightarrow>
     \<exists>body. s = acc @ body \<and> lx_between l l' = quote_body body @ [CHR 0x27]"
proof (induction acc l arbitrary: s l' rule: string_loop.induct)
  case (1 acc l)
  have nend: "\<not> lx_at_end l" using 1(3) by (auto simp: string_loop.simps[of acc l])
  let ?l1 = "lx_advance l"
  consider (escaped) "lx_cur l = CHR 0x27" "\<not> lx_at_end ?l1 \<and> lx_cur ?l1 = CHR 0x27"
    | (closing) "lx_cur l = CHR 0x27" "\<not> (\<not> lx_at_end ?l1 \<and> lx_cur ?l1 = CHR 0x27)"
    | (plain) "lx_cur l \<noteq> CHR 0x27" by blast
  then show ?case
  proof cases
    case escaped
    have step: "string_loop (acc @ [CHR 0x27]) (lx_advance ?l1) = (Some s, l')"
      using 1(3) nend escaped by (simp add: string_loop.simps[of acc l] Let_def)
    from 1(1)[OF nend escaped(1) refl escaped(2) step] obtain body where body:
      "s = acc @ CHR 0x27 # body" "lx_between (lx_advance ?l1) l' = quote_body body @ [CHR 0x27]" by auto
    have a: "ahead (lx_advance ?l1) l'"
      using ahead_string_loop[of "lx_advance ?l1" "acc @ [CHR 0x27]"] step by simp
    have "lx_between l l' = CHR 0x27 # CHR 0x27 # lx_between (lx_advance ?l1) l'"
      using between_step[OF nend] between_step[of ?l1 l'] escaped a ahead_trans[OF ahead_advance a] by simp
    then show ?thesis using body by (intro exI[of _ "CHR 0x27 # body"]) (simp add: quote_body_def)
  next
    case closing
    then have "s = acc" "l' = ?l1" using 1(3) nend by (auto simp: string_loop.simps[of acc l] Let_def)
    then show ?thesis using between_step[OF nend, of l'] closing by (simp add: quote_body_def)
  next
    case plain
    have step: "string_loop (acc @ [lx_cur l]) ?l1 = (Some s, l')"
      using 1(3) nend plain by (simp add: string_loop.simps[of acc l])
    from 1(2)[OF nend plain step] obtain body where body:
      "s = acc @ lx_cur l # body" "lx_between ?l1 l' = quote_body body @ [CHR 0x27]" by auto
    have "ahead ?l1 l'" using ahead_string_loop[of ?l1 "acc @ [lx_cur l]"] step by simp
    then show ?thesis using body plain between_step[OF nend, of l']
      by (intro exI[of _ "lx_cur l # body"]) (simp add: quote_body_def)
  qed
qed

text \<open>What a token says about the characters it was read from.\<close>

definition symbol_spelling :: "token_kind \<Rightarrow> string \<Rightarrow> bool" where
  "symbol_spelling k s \<longleftrightarrow>
     k \<in> {LPAREN, RPAREN, COMMA, SEMICOLON, DOT, STAR, PLUS, MINUS, SLASH, LT, LE, EQ, NE, GE, GT} \<and>
     (s = token_kind_name k \<or> k = NE \<and> s = ''!='')"

definition lexeme_ok :: "string \<Rightarrow> token \<Rightarrow> bool" where
  "lexeme_ok s t \<longleftrightarrow>
     (if tk_kind t = IDENTIFIER then tk_text t = map tolower s \<and> map_of keyword_table (tk_text t) = None
      else if tk_kind t = INT_LITERAL \<or> tk_kind t = DOUBLE_LITERAL then tk_text t = s
      else if tk_kind t = STRING_LITERAL then s = quote (tk_text t)
      else tk_text t = [] \<and>
           (map_of keyword_table (map tolower s) = Some (tk_kind t) \<or> symbol_spelling (tk_kind t) s))"

definition token_span :: "lexer \<Rightarrow> lexer \<Rightarrow> token \<Rightarrow> bool" where
  "token_span l l' t \<longleftrightarrow>
     tk_loc t = \<lparr> sl_offset = word_of_nat (lx_pos l), sl_length = word_of_nat (lx_pos l' - lx_pos l) \<rparr>"

lemma ahead_pos: "ahead l l' \<Longrightarrow> word_of_nat (lx_pos l') - word_of_nat (lx_pos l) = (word_of_nat (lx_pos l' - lx_pos l) :: u32)"
  by (simp add: ahead_def)

lemma keyword_kinds:
  "map_of keyword_table w = Some k \<Longrightarrow>
     k \<notin> {IDENTIFIER, INT_LITERAL, DOUBLE_LITERAL, STRING_LITERAL, END_OF_FILE}"
proof -
  have "list_all (\<lambda>(w, k). k \<notin> {IDENTIFIER, INT_LITERAL, DOUBLE_LITERAL, STRING_LITERAL, END_OF_FILE}) keyword_table"
    by (simp add: keyword_table_def)
  then show "map_of keyword_table w = Some k \<Longrightarrow> ?thesis"
    by (auto simp: list_all_iff dest!: map_of_SomeD)
qed

lemma ident_lexeme:
  assumes "lex_ident_or_keyword l = (ok t, l')"
  shows "token_span l l' t \<and> lexeme_ok (lx_between l l') t"
proof -
  obtain acc where loop: "ident_loop [] l = (acc, l')"
    using assms by (cases "ident_loop [] l") (auto simp: lex_ident_or_keyword_def Let_def)
  then have acc: "acc = map tolower (lx_between l l')" using ident_loop_between by fastforce
  have "ahead l l'" using ahead_ident_loop[of l "[]"] loop by simp
  then show ?thesis using assms loop acc keyword_kinds[of acc]
    by (cases "map_of keyword_table acc")
       (auto simp: lex_ident_or_keyword_def Let_def lexeme_ok_def token_span_def ahead_pos)
qed

lemma number_lexeme:
  assumes "lex_number l = (ok t, l')"
  shows "token_span l l' t \<and> lexeme_ok (lx_between l l') t"
proof -
  let ?l1 = "skip_digits l"
  have "ahead l (snd (lex_exponent (snd (lex_fraction ?l1))))"
    by (meson ahead_exponent ahead_fraction ahead_skip_digits ahead_trans)
  then show ?thesis using assms
    by (auto simp: lex_number_def Let_def split_def lx_error_def lexeme_ok_def token_span_def ahead_pos
        split: option.splits if_splits)
qed

lemma string_lexeme:
  assumes "\<not> lx_at_end l" and "lx_cur l = CHR 0x27" and "lex_string l = (ok t, l')"
  shows "token_span l l' t \<and> lexeme_ok (lx_between l l') t"
proof -
  obtain s where loop: "string_loop [] (lx_advance l) = (Some s, l')"
    using assms(3) by (auto simp: lex_string_def Let_def split_def lx_error_def split: option.splits)
      (metis prod.collapse)
  have a: "ahead (lx_advance l) l'" using ahead_string_loop[of "lx_advance l" "[]"] loop by simp
  have "lx_between l l' = quote s"
    using string_loop_between[OF loop] between_step[OF assms(1) a] assms(2) by (simp add: quote_def)
  moreover have "ahead l l'" by (rule ahead_trans[OF ahead_advance a])
  ultimately show ?thesis using assms(3) loop
    by (auto simp: lex_string_def Let_def lexeme_ok_def token_span_def ahead_pos)
qed

lemma symbol_lexeme:
  assumes "\<not> lx_at_end l" and "lex_symbol l = (ok t, l')"
  shows "token_span l l' t \<and> lexeme_ok (lx_between l l') t"
proof -
  obtain p c cs where l: "l = \<lparr> lx_pos = p, lx_rest = c # cs \<rparr>" using lx_not_end[OF assms(1)] .
  obtain k n where k: "symbol_kind c (lx_peek 1 l) = Some (k, n)"
    using assms(2) unfolding l
    by (cases "symbol_kind c (lx_peek 1 l)") (auto simp: l lex_symbol_def lx_error_def)
  then have t: "t = \<lparr> tk_kind = k, tk_loc = \<lparr> sl_offset = word_of_nat p, sl_length = word_of_nat n \<rparr>, tk_text = [] \<rparr>"
    and l': "l' = (lx_advance ^^ n) l"
    using assms(2) by (auto simp: l lex_symbol_def)
  have "token_span l l' t \<and> symbol_spelling k (lx_between l l')"
  proof (cases cs)
    case Nil
    then show ?thesis using k unfolding t l' l
      by (auto simp: symbol_kind_def lx_peek_def token_span_def lx_between_def
          symbol_spelling_def split: if_splits)
  next
    case (Cons d ds)
    then show ?thesis using k unfolding t l' l
      by (auto simp: symbol_kind_def lx_peek_def token_span_def lx_between_def
          symbol_spelling_def numeral_2_eq_2 split: if_splits)
  qed
  then show ?thesis by (auto simp: t lexeme_ok_def symbol_spelling_def)
qed

lemma next_token_lexeme:
  assumes "\<not> lx_at_end l" and "next_token l = (ok t, l')"
  shows "token_span l l' t \<and> lexeme_ok (lx_between l l') t"
  using assms ident_lexeme[of l t l'] number_lexeme[of l t l'] string_lexeme[of l t l']
    symbol_lexeme[of l t l']
  by (auto simp: next_token_def Let_def split: if_splits)

definition tk_start :: "token \<Rightarrow> nat" where
  "tk_start t = unat (sl_offset (tk_loc t))"

definition tk_len :: "token \<Rightarrow> nat" where
  "tk_len t = unat (sl_length (tk_loc t))"

text \<open>Tokens in order, from position \<open>p\<close> on, each a reading of its own piece of the source.\<close>

fun spans_from :: "string \<Rightarrow> nat \<Rightarrow> token list \<Rightarrow> bool" where
  "spans_from src p [] \<longleftrightarrow> True"
| "spans_from src p (t # ts) \<longleftrightarrow>
     p \<le> tk_start t \<and> 0 < tk_len t \<and> tk_start t + tk_len t \<le> length src \<and>
     lexeme_ok (take (tk_len t) (drop (tk_start t) src)) t \<and>
     spans_from src (tk_start t + tk_len t) ts"

lemma spans_from_weaken: "spans_from src p ts \<Longrightarrow> q \<le> p \<Longrightarrow> spans_from src q ts"
  by (cases ts) auto

lemma tokenize_loop_spans:
  assumes "tokenize_loop l = (ok ts, l')" and "ahead (lx_new src) l" and "length src < 4294967296"
  shows "spans_from src (lx_pos l) ts"
  using assms(1,2)
proof (induction l arbitrary: ts l' rule: tokenize_loop.induct)
  case (1 l)
  let ?l1 = "skip_trivia l"
  have a1: "ahead (lx_new src) ?l1" and p1: "lx_pos l \<le> lx_pos ?l1"
    using ahead_trans[OF 1(3) ahead_skip_trivia] ahead_skip_trivia[of l] by (auto simp: ahead_def)
  show ?case
  proof (cases "lx_at_end ?l1")
    case True
    then show ?thesis using 1(2) by (simp add: tokenize_loop.simps[of l] Let_def)
  next
    case False
    obtain t l2 ts' where nxt: "next_token ?l1 = (ok t, l2)" and rest: "tokenize_loop l2 = (ok ts', l')"
      and ts: "ts = t # ts'"
      using 1(2) False by (auto simp: tokenize_loop.simps[of l] Let_def split: prod.splits sum.splits)
    have a12: "ahead (lx_advance ?l1) l2" using ahead_next_token[OF False] nxt by fastforce
    then have a2: "ahead ?l1 l2" by (rule ahead_trans[OF ahead_advance])
    have more: "lx_pos ?l1 < lx_pos l2"
      using False a12 by (auto simp: ahead_def lx_advance_def split: if_splits)
    have inside: "lx_pos l2 \<le> length src"
      using ahead_trans[OF a1 a2] by (auto simp: ahead_def lx_new_def)
    have span: "token_span ?l1 l2 t" "lexeme_ok (lx_between ?l1 l2) t"
      using next_token_lexeme[OF False nxt] by simp_all
    then have pos: "tk_start t = lx_pos ?l1" "tk_len t = lx_pos l2 - lx_pos ?l1"
      using inside more assms(3) by (simp_all add: token_span_def tk_start_def tk_len_def unat_of_nat_u32 del: of_nat_diff)
    moreover have "lx_between ?l1 l2 = take (tk_len t) (drop (tk_start t) src)"
      using a1 pos by (simp add: lx_between_def ahead_def lx_new_def)
    moreover have "spans_from src (lx_pos l2) ts'"
      using 1(1)[OF refl False nxt[symmetric] refl rest ahead_trans[OF a1 a2]] .
    ultimately show ?thesis using span(2) p1 more inside by (simp add: ts)
  qed
qed

section \<open>Printing and lexing\<close>

definition spelling :: "token \<Rightarrow> string" where
  "spelling t =
     (if tk_kind t \<in> {INT_LITERAL, DOUBLE_LITERAL, IDENTIFIER} then tk_text t
      else if tk_kind t = STRING_LITERAL then quote (tk_text t)
      else token_kind_name (tk_kind t))"

definition print_tokens :: "token list \<Rightarrow> string" where
  "print_tokens ts = concat (map (\<lambda>t. spelling t @ '' '') ts)"

definition ident_char :: "char \<Rightarrow> bool" where
  "ident_char c \<longleftrightarrow> isalnum c \<or> c = CHR ''_''"

definition symbol_kinds :: "token_kind list" where
  "symbol_kinds = [LPAREN, RPAREN, COMMA, SEMICOLON, DOT, STAR, PLUS, MINUS, SLASH, LT, LE, EQ, NE, GE, GT]"

text \<open>Digits, and digits with a fraction.\<close>

definition digits :: "string \<Rightarrow> bool" where
  "digits s \<longleftrightarrow> s \<noteq> [] \<and> list_all isdigit s"

definition decimal :: "string \<Rightarrow> bool" where
  "decimal s \<longleftrightarrow> (let n = length (takeWhile isdigit s) in
     digits (take n s) \<and> n < length s \<and> s ! n = CHR ''.'' \<and> digits (drop (Suc n) s))"

definition printable :: "token \<Rightarrow> bool" where
  "printable t \<longleftrightarrow>
     (if tk_kind t = INT_LITERAL then digits (tk_text t)
      else if tk_kind t = DOUBLE_LITERAL then decimal (tk_text t)
      else if tk_kind t = STRING_LITERAL then True
      else if tk_kind t = IDENTIFIER
      then tk_text t \<noteq> [] \<and> list_all ident_char (tk_text t) \<and> \<not> isdigit (hd (tk_text t)) \<and>
           map tolower (tk_text t) = tk_text t \<and> map_of keyword_table (tk_text t) = None
      else tk_text t = [] \<and> tk_kind t \<in> set (map snd keyword_table @ symbol_kinds))"

lemma lx_while_run:
  assumes "list_all P w" and "\<not> P c"
  shows "lx_while (\<lambda>l. P (lx_cur l)) \<lparr> lx_pos = p, lx_rest = w @ c # s \<rparr> =
           \<lparr> lx_pos = p + length w, lx_rest = c # s \<rparr>"
  using assms(1)
proof (induction w arbitrary: p)
  case Nil
  then show ?case using assms(2) by (simp add: lx_while.simps)
next
  case (Cons a w)
  then show ?case by (subst lx_while.simps) simp
qed

lemma ident_loop_run:
  assumes "list_all ident_char w" and "\<not> ident_char c"
  shows "ident_loop acc \<lparr> lx_pos = p, lx_rest = w @ c # s \<rparr> =
           (acc @ map tolower w, \<lparr> lx_pos = p + length w, lx_rest = c # s \<rparr>)"
  using assms(1)
proof (induction w arbitrary: p acc)
  case Nil
  then show ?case using assms(2) by (simp add: ident_loop.simps ident_char_def)
next
  case (Cons a w)
  then show ?case by (subst ident_loop.simps) (simp add: ident_char_def)
qed

lemma string_loop_run:
  assumes "c \<noteq> CHR 0x27"
  shows "string_loop acc \<lparr> lx_pos = p, lx_rest = quote_body w @ CHR 0x27 # c # s \<rparr> =
           (Some (acc @ w), \<lparr> lx_pos = p + length (quote_body w) + 1, lx_rest = c # s \<rparr>)"
proof (induction w arbitrary: p acc)
  case Nil
  then show ?case using assms by (simp add: string_loop.simps quote_body_def Let_def)
next
  case (Cons a w)
  have body: "\<And>b. quote_body (b # w) = (if b = CHR 0x27 then [b, b] else [b]) @ quote_body w"
    by (simp add: quote_body_def)
  show ?case
  proof (cases "a = CHR 0x27")
    case True
    then show ?thesis using Cons[of "acc @ [a]" "p + 2"]
      by (subst string_loop.simps) (simp add: body Let_def)
  next
    case False
    then show ?thesis using Cons[of "acc @ [a]" "p + 1"] by (subst string_loop.simps) (simp add: body)
  qed
qed

text \<open>A printed token followed by a blank is read back, up to its location.\<close>

definition reads :: "token \<Rightarrow> bool" where
  "reads t \<longleftrightarrow> (\<forall>p s. \<exists>t'. tk_kind t' = tk_kind t \<and> tk_text t' = tk_text t \<and>
     next_token \<lparr> lx_pos = p, lx_rest = spelling t @ CHR '' '' # s \<rparr> =
       (ok t', \<lparr> lx_pos = p + length (spelling t), lx_rest = CHR '' '' # s \<rparr>))"

definition starts_token :: "string \<Rightarrow> bool" where
  "starts_token w \<longleftrightarrow> w \<noteq> [] \<and> \<not> is_blank (hd w) \<and>
     (hd w = CHR ''-'' \<or> hd w = CHR ''/'' \<longrightarrow> tl w = [])"

lemma blank_chars [simp]: "\<not> ident_char (CHR '' '')" "\<not> isdigit (CHR '' '')" "\<not> isdigit (CHR ''.'')"
  "\<not> isalpha (CHR 0x27)" "\<not> isdigit (CHR 0x27)"
  by code_simp+

lemma class_starts: "list_all (\<lambda>c. ident_char c \<longrightarrow> \<not> is_blank c \<and> c \<notin> {CHR ''-'', CHR ''/''} \<and>
    (\<not> isdigit c \<longrightarrow> isalpha c \<or> c = CHR ''_'') \<and> (isdigit c \<longrightarrow> \<not> isalpha c \<and> c \<noteq> CHR ''_''))
  (map char_of [0..<256::nat])"
  by code_simp

lemma ident_char_starts:
  assumes "ident_char c"
  shows "\<not> is_blank c" and "c \<notin> {CHR ''-'', CHR ''/''}"
    and "\<not> isdigit c \<Longrightarrow> isalpha c \<or> c = CHR ''_''" and "isdigit c \<Longrightarrow> \<not> isalpha c \<and> c \<noteq> CHR ''_''"
proof -
  have "of_char c < (256::nat)" by simp
  then have "c \<in> set (map char_of [0..<256::nat])" by (auto simp: image_iff intro!: bexI[of _ "of_char c"])
  then have *: "ident_char c \<longrightarrow> \<not> is_blank c \<and> c \<notin> {CHR ''-'', CHR ''/''} \<and>
    (\<not> isdigit c \<longrightarrow> isalpha c \<or> c = CHR ''_'') \<and> (isdigit c \<longrightarrow> \<not> isalpha c \<and> c \<noteq> CHR ''_'')"
    using class_starts unfolding list_all_iff by (rule bspec[rotated])
  show "\<not> is_blank c" and "c \<notin> {CHR ''-'', CHR ''/''}"
    and "\<not> isdigit c \<Longrightarrow> isalpha c \<or> c = CHR ''_''" and "isdigit c \<Longrightarrow> \<not> isalpha c \<and> c \<noteq> CHR ''_''"
    using * assms by blast+
qed

lemma next_token_word:
  assumes "w \<noteq> []" and "list_all ident_char w" and "\<not> isdigit (hd w)"
  shows "\<exists>loc. next_token \<lparr> lx_pos = p, lx_rest = w @ CHR '' '' # s \<rparr> =
    (ok (case map_of keyword_table (map tolower w) of
           Some k \<Rightarrow> \<lparr> tk_kind = k, tk_loc = loc, tk_text = '''' \<rparr>
         | None \<Rightarrow> \<lparr> tk_kind = IDENTIFIER, tk_loc = loc, tk_text = map tolower w \<rparr>),
     \<lparr> lx_pos = p + length w, lx_rest = CHR '' '' # s \<rparr>)"
proof -
  obtain c v where w: "w = c # v" using assms(1) by (cases w) auto
  have "isalpha c \<or> c = CHR ''_''" using ident_char_starts(3)[of c] assms(2,3) by (simp add: w)
  then have "next_token \<lparr> lx_pos = p, lx_rest = w @ CHR '' '' # s \<rparr> =
    lex_ident_or_keyword \<lparr> lx_pos = p, lx_rest = w @ CHR '' '' # s \<rparr>"
    by (simp add: next_token_def w)
  then show ?thesis
    using ident_loop_run[OF assms(2), of "CHR '' ''" "[]" p s]
    by (auto simp: lex_ident_or_keyword_def Let_def)
qed

lemma skip_digits_run:
  "digits w \<Longrightarrow> \<not> isdigit c \<Longrightarrow>
     skip_digits \<lparr> lx_pos = p, lx_rest = w @ c # s \<rparr> = \<lparr> lx_pos = p + length w, lx_rest = c # s \<rparr>"
  by (simp add: digits_def skip_digits_def lx_while_run)

lemma digits_hd: "digits w \<Longrightarrow> isdigit (hd w) \<and> w \<noteq> []"
  by (cases w) (auto simp: digits_def)

lemma digit_ident: "isdigit c \<Longrightarrow> ident_char c"
  by (simp add: ident_char_def isalnum_def)

lemma next_token_number:
  assumes "isdigit (hd w)" and "w \<noteq> []"
  shows "next_token \<lparr> lx_pos = p, lx_rest = w @ s \<rparr> = lex_number \<lparr> lx_pos = p, lx_rest = w @ s \<rparr>"
  using assms ident_char_starts(4)[OF digit_ident[OF assms(1)]] by (cases w) (auto simp: next_token_def)

lemma decimal_parts:
  assumes "decimal w"
  obtains a b where "w = a @ CHR ''.'' # b" "digits a" "digits b"
proof -
  let ?n = "length (takeWhile isdigit w)"
  have "w = take ?n w @ w ! ?n # drop (Suc ?n) w"
    using assms by (intro id_take_nth_drop) (simp add: decimal_def Let_def)
  then show thesis using assms that[of "take ?n w" "drop (Suc ?n) w"] by (simp add: decimal_def Let_def)
qed

lemma reads_int: "tk_kind t = INT_LITERAL \<Longrightarrow> digits (tk_text t) \<Longrightarrow> reads t"
  using digits_hd[of "tk_text t"]
  by (auto simp: reads_def spelling_def next_token_number lex_number_def Let_def skip_digits_run
      lex_fraction_def lex_exponent_def lx_between_def)

lemma reads_double:
  assumes "tk_kind t = DOUBLE_LITERAL" and "decimal (tk_text t)"
  shows "reads t"
proof -
  obtain a b where w: "tk_text t = a @ CHR ''.'' # b" and a: "digits a" and b: "digits b"
    using decimal_parts[OF assms(2)] .
  obtain d b' where b': "b = d # b'" and d: "isdigit d" using digits_hd[OF b] by (cases b) auto
  have sp: "spelling t = a @ CHR ''.'' # b" using assms(1) w by (simp add: spelling_def)
  have hd: "isdigit (hd (a @ CHR ''.'' # b))" using digits_hd[OF a] by (cases a) auto
  have "\<exists>loc. next_token \<lparr> lx_pos = p, lx_rest = (a @ CHR ''.'' # b) @ CHR '' '' # s \<rparr> =
      (ok \<lparr> tk_kind = DOUBLE_LITERAL, tk_loc = loc, tk_text = a @ CHR ''.'' # b \<rparr>,
       \<lparr> lx_pos = p + length (a @ CHR ''.'' # b), lx_rest = CHR '' '' # s \<rparr>)" for p s
  proof -
    have 1: "skip_digits \<lparr> lx_pos = p, lx_rest = (a @ CHR ''.'' # b) @ CHR '' '' # s \<rparr> =
        \<lparr> lx_pos = p + length a, lx_rest = CHR ''.'' # b @ CHR '' '' # s \<rparr>"
      using skip_digits_run[OF a, of "CHR ''.''" p "b @ CHR '' '' # s"] by simp
    have 2: "lex_fraction \<lparr> lx_pos = p + length a, lx_rest = CHR ''.'' # b @ CHR '' '' # s \<rparr> =
        (True, \<lparr> lx_pos = p + length (a @ CHR ''.'' # b), lx_rest = CHR '' '' # s \<rparr>)"
      using skip_digits_run[OF b, of "CHR '' ''" "p + length a + 1" s] d
      by (simp add: lex_fraction_def b' lx_peek_def)
    show ?thesis
      using next_token_number[OF hd, of p "CHR '' '' # s"]
      by (auto simp: lex_number_def Let_def 1[simplified] 2[simplified] lex_exponent_def lx_between_def)
  qed
  then show ?thesis unfolding reads_def sp using assms(1) w by (metis token.select_convs(1,3))
qed

lemma reads_string:
  assumes "tk_kind t = STRING_LITERAL"
  shows "reads t"
proof -
  have "spelling t = CHR 0x27 # quote_body (tk_text t) @ [CHR 0x27]"
    using assms by (simp add: spelling_def quote_def)
  then show ?thesis using assms string_loop_run[of "CHR '' ''" "[]"]
    by (auto simp: reads_def next_token_def lex_string_def Let_def)
qed

lemma keyword_spellings: "list_all (\<lambda>(w, k). map tolower (token_kind_name k) = w \<and>
    list_all ident_char (token_kind_name k) \<and> token_kind_name k \<noteq> [] \<and> \<not> isdigit (hd (token_kind_name k)))
  keyword_table"
  by code_simp

lemma keyword_distinct: "distinct (map fst keyword_table)"
  by code_simp

lemma symbol_spellings: "list_all (\<lambda>k. (case token_kind_name k of
      [c] \<Rightarrow> symbol_kind c (CHR '' '') = Some (k, 1) \<and> \<not> isalpha c \<and> c \<noteq> CHR ''_'' \<and> \<not> isdigit c \<and> c \<noteq> CHR 0x27
        \<and> \<not> is_blank c
    | [c, d] \<Rightarrow> symbol_kind c d = Some (k, 2) \<and> \<not> isalpha c \<and> c \<noteq> CHR ''_'' \<and> \<not> isdigit c \<and> c \<noteq> CHR 0x27
        \<and> \<not> is_blank c \<and> c \<noteq> CHR ''-'' \<and> c \<noteq> CHR ''/''
    | _ \<Rightarrow> False) \<and>
    k \<notin> {INT_LITERAL, DOUBLE_LITERAL, STRING_LITERAL, IDENTIFIER}) symbol_kinds"
  by code_simp

lemma keyword_token:
  assumes "tk_kind t \<in> set (map snd keyword_table)"
  shows "spelling t = token_kind_name (tk_kind t)"
    and "list_all ident_char (spelling t)" and "spelling t \<noteq> []" and "\<not> isdigit (hd (spelling t))"
    and "map_of keyword_table (map tolower (spelling t)) = Some (tk_kind t)"
proof -
  obtain w where w: "(w, tk_kind t) \<in> set keyword_table" using assms by auto
  then have all: "map tolower (token_kind_name (tk_kind t)) = w \<and>
      list_all ident_char (token_kind_name (tk_kind t)) \<and> token_kind_name (tk_kind t) \<noteq> [] \<and>
      \<not> isdigit (hd (token_kind_name (tk_kind t))) \<and> map_of keyword_table w = Some (tk_kind t)"
    using keyword_spellings map_of_is_SomeI[OF keyword_distinct w] by (auto simp: list_all_iff)
  moreover show "spelling t = token_kind_name (tk_kind t)"
    using keyword_kinds[of w "tk_kind t"] all by (auto simp: spelling_def)
  ultimately show "list_all ident_char (spelling t)" and "spelling t \<noteq> []"
    and "\<not> isdigit (hd (spelling t))"
    and "map_of keyword_table (map tolower (spelling t)) = Some (tk_kind t)" by auto
qed

lemma reads_keyword:
  assumes "tk_kind t \<in> set (map snd keyword_table)" and "tk_text t = []"
  shows "reads t"
  unfolding reads_def
proof (intro allI)
  fix p s
  obtain loc where "next_token \<lparr> lx_pos = p, lx_rest = spelling t @ CHR '' '' # s \<rparr> =
    (ok \<lparr> tk_kind = tk_kind t, tk_loc = loc, tk_text = [] \<rparr>,
     \<lparr> lx_pos = p + length (spelling t), lx_rest = CHR '' '' # s \<rparr>)"
    using next_token_word[OF keyword_token(3,2,4), OF assms(1) assms(1) assms(1), of p s]
      keyword_token(5)[OF assms(1)] by auto
  then show "\<exists>t'. tk_kind t' = tk_kind t \<and> tk_text t' = tk_text t \<and>
      next_token \<lparr> lx_pos = p, lx_rest = spelling t @ CHR '' '' # s \<rparr> =
        (ok t', \<lparr> lx_pos = p + length (spelling t), lx_rest = CHR '' '' # s \<rparr>)"
    using assms(2) by fastforce
qed

lemma reads_ident:
  assumes "tk_kind t = IDENTIFIER" and "tk_text t \<noteq> []" and "list_all ident_char (tk_text t)"
    and "\<not> isdigit (hd (tk_text t))" and "map tolower (tk_text t) = tk_text t"
    and "map_of keyword_table (tk_text t) = None"
  shows "reads t"
  unfolding reads_def
proof (intro allI)
  fix p s
  have sp: "spelling t = tk_text t" using assms(1) by (simp add: spelling_def)
  obtain loc where "next_token \<lparr> lx_pos = p, lx_rest = tk_text t @ CHR '' '' # s \<rparr> =
    (ok \<lparr> tk_kind = IDENTIFIER, tk_loc = loc, tk_text = tk_text t \<rparr>,
     \<lparr> lx_pos = p + length (tk_text t), lx_rest = CHR '' '' # s \<rparr>)"
    using next_token_word[OF assms(2,3,4), of p s] assms(5,6) by auto
  then show "\<exists>t'. tk_kind t' = tk_kind t \<and> tk_text t' = tk_text t \<and>
      next_token \<lparr> lx_pos = p, lx_rest = spelling t @ CHR '' '' # s \<rparr> =
        (ok t', \<lparr> lx_pos = p + length (spelling t), lx_rest = CHR '' '' # s \<rparr>)"
    using assms(1) unfolding sp by fastforce
qed

lemma symbol_token:
  assumes "tk_kind t \<in> set symbol_kinds"
  obtains (one) c where "spelling t = [c]" "symbol_kind c (CHR '' '') = Some (tk_kind t, 1)"
      "\<not> isalpha c" "c \<noteq> CHR ''_''" "\<not> isdigit c" "c \<noteq> CHR 0x27" "\<not> is_blank c"
  | (two) c d where "spelling t = [c, d]" "symbol_kind c d = Some (tk_kind t, 2)"
      "\<not> isalpha c" "c \<noteq> CHR ''_''" "\<not> isdigit c" "c \<noteq> CHR 0x27" "\<not> is_blank c" "c \<noteq> CHR ''-''" "c \<noteq> CHR ''/''"
proof -
  have *: "(case token_kind_name (tk_kind t) of
      [c] \<Rightarrow> symbol_kind c (CHR '' '') = Some (tk_kind t, 1) \<and> \<not> isalpha c \<and> c \<noteq> CHR ''_'' \<and> \<not> isdigit c \<and> c \<noteq> CHR 0x27
        \<and> \<not> is_blank c
    | [c, d] \<Rightarrow> symbol_kind c d = Some (tk_kind t, 2) \<and> \<not> isalpha c \<and> c \<noteq> CHR ''_'' \<and> \<not> isdigit c \<and> c \<noteq> CHR 0x27
        \<and> \<not> is_blank c \<and> c \<noteq> CHR ''-'' \<and> c \<noteq> CHR ''/''
    | _ \<Rightarrow> False) \<and>
    tk_kind t \<notin> {INT_LITERAL, DOUBLE_LITERAL, STRING_LITERAL, IDENTIFIER}"
    using symbol_spellings assms unfolding list_all_iff by (rule bspec)
  then have "spelling t = token_kind_name (tk_kind t)" by (simp add: spelling_def)
  with * show thesis by (auto split: list.splits intro: one two)
qed

lemma reads_symbol:
  assumes "tk_kind t \<in> set symbol_kinds" and "tk_text t = []"
  shows "reads t"
  using assms(1)
proof (cases rule: symbol_token)
  case (one c)
  then show ?thesis using assms(2)
    by (auto simp: reads_def next_token_def lex_symbol_def Let_def)
next
  case (two c d)
  then show ?thesis using assms(2)
    by (auto simp: reads_def next_token_def lex_symbol_def Let_def numeral_2_eq_2)
qed

lemma printable_reads: "printable t \<Longrightarrow> reads t"
  using reads_keyword[of t]
  by (auto simp: printable_def reads_int reads_double reads_string reads_ident reads_symbol image_iff
      split: if_splits)

lemma ident_chars_start: "w \<noteq> [] \<Longrightarrow> ident_char (hd w) \<Longrightarrow> starts_token w"
  using ident_char_starts[of "hd w"] by (auto simp: starts_token_def)

lemma printable_starts:
  assumes "printable t"
  shows "starts_token (spelling t)"
proof -
  consider (num) "tk_kind t = INT_LITERAL \<or> tk_kind t = DOUBLE_LITERAL" | (str) "tk_kind t = STRING_LITERAL"
    | (ident) "tk_kind t = IDENTIFIER" | (kw) "tk_kind t \<in> set (map snd keyword_table)"
    | (sym) "tk_kind t \<in> set symbol_kinds"
    using assms unfolding printable_def by (auto split: if_splits)
  then show ?thesis
  proof cases
    case num
    then have "spelling t \<noteq> [] \<and> isdigit (hd (spelling t))"
      using assms digits_hd by (auto simp: printable_def spelling_def elim!: decimal_parts)
    then show ?thesis by (simp add: ident_chars_start digit_ident)
  next
    case str
    then show ?thesis by (simp add: spelling_def quote_def starts_token_def is_blank_def)
  next
    case ident
    then have "spelling t \<noteq> []" "ident_char (hd (spelling t))"
      using assms by (auto simp: printable_def spelling_def list_all_iff)
    then show ?thesis by (rule ident_chars_start)
  next
    case kw
    then show ?thesis using keyword_token(2,3)[OF kw] by (intro ident_chars_start) (auto simp: list_all_iff)
  next
    case sym
    then show ?thesis by (cases rule: symbol_token) (auto simp: starts_token_def)
  qed
qed

lemma skip_trivia_token:
  assumes "starts_token w"
  shows "skip_trivia \<lparr> lx_pos = p, lx_rest = w @ CHR '' '' # s \<rparr> = \<lparr> lx_pos = p, lx_rest = w @ CHR '' '' # s \<rparr>"
proof -
  obtain c v where w: "w = c # v" using assms by (cases w) (auto simp: starts_token_def)
  let ?l = "\<lparr> lx_pos = p, lx_rest = c # v @ CHR '' '' # s \<rparr>"
  have "\<not> is_blank c" "\<not> (c = CHR ''-'' \<and> lx_peek 1 ?l = CHR ''-'')" "\<not> (c = CHR ''/'' \<and> lx_peek 1 ?l = CHR ''*'')"
    using assms unfolding w starts_token_def by (auto simp: lx_peek_def nth_append)
  then show ?thesis unfolding w by (auto simp: skip_trivia.simps[of ?l])
qed

lemma skip_trivia_blank: "skip_trivia \<lparr> lx_pos = p, lx_rest = CHR '' '' # s \<rparr> = skip_trivia \<lparr> lx_pos = p + 1, lx_rest = s \<rparr>"
  by (simp add: skip_trivia.simps[of "\<lparr> lx_pos = p, lx_rest = CHR '' '' # s \<rparr>"] is_blank_def)

lemma tokenize_loop_blank:
  "tokenize_loop \<lparr> lx_pos = p, lx_rest = CHR '' '' # s \<rparr> = tokenize_loop \<lparr> lx_pos = p + 1, lx_rest = s \<rparr>"
  by (simp only: tokenize_loop.simps[of "\<lparr> lx_pos = p, lx_rest = CHR '' '' # s \<rparr>"]
      tokenize_loop.simps[of "\<lparr> lx_pos = p + 1, lx_rest = s \<rparr>"] skip_trivia_blank)

lemma tokenize_loop_print:
  "list_all printable ts \<Longrightarrow>
     \<exists>ts' l'. tokenize_loop \<lparr> lx_pos = p, lx_rest = print_tokens ts \<rparr> = (ok ts', l') \<and>
       map tk_kind ts' = map tk_kind ts \<and> map tk_text ts' = map tk_text ts"
proof (induction ts arbitrary: p)
  case Nil
  then show ?case by (simp add: print_tokens_def tokenize_loop.simps skip_trivia.simps)
next
  case (Cons t ts)
  have rest: "print_tokens (t # ts) = spelling t @ CHR '' '' # print_tokens ts" by (simp add: print_tokens_def)
  have "starts_token (spelling t)" and "reads t"
    using Cons.prems printable_starts printable_reads by auto
  then obtain t' where t': "tk_kind t' = tk_kind t" "tk_text t' = tk_text t"
    "next_token \<lparr> lx_pos = p, lx_rest = print_tokens (t # ts) \<rparr> =
       (ok t', \<lparr> lx_pos = p + length (spelling t), lx_rest = CHR '' '' # print_tokens ts \<rparr>)"
    unfolding rest reads_def by blast
  obtain ts' l' where ts': "tokenize_loop \<lparr> lx_pos = p + length (spelling t) + 1, lx_rest = print_tokens ts \<rparr> = (ok ts', l')"
    "map tk_kind ts' = map tk_kind ts" "map tk_text ts' = map tk_text ts"
    using Cons by auto blast
  have "tokenize_loop \<lparr> lx_pos = p, lx_rest = print_tokens (t # ts) \<rparr> = (ok (t' # ts'), l')"
    using t'(3) ts'(1) skip_trivia_token[OF \<open>starts_token (spelling t)\<close>, of p "print_tokens ts"]
    by (simp add: tokenize_loop.simps[of "\<lparr> lx_pos = p, lx_rest = spelling t @ CHR '' '' # print_tokens ts \<rparr>"]
        rest tokenize_loop_blank)
  then show ?case using t' ts' by auto
qed

section \<open>Properties\<close>

text \<open>C15. Reading is the inverse of printing: identifiers, keywords, numbers, strings (with any
  characters, quotes included) and symbols, printed with a blank after each and tokenised, come back in
  order with their kinds and texts, followed by the end of file.\<close>

theorem lexer_roundtrip:
  assumes "list_all printable ts"
  shows "\<exists>ts'. tokenize (print_tokens ts) = ok ts' \<and>
           map (\<lambda>t. (tk_kind t, tk_text t)) ts' = map (\<lambda>t. (tk_kind t, tk_text t)) ts @ [(END_OF_FILE, '''')]"
proof -
  obtain ts' l' where "tokenize_loop (lx_new (print_tokens ts)) = (ok ts', l')"
    and kt: "map tk_kind ts' = map tk_kind ts" "map tk_text ts' = map tk_text ts"
    using tokenize_loop_print[OF assms, of 0] unfolding lx_new_def by blast
  moreover have "map (\<lambda>t. (tk_kind t, tk_text t)) ts' = map (\<lambda>t. (tk_kind t, tk_text t)) ts"
    using arg_cong2[OF kt, of zip] by (simp add: zip_map_map zip_same_conv_map split_def comp_def)
  ultimately show ?thesis by (simp add: tokenize_def)
qed

definition no_loc :: source_loc where
  "no_loc = \<lparr> sl_offset = 0, sl_length = 0 \<rparr>"

definition sample_tokens :: "token list" where
  "sample_tokens =
     [\<lparr> tk_kind = KW_SELECT, tk_loc = no_loc, tk_text = '''' \<rparr>,
      \<lparr> tk_kind = IDENTIFIER, tk_loc = no_loc, tk_text = ''a_1'' \<rparr>,
      \<lparr> tk_kind = MINUS, tk_loc = no_loc, tk_text = '''' \<rparr>,
      \<lparr> tk_kind = MINUS, tk_loc = no_loc, tk_text = '''' \<rparr>,
      \<lparr> tk_kind = DOUBLE_LITERAL, tk_loc = no_loc, tk_text = ''2.50'' \<rparr>,
      \<lparr> tk_kind = STRING_LITERAL, tk_loc = no_loc, tk_text = [CHR ''i'', CHR 0x27, CHR ''s''] \<rparr>]"

theorem lexer_roundtrip_witness:
  "list_all printable sample_tokens \<and>
   (\<exists>ts'. tokenize (print_tokens sample_tokens) = ok ts' \<and>
      map (\<lambda>t. (tk_kind t, tk_text t)) ts' =
        map (\<lambda>t. (tk_kind t, tk_text t)) sample_tokens @ [(END_OF_FILE, '''')])"
proof -
  have "list_all printable sample_tokens" by code_simp
  then show ?thesis using lexer_roundtrip[of sample_tokens] by simp
qed

text \<open>C26. Locations are exact: when a source of less than 4 GiB is tokenised, the tokens before the end of
  file stand in source order without overlapping, each within the source and not empty; the characters at
  the recorded location are the token itself (the literal as written, the quoted string with its quotes
  doubled, the identifier or keyword up to case, the symbol); and the last token is the end of file, at the
  length of the source.\<close>

theorem tokens_located:
  assumes "tokenize src = ok ts" and "length src < 4294967296"
  shows "\<exists>front e. ts = front @ [e] \<and> spans_from src 0 front \<and>
           tk_kind e = END_OF_FILE \<and> tk_start e = length src \<and> tk_len e = 0"
proof -
  obtain front l' where loop: "tokenize_loop (lx_new src) = (ok front, l')"
    and ts: "ts = front @ [\<lparr> tk_kind = END_OF_FILE,
      tk_loc = \<lparr> sl_offset = word_of_nat (length src), sl_length = 0 \<rparr>, tk_text = '''' \<rparr>]"
    using assms(1) by (cases "tokenize_loop (lx_new src)") (auto simp: tokenize_def split: sum.splits)
  have "spans_from src 0 front"
    using tokenize_loop_spans[OF loop ahead_refl assms(2)] by (simp add: lx_new_def)
  then show ?thesis using ts assms(2) by (simp add: tk_start_def tk_len_def unat_of_nat_u32)
qed

text \<open>Tokenising a concrete source, by the equations of the loops.\<close>

lemma sample_tokenize:
  "tokenize ''a<=1'' = ok
     [\<lparr> tk_kind = IDENTIFIER, tk_loc = \<lparr> sl_offset = 0, sl_length = 1 \<rparr>, tk_text = ''a'' \<rparr>,
      \<lparr> tk_kind = LE, tk_loc = \<lparr> sl_offset = 1, sl_length = 2 \<rparr>, tk_text = '''' \<rparr>,
      \<lparr> tk_kind = INT_LITERAL, tk_loc = \<lparr> sl_offset = 3, sl_length = 1 \<rparr>, tk_text = ''1'' \<rparr>,
      \<lparr> tk_kind = END_OF_FILE, tk_loc = \<lparr> sl_offset = 4, sl_length = 0 \<rparr>, tk_text = '''' \<rparr>]"
  by code_simp

theorem tokens_located_witness:
  "\<exists>ts front e. tokenize ''a<=1'' = ok ts \<and> length ts = 4 \<and> ts = front @ [e] \<and>
     spans_from ''a<=1'' 0 front \<and> tk_kind e = END_OF_FILE \<and> tk_start e = 4 \<and> tk_len e = 0"
proof -
  define ts where "ts = projr (tokenize ''a<=1'')"
  have ts: "tokenize ''a<=1'' = ok ts" "length ts = 4" unfolding ts_def sample_tokenize by simp_all
  have "length ''a<=1'' < 4294967296" by simp
  from tokens_located[OF ts(1) this] obtain front e where
    "ts = front @ [e] \<and> spans_from ''a<=1'' 0 front \<and>
     tk_kind e = END_OF_FILE \<and> tk_start e = length ''a<=1'' \<and> tk_len e = 0" by (elim exE)
  with ts show ?thesis by (intro exI[of _ ts] exI[of _ front] exI[of _ e]) simp
qed

end
