(* ===== verification/Ast.thy ===== *)
theory Ast
  imports Values Lexer
begin

text \<open>
  The syntax trees of \<^verbatim>\<open>src/src/parser/ast.h\<close> and the error messages of
  \<^verbatim>\<open>src/src/common/source_error.cpp\<close>. A null \<open>ExprPtr\<close> is \<open>None\<close>. The last part models the
  conversions of the C library the parser calls on the text of a token: \<open>strtoll\<close>, \<open>stoll\<close>,
  \<open>strtod\<close>, \<open>stod\<close> and the \<open>%d\<close> conversion of \<open>sscanf\<close>.
\<close>

section \<open>Expressions\<close>

datatype ast_expr =
    IntLit i64 source_loc
  | DoubleLit f64 source_loc
  | StringLit string source_loc
  | NullLit source_loc
  | BoolLit bool source_loc
  | DateLit string source_loc
  | TimestampLit string source_loc
  | ColumnName "string option" string source_loc
  | FuncCall string "ast_expr list" bool source_loc
  | BinaryExpr binary_op_kind ast_expr ast_expr source_loc
  | LogicalExpr logical_op_kind ast_expr ast_expr source_loc
  | NotExpr ast_expr source_loc
  | NullCheck null_check_kind ast_expr source_loc

primrec expr_loc :: "ast_expr \<Rightarrow> source_loc" where
  "expr_loc (IntLit _ l) = l"
| "expr_loc (DoubleLit _ l) = l"
| "expr_loc (StringLit _ l) = l"
| "expr_loc (NullLit l) = l"
| "expr_loc (BoolLit _ l) = l"
| "expr_loc (DateLit _ l) = l"
| "expr_loc (TimestampLit _ l) = l"
| "expr_loc (ColumnName _ _ l) = l"
| "expr_loc (FuncCall _ _ _ l) = l"
| "expr_loc (BinaryExpr _ _ _ l) = l"
| "expr_loc (LogicalExpr _ _ _ l) = l"
| "expr_loc (NotExpr _ l) = l"
| "expr_loc (NullCheck _ _ l) = l"

section \<open>Statements\<close>

record select_item =
  si_expr :: ast_expr
  si_alias :: "string option"

record table_ref =
  tr_name :: string
  tr_alias :: "string option"
  tr_loc :: source_loc

record join_clause =
  jc_right :: table_ref
  jc_on :: ast_expr

record order_by_item =
  ob_expr :: ast_expr
  ob_ascending :: bool

record select_stmt =
  sel_projections :: "select_item list"
  sel_star :: bool
  sel_from :: table_ref
  sel_joins :: "join_clause list"
  sel_where :: "ast_expr option"
  sel_group_by :: "ast_expr list"
  sel_having :: "ast_expr option"
  sel_order_by :: "order_by_item list"
  sel_limit :: "i64 option"
  sel_offset :: "i64 option"

record column_def =
  cd_name :: string
  cd_type :: type_id
  cd_nullable :: bool
  cd_max_len :: u16
  cd_primary_key :: bool
  cd_unique :: bool
  cd_default :: "val option"

datatype table_constraint_kind = PRIMARY_KEY | UNIQUE

record table_constraint =
  tc_kind :: table_constraint_kind
  tc_name :: string
  tc_columns :: "string list"

record partition_def_ast =
  pd_name :: string
  pd_is_maxvalue :: bool
  pd_upper_bound :: "ast_expr option"
  pd_node_addr :: string

record create_table_stmt =
  ct_name :: string
  ct_columns :: "column_def list"
  ct_constraints :: "table_constraint list"
  ct_partition_col :: "string option"
  ct_partition_defs :: "partition_def_ast list"

record insert_stmt =
  in_table :: string
  in_columns :: "string list"
  in_rows :: "ast_expr list list"

record update_stmt =
  up_table :: string
  up_assignments :: "(string \<times> ast_expr) list"
  up_where :: "ast_expr option"

record create_index_stmt =
  ci_index :: string
  ci_table :: string
  ci_columns :: "string list"
  ci_unique :: bool

datatype statement =
    SelectStmt select_stmt
  | CreateTableStmt create_table_stmt
  | InsertStmt insert_stmt
  | DropTableStmt string bool
  | DeleteStmt string "ast_expr option"
  | UpdateStmt update_stmt
  | CreateIndexStmt create_index_stmt
  | DropIndexStmt string string
  | ShowIndexesStmt string
  | ShowConstraintsStmt string
  | VacuumStmt string
  | AlterAddPartitionStmt string partition_def_ast

section \<open>Error messages\<close>

definition line_col :: "string \<Rightarrow> u32 \<Rightarrow> u32 \<times> u32" where
  "line_col source offset =
     fold (\<lambda>c (line, col). if c = CHR 0x0A then (line + 1, 1) else (line, col + 1))
       (take (unat offset) source) (1, 1)"

definition line_at :: "string \<Rightarrow> u32 \<Rightarrow> string" where
  "line_at source offset =
     rev (takeWhile (\<lambda>c. c \<noteq> CHR 0x0A) (rev (take (unat offset) source))) @
     takeWhile (\<lambda>c. c \<noteq> CHR 0x0A) (drop (unat offset) source)"

definition render_source_error :: "string \<Rightarrow> source_loc \<Rightarrow> string \<Rightarrow> string \<Rightarrow> string" where
  "render_source_error source loc kind message =
     (let (line, col) = line_col source (sl_offset loc)
      in kind @ '' at line '' @ to_string (unat line) @ '', col '' @ to_string (unat col) @ '': '' @
         message @ [CHR 0x0A] @ ''  '' @ line_at source (sl_offset loc) @ [CHR 0x0A] @ ''  '' @
         replicate (unat (col - 1)) CHR '' '' @
         replicate (if sl_length loc = 0 then 1 else unat (sl_length loc)) CHR ''^'')"

section \<open>Numbers\<close>

definition isspace :: "char \<Rightarrow> bool" where
  "isspace c \<longleftrightarrow> c = CHR '' '' \<or> 9 \<le> char_code c \<and> char_code c \<le> 13"

definition dec_value :: "string \<Rightarrow> int" where
  "dec_value s = foldl (\<lambda>n c. 10 * n + (of_char c - 48)) 0 s"

text \<open>
  The subject of a decimal conversion: blanks, an optional sign, digits. \<open>None\<close> when there is no
  digit; otherwise the number and what follows it.
\<close>

definition scan_sign :: "string \<Rightarrow> bool \<times> string" where
  "scan_sign s =
     (case s of [] \<Rightarrow> (False, s)
      | c # s' \<Rightarrow> if c = CHR ''-'' then (True, s') else if c = CHR ''+'' then (False, s') else (False, s))"

definition scan_int :: "string \<Rightarrow> (int \<times> string) option" where
  "scan_int s =
     (let (neg, s) = scan_sign (dropWhile isspace s);
          ds = takeWhile isdigit s
      in if ds = [] then None
         else Some ((if neg then - dec_value ds else dec_value ds), dropWhile isdigit s))"

definition i64_min :: int where
  "i64_min = - (2 ^ 63)"

definition i64_max :: int where
  "i64_max = 2 ^ 63 - 1"

definition saturate :: "int \<Rightarrow> int" where
  "saturate v = max i64_min (min i64_max v)"

definition strtoll :: "string \<Rightarrow> i64" where
  "strtoll s = (case scan_int s of None \<Rightarrow> 0 | Some (v, _) \<Rightarrow> word_of_int (saturate v))"

text \<open>\<open>std::stoll\<close> throws when there is no number or it does not fit.\<close>

definition stoll :: "string \<Rightarrow> i64 option" where
  "stoll s =
     (case scan_int s of
        None \<Rightarrow> None
      | Some (v, _) \<Rightarrow> if i64_min \<le> v \<and> v \<le> i64_max then Some (word_of_int v) else None)"

text \<open>One \<open>%d\<close> of \<open>sscanf\<close>: the value is read as a \<open>long\<close> and stored into an \<open>int\<close>.\<close>

definition scan_d :: "string \<Rightarrow> (i32 \<times> string) option" where
  "scan_d s = map_option (\<lambda>(v, rest). (word_of_int (saturate v), rest)) (scan_int s)"

text \<open>
  \<open>strtod\<close> on a decimal numeral, the only form a \<open>DOUBLE_LITERAL\<close> has: the nearest double, ties
  to even. \<open>num / den\<close> is scaled by a power of two so that its integer part has 53 bits (or
  fewer, at the least exponent) and then rounded; the exponent field and the significand add up
  to the bit pattern, so that a carry out of the significand is a carry into the exponent.
\<close>

function bit_length :: "int \<Rightarrow> int" where
  "bit_length n = (if n \<le> 0 then 0 else 1 + bit_length (n div 2))"
  by pat_completeness auto
termination
  by (relation "measure nat") auto

declare bit_length.simps [simp del]

definition scale_pow2 :: "int \<Rightarrow> int \<Rightarrow> int \<Rightarrow> int \<times> int" where
  "scale_pow2 num den e = (if 0 \<le> e then (num, den * 2 ^ nat e) else (num * 2 ^ nat (- e), den))"

definition round_half_even :: "int \<Rightarrow> int \<Rightarrow> int" where
  "round_half_even num den =
     (let q = num div den; r = num mod den
      in if 2 * r < den \<or> (2 * r = den \<and> even q) then q else q + 1)"

definition f64_exponent :: "int \<Rightarrow> int \<Rightarrow> int" where
  "f64_exponent num den =
     (let e = bit_length num - bit_length den - 53;
          (a, b) = scale_pow2 num den e;
          e = (if 2 ^ 53 \<le> a div b then e + 1 else e)
      in max e (- 1074))"

definition f64_round :: "int \<Rightarrow> int \<Rightarrow> int" where
  "f64_round num den =
     (if num = 0 then 0
      else let e = f64_exponent num den; (a, b) = scale_pow2 num den e
           in min ((e + 1074) * 2 ^ 52 + round_half_even a b) (2047 * 2 ^ 52))"

definition decimal_value :: "string \<Rightarrow> int \<times> int" where
  "decimal_value s =
     (let ip = takeWhile isdigit s; s = dropWhile isdigit s;
          (fp, s) = (case s of c # s' \<Rightarrow> if c = CHR ''.'' then (takeWhile isdigit s', dropWhile isdigit s') else ([], s)
                     | [] \<Rightarrow> ([], s));
          ex = (case s of c # s' \<Rightarrow> if c = CHR ''e'' \<or> c = CHR ''E''
                                  then (case scan_sign s' of (neg, ds) \<Rightarrow>
                                          (if neg then - 1 else 1) * dec_value (takeWhile isdigit ds))
                                  else 0
                | [] \<Rightarrow> 0);
          k = ex - int (length fp); m = dec_value (ip @ fp)
      in if 0 \<le> k then (m * 10 ^ nat k, 1) else (m, 10 ^ nat (- k)))"

definition strtod :: "string \<Rightarrow> f64" where
  "strtod s = (case decimal_value s of (num, den) \<Rightarrow> word_of_int (f64_round num den))"

text \<open>
  \<open>std::stod\<close> throws when \<open>strtod\<close> reports \<open>ERANGE\<close>: an infinite result, or a result below the
  normal range that is not exact.
\<close>

definition strtod_range_error :: "string \<Rightarrow> bool" where
  "strtod_range_error s =
     (case decimal_value s of (num, den) \<Rightarrow>
        let r = f64_round num den in r = 2047 * 2 ^ 52 \<or> (r < 2 ^ 52 \<and> num * 2 ^ 1074 \<noteq> r * den))"

definition stod :: "string \<Rightarrow> f64 option" where
  "stod s = (if strtod_range_error s then None else Some (strtod s))"

lemma strtod_samples:
  "strtod ''1.5'' = 0x3FF8000000000000" "strtod ''0.1'' = 0x3FB999999999999A"
  "strtod ''9007199254740993.0'' = 0x4340000000000000" "strtod ''2.5e3'' = 0x40A3880000000000"
  by code_simp+

lemma strtoll_saturates: "strtoll ''9223372036854775808'' = strtoll ''9223372036854775807''"
  by code_simp

end
