(* ===== verification/Parser.thy ===== *)
theory Parser
  imports Ast
begin

text \<open>
  The recursive descent parser of \<^verbatim>\<open>src/src/parser/parser.cpp\<close>. The state of the parser is the
  list of tokens from \<open>pos_\<close> on, which is never empty. A function that can call itself through the
  grammar takes a bound on the depth of the calls and the rounds of the loops; running out of it is
  the outcome \<open>Unfinished\<close>, which the theorems show does not happen for the bound
  \<open>4 * length tokens + 3\<close>. \<open>Aborted\<close> is an exception the parser does not catch, or a read outside of
  the table of month lengths.
\<close>

section \<open>Outcomes\<close>

datatype 'a parse = Parsed 'a "token list" | Rejected string | Aborted | Unfinished

fun pbind :: "'a parse \<Rightarrow> ('a \<Rightarrow> token list \<Rightarrow> 'b parse) \<Rightarrow> 'b parse" where
  "pbind (Parsed x ts) f = f x ts"
| "pbind (Rejected e) f = Rejected e"
| "pbind Aborted f = Aborted"
| "pbind Unfinished f = Unfinished"

section \<open>Tokens\<close>

definition peek_at :: "nat \<Rightarrow> token list \<Rightarrow> token" where
  "peek_at i ts = (if i < length ts then ts ! i else last ts)"

abbreviation next_kind :: "token list \<Rightarrow> token_kind" where
  "next_kind ts \<equiv> tk_kind (peek_at 0 ts)"

definition consume :: "token list \<Rightarrow> token list" where
  "consume ts = (if 1 < length ts then tl ts else ts)"

definition match_kind :: "token_kind \<Rightarrow> token list \<Rightarrow> bool \<times> token list" where
  "match_kind k ts = (if next_kind ts = k then (True, consume ts) else (False, ts))"

definition err_msg :: "string \<Rightarrow> string \<Rightarrow> token \<Rightarrow> string" where
  "err_msg source msg tok = render_source_error source (tk_loc tok) ''parse error'' msg"

definition quoted :: "string \<Rightarrow> string" where
  "quoted s = [CHR 0x27] @ s @ [CHR 0x27]"

text \<open>The recurring guards: a token of a kind, or an error at the token that is there instead.\<close>

definition expect :: "string \<Rightarrow> token_kind \<Rightarrow> string \<Rightarrow> token list \<Rightarrow> unit parse" where
  "expect source k msg ts =
     (case match_kind k ts of
        (True, ts') \<Rightarrow> Parsed () ts'
      | (False, ts') \<Rightarrow> Rejected (err_msg source msg (peek_at 0 ts')))"

definition expect_text :: "string \<Rightarrow> token_kind \<Rightarrow> string \<Rightarrow> token list \<Rightarrow> string parse" where
  "expect_text source k msg ts =
     (if next_kind ts \<noteq> k then Rejected (err_msg source msg (peek_at 0 ts))
      else Parsed (tk_text (peek_at 0 ts)) (consume ts))"

text \<open>\<open>if (match_(k)) ...\<close>\<close>

definition when_kind :: "token_kind \<Rightarrow> (token list \<Rightarrow> 'a parse) \<Rightarrow> 'a \<Rightarrow> token list \<Rightarrow> 'a parse" where
  "when_kind k p d ts = (case match_kind k ts of (True, ts') \<Rightarrow> p ts' | (False, ts') \<Rightarrow> Parsed d ts')"

text \<open>\<open>while (true) { item; push_back; if (!match_(COMMA)) break; }\<close>\<close>

fun comma_list :: "nat \<Rightarrow> (token list \<Rightarrow> 'a parse) \<Rightarrow> token list \<Rightarrow> 'a list parse" where
  "comma_list 0 item ts = Unfinished"
| "comma_list (Suc n) item ts =
     pbind (item ts) (\<lambda>x ts.
       case match_kind COMMA ts of
         (True, ts) \<Rightarrow> pbind (comma_list n item ts) (\<lambda>xs ts. Parsed (x # xs) ts)
       | (False, ts) \<Rightarrow> Parsed [x] ts)"

section \<open>Expressions\<close>

record op_info =
  oi_prec :: nat
  oi_is_logical :: bool
  oi_binop :: binary_op_kind
  oi_logop :: logical_op_kind

definition binary_info :: "nat \<Rightarrow> binary_op_kind \<Rightarrow> op_info" where
  "binary_info p k = \<lparr> oi_prec = p, oi_is_logical = False, oi_binop = k, oi_logop = LOGICAL_AND \<rparr>"

definition logical_info :: "nat \<Rightarrow> logical_op_kind \<Rightarrow> op_info" where
  "logical_info p k = \<lparr> oi_prec = p, oi_is_logical = True, oi_binop = ADD, oi_logop = k \<rparr>"

definition op_table :: "(token_kind \<times> op_info) list" where
  "op_table =
     [(KW_OR, logical_info 1 LOGICAL_OR), (KW_AND, logical_info 2 LOGICAL_AND),
      (token_kind.LT, binary_info 4 binary_op_kind.LT), (token_kind.LE, binary_info 4 binary_op_kind.LE),
      (token_kind.EQ, binary_info 4 binary_op_kind.EQ), (token_kind.NE, binary_info 4 binary_op_kind.NE),
      (token_kind.GE, binary_info 4 binary_op_kind.GE), (token_kind.GT, binary_info 4 binary_op_kind.GT),
      (PLUS, binary_info 5 ADD), (MINUS, binary_info 5 SUB),
      (STAR, binary_info 6 MUL), (SLASH, binary_info 6 DIV)]"

definition lookup_op :: "token_kind \<Rightarrow> op_info option" where
  "lookup_op k = map_of op_table k"

definition combine_loc :: "source_loc \<Rightarrow> source_loc \<Rightarrow> source_loc" where
  "combine_loc a b =
     (let start = (if sl_offset a < sl_offset b then sl_offset a else sl_offset b);
          end_a = sl_offset a + sl_length a;
          end_b = sl_offset b + sl_length b;
          end_ab = (if end_a > end_b then end_a else end_b)
      in \<lparr> sl_offset = start, sl_length = end_ab - start \<rparr>)"

definition make_binary :: "op_info \<Rightarrow> ast_expr \<Rightarrow> ast_expr \<Rightarrow> source_loc \<Rightarrow> ast_expr" where
  "make_binary info l r loc =
     (if oi_is_logical info then LogicalExpr (oi_logop info) l r loc
      else BinaryExpr (oi_binop info) l r loc)"

text \<open>The end of \<open>parse_unary_\<close> after a minus: a literal is negated, anything else taken from 0.\<close>

definition negate_expr :: "token \<Rightarrow> ast_expr \<Rightarrow> ast_expr" where
  "negate_expr tok child =
     (let combined = combine_loc (tk_loc tok) (expr_loc child)
      in case child of
           IntLit v _ \<Rightarrow> IntLit (- v) combined
         | DoubleLit v _ \<Rightarrow> DoubleLit (v XOR push_bit 63 1) combined
         | _ \<Rightarrow> BinaryExpr SUB (IntLit 0 (tk_loc tok)) child combined)"

text \<open>\<open>DATE '...'\<close> and \<open>TIMESTAMP '...'\<close>, after the keyword.\<close>

definition tagged_string :: "string \<Rightarrow> string \<Rightarrow> token \<Rightarrow> (string \<Rightarrow> source_loc \<Rightarrow> ast_expr) \<Rightarrow>
    token list \<Rightarrow> ast_expr parse" where
  "tagged_string source msg tok build ts =
     (if next_kind ts \<noteq> STRING_LITERAL then Rejected (err_msg source msg (peek_at 0 ts))
      else let str_tok = peek_at 0 ts
           in Parsed (build (tk_text str_tok) (combine_loc (tk_loc tok) (tk_loc str_tok))) (consume ts))"

text \<open>
  The functions below call each other through \<open>rec\<close>, which stands for the next level of calls;
  \<open>parse_call\<close> ties the knot with the bound. The loop of \<open>parse_binary_\<close> is a function of its
  own, called with the operand parsed so far.
\<close>

datatype call = Binary nat | BinaryLoop nat ast_expr | Unary | Primary | IdentOrCall

type_synonym callee = "call \<Rightarrow> token list \<Rightarrow> ast_expr parse"

definition parse_binary :: "callee \<Rightarrow> nat \<Rightarrow> token list \<Rightarrow> ast_expr parse" where
  "parse_binary rec min_prec ts =
     (if min_prec \<le> 3 \<and> next_kind ts = KW_NOT
      then pbind (rec (Binary 3) (consume ts)) (\<lambda>r ts'.
             rec (BinaryLoop min_prec
               (NotExpr r (combine_loc (tk_loc (peek_at 0 ts)) (expr_loc r)))) ts')
      else pbind (rec Unary ts) (\<lambda>left ts'. rec (BinaryLoop min_prec left) ts'))"

definition binary_loop :: "string \<Rightarrow> callee \<Rightarrow> nat \<Rightarrow> ast_expr \<Rightarrow> token list \<Rightarrow> ast_expr parse" where
  "binary_loop source rec min_prec left ts =
     (if next_kind ts = KW_IS \<and> 4 \<ge> min_prec
      then let (is_not, ts1) = match_kind KW_NOT (consume ts)
           in if next_kind ts1 \<noteq> KW_NULL
              then Rejected (err_msg source ''expected NULL after IS'' (peek_at 0 ts1))
              else rec (BinaryLoop min_prec
                     (NullCheck (if is_not then IS_NOT_NULL else IS_NULL) left
                       (combine_loc (expr_loc left) (tk_loc (peek_at 0 ts1))))) (consume ts1)
      else case lookup_op (next_kind ts) of
             None \<Rightarrow> Parsed left ts
           | Some info \<Rightarrow>
               if oi_prec info < min_prec then Parsed left ts
               else pbind (rec (Binary (oi_prec info + 1)) (consume ts)) (\<lambda>right ts'.
                      rec (BinaryLoop min_prec
                        (make_binary info left right (combine_loc (expr_loc left) (expr_loc right)))) ts'))"

definition parse_unary :: "callee \<Rightarrow> token list \<Rightarrow> ast_expr parse" where
  "parse_unary rec ts =
     (if next_kind ts = MINUS
      then pbind (rec Unary (consume ts)) (\<lambda>child ts'. Parsed (negate_expr (peek_at 0 ts) child) ts')
      else if next_kind ts = PLUS then rec Unary (consume ts)
      else rec Primary ts)"

definition parse_primary :: "string \<Rightarrow> callee \<Rightarrow> token list \<Rightarrow> ast_expr parse" where
  "parse_primary source rec ts =
     (let tok = peek_at 0 ts; k = tk_kind tok
      in if k = INT_LITERAL then Parsed (IntLit (strtoll (tk_text tok)) (tk_loc tok)) (consume ts)
         else if k = DOUBLE_LITERAL then Parsed (DoubleLit (strtod (tk_text tok)) (tk_loc tok)) (consume ts)
         else if k = STRING_LITERAL then Parsed (StringLit (tk_text tok) (tk_loc tok)) (consume ts)
         else if k = KW_NULL then Parsed (NullLit (tk_loc tok)) (consume ts)
         else if k = KW_TRUE then Parsed (BoolLit True (tk_loc tok)) (consume ts)
         else if k = KW_FALSE then Parsed (BoolLit False (tk_loc tok)) (consume ts)
         else if k = KW_DATE
         then tagged_string source ''expected date string after DATE'' tok DateLit (consume ts)
         else if k = KW_TIMESTAMP
         then tagged_string source ''expected timestamp string after TIMESTAMP'' tok TimestampLit (consume ts)
         else if k = LPAREN
         then pbind (rec (Binary 1) (consume ts)) (\<lambda>r ts'.
                pbind (expect source RPAREN (''expected '' @ quoted '')'') ts') (\<lambda>_ ts''. Parsed r ts''))
         else if k = IDENTIFIER then rec IdentOrCall ts
         else Rejected (err_msg source ''expected expression'' tok))"

text \<open>The arguments of a call, after the parenthesis: the list and whether it is \<open>*\<close>.\<close>

definition call_args :: "nat \<Rightarrow> callee \<Rightarrow> token list \<Rightarrow> (ast_expr list \<times> bool) parse" where
  "call_args n rec ts =
     (if next_kind ts = STAR then Parsed ([], True) (consume ts)
      else if next_kind ts \<noteq> RPAREN
      then pbind (comma_list n (rec (Binary 1)) ts) (\<lambda>args ts'. Parsed (args, False) ts')
      else Parsed ([], False) ts)"

definition parse_ident_or_call :: "string \<Rightarrow> nat \<Rightarrow> callee \<Rightarrow> token list \<Rightarrow> ast_expr parse" where
  "parse_ident_or_call source n rec ts =
     (let ident = peek_at 0 ts; ts1 = consume ts
      in if next_kind ts1 = DOT
         then let ts2 = consume ts1
              in if next_kind ts2 \<noteq> IDENTIFIER
                 then Rejected (err_msg source (''expected identifier after '' @ quoted ''.'') (peek_at 0 ts2))
                 else let col = peek_at 0 ts2
                      in Parsed (ColumnName (Some (tk_text ident)) (tk_text col)
                           (combine_loc (tk_loc ident) (tk_loc col))) (consume ts2)
         else if next_kind ts1 = LPAREN
         then pbind (call_args n rec (consume ts1)) (\<lambda>(args, star) ts3.
                if next_kind ts3 \<noteq> RPAREN
                then Rejected (err_msg source (''expected '' @ quoted '')'') (peek_at 0 ts3))
                else Parsed (FuncCall (tk_text ident) args star
                       (combine_loc (tk_loc ident) (tk_loc (peek_at 0 ts3)))) (consume ts3))
         else Parsed (ColumnName None (tk_text ident) (tk_loc ident)) ts1)"

primrec parse_call :: "string \<Rightarrow> nat \<Rightarrow> callee" where
  "parse_call source 0 = (\<lambda>c ts. Unfinished)"
| "parse_call source (Suc n) = (\<lambda>c ts.
     case c of
       Binary min_prec \<Rightarrow> parse_binary (parse_call source n) min_prec ts
     | BinaryLoop min_prec left \<Rightarrow> binary_loop source (parse_call source n) min_prec left ts
     | Unary \<Rightarrow> parse_unary (parse_call source n) ts
     | Primary \<Rightarrow> parse_primary source (parse_call source n) ts
     | IdentOrCall \<Rightarrow> parse_ident_or_call source n (parse_call source n) ts)"

definition parse_expr :: "string \<Rightarrow> nat \<Rightarrow> token list \<Rightarrow> ast_expr parse" where
  "parse_expr source n ts = parse_call source n (Binary 1) ts"

definition parse_expression :: "string \<Rightarrow> nat \<Rightarrow> token list \<Rightarrow> ast_expr parse" where
  "parse_expression source n ts =
     pbind (parse_expr source n ts) (\<lambda>r ts'.
       if next_kind ts' \<noteq> END_OF_FILE
       then Rejected (err_msg source ''unexpected token after expression'' (peek_at 0 ts'))
       else Parsed r ts')"

section \<open>SELECT\<close>

definition parse_int_literal :: "string \<Rightarrow> string \<Rightarrow> token list \<Rightarrow> i64 parse" where
  "parse_int_literal source what ts =
     pbind (expect_text source INT_LITERAL (''expected integer after '' @ what) ts) (\<lambda>s ts'.
       Parsed (strtoll s) ts')"

text \<open>The optional alias of a projection: the token and what is left.\<close>

definition parse_alias :: "string \<Rightarrow> token list \<Rightarrow> token option parse" where
  "parse_alias source ts =
     (case match_kind KW_AS ts of
        (True, ts') \<Rightarrow>
          if next_kind ts' \<noteq> IDENTIFIER
          then Rejected (err_msg source ''expected alias after AS'' (peek_at 0 ts'))
          else Parsed (Some (peek_at 0 ts')) (consume ts')
      | (False, ts') \<Rightarrow>
          if next_kind ts' = IDENTIFIER then Parsed (Some (peek_at 0 ts')) (consume ts')
          else Parsed None ts')"

definition parse_select_item :: "string \<Rightarrow> nat \<Rightarrow> token list \<Rightarrow> select_item parse" where
  "parse_select_item source n ts =
     pbind (parse_expr source n ts) (\<lambda>e ts.
     pbind (parse_alias source ts) (\<lambda>a ts.
       Parsed \<lparr> si_expr = e, si_alias = map_option tk_text a \<rparr> ts))"

definition parse_table_ref :: "string \<Rightarrow> token list \<Rightarrow> table_ref parse" where
  "parse_table_ref source ts =
     (if next_kind ts \<noteq> IDENTIFIER then Rejected (err_msg source ''expected table name'' (peek_at 0 ts))
      else let name_tok = peek_at 0 ts
           in pbind (parse_alias source (consume ts)) (\<lambda>a ts'.
                Parsed \<lparr> tr_name = tk_text name_tok, tr_alias = map_option tk_text a,
                  tr_loc = (case a of None \<Rightarrow> tk_loc name_tok
                            | Some alias_tok \<Rightarrow> combine_loc (tk_loc name_tok) (tk_loc alias_tok)) \<rparr> ts'))"

definition parse_join_clause :: "string \<Rightarrow> nat \<Rightarrow> token list \<Rightarrow> join_clause parse" where
  "parse_join_clause source n ts =
     (let ts = snd (match_kind KW_INNER ts)
      in pbind (expect source KW_JOIN ''expected JOIN'' ts) (\<lambda>_ ts.
         pbind (parse_table_ref source ts) (\<lambda>right ts.
         pbind (expect source KW_ON ''expected ON after join table'' ts) (\<lambda>_ ts.
         pbind (parse_expr source n ts) (\<lambda>on ts.
           Parsed \<lparr> jc_right = right, jc_on = on \<rparr> ts)))))"

fun parse_joins :: "string \<Rightarrow> nat \<Rightarrow> nat \<Rightarrow> token list \<Rightarrow> join_clause list parse" where
  "parse_joins source 0 m ts = Unfinished"
| "parse_joins source (Suc k) n ts =
     (if next_kind ts = KW_INNER \<or> next_kind ts = KW_JOIN
      then pbind (parse_join_clause source n ts) (\<lambda>j ts.
           pbind (parse_joins source k n ts) (\<lambda>js ts. Parsed (j # js) ts))
      else Parsed [] ts)"

definition parse_order_by_item :: "string \<Rightarrow> nat \<Rightarrow> token list \<Rightarrow> order_by_item parse" where
  "parse_order_by_item source n ts =
     pbind (parse_expr source n ts) (\<lambda>e ts.
       case match_kind KW_DESC ts of
         (True, ts) \<Rightarrow> Parsed \<lparr> ob_expr = e, ob_ascending = False \<rparr> ts
       | (False, ts) \<Rightarrow> Parsed \<lparr> ob_expr = e, ob_ascending = True \<rparr> (snd (match_kind KW_ASC ts)))"

definition parse_projections :: "string \<Rightarrow> nat \<Rightarrow> token list \<Rightarrow> (select_item list \<times> bool) parse" where
  "parse_projections source n ts =
     (if next_kind ts = STAR then Parsed ([], True) (consume ts)
      else pbind (comma_list n (parse_select_item source n) ts) (\<lambda>items ts. Parsed (items, False) ts))"

definition parse_some :: "string \<Rightarrow> nat \<Rightarrow> token list \<Rightarrow> ast_expr option parse" where
  "parse_some source n ts = pbind (parse_expr source n ts) (\<lambda>e ts. Parsed (Some e) ts)"

definition parse_limit :: "string \<Rightarrow> string \<Rightarrow> token list \<Rightarrow> i64 option parse" where
  "parse_limit source what ts = pbind (parse_int_literal source what ts) (\<lambda>v ts. Parsed (Some v) ts)"

definition parse_by_list :: "string \<Rightarrow> nat \<Rightarrow> string \<Rightarrow> (token list \<Rightarrow> 'a parse) \<Rightarrow> token list \<Rightarrow> 'a list parse" where
  "parse_by_list source n what item ts =
     pbind (expect source KW_BY (''expected BY after '' @ what) ts) (\<lambda>_ ts. comma_list n item ts)"

definition parse_select :: "string \<Rightarrow> nat \<Rightarrow> token list \<Rightarrow> select_stmt parse" where
  "parse_select source n ts =
     pbind (expect source KW_SELECT ''expected SELECT'' ts) (\<lambda>_ ts.
     pbind (parse_projections source n ts) (\<lambda>(items, star) ts.
     pbind (expect source KW_FROM ''expected FROM'' ts) (\<lambda>_ ts.
     pbind (parse_table_ref source ts) (\<lambda>from ts.
     pbind (parse_joins source n n ts) (\<lambda>joins ts.
     pbind (when_kind KW_WHERE (parse_some source n) None ts) (\<lambda>whr ts.
     pbind (when_kind KW_GROUP (parse_by_list source n ''GROUP'' (parse_expr source n)) [] ts) (\<lambda>group ts.
     pbind (when_kind KW_HAVING (parse_some source n) None ts) (\<lambda>having ts.
     pbind (when_kind KW_ORDER (parse_by_list source n ''ORDER'' (parse_order_by_item source n)) [] ts) (\<lambda>order ts.
     pbind (when_kind KW_LIMIT (parse_limit source ''LIMIT'') None ts) (\<lambda>lim ts.
     pbind (when_kind KW_OFFSET (parse_limit source ''OFFSET'') None ts) (\<lambda>off ts.
       Parsed \<lparr> sel_projections = items, sel_star = star, sel_from = from, sel_joins = joins,
                sel_where = whr, sel_group_by = group, sel_having = having, sel_order_by = order,
                sel_limit = lim, sel_offset = off \<rparr> ts)))))))))))"

section \<open>CREATE TABLE\<close>

text \<open>
  The days since 1970 as \<open>parse_default_literal_\<close> computes them, for the numbers read by
  \<open>sscanf\<close>: \<open>None\<close> when the loop over the months reads past the table.
\<close>

definition month_days :: "int list" where
  "month_days = [0, 31, 28, 31, 30, 31, 30, 31, 31, 30, 31, 30, 31]"

definition c_div :: "int \<Rightarrow> int \<Rightarrow> int" where
  "c_div a b = (if a < 0 then - ((- a) div b) else a div b)"

definition default_days :: "i32 \<Rightarrow> i32 \<Rightarrow> i32 \<Rightarrow> i32 option" where
  "default_days y m d =
     (let y' = sint y - 1970
      in if 13 < sint m then None
         else Some (word_of_int (y' * 365 + c_div y' 4 - c_div y' 100 + c_div y' 400 +
                (\<Sum>i\<leftarrow>[1..<nat (sint m)]. month_days ! i) + sint d - 1)))"

text \<open>
  \<open>sscanf\<close> with the formats \<open>%d-%d-%d\<close> and \<open>%d-%d-%d %d:%d:%d\<close>: the numbers read before the
  first mismatch. A blank of the format skips blanks of the input.
\<close>

fun scan_fields :: "string list \<Rightarrow> string \<Rightarrow> i32 list" where
  "scan_fields [] s = (case scan_d s of None \<Rightarrow> [] | Some (v, _) \<Rightarrow> [v])"
| "scan_fields (sep # seps) s =
     (case scan_d s of
        None \<Rightarrow> []
      | Some (v, rest) \<Rightarrow>
          v # (if sep = '' '' then scan_fields seps (dropWhile isspace rest)
               else if take 1 rest = sep then scan_fields seps (drop 1 rest) else []))"

definition scan_date :: "string \<Rightarrow> i32 list" where
  "scan_date = scan_fields [''-'', ''-'']"

definition scan_timestamp :: "string \<Rightarrow> i32 list" where
  "scan_timestamp = scan_fields [''-'', ''-'', '' '', '':'', '':'']"

definition field :: "i32 list \<Rightarrow> nat \<Rightarrow> i32" where
  "field vs i = (if i < length vs then vs ! i else 0)"

definition default_date :: "string \<Rightarrow> string \<Rightarrow> token list \<Rightarrow> val parse" where
  "default_date source s ts =
     (let vs = scan_date s
      in if length vs \<noteq> 3 then Rejected (err_msg source (''invalid DATE literal: '' @ s) (peek_at 0 ts))
         else case default_days (vs ! 0) (vs ! 1) (vs ! 2) of
                None \<Rightarrow> Aborted
              | Some days \<Rightarrow> Parsed (VDate days) ts)"

definition default_timestamp :: "string \<Rightarrow> token list \<Rightarrow> val parse" where
  "default_timestamp s ts =
     (let vs = scan_timestamp s
      in case default_days (field vs 0) (field vs 1) (field vs 2) of
           None \<Rightarrow> Aborted
         | Some days \<Rightarrow>
             Parsed (VTimestamp (word_of_int (sint days * 86400000000 + sint (field vs 3) * 3600000000 +
                       sint (field vs 4) * 60000000 + sint (field vs 5) * 1000000))) ts)"

definition default_int :: "string \<Rightarrow> val option" where
  "default_int s =
     map_option (\<lambda>v. if - (2 ^ 31) \<le> sint v \<and> sint v \<le> 2 ^ 31 - 1 then VI32 (ucast v) else VI64 v) (stoll s)"

text \<open>\<open>std::stoll\<close> and \<open>std::stod\<close> throw; nothing in the parser catches.\<close>

definition or_abort :: "'a option \<Rightarrow> token list \<Rightarrow> 'a parse" where
  "or_abort v ts = (case v of None \<Rightarrow> Aborted | Some x \<Rightarrow> Parsed x ts)"

definition parse_default_literal :: "string \<Rightarrow> token list \<Rightarrow> val parse" where
  "parse_default_literal source ts =
     (let k = next_kind ts; s = tk_text (peek_at 0 ts); ts1 = consume ts
      in if k = INT_LITERAL then or_abort (default_int s) ts1
         else if k = DOUBLE_LITERAL then or_abort (map_option VF64 (stod s)) ts1
         else if k = STRING_LITERAL then Parsed (VStr s) ts1
         else if k = KW_TRUE then Parsed (VBool True) ts1
         else if k = KW_FALSE then Parsed (VBool False) ts1
         else if k = KW_NULL then Parsed VNull ts1
         else if k = KW_DATE
         then pbind (expect_text source STRING_LITERAL ''expected date string after DATE'' ts1) (default_date source)
         else if k = KW_TIMESTAMP
         then pbind (expect_text source STRING_LITERAL ''expected timestamp string after TIMESTAMP'' ts1)
                default_timestamp
         else Rejected (err_msg source ''expected a literal value after DEFAULT'' (peek_at 0 ts)))"

text \<open>The type of a column and the length of a \<open>VARCHAR\<close>, 255 when it is not given.\<close>

definition parse_varchar_len :: "string \<Rightarrow> token list \<Rightarrow> u16 parse" where
  "parse_varchar_len source ts =
     pbind (parse_int_literal source ''VARCHAR'' ts) (\<lambda>v ts.
       if sint v \<le> 0 \<or> sint v > 65535
       then Rejected (err_msg source ''VARCHAR length must be between 1 and 65535'' (peek_at 0 ts))
       else pbind (expect source RPAREN (''expected '' @ quoted '')'') ts) (\<lambda>_ ts. Parsed (ucast v) ts))"

definition parse_column_type :: "string \<Rightarrow> token list \<Rightarrow> (type_id \<times> u16) parse" where
  "parse_column_type source ts =
     (let k = next_kind ts
      in if k = KW_INT \<or> k = KW_INTEGER then Parsed (INT32, 255) (consume ts)
         else if k = KW_BIGINT then Parsed (INT64, 255) (consume ts)
         else if k = KW_DOUBLE then Parsed (DOUBLE, 255) (consume ts)
         else if k = KW_VARCHAR \<or> k = KW_NVARCHAR
         then pbind (when_kind LPAREN (parse_varchar_len source) 255 (consume ts)) (\<lambda>len ts. Parsed (VARCHAR, len) ts)
         else if k = KW_BOOL \<or> k = KW_BOOLEAN then Parsed (BOOL, 255) (consume ts)
         else if k = KW_DATE then Parsed (DATE, 255) (consume ts)
         else if k = KW_TIMESTAMP then Parsed (TIMESTAMP, 255) (consume ts)
         else Rejected (err_msg source ''expected column type'' (peek_at 0 ts)))"

fun column_options :: "string \<Rightarrow> nat \<Rightarrow> column_def \<Rightarrow> token list \<Rightarrow> column_def parse" where
  "column_options source 0 d ts = Unfinished"
| "column_options source (Suc n) d ts =
     (if next_kind ts = KW_NOT
      then pbind (expect source KW_NULL ''expected NULL after NOT'' (consume ts)) (\<lambda>_ ts.
             column_options source n (d\<lparr>cd_nullable := False\<rparr>) ts)
      else if next_kind ts = KW_PRIMARY
      then pbind (expect source KW_KEY ''expected KEY after PRIMARY'' (consume ts)) (\<lambda>_ ts.
             column_options source n (d\<lparr>cd_primary_key := True, cd_nullable := False\<rparr>) ts)
      else if next_kind ts = KW_UNIQUE
      then column_options source n (d\<lparr>cd_unique := True\<rparr>) (consume ts)
      else if next_kind ts = KW_DEFAULT
      then pbind (parse_default_literal source (consume ts)) (\<lambda>v ts.
             column_options source n (d\<lparr>cd_default := Some v\<rparr>) ts)
      else Parsed d ts)"

definition parse_column_def :: "string \<Rightarrow> nat \<Rightarrow> token list \<Rightarrow> column_def parse" where
  "parse_column_def source n ts =
     pbind (expect_text source IDENTIFIER ''expected column name'' ts) (\<lambda>name ts.
     pbind (parse_column_type source ts) (\<lambda>(type, len) ts.
       column_options source n
         \<lparr> cd_name = name, cd_type = type, cd_nullable = True, cd_max_len = len,
           cd_primary_key = False, cd_unique = False, cd_default = None \<rparr> ts))"

definition name_list :: "string \<Rightarrow> nat \<Rightarrow> token list \<Rightarrow> string list parse" where
  "name_list source n ts = comma_list n (expect_text source IDENTIFIER ''expected column name'') ts"

definition parse_constraint_kind :: "string \<Rightarrow> token list \<Rightarrow> table_constraint_kind parse" where
  "parse_constraint_kind source ts =
     (if next_kind ts = KW_PRIMARY
      then pbind (expect source KW_KEY ''expected KEY after PRIMARY'' (consume ts)) (\<lambda>_ ts. Parsed PRIMARY_KEY ts)
      else if next_kind ts = KW_UNIQUE then Parsed UNIQUE (snd (match_kind KW_KEY (consume ts)))
      else Rejected (err_msg source ''expected PRIMARY KEY or UNIQUE'' (peek_at 0 ts)))"

text \<open>The last check of \<open>parse_table_constraint_\<close>, for an empty list of columns, never fails.\<close>

definition parse_table_constraint :: "string \<Rightarrow> nat \<Rightarrow> token list \<Rightarrow> table_constraint parse" where
  "parse_table_constraint source n ts =
     pbind (when_kind KW_CONSTRAINT
              (expect_text source IDENTIFIER ''expected constraint name after CONSTRAINT'') '''' ts) (\<lambda>name ts.
     pbind (parse_constraint_kind source ts) (\<lambda>kind ts.
     pbind (expect source LPAREN (''expected '' @ quoted ''('') ts) (\<lambda>_ ts.
     pbind (name_list source n ts) (\<lambda>cols ts.
     pbind (expect source RPAREN (''expected '' @ quoted '')'') ts) (\<lambda>_ ts.
       if cols = [] then Rejected (err_msg source ''constraint must specify at least one column'' (peek_at 0 ts))
       else Parsed \<lparr> tc_kind = kind, tc_name = name, tc_columns = cols \<rparr> ts)))))"

definition parse_upper_bound :: "string \<Rightarrow> nat \<Rightarrow> token list \<Rightarrow> (bool \<times> ast_expr option) parse" where
  "parse_upper_bound source n ts =
     (if next_kind ts = KW_MAXVALUE then Parsed (True, None) (consume ts)
      else pbind (parse_expr source n ts) (\<lambda>e ts. Parsed (False, Some e) ts))"

definition parse_partition_def :: "string \<Rightarrow> nat \<Rightarrow> token list \<Rightarrow> partition_def_ast parse" where
  "parse_partition_def source n ts =
     pbind (expect source KW_PARTITION ''expected PARTITION'' ts) (\<lambda>_ ts.
     pbind (expect_text source IDENTIFIER ''expected partition name'' ts) (\<lambda>name ts.
     pbind (expect source KW_VALUES ''expected VALUES'' ts) (\<lambda>_ ts.
     pbind (expect source KW_LESS ''expected LESS'' ts) (\<lambda>_ ts.
     pbind (expect source KW_THAN ''expected THAN'' ts) (\<lambda>_ ts.
     pbind (expect source LPAREN (''expected '' @ quoted ''('') ts) (\<lambda>_ ts.
     pbind (parse_upper_bound source n ts) (\<lambda>(maxv, bound) ts.
     pbind (expect source RPAREN (''expected '' @ quoted '')'') ts) (\<lambda>_ ts.
     pbind (expect source KW_ON ''expected ON'' ts) (\<lambda>_ ts.
     pbind (expect_text source STRING_LITERAL ''expected node address string'' ts) (\<lambda>addr ts.
       Parsed \<lparr> pd_name = name, pd_is_maxvalue = maxv, pd_upper_bound = bound, pd_node_addr = addr \<rparr> ts))))))))))"

text \<open>An entry of the column list: a constraint of the table or a column.\<close>

definition parse_table_element :: "string \<Rightarrow> nat \<Rightarrow> token list \<Rightarrow> (table_constraint + column_def) parse" where
  "parse_table_element source n ts =
     (if next_kind ts = KW_PRIMARY \<or> next_kind ts = KW_UNIQUE \<or> next_kind ts = KW_CONSTRAINT
      then pbind (parse_table_constraint source n ts) (\<lambda>c ts. Parsed (Inl c) ts)
      else pbind (parse_column_def source n ts) (\<lambda>c ts. Parsed (Inr c) ts))"

definition parse_partitioning :: "string \<Rightarrow> nat \<Rightarrow> token list \<Rightarrow>
    (string option \<times> partition_def_ast list) parse" where
  "parse_partitioning source n ts =
     (if next_kind ts = KW_PARTITION
      then pbind (expect source KW_BY ''expected BY after PARTITION'' (consume ts)) (\<lambda>_ ts.
           pbind (expect source KW_RANGE ''expected RANGE'' ts) (\<lambda>_ ts.
           pbind (expect source LPAREN (''expected '' @ quoted ''('' @ '' after RANGE'') ts) (\<lambda>_ ts.
           pbind (expect_text source IDENTIFIER ''expected partition column name'' ts) (\<lambda>col ts.
           pbind (expect source RPAREN (''expected '' @ quoted '')'' @ '' after partition column'') ts) (\<lambda>_ ts.
           pbind (expect source LPAREN (''expected '' @ quoted ''('' @ '' for partition list'') ts) (\<lambda>_ ts.
           pbind (comma_list n (parse_partition_def source n) ts) (\<lambda>defs ts.
           pbind (expect source RPAREN (''expected '' @ quoted '')'' @ '' to close partition list'') ts) (\<lambda>_ ts.
             Parsed (Some col, defs) ts))))))))
      else Parsed (None, []) ts)"

definition parse_create_table :: "string \<Rightarrow> nat \<Rightarrow> token list \<Rightarrow> create_table_stmt parse" where
  "parse_create_table source n ts =
     pbind (expect source KW_CREATE ''expected CREATE'' ts) (\<lambda>_ ts.
     pbind (expect source KW_TABLE ''expected TABLE'' ts) (\<lambda>_ ts.
     pbind (expect_text source IDENTIFIER ''expected table name'' ts) (\<lambda>name ts.
     pbind (expect source LPAREN (''expected '' @ quoted ''('') ts) (\<lambda>_ ts.
     pbind (comma_list n (parse_table_element source n) ts) (\<lambda>els ts.
     pbind (expect source RPAREN (''expected '' @ quoted '')'') ts) (\<lambda>_ ts.
     pbind (parse_partitioning source n ts) (\<lambda>(pcol, defs) ts.
       Parsed \<lparr> ct_name = name, ct_columns = [c. Inr c \<leftarrow> els], ct_constraints = [c. Inl c \<leftarrow> els],
                ct_partition_col = pcol, ct_partition_defs = defs \<rparr> ts)))))))"

section \<open>The other statements\<close>

definition parse_row :: "string \<Rightarrow> nat \<Rightarrow> token list \<Rightarrow> ast_expr list parse" where
  "parse_row source n ts =
     pbind (expect source LPAREN (''expected '' @ quoted ''('') ts) (\<lambda>_ ts.
     pbind (comma_list n (parse_expr source n) ts) (\<lambda>row ts.
     pbind (expect source RPAREN (''expected '' @ quoted '')'') ts) (\<lambda>_ ts. Parsed row ts)))"

definition parse_insert_columns :: "string \<Rightarrow> nat \<Rightarrow> token list \<Rightarrow> string list parse" where
  "parse_insert_columns source n ts =
     pbind (name_list source n ts) (\<lambda>cols ts.
     pbind (expect source RPAREN (''expected '' @ quoted '')'') ts) (\<lambda>_ ts. Parsed cols ts))"

definition parse_insert :: "string \<Rightarrow> nat \<Rightarrow> token list \<Rightarrow> insert_stmt parse" where
  "parse_insert source n ts =
     pbind (expect source KW_INSERT ''expected INSERT'' ts) (\<lambda>_ ts.
     pbind (expect source KW_INTO ''expected INTO'' ts) (\<lambda>_ ts.
     pbind (expect_text source IDENTIFIER ''expected table name'' ts) (\<lambda>name ts.
     pbind (when_kind LPAREN (parse_insert_columns source n) [] ts) (\<lambda>cols ts.
     pbind (expect source KW_VALUES ''expected VALUES'' ts) (\<lambda>_ ts.
     pbind (comma_list n (parse_row source n) ts) (\<lambda>rows ts.
       Parsed \<lparr> in_table = name, in_columns = cols, in_rows = rows \<rparr> ts))))))"

definition parse_drop_table :: "string \<Rightarrow> token list \<Rightarrow> statement parse" where
  "parse_drop_table source ts =
     pbind (expect source KW_TABLE ''expected TABLE'' (consume ts)) (\<lambda>_ ts.
     pbind (when_kind KW_IF (\<lambda>ts. pbind (expect source KW_EXISTS ''expected EXISTS after IF'' ts) (\<lambda>_ ts. Parsed True ts))
              False ts) (\<lambda>if_exists ts.
     pbind (expect_text source IDENTIFIER ''expected table name'' ts) (\<lambda>name ts.
       Parsed (DropTableStmt name if_exists) ts)))"

definition parse_delete :: "string \<Rightarrow> nat \<Rightarrow> token list \<Rightarrow> statement parse" where
  "parse_delete source n ts =
     pbind (expect source KW_FROM ''expected FROM'' (consume ts)) (\<lambda>_ ts.
     pbind (expect_text source IDENTIFIER ''expected table name'' ts) (\<lambda>tbl ts.
     pbind (when_kind KW_WHERE (parse_some source n) None ts) (\<lambda>whr ts.
       Parsed (DeleteStmt tbl whr) ts)))"

definition parse_assignment :: "string \<Rightarrow> nat \<Rightarrow> token list \<Rightarrow> (string \<times> ast_expr) parse" where
  "parse_assignment source n ts =
     pbind (expect_text source IDENTIFIER ''expected column name'' ts) (\<lambda>col ts.
     pbind (expect source token_kind.EQ (''expected '' @ quoted ''='') ts) (\<lambda>_ ts.
     pbind (parse_expr source n ts) (\<lambda>e ts. Parsed (col, e) ts)))"

definition parse_update :: "string \<Rightarrow> nat \<Rightarrow> token list \<Rightarrow> update_stmt parse" where
  "parse_update source n ts =
     pbind (expect_text source IDENTIFIER ''expected table name'' (consume ts)) (\<lambda>tbl ts.
     pbind (expect source KW_SET ''expected SET'' ts) (\<lambda>_ ts.
     pbind (comma_list n (parse_assignment source n) ts) (\<lambda>assignments ts.
     pbind (when_kind KW_WHERE (parse_some source n) None ts) (\<lambda>whr ts.
       Parsed \<lparr> up_table = tbl, up_assignments = assignments, up_where = whr \<rparr> ts))))"

definition create_index_rest :: "string \<Rightarrow> nat \<Rightarrow> bool \<Rightarrow> token list \<Rightarrow> create_index_stmt parse" where
  "create_index_rest source n unique ts =
     pbind (expect source KW_INDEX ''expected INDEX'' ts) (\<lambda>_ ts.
     pbind (expect_text source IDENTIFIER ''expected index name'' ts) (\<lambda>index_name ts.
     pbind (expect source KW_ON ''expected ON'' ts) (\<lambda>_ ts.
     pbind (expect_text source IDENTIFIER ''expected table name'' ts) (\<lambda>table_name ts.
     pbind (expect source LPAREN (''expected '' @ quoted ''('') ts) (\<lambda>_ ts.
     pbind (name_list source n ts) (\<lambda>cols ts.
     pbind (expect source RPAREN (''expected '' @ quoted '')'') ts) (\<lambda>_ ts.
       Parsed \<lparr> ci_index = index_name, ci_table = table_name, ci_columns = cols, ci_unique = unique \<rparr> ts)))))))"

definition parse_create_index :: "string \<Rightarrow> nat \<Rightarrow> token list \<Rightarrow> create_index_stmt parse" where
  "parse_create_index source n ts =
     (case match_kind KW_UNIQUE (consume ts) of (unique, ts) \<Rightarrow> create_index_rest source n unique ts)"

definition parse_drop_index :: "string \<Rightarrow> token list \<Rightarrow> statement parse" where
  "parse_drop_index source ts =
     pbind (expect source KW_INDEX ''expected INDEX'' (consume ts)) (\<lambda>_ ts.
     pbind (expect_text source IDENTIFIER ''expected index name'' ts) (\<lambda>index_name ts.
     pbind (expect source KW_ON ''expected ON'' ts) (\<lambda>_ ts.
     pbind (expect_text source IDENTIFIER ''expected table name'' ts) (\<lambda>table_name ts.
       Parsed (DropIndexStmt index_name table_name) ts))))"

definition parse_show_indexes :: "string \<Rightarrow> token list \<Rightarrow> statement parse" where
  "parse_show_indexes source ts =
     pbind (expect source KW_INDEXES ''expected INDEXES'' (consume ts)) (\<lambda>_ ts.
     pbind (expect source KW_FROM ''expected FROM'' ts) (\<lambda>_ ts.
     pbind (expect_text source IDENTIFIER ''expected table name'' ts) (\<lambda>name ts. Parsed (ShowIndexesStmt name) ts)))"

definition parse_show_constraints :: "string \<Rightarrow> token list \<Rightarrow> statement parse" where
  "parse_show_constraints source ts =
     pbind (expect source KW_CONSTRAINTS ''expected CONSTRAINTS'' (consume ts)) (\<lambda>_ ts.
     pbind (expect source KW_FROM ''expected FROM'' ts) (\<lambda>_ ts.
     pbind (expect_text source IDENTIFIER ''expected table name'' ts) (\<lambda>name ts.
       Parsed (ShowConstraintsStmt name) ts)))"

definition parse_alter_add_partition :: "string \<Rightarrow> nat \<Rightarrow> token list \<Rightarrow> statement parse" where
  "parse_alter_add_partition source n ts =
     pbind (expect source KW_ALTER ''expected ALTER'' ts) (\<lambda>_ ts.
     pbind (expect source KW_TABLE ''expected TABLE'' ts) (\<lambda>_ ts.
     pbind (expect_text source IDENTIFIER ''expected table name'' ts) (\<lambda>name ts.
     pbind (expect source KW_ADD ''expected ADD'' ts) (\<lambda>_ ts.
     pbind (parse_partition_def source n ts) (\<lambda>pd ts. Parsed (AlterAddPartitionStmt name pd) ts)))))"

definition as_statement :: "('a \<Rightarrow> statement) \<Rightarrow> 'a parse \<Rightarrow> statement parse" where
  "as_statement f r = pbind r (\<lambda>s ts. Parsed (f s) ts)"

definition parse_one_statement :: "string \<Rightarrow> nat \<Rightarrow> token list \<Rightarrow> statement parse" where
  "parse_one_statement source n ts =
     (let k = next_kind ts; following = tk_kind (peek_at 1 ts)
      in if k = KW_SELECT then as_statement SelectStmt (parse_select source n ts)
         else if k = KW_CREATE
         then if following = KW_TABLE then as_statement CreateTableStmt (parse_create_table source n ts)
              else if following = KW_INDEX \<or> following = KW_UNIQUE
              then as_statement CreateIndexStmt (parse_create_index source n ts)
              else Rejected (err_msg source ''expected TABLE or INDEX after CREATE'' (peek_at 1 ts))
         else if k = KW_INSERT then as_statement InsertStmt (parse_insert source n ts)
         else if k = KW_DROP
         then if following = KW_TABLE then parse_drop_table source ts
              else if following = KW_INDEX then parse_drop_index source ts
              else Rejected (err_msg source ''expected TABLE or INDEX after DROP'' (peek_at 1 ts))
         else if k = KW_SHOW
         then if following = KW_CONSTRAINTS then parse_show_constraints source ts
              else parse_show_indexes source ts
         else if k = KW_DELETE then parse_delete source n ts
         else if k = KW_UPDATE then as_statement UpdateStmt (parse_update source n ts)
         else if k = KW_VACUUM
         then pbind (expect_text source IDENTIFIER ''expected table name after VACUUM'' (consume ts)) (\<lambda>name ts.
                Parsed (VacuumStmt name) ts)
         else if k = KW_ALTER then parse_alter_add_partition source n ts
         else Rejected (err_msg source ''expected statement'' (peek_at 0 ts)))"

definition parse_statement :: "string \<Rightarrow> nat \<Rightarrow> token list \<Rightarrow> statement parse" where
  "parse_statement source n ts =
     pbind (parse_one_statement source n ts) (\<lambda>s ts.
       let ts = snd (match_kind SEMICOLON ts)
       in if next_kind ts \<noteq> END_OF_FILE
          then Rejected (err_msg source ''unexpected token after statement'' (peek_at 0 ts))
          else Parsed s ts)"

fun parse_loop :: "string \<Rightarrow> nat \<Rightarrow> nat \<Rightarrow> token list \<Rightarrow> statement list parse" where
  "parse_loop source 0 n ts = Unfinished"
| "parse_loop source (Suc m) n ts =
     (if next_kind ts = END_OF_FILE then Parsed [] ts
      else pbind (parse_one_statement source n ts) (\<lambda>s ts.
             if next_kind ts = END_OF_FILE then Parsed [s] ts
             else pbind (expect source SEMICOLON (''expected '' @ quoted '';'' @ '' between statements'') ts) (\<lambda>_ ts.
                  pbind (parse_loop source m n ts) (\<lambda>ss ts. Parsed (s # ss) ts))))"

definition parse :: "string \<Rightarrow> nat \<Rightarrow> token list \<Rightarrow> statement list parse" where
  "parse source n ts = parse_loop source n n ts"

end
