(* ===== verification/Parser_Total.thy ===== *)
theory Parser_Total
  imports Parser
begin

text \<open>
  The parser always comes to an end: on tokens that close with \<open>END_OF_FILE\<close>, as the lexer delivers
  them, a bound of \<open>4 * length tokens + 3\<close> on the depth of calls and the rounds of loops is never
  reached, and a larger bound gives the same outcome. \<open>ends m r\<close> says of an outcome that it is not
  \<open>Unfinished\<close> and leaves at most \<open>m\<close> tokens; \<open>agrees r r'\<close> that it is \<open>Unfinished\<close> or equal to the
  other one.
\<close>

named_theorems ends_intros "outcomes that come to an end"
named_theorems agrees_intros "outcomes that do not depend on the bound"

section \<open>Coming to an end\<close>

definition closed :: "token list \<Rightarrow> bool" where
  "closed ts \<longleftrightarrow> ts \<noteq> [] \<and> tk_kind (last ts) = END_OF_FILE"

definition ends :: "nat \<Rightarrow> 'a parse \<Rightarrow> bool" where
  "ends m r = (case r of Parsed _ ts \<Rightarrow> closed ts \<and> length ts \<le> m | Unfinished \<Rightarrow> False | _ \<Rightarrow> True)"

lemma ends_simps [simp]:
  "ends m (Parsed x ts) \<longleftrightarrow> closed ts \<and> length ts \<le> m" "ends m (Rejected e)" "ends m Aborted"
  "\<not> ends m Unfinished"
  by (simp_all add: ends_def)

lemma ends_mono: "ends m r \<Longrightarrow> m \<le> k \<Longrightarrow> ends k r"
  by (cases r) auto

lemma ends_bind:
  assumes "ends k r" and "\<And>x ts. closed ts \<Longrightarrow> length ts \<le> k \<Longrightarrow> ends m (f x ts)"
  shows "ends m (pbind r f)"
  using assms by (cases r) auto

lemma closed_pos: "closed ts \<Longrightarrow> 0 < length ts"
  by (simp add: closed_def)

lemma closed_consume: "closed ts \<Longrightarrow> closed (consume ts)"
  by (cases ts) (auto simp: closed_def consume_def)

lemma length_consume: "length (consume ts) \<le> length ts"
  by (simp add: consume_def)

lemma consume_less:
  assumes "closed ts" and "next_kind ts \<noteq> END_OF_FILE"
  shows "length (consume ts) < length ts"
proof -
  have "length ts \<noteq> 1" using assms by (auto simp: closed_def peek_at_def length_Suc_conv)
  with assms(1) have "1 < length ts" by (cases ts) (auto simp: closed_def)
  then show ?thesis by (simp add: consume_def)
qed

lemma match_snd:
  assumes "closed ts"
  shows "closed (snd (match_kind k ts))" and "length (snd (match_kind k ts)) \<le> length ts"
  using assms by (auto simp: match_kind_def closed_consume length_consume)

lemma ends_expect:
  assumes "closed ts" and "k \<noteq> END_OF_FILE" and "length ts - 1 \<le> m"
  shows "ends m (expect source k msg ts)"
  using assms consume_less[of ts] by (auto simp: expect_def match_kind_def closed_consume)

lemma ends_expect_text:
  assumes "closed ts" and "k \<noteq> END_OF_FILE" and "length ts - 1 \<le> m"
  shows "ends m (expect_text source k msg ts)"
  using assms consume_less[of ts] by (auto simp: expect_text_def closed_consume)

lemma ends_when_kind:
  assumes "closed ts" and "k \<noteq> END_OF_FILE" and "length ts \<le> m"
    and "\<And>ts'. closed ts' \<Longrightarrow> length ts' \<le> length ts - 1 \<Longrightarrow> ends m (p ts')"
  shows "ends m (when_kind k p d ts)"
  using assms consume_less[of ts] by (auto simp: when_kind_def match_kind_def closed_consume)

text \<open>A list of items ends when each item ends and takes at least one token.\<close>

lemma ends_comma_list:
  assumes "closed ts" and "length ts \<le> n" and "length ts - 1 \<le> m"
    and "\<And>ts'. closed ts' \<Longrightarrow> length ts' \<le> length ts \<Longrightarrow> ends (length ts' - 1) (item ts')"
  shows "ends m (comma_list n item ts)"
  using assms
proof (induction n arbitrary: ts m)
  case 0
  then show ?case by (simp add: closed_def)
next
  case (Suc n)
  show ?case
  proof (simp, rule ends_bind[OF Suc.prems(4)[OF Suc.prems(1) order_refl]])
    fix x ts1
    assume ts1: "closed ts1" "length ts1 \<le> length ts - 1"
    show "ends m (case match_kind COMMA ts1 of
        (True, ts) \<Rightarrow> pbind (comma_list n item ts) (\<lambda>xs ts. Parsed (x # xs) ts)
      | (False, ts) \<Rightarrow> Parsed [x] ts)"
    proof (cases "next_kind ts1 = COMMA")
      case True
      have less: "length (consume ts1) < length ts1" using consume_less[OF ts1(1)] True by simp
      have "ends (length (consume ts1) - 1) (comma_list n item (consume ts1))"
        using Suc.prems ts1 less closed_pos[OF ts1(1)] closed_pos[OF Suc.prems(1)]
        by (intro Suc.IH closed_consume) auto
      then have "ends m (pbind (comma_list n item (consume ts1)) (\<lambda>xs ts. Parsed (x # xs) ts))"
        using less ts1 Suc.prems(3) by (elim ends_bind) auto
      then show ?thesis using True by (simp add: match_kind_def)
    next
      case False
      then show ?thesis using ts1 Suc.prems(3) by (simp add: match_kind_def)
    qed
  qed
qed

section \<open>Expressions\<close>

text \<open>The bound that suffices for each of the functions; a call takes at least one token unless it
  is the loop.\<close>

primrec call_bound :: "call \<Rightarrow> nat" where
  "call_bound (Binary p) = 3"
| "call_bound (BinaryLoop p l) = 0"
| "call_bound Unary = 2"
| "call_bound Primary = 1"
| "call_bound IdentOrCall = 0"

primrec call_left :: "call \<Rightarrow> nat \<Rightarrow> nat" where
  "call_left (Binary p) m = m - 1"
| "call_left (BinaryLoop p l) m = m"
| "call_left Unary m = m - 1"
| "call_left Primary m = m - 1"
| "call_left IdentOrCall m = m - 1"

definition call_ready :: "call \<Rightarrow> token list \<Rightarrow> bool" where
  "call_ready c ts \<longleftrightarrow> closed ts \<and> (c = IdentOrCall \<longrightarrow> next_kind ts = IDENTIFIER)"

text \<open>What the functions may assume of the calls they make on \<open>m\<close> tokens at most.\<close>

definition rec_ends :: "nat \<Rightarrow> callee \<Rightarrow> bool" where
  "rec_ends n rec \<longleftrightarrow>
     (\<forall>c ts. call_ready c ts \<longrightarrow> 4 * length ts + call_bound c \<le> n \<longrightarrow> ends (call_left c (length ts)) (rec c ts))"

lemma rec_endsD:
  "rec_ends n rec \<Longrightarrow> call_ready c ts \<Longrightarrow> 4 * length ts + call_bound c \<le> n \<Longrightarrow> call_left c (length ts) \<le> m \<Longrightarrow>
     ends m (rec c ts)"
  unfolding rec_ends_def by (blast intro: ends_mono)

lemma ends_binary:
  assumes "rec_ends n rec" and "closed ts" and "4 * length ts + 3 \<le> Suc n"
  shows "ends (length ts - 1) (parse_binary rec p ts)"
proof (cases "p \<le> 3 \<and> next_kind ts = KW_NOT")
  case True
  then have less: "length (consume ts) < length ts" using consume_less[OF assms(2)] by simp
  show ?thesis unfolding parse_binary_def if_P[OF True]
    using less assms(3) closed_pos[OF assms(2)]
    by (intro ends_bind[where k = "length ts - 2"] rec_endsD[OF assms(1)])
       (auto simp: call_ready_def closed_consume assms(2))
next
  case False
  show ?thesis unfolding parse_binary_def if_not_P[OF False]
    using assms(3) closed_pos[OF assms(2)]
    by (intro ends_bind[where k = "length ts - 1"] rec_endsD[OF assms(1)])
       (auto simp: call_ready_def assms(2))
qed

lemma op_kinds: "lookup_op END_OF_FILE = None"
  by (simp add: lookup_op_def op_table_def)

lemma ends_loop:
  assumes "rec_ends n rec" and "closed ts" and "4 * length ts \<le> Suc n"
  shows "ends (length ts) (binary_loop source rec p left ts)"
proof -
  have rest: "closed (consume ts)" "length (consume ts) \<le> length ts"
    using closed_consume[OF assms(2)] length_consume by auto
  show ?thesis
  proof (cases "next_kind ts = KW_IS \<and> 4 \<ge> p")
    case True
    then have less: "length (consume ts) < length ts" using consume_less[OF assms(2)] by simp
    obtain b ts1 where m: "match_kind KW_NOT (consume ts) = (b, ts1)" by (cases "match_kind KW_NOT (consume ts)")
    then have ts1: "closed ts1" "length ts1 < length ts"
      using match_snd[OF rest(1), of KW_NOT] less by auto
    have "next_kind ts1 = KW_NULL \<Longrightarrow> length (consume ts1) < length ts1"
      using consume_less[OF ts1(1)] by simp
    then show ?thesis unfolding binary_loop_def if_P[OF True] m
      using assms(3) ts1 closed_pos[OF assms(2)] closed_pos[OF ts1(1)]
      by (auto simp: Let_def intro!: rec_endsD[OF assms(1)] simp: call_ready_def closed_consume)
  next
    case False
    show ?thesis
    proof (cases "lookup_op (next_kind ts)")
      case None
      then show ?thesis unfolding binary_loop_def if_not_P[OF False] using assms(2) by simp
    next
      case (Some info)
      then have "next_kind ts \<noteq> END_OF_FILE" using op_kinds by auto
      then have less: "length (consume ts) < length ts" using consume_less[OF assms(2)] by simp
      have "ends (length ts) (pbind (rec (Binary (oi_prec info + 1)) (consume ts)) (\<lambda>right ts'.
          rec (BinaryLoop p (make_binary info left right (combine_loc (expr_loc left) (expr_loc right)))) ts'))"
        using less assms(3) closed_pos[OF assms(2)] closed_pos[OF rest(1)]
        by (intro ends_bind[where k = "length ts - 2"] rec_endsD[OF assms(1)])
           (auto simp: call_ready_def rest)
      then show ?thesis unfolding binary_loop_def if_not_P[OF False] Some using assms(2) by simp
    qed
  qed
qed

lemma ends_unary:
  assumes "rec_ends n rec" and "closed ts" and "4 * length ts + 2 \<le> Suc n"
  shows "ends (length ts - 1) (parse_unary rec ts)"
proof -
  have deeper: "ends (length ts - 1) (rec Unary (consume ts))" if "next_kind ts \<in> {MINUS, PLUS}"
    using consume_less[OF assms(2)] that assms(3) closed_pos[OF assms(2)]
    by (intro rec_endsD[OF assms(1)]) (auto simp: call_ready_def closed_consume assms(2))
  have "ends (length ts - 1) (rec Primary ts)"
    using assms(3) by (intro rec_endsD[OF assms(1)]) (auto simp: call_ready_def assms(2))
  then show ?thesis using deeper by (auto simp: parse_unary_def intro!: ends_bind[OF deeper])
qed

lemma ends_tagged:
  assumes "closed ts" and "length ts \<le> m"
  shows "ends m (tagged_string source msg tok build ts)"
  using assms length_consume[of ts] by (auto simp: tagged_string_def Let_def closed_consume)

lemma ends_primary:
  assumes "rec_ends n rec" and "closed ts" and "4 * length ts + 1 \<le> Suc n"
  shows "ends (length ts - 1) (parse_primary source rec ts)"
proof -
  let ?k = "next_kind ts"
  have less: "?k \<noteq> END_OF_FILE \<Longrightarrow> length (consume ts) < length ts"
    using consume_less[OF assms(2)] by simp
  then have less': "?k \<noteq> END_OF_FILE \<Longrightarrow> length (consume ts) \<le> length ts - 1" by fastforce
  have paren: "ends (length ts - 1) (pbind (rec (Binary 1) (consume ts)) (\<lambda>r ts'.
      pbind (expect source RPAREN (''expected '' @ quoted '')'') ts') (\<lambda>_ ts''. Parsed r ts'')))"
    if "?k = LPAREN"
    using less that assms(3) closed_pos[OF assms(2)]
    by (intro ends_bind[where k = "length ts - 1"] rec_endsD[OF assms(1)] ends_expect)
       (auto simp: call_ready_def closed_consume assms(2))
  have ident: "ends (length ts - 1) (rec IdentOrCall ts)" if "?k = IDENTIFIER"
    using that assms(3) by (intro rec_endsD[OF assms(1)]) (auto simp: call_ready_def assms(2))
  show ?thesis unfolding parse_primary_def Let_def
    using less' paren ident closed_consume[OF assms(2)] ends_tagged[OF closed_consume[OF assms(2)], of "length ts - 1"]
    by auto
qed

lemma ends_args:
  assumes "rec_ends n rec" and "closed ts" and "4 * length ts + 3 \<le> n"
  shows "ends (length ts) (call_args n rec ts)"
proof -
  have "ends (length ts - 1) (comma_list n (rec (Binary 1)) ts)"
    using assms(2,3) by (intro ends_comma_list) (auto intro!: rec_endsD[OF assms(1)] simp: call_ready_def)
  then have "ends (length ts) (pbind (comma_list n (rec (Binary 1)) ts) (\<lambda>args ts'. Parsed (args, False) ts'))"
    by (rule ends_bind) auto
  then show ?thesis using assms(2) closed_consume[OF assms(2)] length_consume[of ts] by (simp add: call_args_def)
qed

lemma ends_ident:
  assumes "rec_ends n rec" and "closed ts" and "next_kind ts = IDENTIFIER" and "4 * length ts \<le> Suc n"
  shows "ends (length ts - 1) (parse_ident_or_call source n rec ts)"
proof -
  let ?t1 = "consume ts" and ?t2 = "consume (consume ts)"
  have c1: "closed ?t1" "length ?t1 < length ts" using consume_less[OF assms(2)] assms(2,3) closed_consume by auto
  then have c2: "closed ?t2" "length ?t2 \<le> length ?t1" using closed_consume length_consume by auto
  have call: "ends (length ts - 1) (pbind (call_args n rec ?t2) (\<lambda>(args, star) ts3.
      if next_kind ts3 \<noteq> RPAREN then Rejected (err_msg source (''expected '' @ quoted '')'') (peek_at 0 ts3))
      else Parsed (FuncCall (tk_text (peek_at 0 ts)) args star
             (combine_loc (tk_loc (peek_at 0 ts)) (tk_loc (peek_at 0 ts3)))) (consume ts3)))"
    if "next_kind ?t1 = LPAREN"
  proof -
    have bound: "4 * length ?t2 + 3 \<le> n" using consume_less[OF c1(1)] that c1(2) assms(4) by simp
    show ?thesis
    proof (rule ends_bind[OF ends_args[OF assms(1) c2(1) bound]], goal_cases)
      case (1 x ts3)
      then show ?case using c1(2) c2(2) length_consume[of ts3] by (cases x) (auto simp: closed_consume)
    qed
  qed
  show ?thesis unfolding parse_ident_or_call_def Let_def
    using call c1 c2 closed_consume[OF c2(1)] length_consume[of ?t2] by auto
qed

lemma parse_call_ends: "rec_ends n (parse_call source n)"
proof (induction n)
  case 0
  show ?case by (auto simp: rec_ends_def call_ready_def closed_def)
next
  case (Suc n)
  note ih = ends_binary[OF Suc.IH] ends_loop[OF Suc.IH] ends_unary[OF Suc.IH] ends_primary[OF Suc.IH] ends_ident[OF Suc.IH]
  show ?case unfolding rec_ends_def
  proof (intro allI impI)
    fix c ts
    assume "call_ready c ts" "4 * length ts + call_bound c \<le> Suc n"
    then show "ends (call_left c (length ts)) (parse_call source (Suc n) c ts)"
      by (cases c) (auto simp: call_ready_def simp del: One_nat_def intro!: ih)
  qed
qed

lemma ends_expr:
  "closed ts \<Longrightarrow> 4 * length ts + 3 \<le> n \<Longrightarrow> length ts - 1 \<le> m \<Longrightarrow> ends m (parse_expr source n ts)"
  unfolding parse_expr_def by (rule rec_endsD[OF parse_call_ends]) (auto simp: call_ready_def)

section \<open>Statements\<close>

text \<open>
  The same for parsers as functions of the tokens, under the bound \<open>n\<close>: \<open>eats True\<close> when at least
  one token is taken, \<open>eats False\<close> when there may be none.
\<close>

definition eats :: "bool \<Rightarrow> nat \<Rightarrow> (token list \<Rightarrow> 'a parse) \<Rightarrow> bool" where
  "eats s n p \<longleftrightarrow> (\<forall>ts. closed ts \<longrightarrow> 4 * length ts + 3 \<le> n \<longrightarrow>
     ends (if s then length ts - 1 else length ts) (p ts))"

lemma eatsD: "eats s n p \<Longrightarrow> closed ts \<Longrightarrow> 4 * length ts + 3 \<le> n \<Longrightarrow> ends (if s then length ts - 1 else length ts) (p ts)"
  by (simp add: eats_def)

lemma eats_weaken: "eats True n p \<Longrightarrow> eats False n p"
  by (fastforce simp: eats_def elim: ends_mono)

lemma eats_bind:
  assumes "eats s n p" and "\<And>x. eats False n (f x)"
  shows "eats s n (\<lambda>ts. pbind (p ts) f)"
  unfolding eats_def
proof (intro allI impI)
  fix ts
  assume ts: "closed ts" "4 * length ts + 3 \<le> n"
  show "ends (if s then length ts - 1 else length ts) (pbind (p ts) f)"
  proof (rule ends_bind[OF eatsD[OF assms(1) ts]])
    fix x ts'
    assume ts': "closed ts'" "length ts' \<le> (if s then length ts - 1 else length ts)"
    then have "4 * length ts' + 3 \<le> n" using ts(2) by (auto split: if_splits)
    from eatsD[OF assms(2) ts'(1) this, of x] show "ends (if s then length ts - 1 else length ts) (f x ts')"
      by (rule ends_mono) (use ts'(2) in auto)
  qed
qed

lemma eats_bind_tail:
  assumes "eats False n p" and "\<And>x. eats True n (f x)"
  shows "eats True n (\<lambda>ts. pbind (p ts) f)"
  unfolding eats_def
proof (intro allI impI)
  fix ts
  assume ts: "closed ts" "4 * length ts + 3 \<le> n"
  show "ends (if True then length ts - 1 else length ts) (pbind (p ts) f)"
  proof (rule ends_bind[OF eatsD[OF assms(1) ts]])
    fix x ts'
    assume ts': "closed ts'" "length ts' \<le> (if False then length ts - 1 else length ts)"
    then have "4 * length ts' + 3 \<le> n" using ts(2) by auto
    from eatsD[OF assms(2) ts'(1) this, of x] show "ends (if True then length ts - 1 else length ts) (f x ts')"
      by (rule ends_mono) (use ts'(2) in auto)
  qed
qed

lemma eats_Parsed: "eats False n (Parsed x)" "eats False n (\<lambda>ts. Parsed x (consume ts))"
  by (auto simp: eats_def closed_consume length_consume)

lemma eats_match: "eats False n p \<Longrightarrow> eats False n (\<lambda>ts. p (snd (match_kind k ts)))"
  unfolding eats_def using match_snd[of _ k] by (fastforce elim: ends_mono)

lemma eats_Rejected: "eats s n (\<lambda>ts. Rejected (e ts))" "eats s n (\<lambda>ts. Aborted)"
  by (auto simp: eats_def)

lemma eats_split: "(\<And>a b. eats s n (f a b)) \<Longrightarrow> eats s n (case_prod f x)"
  by (cases x) simp

lemma eats_if: "eats s n p \<Longrightarrow> eats s n q \<Longrightarrow> eats s n (\<lambda>ts. if c ts then p ts else q ts)"
  by (simp add: eats_def)

lemma eats_consume:
  assumes "eats s n p"
  shows "eats s n (\<lambda>ts. p (consume ts))"
  unfolding eats_def
proof (intro allI impI)
  fix ts
  assume ts: "closed ts" "4 * length ts + 3 \<le> n"
  have "ends (if s then length (consume ts) - 1 else length (consume ts)) (p (consume ts))"
    using eatsD[OF assms closed_consume[OF ts(1)]] ts(2) length_consume[of ts] by simp
  then show "ends (if s then length ts - 1 else length ts) (p (consume ts))"
    using length_consume[of ts] by (auto elim!: ends_mono)
qed

lemma eats_expect: "k \<noteq> END_OF_FILE \<Longrightarrow> eats True n (expect source k msg)"
  "k \<noteq> END_OF_FILE \<Longrightarrow> eats True n (expect_text source k msg)"
  by (auto simp: eats_def intro: ends_expect ends_expect_text)

lemma eats_when:
  assumes "k \<noteq> END_OF_FILE" and "eats False n p"
  shows "eats False n (when_kind k p d)"
  unfolding eats_def
proof (intro allI impI)
  fix ts
  assume ts: "closed ts" "4 * length ts + 3 \<le> n"
  have "ends (length ts) (when_kind k p d ts)"
  proof (rule ends_when_kind[OF ts(1) assms(1) order_refl])
    fix ts'
    assume ts': "closed ts'" "length ts' \<le> length ts - 1"
    then have "4 * length ts' + 3 \<le> n" using ts(2) by simp
    from eatsD[OF assms(2) ts'(1) this] show "ends (length ts) (p ts')"
      by (rule ends_mono) (use ts'(2) in auto)
  qed
  then show "ends (if False then length ts - 1 else length ts) (when_kind k p d ts)" by simp
qed

lemma eats_comma:
  assumes "eats True n item"
  shows "eats True n (comma_list n item)"
  unfolding eats_def using eatsD[OF assms] by (auto intro!: ends_comma_list)

lemma eats_expr: "eats True n (parse_expr source n)"
  by (auto simp: eats_def intro: ends_expr)

lemmas eats_rules = eats_Parsed eats_Rejected eats_split eats_if eats_expect eats_when eats_comma eats_expr

lemma eats_int_literal: "eats True n (\<lambda>ts. parse_int_literal source what ts)"
  unfolding parse_int_literal_def by (intro eats_bind eats_rules) auto

lemma eats_alias: "eats False n (\<lambda>ts. parse_alias source ts)"
  unfolding eats_def
proof (intro allI impI)
  fix ts
  assume ts: "closed ts"
  show "ends (if False then length ts - 1 else length ts) (parse_alias source ts)"
    using ts match_snd[OF ts, of KW_AS] length_consume[of ts] length_consume[of "snd (match_kind KW_AS ts)"]
    by (auto simp: parse_alias_def closed_consume split: prod.splits bool.splits)
qed

lemma eats_select_item: "eats True n (\<lambda>ts. parse_select_item source n ts)"
  unfolding parse_select_item_def by (intro eats_bind eats_rules eats_alias)

lemma eats_table_ref: "eats True n (\<lambda>ts. parse_table_ref source ts)"
  unfolding eats_def
proof (intro allI impI)
  fix ts
  assume ts: "closed ts" "4 * length ts + 3 \<le> n"
  show "ends (if True then length ts - 1 else length ts) (parse_table_ref source ts)"
    using consume_less[OF ts(1)] ts eatsD[OF eats_alias[of n], OF closed_consume[OF ts(1)]]
    by (auto simp: parse_table_ref_def Let_def intro!: ends_bind[where k = "length (consume ts)"])
qed

lemma eats_join_clause: "eats True n (\<lambda>ts. parse_join_clause source n ts)"
proof -
  have "eats True n (\<lambda>ts. pbind (expect source KW_JOIN ''expected JOIN'' ts) (\<lambda>_ ts.
         pbind (parse_table_ref source ts) (\<lambda>right ts.
         pbind (expect source KW_ON ''expected ON after join table'' ts) (\<lambda>_ ts.
         pbind (parse_expr source n ts) (\<lambda>on ts.
           Parsed \<lparr> jc_right = right, jc_on = on \<rparr> ts)))))" (is "eats True n ?p")
    by (intro eats_bind eats_rules eats_weaken[OF eats_expr] eats_weaken[OF eats_table_ref] eats_weaken[OF eats_expect(1)]) auto
  then have "eats True n (\<lambda>ts. ?p (snd (match_kind KW_INNER ts)))"
    unfolding eats_def using match_snd[of _ KW_INNER] by (fastforce elim: ends_mono)
  then show ?thesis unfolding parse_join_clause_def Let_def .
qed

text \<open>The loops of statements: every round takes a token.\<close>

lemma eats_joins_aux:
  assumes "closed ts" and "4 * length ts + 3 \<le> n" and "length ts \<le> k"
  shows "ends (length ts) (parse_joins source k n ts)"
  using assms
proof (induction k arbitrary: ts)
  case 0
  then show ?case by (simp add: closed_def)
next
  case (Suc k)
  have step: "ends (length ts) (pbind (parse_join_clause source n ts) (\<lambda>j ts.
      pbind (parse_joins source k n ts) (\<lambda>js ts. Parsed (j # js) ts)))"
  proof (rule ends_bind[OF eatsD[OF eats_join_clause Suc.prems(1,2)]])
    fix x ts'
    assume ts': "closed ts'" "length ts' \<le> (if True then length ts - 1 else length ts)"
    then have "ends (length ts') (parse_joins source k n ts')"
      using Suc.prems by (intro Suc.IH) auto
    then show "ends (length ts) (pbind (parse_joins source k n ts') (\<lambda>js ts. Parsed (x # js) ts))"
      using ts' by (elim ends_bind) auto
  qed
  then show ?case using Suc.prems by simp
qed

lemma eats_joins: "eats False n (parse_joins source n n)"
  by (auto simp: eats_def intro!: eats_joins_aux)

lemma eats_order_by_item: "eats True n (\<lambda>ts. parse_order_by_item source n ts)"
proof -
  have "eats False n (\<lambda>ts. case match_kind KW_DESC ts of
         (True, ts) \<Rightarrow> Parsed \<lparr> ob_expr = e, ob_ascending = False \<rparr> ts
       | (False, ts) \<Rightarrow> Parsed \<lparr> ob_expr = e, ob_ascending = True \<rparr> (snd (match_kind KW_ASC ts)))" for e
    unfolding eats_def using match_snd by (auto simp: match_kind_def closed_consume length_consume)
  then show ?thesis unfolding parse_order_by_item_def by (intro eats_bind eats_expr)
qed

lemma eats_projections: "eats False n (\<lambda>ts. parse_projections source n ts)"
  unfolding parse_projections_def
  by (intro eats_if eats_bind eats_rules eats_weaken[OF eats_comma] eats_select_item)

lemma eats_some: "eats False n (\<lambda>ts. parse_some source n ts)"
  unfolding parse_some_def by (intro eats_bind eats_rules eats_weaken[OF eats_expr])

lemma eats_limit: "eats False n (\<lambda>ts. parse_limit source what ts)"
  unfolding parse_limit_def by (intro eats_bind eats_rules eats_weaken[OF eats_int_literal])

lemma eats_by_list: "eats True n item \<Longrightarrow> eats False n (\<lambda>ts. parse_by_list source n what item ts)"
  unfolding parse_by_list_def
  by (intro eats_weaken[OF eats_bind] eats_expect eats_weaken[OF eats_comma]) auto

lemmas eats_parts = eats_weaken[OF eats_expect(1)] eats_weaken[OF eats_expect(2)] eats_weaken[OF eats_comma]
  eats_weaken[OF eats_expr] eats_weaken[OF eats_table_ref] eats_weaken[OF eats_int_literal]
  eats_joins eats_projections eats_some eats_limit eats_by_list eats_order_by_item eats_alias

lemma eats_select: "eats True n (\<lambda>ts. parse_select source n ts)"
  unfolding parse_select_def
  by (intro eats_bind eats_split eats_expect eats_parts eats_when eats_Parsed eats_expr) auto

lemma eats_or_abort: "eats False n (or_abort v)"
  by (cases v) (simp_all add: or_abort_def eats_def)

lemma eats_default_values:
  "eats False n (default_date source s)" "eats False n (default_timestamp s)"
  by (auto simp: eats_def default_date_def default_timestamp_def Let_def split: option.splits)

lemma eats_default_literal: "eats False n (\<lambda>ts. parse_default_literal source ts)"
proof -
  have "eats False n (\<lambda>ts. or_abort (v ts) (consume ts))" for v :: "token list \<Rightarrow> val option"
    by (auto simp: eats_def or_abort_def closed_consume length_consume split: option.splits)
  moreover have "eats False n (\<lambda>ts. Parsed (v ts) (consume ts))" for v :: "token list \<Rightarrow> val"
    by (auto simp: eats_def closed_consume length_consume)
  ultimately show ?thesis unfolding parse_default_literal_def Let_def
    by (intro eats_if eats_Rejected eats_bind eats_default_values
        eats_consume[OF eats_weaken[OF eats_expect(2)]]) auto
qed

lemma eats_column_type: "eats False n (\<lambda>ts. parse_column_type source ts)"
proof -
  have "eats False n (\<lambda>ts. parse_varchar_len source ts)"
    unfolding parse_varchar_len_def
    by (intro eats_bind eats_if eats_rules eats_parts) auto
  then show ?thesis unfolding parse_column_type_def Let_def
    by (intro eats_if eats_rules eats_bind eats_consume[OF eats_when]) auto
qed

lemma eats_column_options_aux:
  assumes "closed ts" and "4 * length ts + 3 \<le> k" and "length ts \<le> n"
  shows "ends (length ts) (column_options source n d ts)"
  using assms
proof (induction n arbitrary: ts d)
  case 0
  then show ?case by (simp add: closed_def)
next
  case (Suc n)
  have step: "ends (length ts) (pbind (p (consume ts)) (\<lambda>x ts. column_options source n (f x) ts))"
    if "eats False k p" "next_kind ts \<noteq> END_OF_FILE" for p :: "token list \<Rightarrow> 'a parse" and f
  proof -
    have less: "length (consume ts) < length ts" using consume_less[OF Suc.prems(1) that(2)] .
    have "ends (length (consume ts)) (p (consume ts))"
      using eatsD[OF that(1) closed_consume[OF Suc.prems(1)]] less Suc.prems(2) by simp
    then show ?thesis
    proof (rule ends_bind)
      fix x ts'
      assume "closed ts'" "length ts' \<le> length (consume ts)"
      then show "ends (length ts) (column_options source n (f x) ts')"
        using less Suc.prems by (intro ends_mono[OF Suc.IH]) auto
    qed
  qed
  have uniq: "next_kind ts \<noteq> END_OF_FILE \<Longrightarrow> ends (length ts) (column_options source n d' (consume ts))" for d'
    using consume_less[OF Suc.prems(1)] Suc.prems
    by (intro ends_mono[OF Suc.IH]) (auto simp: closed_consume)
  show ?case using Suc.prems(1) uniq
      step[of "expect source KW_NULL ''expected NULL after NOT''" "\<lambda>_. d\<lparr>cd_nullable := False\<rparr>"]
      step[of "expect source KW_KEY ''expected KEY after PRIMARY''" "\<lambda>_. d\<lparr>cd_primary_key := True, cd_nullable := False\<rparr>"]
      step[of "parse_default_literal source" "\<lambda>v. d\<lparr>cd_default := Some v\<rparr>"]
      eats_weaken[OF eats_expect(1)] eats_default_literal
    by simp
qed

lemma eats_column_def: "eats True n (\<lambda>ts. parse_column_def source n ts)"
proof -
  have "eats False n (column_options source n d)" for d
    by (auto simp: eats_def intro!: eats_column_options_aux)
  then show ?thesis unfolding parse_column_def_def
    by (intro eats_bind eats_split eats_expect eats_column_type) auto
qed

lemma eats_name_list: "eats True n (\<lambda>ts. name_list source n ts)"
  unfolding name_list_def by (intro eats_comma eats_expect) auto

lemma eats_constraint_kind: "eats False n (\<lambda>ts. parse_constraint_kind source ts)"
  unfolding parse_constraint_kind_def
  by (intro eats_if eats_rules eats_bind eats_consume[OF eats_weaken[OF eats_expect(1)]]
      eats_consume[OF eats_match[OF eats_Parsed(1)]]) auto

lemma eats_table_constraint: "eats True n (\<lambda>ts. parse_table_constraint source n ts)"
  unfolding parse_table_constraint_def
  by (rule eats_bind_tail, intro eats_when eats_parts, simp, simp, rule eats_bind_tail, rule eats_constraint_kind)
     (intro eats_bind eats_if eats_rules eats_parts eats_weaken[OF eats_name_list]; simp)

lemma eats_partition_def: "eats True n (\<lambda>ts. parse_partition_def source n ts)"
proof -
  have "eats False n (\<lambda>ts. parse_upper_bound source n ts)"
    unfolding parse_upper_bound_def by (intro eats_if eats_rules eats_bind eats_parts)
  then show ?thesis unfolding parse_partition_def_def
    by (intro eats_bind eats_split eats_expect eats_parts eats_Parsed) auto
qed

lemma eats_table_element: "eats True n (\<lambda>ts. parse_table_element source n ts)"
  unfolding parse_table_element_def
  by (intro eats_if eats_bind eats_Parsed eats_table_constraint eats_column_def)

lemma eats_partitioning: "eats False n (\<lambda>ts. parse_partitioning source n ts)"
  unfolding parse_partitioning_def
  by (intro eats_if eats_bind eats_Parsed eats_consume[OF eats_weaken[OF eats_expect(1)]] eats_parts eats_partition_def) auto

lemma eats_create_table: "eats True n (\<lambda>ts. parse_create_table source n ts)"
  unfolding parse_create_table_def
  by (intro eats_bind eats_split eats_expect eats_parts eats_table_element eats_partitioning eats_Parsed) auto

lemma eats_row: "eats True n (\<lambda>ts. parse_row source n ts)"
  unfolding parse_row_def by (intro eats_bind eats_expect eats_parts eats_expr eats_Parsed) auto

lemma eats_insert: "eats True n (\<lambda>ts. parse_insert source n ts)"
proof -
  have "eats False n (\<lambda>ts. parse_insert_columns source n ts)"
    unfolding parse_insert_columns_def
    by (intro eats_bind eats_weaken[OF eats_name_list] eats_parts eats_Parsed) auto
  then show ?thesis unfolding parse_insert_def
    by (intro eats_bind eats_expect eats_parts eats_when eats_row eats_Parsed) auto
qed

lemma eats_drop_table: "eats True n (\<lambda>ts. parse_drop_table source ts)"
  unfolding parse_drop_table_def
  by (intro eats_bind eats_consume[OF eats_expect(1)] eats_parts eats_when eats_Parsed) auto

lemma eats_delete: "eats True n (\<lambda>ts. parse_delete source n ts)"
  unfolding parse_delete_def
  by (intro eats_bind eats_consume[OF eats_expect(1)] eats_parts eats_when eats_Parsed) auto

lemma eats_update: "eats True n (\<lambda>ts. parse_update source n ts)"
proof -
  have "eats True n (\<lambda>ts. parse_assignment source n ts)"
    unfolding parse_assignment_def by (intro eats_bind eats_expect eats_parts eats_Parsed) auto
  then show ?thesis unfolding parse_update_def
    by (intro eats_bind eats_consume[OF eats_expect(2)] eats_parts eats_when eats_Parsed) auto
qed

lemma eats_create_index: "eats True n (\<lambda>ts. parse_create_index source n ts)"
proof -
  have "eats True n (\<lambda>ts. create_index_rest source n u ts)" for u
    unfolding create_index_rest_def
    by (intro eats_bind eats_expect eats_parts eats_weaken[OF eats_name_list] eats_Parsed) auto
  then have "eats True n (\<lambda>ts. if next_kind ts = KW_UNIQUE then create_index_rest source n True (consume ts)
      else create_index_rest source n False ts)"
    by (intro eats_if eats_consume[of True n "create_index_rest source n True"])
  from eats_consume[OF this] show ?thesis
    by (simp add: parse_create_index_def match_kind_def if_distrib[of "case_prod _"] cong: if_cong)
qed

lemma eats_drop_index: "eats True n (\<lambda>ts. parse_drop_index source ts)"
  unfolding parse_drop_index_def
  by (intro eats_bind eats_consume[OF eats_expect(1)] eats_parts eats_Parsed) auto

lemma eats_show:
  "eats True n (\<lambda>ts. parse_show_indexes source ts)" "eats True n (\<lambda>ts. parse_show_constraints source ts)"
  unfolding parse_show_indexes_def parse_show_constraints_def
  by (intro eats_bind eats_consume[OF eats_expect(1)] eats_parts eats_Parsed; simp)+

lemma eats_alter: "eats True n (\<lambda>ts. parse_alter_add_partition source n ts)"
  unfolding parse_alter_add_partition_def
  by (intro eats_bind eats_expect eats_parts eats_weaken[OF eats_partition_def] eats_Parsed) auto

lemma eats_as_statement: "eats True n p \<Longrightarrow> eats True n (\<lambda>ts. as_statement f (p ts))"
  unfolding as_statement_def by (intro eats_bind eats_Parsed)

lemma eats_one_statement: "eats True n (\<lambda>ts. parse_one_statement source n ts)"
  unfolding parse_one_statement_def Let_def
  by (intro eats_if eats_Rejected eats_as_statement eats_select eats_create_table eats_create_index eats_insert
      eats_drop_table eats_drop_index eats_show eats_delete eats_update eats_alter eats_bind eats_Parsed
      eats_consume[OF eats_expect(2)]) auto

lemma ends_parse_loop:
  assumes "closed ts" and "4 * length ts + 3 \<le> n" and "length ts \<le> m"
  shows "ends (length ts) (parse_loop source m n ts)"
  using assms
proof (induction m arbitrary: ts)
  case 0
  then show ?case by (simp add: closed_def)
next
  case (Suc m)
  have "ends (length ts) (pbind (parse_one_statement source n ts) (\<lambda>s ts.
      if next_kind ts = END_OF_FILE then Parsed [s] ts
      else pbind (expect source SEMICOLON (''expected '' @ quoted '';'' @ '' between statements'') ts) (\<lambda>_ ts.
           pbind (parse_loop source m n ts) (\<lambda>ss ts. Parsed (s # ss) ts))))"
  proof (rule ends_bind[OF eatsD[OF eats_one_statement Suc.prems(1,2)]])
    fix s ts1
    assume ts1: "closed ts1" "length ts1 \<le> (if True then length ts - 1 else length ts)"
    have "ends (length ts) (pbind (expect source SEMICOLON (''expected '' @ quoted '';'' @ '' between statements'') ts1)
        (\<lambda>_ ts. pbind (parse_loop source m n ts) (\<lambda>ss ts. Parsed (s # ss) ts)))"
    proof (rule ends_bind[OF ends_expect[OF ts1(1) _ order_refl]])
      fix x ts2
      assume ts2: "closed ts2" "length ts2 \<le> length ts1 - 1"
      then have "ends (length ts2) (parse_loop source m n ts2)" using ts1 Suc.prems by (intro Suc.IH) auto
      then show "ends (length ts) (pbind (parse_loop source m n ts2) (\<lambda>ss ts. Parsed (s # ss) ts))"
        using ts1(2) ts2(2) by (elim ends_bind) auto
    qed simp
    then show "ends (length ts) (if next_kind ts1 = END_OF_FILE then Parsed [s] ts1
      else pbind (expect source SEMICOLON (''expected '' @ quoted '';'' @ '' between statements'') ts1) (\<lambda>_ ts.
           pbind (parse_loop source m n ts) (\<lambda>ss ts. Parsed (s # ss) ts)))"
      using ts1 by auto
  qed
  then show ?case using Suc.prems by simp
qed

section \<open>The bound does not matter\<close>

definition agrees :: "'a parse \<Rightarrow> 'a parse \<Rightarrow> bool" where
  "agrees r r' \<longleftrightarrow> r = Unfinished \<or> r = r'"

lemma agrees_refl [simp]: "agrees r r"
  by (simp add: agrees_def)

lemma agrees_Unfinished [simp]: "agrees Unfinished r"
  by (simp add: agrees_def)

lemma agrees_bind:
  assumes "agrees r r'" and "\<And>x ts. agrees (f x ts) (f' x ts)"
  shows "agrees (pbind r f) (pbind r' f')"
proof (cases r)
  case (Parsed x ts)
  then show ?thesis using assms(1) assms(2)[of x ts] by (auto simp: agrees_def)
qed (use assms(1) in \<open>auto simp: agrees_def\<close>)

lemma agrees_if: "agrees a a' \<Longrightarrow> agrees b b' \<Longrightarrow> agrees (if c then a else b) (if c then a' else b')"
  by simp

lemma agrees_split: "(\<And>a b. agrees (f a b ts) (f' a b ts)) \<Longrightarrow> agrees (case_prod f x ts) (case_prod f' x ts)"
  by (cases x) simp

lemma agrees_when: "(\<And>ts. agrees (p ts) (p' ts)) \<Longrightarrow> agrees (when_kind k p d ts) (when_kind k p' d ts)"
  by (simp add: when_kind_def match_kind_def)

lemma agrees_comma: "(\<And>ts. agrees (p ts) (p' ts)) \<Longrightarrow> agrees (comma_list n p ts) (comma_list (Suc n) p' ts)"
proof (induction n arbitrary: ts)
  case (Suc n)
  have "agrees (comma_list (Suc n) p ts)
    (pbind (p' ts) (\<lambda>x ts. case match_kind COMMA ts of
         (True, ts) \<Rightarrow> pbind (comma_list (Suc n) p' ts) (\<lambda>xs ts. Parsed (x # xs) ts)
       | (False, ts) \<Rightarrow> Parsed [x] ts))"
    unfolding comma_list.simps(2)[of n p] match_kind_def using Suc
    by (auto intro!: agrees_bind simp del: comma_list.simps)
  then show ?case by (simp only: comma_list.simps(2))
qed simp

definition rec_agrees :: "callee \<Rightarrow> callee \<Rightarrow> bool" where
  "rec_agrees r r' \<longleftrightarrow> (\<forall>c ts. agrees (r c ts) (r' c ts))"

lemma parse_call_agrees: "rec_agrees (parse_call source n) (parse_call source (Suc n))"
proof (induction n)
  case 0
  show ?case by (simp add: rec_agrees_def)
next
  case (Suc n)
  then have ih: "\<And>c ts. agrees (parse_call source n c ts) (parse_call source (Suc n) c ts)"
    by (simp add: rec_agrees_def)
  let ?r = "parse_call source n" and ?r' = "parse_call source (Suc n)"
  have bin: "agrees (parse_binary ?r p ts) (parse_binary ?r' p ts)" for p ts
    unfolding parse_binary_def by (intro agrees_if agrees_bind ih)
  have loop: "agrees (binary_loop source ?r p l ts) (binary_loop source ?r' p l ts)" for p l ts
    unfolding binary_loop_def match_kind_def using ih
    by (auto simp: Let_def split: option.splits intro!: agrees_bind simp del: parse_call.simps)
  have un: "agrees (parse_unary ?r ts) (parse_unary ?r' ts)" for ts
    unfolding parse_unary_def by (intro agrees_if agrees_bind ih agrees_refl)
  have prim: "agrees (parse_primary source ?r ts) (parse_primary source ?r' ts)" for ts
    unfolding parse_primary_def Let_def by (intro agrees_if agrees_bind ih agrees_refl)
  have args: "agrees (call_args n ?r ts) (call_args (Suc n) ?r' ts)" for ts
    unfolding call_args_def by (intro agrees_if agrees_bind agrees_comma ih agrees_refl)
  have ident: "agrees (parse_ident_or_call source n ?r ts) (parse_ident_or_call source (Suc n) ?r' ts)" for ts
    unfolding parse_ident_or_call_def Let_def by (intro agrees_if agrees_bind args agrees_refl)
  show ?case unfolding rec_agrees_def
  proof (intro allI)
    fix c ts
    show "agrees (parse_call source (Suc n) c ts) (parse_call source (Suc (Suc n)) c ts)"
      unfolding parse_call.simps(2)[of source "Suc n"] parse_call.simps(2)[of source n]
      using bin loop un prim ident
      by (cases c) (simp_all del: parse_call.simps add: parse_call.simps(2)[symmetric])
  qed
qed

lemma agrees_expr: "agrees (parse_expr source n ts) (parse_expr source (Suc n) ts)"
  using parse_call_agrees[of source n] unfolding parse_expr_def rec_agrees_def by blast

lemmas agrees_rules = agrees_bind agrees_if agrees_split agrees_when agrees_comma agrees_expr

lemma agrees_some: "agrees (parse_some source n ts) (parse_some source (Suc n) ts)"
  unfolding parse_some_def by (intro agrees_rules agrees_refl)

lemma agrees_select_item: "agrees (parse_select_item source n ts) (parse_select_item source (Suc n) ts)"
  unfolding parse_select_item_def by (intro agrees_rules agrees_refl)

lemma agrees_join_clause: "agrees (parse_join_clause source n ts) (parse_join_clause source (Suc n) ts)"
  unfolding parse_join_clause_def Let_def by (intro agrees_rules agrees_refl)

lemma agrees_joins: "agrees (parse_joins source k n ts) (parse_joins source (Suc k) (Suc n) ts)"
proof (induction k arbitrary: ts)
  case (Suc k)
  show ?case
    by (subst parse_joins.simps(2), subst parse_joins.simps(2), intro agrees_rules agrees_refl agrees_join_clause Suc.IH)
qed simp

lemma agrees_order_by_item: "agrees (parse_order_by_item source n ts) (parse_order_by_item source (Suc n) ts)"
  unfolding parse_order_by_item_def by (intro agrees_bind agrees_expr agrees_refl)

lemma agrees_projections: "agrees (parse_projections source n ts) (parse_projections source (Suc n) ts)"
  unfolding parse_projections_def by (intro agrees_rules agrees_refl agrees_select_item)

lemma agrees_by_list:
  "(\<And>ts. agrees (p ts) (p' ts)) \<Longrightarrow> agrees (parse_by_list source n what p ts) (parse_by_list source (Suc n) what p' ts)"
  unfolding parse_by_list_def by (intro agrees_bind agrees_comma agrees_refl)

lemma agrees_select: "agrees (parse_select source n ts) (parse_select source (Suc n) ts)"
  unfolding parse_select_def
  by (intro agrees_bind agrees_split agrees_when agrees_projections agrees_joins agrees_some agrees_by_list
      agrees_expr agrees_order_by_item agrees_refl)

lemma agrees_column_options: "agrees (column_options source n d ts) (column_options source (Suc n) d ts)"
proof (induction n arbitrary: d ts)
  case (Suc n)
  show ?case
    by (subst column_options.simps(2), subst column_options.simps(2), intro agrees_bind agrees_if agrees_refl Suc.IH)
qed simp

lemma agrees_name_list: "agrees (name_list source n ts) (name_list source (Suc n) ts)"
  unfolding name_list_def by (intro agrees_comma agrees_refl)

lemma agrees_table_element: "agrees (parse_table_element source n ts) (parse_table_element source (Suc n) ts)"
  unfolding parse_table_element_def parse_table_constraint_def parse_column_def_def
  by (intro agrees_if agrees_bind agrees_split agrees_column_options agrees_name_list agrees_refl)

lemma agrees_partition_def: "agrees (parse_partition_def source n ts) (parse_partition_def source (Suc n) ts)"
  unfolding parse_partition_def_def parse_upper_bound_def by (intro agrees_rules agrees_refl)

lemma agrees_create_table: "agrees (parse_create_table source n ts) (parse_create_table source (Suc n) ts)"
  unfolding parse_create_table_def parse_partitioning_def
  by (intro agrees_bind agrees_if agrees_split agrees_comma agrees_table_element agrees_partition_def agrees_refl)

lemma agrees_insert: "agrees (parse_insert source n ts) (parse_insert source (Suc n) ts)"
  unfolding parse_insert_def parse_insert_columns_def parse_row_def
  by (intro agrees_rules agrees_name_list agrees_refl)

lemma agrees_delete: "agrees (parse_delete source n ts) (parse_delete source (Suc n) ts)"
  unfolding parse_delete_def by (intro agrees_bind agrees_when agrees_some agrees_refl)

lemma agrees_update: "agrees (parse_update source n ts) (parse_update source (Suc n) ts)"
  unfolding parse_update_def parse_assignment_def by (intro agrees_rules agrees_some agrees_refl)

lemma agrees_create_index: "agrees (parse_create_index source n ts) (parse_create_index source (Suc n) ts)"
  unfolding parse_create_index_def create_index_rest_def
  by (cases "match_kind KW_UNIQUE (consume ts)") (auto intro!: agrees_bind agrees_name_list)

lemma agrees_alter: "agrees (parse_alter_add_partition source n ts) (parse_alter_add_partition source (Suc n) ts)"
  unfolding parse_alter_add_partition_def by (intro agrees_bind agrees_partition_def agrees_refl)

lemma agrees_one_statement: "agrees (parse_one_statement source n ts) (parse_one_statement source (Suc n) ts)"
  unfolding parse_one_statement_def Let_def as_statement_def
  by (intro agrees_if agrees_bind agrees_select agrees_create_table agrees_create_index agrees_insert
      agrees_delete agrees_update agrees_alter agrees_refl)

lemma agrees_parse_loop: "agrees (parse_loop source m n ts) (parse_loop source (Suc m) (Suc n) ts)"
proof (induction m arbitrary: ts)
  case (Suc m)
  show ?case
    by (subst parse_loop.simps(2), subst parse_loop.simps(2), intro agrees_bind agrees_if agrees_refl agrees_one_statement Suc.IH)
qed simp

lemma agrees_stable:
  assumes "\<And>n. agrees (f n) (f (Suc n))" and "f m \<noteq> Unfinished" and "m \<le> n"
  shows "f n = f m"
  using assms(3)
proof (induction n rule: dec_induct)
  case (step n)
  then show ?case using assms(1)[of n] assms(2) by (simp add: agrees_def)
qed simp

section \<open>Termination\<close>

lemma tokenize_closed: "tokenize src = ok toks \<Longrightarrow> closed toks"
  by (auto simp: tokenize_def closed_def split: sum.splits)

text \<open>C14. The front end always answers. Whatever the source, when it has been cut into tokens the parser
  comes to a result: a list of statements, an error message, or an exception from a \<open>DEFAULT\<close> literal
  that does not fit. The depth of its recursion and the rounds of each of its loops stay within four
  times the number of tokens plus three: with that bound or any larger one the outcome is the same
  and not \<open>Unfinished\<close>; so it is for an expression alone.\<close>

theorem parser_terminates:
  assumes "tokenize src = ok toks" and "n \<ge> 4 * length toks + 3"
  shows "parse src n toks \<noteq> Unfinished \<and> parse src n toks = parse src (4 * length toks + 3) toks \<and>
         parse_expr src n toks \<noteq> Unfinished \<and> parse_expr src n toks = parse_expr src (4 * length toks + 3) toks"
proof -
  let ?m = "4 * length toks + 3"
  have c: "closed toks" by (rule tokenize_closed[OF assms(1)])
  have "parse src ?m toks \<noteq> Unfinished"
    using ends_parse_loop[OF c order_refl, of ?m src] by (auto simp: parse_def)
  moreover have "parse_expr src ?m toks \<noteq> Unfinished"
    using ends_expr[OF c order_refl order_refl, of src] by auto
  moreover have "agrees (parse src k toks) (parse src (Suc k) toks)" for k
    unfolding parse_def by (rule agrees_parse_loop)
  ultimately show ?thesis
    using agrees_stable[of "\<lambda>k. parse src k toks" ?m n] agrees_stable[of "\<lambda>k. parse_expr src k toks" ?m n]
      agrees_expr assms(2) by metis
qed

theorem parser_terminates_witness:
  "\<exists>toks. tokenize ''a<=1'' = ok toks \<and> 4 * length toks + 3 \<le> 100 \<and>
     parse ''a<=1'' 100 toks \<noteq> Unfinished \<and> parse ''a<=1'' 100 toks = parse ''a<=1'' (4 * length toks + 3) toks \<and>
     parse_expr ''a<=1'' 100 toks \<noteq> Unfinished \<and>
     parse_expr ''a<=1'' 100 toks = parse_expr ''a<=1'' (4 * length toks + 3) toks"
proof -
  define toks where "toks = projr (tokenize ''a<=1'')"
  have "tokenize ''a<=1'' = ok toks" "4 * length toks + 3 \<le> 100" unfolding toks_def sample_tokenize by simp_all
  then show ?thesis using parser_terminates[of "''a<=1''" toks 100] by blast
qed

end
