(* ===== verification/Grammar.thy ===== *)
theory Grammar
  imports Parser_Total
begin

text \<open>
  The grammar of expressions, as an inductive definition on token kinds and texts with a level of
  precedence, and the theorem that the parser implements it: every phrase of the grammar is parsed to
  its tree. A tree of the grammar has no locations; \<open>strip\<close> removes those the parser adds.
\<close>

section \<open>The grammar\<close>

type_synonym sym = "token_kind \<times> string"

definition sym_of :: "token \<Rightarrow> sym" where
  "sym_of t = (tk_kind t, tk_text t)"

text \<open>The operand of a minus sign: a literal is negated, anything else subtracted from 0.\<close>

definition negated :: "ast_expr \<Rightarrow> ast_expr" where
  "negated e =
     (case e of
        IntLit v _ \<Rightarrow> IntLit (- v) no_loc
      | DoubleLit v _ \<Rightarrow> DoubleLit (v XOR push_bit 63 1) no_loc
      | _ \<Rightarrow> BinaryExpr SUB (IntLit 0 no_loc) e no_loc)"

text \<open>
  Levels: 1 for \<open>OR\<close>, 2 for \<open>AND\<close>, 3 for \<open>NOT\<close>, 4 for comparisons and \<open>IS NULL\<close>, 5 for sums, 6
  for products, 7 for signs and primaries. Binary operators associate to the left.
\<close>

inductive expr_gram :: "nat \<Rightarrow> ast_expr \<Rightarrow> sym list \<Rightarrow> bool"
  and unary_gram :: "ast_expr \<Rightarrow> sym list \<Rightarrow> bool"
  and args_gram :: "ast_expr list \<Rightarrow> sym list \<Rightarrow> bool"
where
  level: "expr_gram (Suc p) e ss \<Longrightarrow> expr_gram p e ss"
| unary: "unary_gram e ss \<Longrightarrow> expr_gram 7 e ss"
| binary: "lookup_op k = Some info \<Longrightarrow> expr_gram (oi_prec info) l ss \<Longrightarrow> expr_gram (oi_prec info + 1) r us \<Longrightarrow>
     expr_gram (oi_prec info) (make_binary info l r no_loc) (ss @ (k, t) # us)"
| is_null: "expr_gram 4 e ss \<Longrightarrow> expr_gram 4 (NullCheck IS_NULL e no_loc) (ss @ [(KW_IS, t), (KW_NULL, u)])"
| is_not_null: "expr_gram 4 e ss \<Longrightarrow>
     expr_gram 4 (NullCheck IS_NOT_NULL e no_loc) (ss @ [(KW_IS, t), (KW_NOT, u), (KW_NULL, w)])"
| negation: "expr_gram 3 e ss \<Longrightarrow> expr_gram 3 (NotExpr e no_loc) ((KW_NOT, t) # ss)"
| minus: "unary_gram e ss \<Longrightarrow> unary_gram (negated e) ((MINUS, t) # ss)"
| plus: "unary_gram e ss \<Longrightarrow> unary_gram e ((PLUS, t) # ss)"
| int_lit: "unary_gram (IntLit (strtoll t) no_loc) [(INT_LITERAL, t)]"
| double_lit: "unary_gram (DoubleLit (strtod t) no_loc) [(DOUBLE_LITERAL, t)]"
| string_lit: "unary_gram (StringLit t no_loc) [(STRING_LITERAL, t)]"
| null_lit: "unary_gram (NullLit no_loc) [(KW_NULL, t)]"
| true_lit: "unary_gram (BoolLit True no_loc) [(KW_TRUE, t)]"
| false_lit: "unary_gram (BoolLit False no_loc) [(KW_FALSE, t)]"
| date_lit: "unary_gram (DateLit u no_loc) [(KW_DATE, t), (STRING_LITERAL, u)]"
| timestamp_lit: "unary_gram (TimestampLit u no_loc) [(KW_TIMESTAMP, t), (STRING_LITERAL, u)]"
| parens: "expr_gram 1 e ss \<Longrightarrow> unary_gram e ((LPAREN, t) # ss @ [(RPAREN, u)])"
| column: "unary_gram (ColumnName None c no_loc) [(IDENTIFIER, c)]"
| qualified_column: "unary_gram (ColumnName (Some q) c no_loc) [(IDENTIFIER, q), (DOT, t), (IDENTIFIER, c)]"
| call_none: "unary_gram (FuncCall f [] False no_loc) [(IDENTIFIER, f), (LPAREN, t), (RPAREN, u)]"
| call_star: "unary_gram (FuncCall f [] True no_loc) [(IDENTIFIER, f), (LPAREN, t), (STAR, w), (RPAREN, u)]"
| call: "args_gram es ss \<Longrightarrow> unary_gram (FuncCall f es False no_loc) ((IDENTIFIER, f) # (LPAREN, t) # ss @ [(RPAREN, u)])"
| last_arg: "expr_gram 1 e ss \<Longrightarrow> args_gram [e] ss"
| next_arg: "expr_gram 1 e ss \<Longrightarrow> args_gram es us \<Longrightarrow> args_gram (e # es) (ss @ (COMMA, t) # us)"

primrec strip :: "ast_expr \<Rightarrow> ast_expr" where
  "strip (IntLit v l) = IntLit v no_loc"
| "strip (DoubleLit v l) = DoubleLit v no_loc"
| "strip (StringLit v l) = StringLit v no_loc"
| "strip (NullLit l) = NullLit no_loc"
| "strip (BoolLit v l) = BoolLit v no_loc"
| "strip (DateLit v l) = DateLit v no_loc"
| "strip (TimestampLit v l) = TimestampLit v no_loc"
| "strip (ColumnName q c l) = ColumnName q c no_loc"
| "strip (FuncCall f es s l) = FuncCall f (map strip es) s no_loc"
| "strip (BinaryExpr k a b l) = BinaryExpr k (strip a) (strip b) no_loc"
| "strip (LogicalExpr k a b l) = LogicalExpr k (strip a) (strip b) no_loc"
| "strip (NotExpr e l) = NotExpr (strip e) no_loc"
| "strip (NullCheck k e l) = NullCheck k (strip e) no_loc"

section \<open>What a call of the parser returns\<close>

text \<open>From some bound on, the call returns this.\<close>

definition returns :: "string \<Rightarrow> call \<Rightarrow> token list \<Rightarrow> ast_expr \<Rightarrow> token list \<Rightarrow> bool" where
  "returns source c ts v ts' \<longleftrightarrow> (\<exists>N. \<forall>n\<ge>N. parse_call source n c ts = Parsed v ts')"

lemma returnsI: "(\<And>n. n \<ge> N \<Longrightarrow> parse_call source (Suc n) c ts = Parsed v ts') \<Longrightarrow> returns source c ts v ts'"
  unfolding returns_def by (rule exI[of _ "Suc N"]) (metis Suc_le_D Suc_le_mono)

lemma peek_Cons [simp]: "peek_at 0 (t # ts) = t"
  by (simp add: peek_at_def)

lemma consume_Cons [simp]: "ts \<noteq> [] \<Longrightarrow> consume (t # ts) = ts"
  by (cases ts) (simp_all add: consume_def)

lemma returns_operand:
  assumes "\<not> (p \<le> 3 \<and> next_kind ts = KW_NOT)" and "returns source Unary ts l ts1"
    and "returns source (BinaryLoop p l) ts1 v ts2"
  shows "returns source (Binary p) ts v ts2"
proof -
  obtain N1 N2 where "\<forall>n\<ge>N1. parse_call source n Unary ts = Parsed l ts1"
    "\<forall>n\<ge>N2. parse_call source n (BinaryLoop p l) ts1 = Parsed v ts2"
    using assms(2,3) unfolding returns_def by blast
  then show ?thesis using assms(1) by (intro returnsI[of "max N1 N2"]) (auto simp: parse_binary_def)
qed

lemma returns_not:
  assumes "p \<le> 3" and "tk_kind t = KW_NOT" and "ts \<noteq> []" and "returns source (Binary 3) ts e ts1"
    and "returns source (BinaryLoop p (NotExpr e (combine_loc (tk_loc t) (expr_loc e)))) ts1 v ts2"
  shows "returns source (Binary p) (t # ts) v ts2"
proof -
  obtain N1 N2 where "\<forall>n\<ge>N1. parse_call source n (Binary 3) ts = Parsed e ts1"
    "\<forall>n\<ge>N2. parse_call source n (BinaryLoop p (NotExpr e (combine_loc (tk_loc t) (expr_loc e)))) ts1 = Parsed v ts2"
    using assms(4,5) unfolding returns_def by blast
  then show ?thesis using assms(1-3) by (intro returnsI[of "max N1 N2"]) (simp add: parse_binary_def)
qed

text \<open>\<open>follows p ts\<close>: the tokens do not continue an expression at level \<open>p\<close>.\<close>

definition follows :: "nat \<Rightarrow> token list \<Rightarrow> bool" where
  "follows p ts \<longleftrightarrow> ts \<noteq> [] \<and> next_kind ts \<notin> {DOT, LPAREN} \<and> \<not> (next_kind ts = KW_IS \<and> 4 \<ge> p) \<and>
     (case lookup_op (next_kind ts) of None \<Rightarrow> True | Some info \<Rightarrow> oi_prec info < p)"

lemma returns_stop: "follows p ts \<Longrightarrow> returns source (BinaryLoop p l) ts l ts"
  by (intro returnsI[of 0]) (auto simp: binary_loop_def follows_def split: option.splits)

lemma returns_operator:
  assumes "lookup_op (tk_kind t) = Some info" and "p \<le> oi_prec info" and "ts \<noteq> []"
    and "returns source (Binary (oi_prec info + 1)) ts r ts1"
    and "returns source (BinaryLoop p (make_binary info l r (combine_loc (expr_loc l) (expr_loc r)))) ts1 v ts2"
  shows "returns source (BinaryLoop p l) (t # ts) v ts2"
proof -
  obtain N1 N2 where "\<forall>n\<ge>N1. parse_call source n (Binary (oi_prec info + 1)) ts = Parsed r ts1"
    "\<forall>n\<ge>N2. parse_call source n (BinaryLoop p (make_binary info l r (combine_loc (expr_loc l) (expr_loc r)))) ts1
       = Parsed v ts2"
    using assms(4,5) unfolding returns_def by blast
  moreover have "tk_kind t \<noteq> KW_IS" using assms(1) by (auto simp: lookup_op_def op_table_def)
  ultimately show ?thesis using assms(1-3) by (intro returnsI[of "max N1 N2"]) (simp add: binary_loop_def)
qed

lemma returns_is_null:
  assumes "p \<le> 4" and "tk_kind t = KW_IS" and "tk_kind u = KW_NULL" and "ts \<noteq> []"
    and "returns source (BinaryLoop p (NullCheck IS_NULL l (combine_loc (expr_loc l) (tk_loc u)))) ts v ts2"
  shows "returns source (BinaryLoop p l) (t # u # ts) v ts2"
proof -
  obtain N where "\<forall>n\<ge>N. parse_call source n (BinaryLoop p (NullCheck IS_NULL l (combine_loc (expr_loc l) (tk_loc u)))) ts
      = Parsed v ts2"
    using assms(5) unfolding returns_def by blast
  then show ?thesis using assms(1-4) by (intro returnsI[of N]) (simp add: binary_loop_def match_kind_def)
qed

lemma returns_is_not_null:
  assumes "p \<le> 4" and "tk_kind t = KW_IS" and "tk_kind w = KW_NOT" and "tk_kind u = KW_NULL" and "ts \<noteq> []"
    and "returns source (BinaryLoop p (NullCheck IS_NOT_NULL l (combine_loc (expr_loc l) (tk_loc u)))) ts v ts2"
  shows "returns source (BinaryLoop p l) (t # w # u # ts) v ts2"
proof -
  obtain N where "\<forall>n\<ge>N. parse_call source n (BinaryLoop p (NullCheck IS_NOT_NULL l (combine_loc (expr_loc l) (tk_loc u)))) ts
      = Parsed v ts2"
    using assms(6) unfolding returns_def by blast
  then show ?thesis using assms(1-5) by (intro returnsI[of N]) (simp add: binary_loop_def match_kind_def)
qed

lemma returns_sign:
  assumes "ts \<noteq> []" and "returns source Unary ts e ts1"
  shows "tk_kind t = MINUS \<Longrightarrow> returns source Unary (t # ts) (negate_expr t e) ts1"
    and "tk_kind t = PLUS \<Longrightarrow> returns source Unary (t # ts) e ts1"
proof -
  obtain N where "\<forall>n\<ge>N. parse_call source n Unary ts = Parsed e ts1"
    using assms(2) unfolding returns_def by blast
  then show "tk_kind t = MINUS \<Longrightarrow> returns source Unary (t # ts) (negate_expr t e) ts1"
    and "tk_kind t = PLUS \<Longrightarrow> returns source Unary (t # ts) e ts1"
    using assms(1) by (intro returnsI[of N]; simp add: parse_unary_def)+
qed

lemma returns_primary:
  assumes "next_kind ts \<notin> {MINUS, PLUS}" and "returns source Primary ts e ts1"
  shows "returns source Unary ts e ts1"
proof -
  obtain N where "\<forall>n\<ge>N. parse_call source n Primary ts = Parsed e ts1"
    using assms(2) unfolding returns_def by blast
  then show ?thesis using assms(1) by (intro returnsI[of N]) (simp add: parse_unary_def)
qed

lemma returns_literal:
  assumes "ts \<noteq> []"
  shows "tk_kind t = INT_LITERAL \<Longrightarrow> returns source Primary (t # ts) (IntLit (strtoll (tk_text t)) (tk_loc t)) ts"
    and "tk_kind t = DOUBLE_LITERAL \<Longrightarrow> returns source Primary (t # ts) (DoubleLit (strtod (tk_text t)) (tk_loc t)) ts"
    and "tk_kind t = STRING_LITERAL \<Longrightarrow> returns source Primary (t # ts) (StringLit (tk_text t) (tk_loc t)) ts"
    and "tk_kind t = KW_NULL \<Longrightarrow> returns source Primary (t # ts) (NullLit (tk_loc t)) ts"
    and "tk_kind t = KW_TRUE \<Longrightarrow> returns source Primary (t # ts) (BoolLit True (tk_loc t)) ts"
    and "tk_kind t = KW_FALSE \<Longrightarrow> returns source Primary (t # ts) (BoolLit False (tk_loc t)) ts"
    and "tk_kind t = KW_DATE \<Longrightarrow> tk_kind u = STRING_LITERAL \<Longrightarrow>
      returns source Primary (t # u # ts) (DateLit (tk_text u) (combine_loc (tk_loc t) (tk_loc u))) ts"
    and "tk_kind t = KW_TIMESTAMP \<Longrightarrow> tk_kind u = STRING_LITERAL \<Longrightarrow>
      returns source Primary (t # u # ts) (TimestampLit (tk_text u) (combine_loc (tk_loc t) (tk_loc u))) ts"
  using assms by (intro returnsI[of 0]; simp add: parse_primary_def tagged_string_def Let_def)+

lemma returns_parens:
  assumes "tk_kind t = LPAREN" and "tk_kind u = RPAREN" and "ts \<noteq> []" and "ts2 \<noteq> []"
    and "returns source (Binary 1) ts e (u # ts2)"
  shows "returns source Primary (t # ts) e ts2"
proof -
  obtain N where "\<forall>n\<ge>N. parse_call source n (Binary 1) ts = Parsed e (u # ts2)"
    using assms(5) unfolding returns_def by blast
  then show ?thesis using assms(1-4)
    by (intro returnsI[of N]) (simp add: parse_primary_def Let_def expect_def match_kind_def)
qed

definition returns_args :: "string \<Rightarrow> token list \<Rightarrow> ast_expr list \<Rightarrow> token list \<Rightarrow> bool" where
  "returns_args source ts vs ts' \<longleftrightarrow> (\<exists>N. \<forall>n\<ge>N. comma_list n (parse_call source n (Binary 1)) ts = Parsed vs ts')"

lemma returns_ident:
  assumes "tk_kind t = IDENTIFIER" and "ts \<noteq> []"
    and "\<And>n. n \<ge> N \<Longrightarrow> parse_ident_or_call source n (parse_call source n) (t # ts) = Parsed e ts'"
  shows "returns source Unary (t # ts) e ts'"
proof (rule returns_primary)
  have "returns source IdentOrCall (t # ts) e ts'" using assms(3) by (intro returnsI[of N]) simp
  then obtain M where "\<forall>n\<ge>M. parse_call source n IdentOrCall (t # ts) = Parsed e ts'"
    unfolding returns_def by blast
  then show "returns source Primary (t # ts) e ts'"
    using assms(1) by (intro returnsI[of M]) (simp add: parse_primary_def Let_def)
qed (use assms(1) in simp)

lemma sym_ofD: "sym_of x = (k, s) \<Longrightarrow> tk_kind x = k \<and> tk_text x = s"
  by (simp add: sym_of_def)

lemma strip_negate: "strip (negate_expr t e) = negated (strip e)"
  by (cases e) (simp_all add: negate_expr_def negated_def Let_def)

lemma strip_make_binary: "strip (make_binary info l r loc) = make_binary info (strip l) (strip r) no_loc"
  by (simp add: make_binary_def)

text \<open>How a phrase begins.\<close>

definition begins :: "sym list \<Rightarrow> token_kind set \<Rightarrow> bool" where
  "begins ss ks \<longleftrightarrow> ss \<noteq> [] \<and> fst (hd ss) \<in> ks"

definition unary_start :: "token_kind set" where
  "unary_start = {MINUS, PLUS, INT_LITERAL, DOUBLE_LITERAL, STRING_LITERAL, KW_NULL, KW_TRUE, KW_FALSE, KW_DATE,
     KW_TIMESTAMP, LPAREN, IDENTIFIER}"

lemma gram_begins:
  "expr_gram p e ss \<Longrightarrow> begins ss (insert KW_NOT unary_start)"
  "unary_gram e ss \<Longrightarrow> begins ss unary_start"
  "args_gram es ss \<Longrightarrow> begins ss (insert KW_NOT unary_start)"
  by (induction rule: expr_gram_unary_gram_args_gram.inducts) (auto simp: begins_def unary_start_def)

lemma follows_mono: "follows p ts \<Longrightarrow> p \<le> q \<Longrightarrow> follows q ts"
  by (auto simp: follows_def split: option.splits)

lemma no_level_3: "lookup_op k = Some info \<Longrightarrow> oi_prec info \<in> {1, 2, 4, 5, 6}"
  by (auto simp: lookup_op_def op_table_def binary_info_def logical_info_def split: if_splits)

lemma follows_3: "follows 4 ts \<Longrightarrow> follows 3 ts"
  using no_level_3 by (fastforce simp: follows_def split: option.splits)

text \<open>The syms of tokens split the way the tokens do.\<close>

lemma map_sym_append:
  assumes "map sym_of ts = ss @ us"
  obtains ts1 ts2 where "ts = ts1 @ ts2" "map sym_of ts1 = ss" "map sym_of ts2 = us"
  using assms by (auto simp: map_eq_append_conv)

lemma map_sym_Cons:
  assumes "map sym_of ts = s # us"
  obtains t ts' where "ts = t # ts'" "sym_of t = s" "map sym_of ts' = us"
  using assms by auto

section \<open>Every phrase is parsed\<close>

definition expr_ok :: "string \<Rightarrow> nat \<Rightarrow> ast_expr \<Rightarrow> sym list \<Rightarrow> bool" where
  "expr_ok source p e ss \<longleftrightarrow> (\<forall>toks rest q. map sym_of toks = ss \<longrightarrow> q \<le> p \<longrightarrow> follows (Suc p) rest \<longrightarrow>
     (\<exists>e'. strip e' = e \<and> (\<forall>v ts'. returns source (BinaryLoop q e') rest v ts' \<longrightarrow>
        returns source (Binary q) (toks @ rest) v ts')))"

definition unary_ok :: "string \<Rightarrow> ast_expr \<Rightarrow> sym list \<Rightarrow> bool" where
  "unary_ok source e ss \<longleftrightarrow> (\<forall>toks rest. map sym_of toks = ss \<longrightarrow> follows 8 rest \<longrightarrow>
     (\<exists>e'. strip e' = e \<and> returns source Unary (toks @ rest) e' rest))"

definition args_ok :: "string \<Rightarrow> ast_expr list \<Rightarrow> sym list \<Rightarrow> bool" where
  "args_ok source es ss \<longleftrightarrow> (\<forall>toks rest. map sym_of toks = ss \<longrightarrow> follows 1 rest \<longrightarrow> next_kind rest \<noteq> COMMA \<longrightarrow>
     (\<exists>es'. map strip es' = es \<and> returns_args source (toks @ rest) es' rest))"

lemma expr_okD:
  assumes "expr_ok source p e (map sym_of toks)" and "q \<le> p" and "follows (Suc p) rest"
  obtains e' where "strip e' = e"
    "\<And>v ts'. returns source (BinaryLoop q e') rest v ts' \<Longrightarrow> returns source (Binary q) (toks @ rest) v ts'"
  using assms unfolding expr_ok_def by metis

text \<open>A complete expression: at its own level, before a token that does not continue it.\<close>

lemma expr_ok_complete:
  assumes "expr_ok source p e (map sym_of toks)" and "follows p rest"
  obtains e' where "strip e' = e" "returns source (Binary p) (toks @ rest) e' rest"
proof -
  have "follows (Suc p) rest" using follows_mono[OF assms(2)] by simp
  from expr_okD[OF assms(1) order_refl this] obtain e' where e': "strip e' = e"
    "\<And>v ts'. returns source (BinaryLoop p e') rest v ts' \<Longrightarrow> returns source (Binary p) (toks @ rest) v ts'"
    by metis
  then show thesis using that returns_stop[OF assms(2)] by blast
qed

lemma expr_ok_level: "expr_ok source (Suc p) e ss \<Longrightarrow> expr_ok source p e ss"
  unfolding expr_ok_def using follows_mono le_SucI by (metis Suc_n_not_le_n nat_le_linear)

lemma expr_ok_unary:
  assumes "unary_ok source e ss" and "begins ss unary_start"
  shows "expr_ok source 7 e ss"
  unfolding expr_ok_def
proof (intro allI impI)
  fix toks rest and q :: nat
  assume toks: "map sym_of toks = ss" and rest: "follows (Suc 7) rest"
  then have "follows 8 rest" by simp
  with assms(1) toks obtain e' where e': "strip e' = e" "returns source Unary (toks @ rest) e' rest"
    unfolding unary_ok_def by blast
  obtain t ts where "toks = t # ts" "tk_kind t \<in> unary_start"
    using toks assms(2) by (cases toks) (auto simp: begins_def sym_of_def)
  then have "next_kind (toks @ rest) \<noteq> KW_NOT" by (auto simp: unary_start_def)
  then show "\<exists>e'. strip e' = e \<and> (\<forall>v ts'. returns source (BinaryLoop q e') rest v ts' \<longrightarrow>
      returns source (Binary q) (toks @ rest) v ts')"
    using e' returns_operand by blast
qed

lemma expr_ok_binary:
  assumes op: "lookup_op k = Some info" and l: "expr_ok source (oi_prec info) l ss"
    and r: "expr_ok source (oi_prec info + 1) r us"
  shows "expr_ok source (oi_prec info) (make_binary info l r no_loc) (ss @ (k, t) # us)"
  unfolding expr_ok_def
proof (intro allI impI)
  fix toks rest and q :: nat
  assume toks: "map sym_of toks = ss @ (k, t) # us" and q: "q \<le> oi_prec info" and rest: "follows (Suc (oi_prec info)) rest"
  obtain ta tb tm where split: "toks = ta @ tm # tb" "map sym_of ta = ss" "tk_kind tm = k" "map sym_of tb = us"
    using toks by (auto simp: map_eq_append_conv map_eq_Cons_conv sym_of_def)
  have kinds: "k \<notin> {DOT, LPAREN, KW_IS}" using op by (auto simp: lookup_op_def op_table_def)
  have ne: "tb @ rest \<noteq> []" using rest by (simp add: follows_def)
  have "follows (Suc (oi_prec info)) (tm # tb @ rest)" using split(3) op kinds by (simp add: follows_def)
  from expr_okD[OF _ q this, of source l ta] l split(2) obtain l' where l': "strip l' = l"
    "\<And>v ts'. returns source (BinaryLoop q l') (tm # tb @ rest) v ts' \<Longrightarrow> returns source (Binary q) (ta @ tm # tb @ rest) v ts'"
    by metis
  from expr_ok_complete[of source "oi_prec info + 1" r tb rest] r split(4) rest obtain r' where
    r': "strip r' = r" "returns source (Binary (oi_prec info + 1)) (tb @ rest) r' rest" by (metis Suc_eq_plus1)
  let ?e = "make_binary info l' r' (combine_loc (expr_loc l') (expr_loc r'))"
  have "returns source (Binary q) (toks @ rest) v ts'" if "returns source (BinaryLoop q ?e) rest v ts'" for v ts'
    using l'(2)[OF returns_operator[OF _ q ne r'(2) that]] op split(1,3) by simp
  then show "\<exists>e'. strip e' = make_binary info l r no_loc \<and> (\<forall>v ts'. returns source (BinaryLoop q e') rest v ts' \<longrightarrow>
      returns source (Binary q) (toks @ rest) v ts')"
    using l'(1) r'(1) strip_make_binary by blast
qed

text \<open>\<open>IS NULL\<close> and \<open>IS NOT NULL\<close>: tokens after an operand that the loop turns into a new operand.\<close>

lemma expr_ok_postfix:
  assumes e: "expr_ok source 4 e ss" and first: "\<And>ts rest. map sym_of ts = us \<Longrightarrow> follows 5 rest \<Longrightarrow> follows 5 (ts @ rest)"
    and step: "\<And>ts q l rest. map sym_of ts = us \<Longrightarrow> q \<le> 4 \<Longrightarrow> rest \<noteq> [] \<Longrightarrow> \<exists>l'. strip l' = f (strip l) \<and>
      (\<forall>v ts'. returns source (BinaryLoop q l') rest v ts' \<longrightarrow> returns source (BinaryLoop q l) (ts @ rest) v ts')"
  shows "expr_ok source 4 (f e) (ss @ us)"
  unfolding expr_ok_def
proof (intro allI impI)
  fix toks rest and q :: nat
  assume toks: "map sym_of toks = ss @ us" and q: "q \<le> 4" and rest: "follows (Suc 4) rest"
  obtain t1 t2 where split: "toks = t1 @ t2" "map sym_of t1 = ss" "map sym_of t2 = us"
    using map_sym_append[OF toks] .
  have "follows (Suc 4) (t2 @ rest)" using first[OF split(3)] rest by simp
  from expr_okD[OF _ q this, of source e t1] e split(2) obtain l where l: "strip l = e"
    "\<And>v ts'. returns source (BinaryLoop q l) (t2 @ rest) v ts' \<Longrightarrow> returns source (Binary q) (t1 @ t2 @ rest) v ts'"
    by metis
  have "rest \<noteq> []" using rest by (simp add: follows_def)
  from step[OF split(3) q this, of l] obtain l' where l': "strip l' = f (strip l)"
    "\<And>v ts'. returns source (BinaryLoop q l') rest v ts' \<Longrightarrow> returns source (BinaryLoop q l) (t2 @ rest) v ts'"
    by blast
  then show "\<exists>e'. strip e' = f e \<and> (\<forall>v ts'. returns source (BinaryLoop q e') rest v ts' \<longrightarrow>
      returns source (Binary q) (toks @ rest) v ts')"
    using l split(1) by (intro exI[of _ l']) simp
qed

lemma expr_ok_is_null:
  assumes "expr_ok source 4 e ss"
  shows "expr_ok source 4 (NullCheck IS_NULL e no_loc) (ss @ [(KW_IS, t), (KW_NULL, u)])"
proof (rule expr_ok_postfix[OF assms, where f = "\<lambda>e. NullCheck IS_NULL e no_loc"])
  fix ts rest
  assume "map sym_of ts = [(KW_IS, t), (KW_NULL, u)]" "follows 5 rest"
  then show "follows 5 (ts @ rest)"
    by (auto simp: follows_def map_eq_Cons_conv sym_of_def lookup_op_def op_table_def)
next
  fix ts l and q :: nat and rest :: "token list"
  assume "map sym_of ts = [(KW_IS, t), (KW_NULL, u)]" "q \<le> 4" "rest \<noteq> []"
  then obtain a b where "ts = [a, b]" "tk_kind a = KW_IS" "tk_kind b = KW_NULL"
    by (auto simp: map_eq_Cons_conv sym_of_def)
  then show "\<exists>l'. strip l' = NullCheck IS_NULL (strip l) no_loc \<and>
      (\<forall>v ts'. returns source (BinaryLoop q l') rest v ts' \<longrightarrow> returns source (BinaryLoop q l) (ts @ rest) v ts')"
    using returns_is_null[OF \<open>q \<le> 4\<close> _ _ \<open>rest \<noteq> []\<close>, of a b source l]
    by (intro exI[of _ "NullCheck IS_NULL l (combine_loc (expr_loc l) (tk_loc b))"]) simp
qed

lemma expr_ok_is_not_null:
  assumes "expr_ok source 4 e ss"
  shows "expr_ok source 4 (NullCheck IS_NOT_NULL e no_loc) (ss @ [(KW_IS, t), (KW_NOT, u), (KW_NULL, w)])"
proof (rule expr_ok_postfix[OF assms, where f = "\<lambda>e. NullCheck IS_NOT_NULL e no_loc"])
  fix ts rest
  assume "map sym_of ts = [(KW_IS, t), (KW_NOT, u), (KW_NULL, w)]" "follows 5 rest"
  then show "follows 5 (ts @ rest)"
    by (auto simp: follows_def map_eq_Cons_conv sym_of_def lookup_op_def op_table_def)
next
  fix ts l and q :: nat and rest :: "token list"
  assume "map sym_of ts = [(KW_IS, t), (KW_NOT, u), (KW_NULL, w)]" "q \<le> 4" "rest \<noteq> []"
  then obtain a b c where "ts = [a, b, c]" "tk_kind a = KW_IS" "tk_kind b = KW_NOT" "tk_kind c = KW_NULL"
    by (auto simp: map_eq_Cons_conv sym_of_def)
  then show "\<exists>l'. strip l' = NullCheck IS_NOT_NULL (strip l) no_loc \<and>
      (\<forall>v ts'. returns source (BinaryLoop q l') rest v ts' \<longrightarrow> returns source (BinaryLoop q l) (ts @ rest) v ts')"
    using returns_is_not_null[OF \<open>q \<le> 4\<close> _ _ _ \<open>rest \<noteq> []\<close>, of a b c source l]
    by (intro exI[of _ "NullCheck IS_NOT_NULL l (combine_loc (expr_loc l) (tk_loc c))"]) simp
qed

lemma expr_ok_not:
  assumes "expr_ok source 3 e ss"
  shows "expr_ok source 3 (NotExpr e no_loc) ((KW_NOT, t) # ss)"
  unfolding expr_ok_def
proof (intro allI impI)
  fix toks rest and q :: nat
  assume toks: "map sym_of toks = (KW_NOT, t) # ss" and q: "q \<le> 3" and rest: "follows (Suc 3) rest"
  obtain a ts where split: "toks = a # ts" "tk_kind a = KW_NOT" "map sym_of ts = ss"
    using toks by (auto simp: map_eq_Cons_conv sym_of_def)
  have "follows 3 rest" using rest follows_3 by simp
  from expr_ok_complete[OF _ this, of source e ts] assms split(3) obtain e' where
    e': "strip e' = e" "returns source (Binary 3) (ts @ rest) e' rest" by metis
  have "ts @ rest \<noteq> []" using rest by (simp add: follows_def)
  then show "\<exists>e'. strip e' = NotExpr e no_loc \<and> (\<forall>v ts'. returns source (BinaryLoop q e') rest v ts' \<longrightarrow>
      returns source (Binary q) (toks @ rest) v ts')"
    using e' returns_not[OF q split(2) _ e'(2)] split(1)
    by (intro exI[of _ "NotExpr e' (combine_loc (tk_loc a) (expr_loc e'))"]) simp
qed

text \<open>A primary that the parser reads token by token.\<close>

lemma unary_okI:
  assumes "\<And>toks rest. map sym_of toks = ss \<Longrightarrow> follows 8 rest \<Longrightarrow> rest \<noteq> [] \<Longrightarrow> next_kind rest \<notin> {DOT, LPAREN} \<Longrightarrow>
     \<exists>e'. strip e' = e \<and> returns source Unary (toks @ rest) e' rest"
  shows "unary_ok source e ss"
  unfolding unary_ok_def using assms by (auto simp: follows_def)

lemma unary_ok_by:
  assumes "\<And>toks rest. map sym_of toks = ss \<Longrightarrow> rest \<noteq> [] \<Longrightarrow> next_kind rest \<notin> {DOT, LPAREN} \<Longrightarrow>
     strip (w toks) = e \<and> returns source Unary (toks @ rest) (w toks) rest"
  shows "unary_ok source e ss"
  using assms by (intro unary_okI) blast

lemmas split_syms = map_eq_append_conv map_eq_Cons_conv sym_of_def

lemma unary_ok_sign:
  assumes "unary_ok source e ss"
  shows "unary_ok source (negated e) ((MINUS, t) # ss)" and "unary_ok source e ((PLUS, t) # ss)"
proof -
  have get: "\<exists>a ts e'. toks = a # ts \<and> sym_of a = s \<and> strip e' = e \<and> returns source Unary (ts @ rest) e' rest \<and> ts @ rest \<noteq> []"
    if "map sym_of toks = s # ss" "follows 8 rest" for s toks rest
    using that assms unfolding unary_ok_def by (auto simp: map_eq_Cons_conv follows_def)
  show "unary_ok source (negated e) ((MINUS, t) # ss)"
  proof (rule unary_okI)
    fix toks rest
    assume "map sym_of toks = (MINUS, t) # ss" "follows 8 rest"
    from get[OF this] obtain a ts e' where "toks = a # ts" "tk_kind a = MINUS" "strip e' = e"
      "returns source Unary (ts @ rest) e' rest" "ts @ rest \<noteq> []" by (auto simp: sym_of_def)
    then show "\<exists>e'. strip e' = negated e \<and> returns source Unary (toks @ rest) e' rest"
      using returns_sign(1)[of "ts @ rest" source e' rest a] strip_negate[of a e'] by auto
  qed
  show "unary_ok source e ((PLUS, t) # ss)"
  proof (rule unary_okI)
    fix toks rest
    assume "map sym_of toks = (PLUS, t) # ss" "follows 8 rest"
    from get[OF this] obtain a ts e' where "toks = a # ts" "tk_kind a = PLUS" "strip e' = e"
      "returns source Unary (ts @ rest) e' rest" "ts @ rest \<noteq> []" by (auto simp: sym_of_def)
    then show "\<exists>e'. strip e' = e \<and> returns source Unary (toks @ rest) e' rest"
      using returns_sign(2)[of "ts @ rest" source e' rest a] by auto
  qed
qed

lemma unary_ok_literal:
  "unary_ok source (IntLit (strtoll t) no_loc) [(INT_LITERAL, t)]"
  "unary_ok source (DoubleLit (strtod t) no_loc) [(DOUBLE_LITERAL, t)]"
  "unary_ok source (StringLit t no_loc) [(STRING_LITERAL, t)]"
  "unary_ok source (NullLit no_loc) [(KW_NULL, t)]"
  "unary_ok source (BoolLit True no_loc) [(KW_TRUE, t)]"
  "unary_ok source (BoolLit False no_loc) [(KW_FALSE, t)]"
  "unary_ok source (DateLit u no_loc) [(KW_DATE, t), (STRING_LITERAL, u)]"
  "unary_ok source (TimestampLit u no_loc) [(KW_TIMESTAMP, t), (STRING_LITERAL, u)]"
proof -
  note prim = returns_primary[where ts = "a # ts" for a ts, simplified]
  show "unary_ok source (IntLit (strtoll t) no_loc) [(INT_LITERAL, t)]"
    by (rule unary_ok_by[where w = "\<lambda>ts. IntLit (strtoll (tk_text (hd ts))) (tk_loc (hd ts))"]) (auto simp: split_syms intro!: prim returns_literal)
  show "unary_ok source (DoubleLit (strtod t) no_loc) [(DOUBLE_LITERAL, t)]"
    by (rule unary_ok_by[where w = "\<lambda>ts. DoubleLit (strtod (tk_text (hd ts))) (tk_loc (hd ts))"]) (auto simp: split_syms intro!: prim returns_literal)
  show "unary_ok source (StringLit t no_loc) [(STRING_LITERAL, t)]"
    by (rule unary_ok_by[where w = "\<lambda>ts. StringLit (tk_text (hd ts)) (tk_loc (hd ts))"]) (auto simp: split_syms intro!: prim returns_literal)
  show "unary_ok source (NullLit no_loc) [(KW_NULL, t)]"
    by (rule unary_ok_by[where w = "\<lambda>ts. NullLit (tk_loc (hd ts))"]) (auto simp: split_syms intro!: prim returns_literal)
  show "unary_ok source (BoolLit True no_loc) [(KW_TRUE, t)]"
    by (rule unary_ok_by[where w = "\<lambda>ts. BoolLit True (tk_loc (hd ts))"]) (auto simp: split_syms intro!: prim returns_literal)
  show "unary_ok source (BoolLit False no_loc) [(KW_FALSE, t)]"
    by (rule unary_ok_by[where w = "\<lambda>ts. BoolLit False (tk_loc (hd ts))"]) (auto simp: split_syms intro!: prim returns_literal)
  show "unary_ok source (DateLit u no_loc) [(KW_DATE, t), (STRING_LITERAL, u)]"
    by (rule unary_ok_by[where w = "\<lambda>ts. DateLit (tk_text (last ts)) (combine_loc (tk_loc (hd ts)) (tk_loc (last ts)))"]) (auto simp: split_syms intro!: prim returns_literal)
  show "unary_ok source (TimestampLit u no_loc) [(KW_TIMESTAMP, t), (STRING_LITERAL, u)]"
    by (rule unary_ok_by[where w = "\<lambda>ts. TimestampLit (tk_text (last ts)) (combine_loc (tk_loc (hd ts)) (tk_loc (last ts)))"]) (auto simp: split_syms intro!: prim returns_literal)
qed

lemma follows_RPAREN: "tk_kind u = RPAREN \<Longrightarrow> follows p (u # ts)"
  by (simp add: follows_def lookup_op_def op_table_def)

lemma follows_COMMA: "tk_kind u = COMMA \<Longrightarrow> follows p (u # ts)"
  by (simp add: follows_def lookup_op_def op_table_def)

lemma unary_ok_parens:
  assumes "expr_ok source 1 e ss"
  shows "unary_ok source e ((LPAREN, t) # ss @ [(RPAREN, u)])"
proof (rule unary_okI)
  fix toks and rest :: "token list"
  assume "map sym_of toks = (LPAREN, t) # ss @ [(RPAREN, u)]" and rest: "rest \<noteq> []"
  then obtain a ts b where split: "toks = a # ts @ [b]" "tk_kind a = LPAREN" "tk_kind b = RPAREN" "map sym_of ts = ss"
    by (auto simp: split_syms)
  from expr_ok_complete[OF _ follows_RPAREN[OF split(3)], of source 1 e ts rest] assms split(4) obtain e' where
    "strip e' = e" "returns source (Binary 1) (ts @ b # rest) e' (b # rest)" by metis
  then show "\<exists>e'. strip e' = e \<and> returns source Unary (toks @ rest) e' rest"
    using returns_parens[OF split(2,3) _ rest] returns_primary[of "a # ts @ b # rest"] split(1,2) by auto
qed

lemma unary_ok_columns:
  "unary_ok source (ColumnName None c no_loc) [(IDENTIFIER, c)]"
  "unary_ok source (ColumnName (Some q) c no_loc) [(IDENTIFIER, q), (DOT, t), (IDENTIFIER, c)]"
  "unary_ok source (FuncCall f [] False no_loc) [(IDENTIFIER, f), (LPAREN, t), (RPAREN, u)]"
  "unary_ok source (FuncCall f [] True no_loc) [(IDENTIFIER, f), (LPAREN, t), (STAR, w), (RPAREN, u)]"
proof -
  note ident = returns_ident[where N = 0]
  show "unary_ok source (ColumnName None c no_loc) [(IDENTIFIER, c)]"
    by (rule unary_ok_by[where w = "\<lambda>ts. ColumnName None (tk_text (hd ts)) (tk_loc (hd ts))"])
       (auto simp: split_syms parse_ident_or_call_def call_args_def Let_def intro!: ident)
  show "unary_ok source (ColumnName (Some q) c no_loc) [(IDENTIFIER, q), (DOT, t), (IDENTIFIER, c)]"
    by (rule unary_ok_by[where w = "\<lambda>ts. ColumnName (Some (tk_text (hd ts))) (tk_text (last ts)) (combine_loc (tk_loc (hd ts)) (tk_loc (last ts)))"])
       (auto simp: split_syms parse_ident_or_call_def call_args_def Let_def intro!: ident)
  show "unary_ok source (FuncCall f [] False no_loc) [(IDENTIFIER, f), (LPAREN, t), (RPAREN, u)]"
    by (rule unary_ok_by[where w = "\<lambda>ts. FuncCall (tk_text (hd ts)) [] False (combine_loc (tk_loc (hd ts)) (tk_loc (last ts)))"])
       (auto simp: split_syms parse_ident_or_call_def call_args_def Let_def intro!: ident)
  show "unary_ok source (FuncCall f [] True no_loc) [(IDENTIFIER, f), (LPAREN, t), (STAR, w), (RPAREN, u)]"
    by (rule unary_ok_by[where w = "\<lambda>ts. FuncCall (tk_text (hd ts)) [] True (combine_loc (tk_loc (hd ts)) (tk_loc (last ts)))"])
       (auto simp: split_syms parse_ident_or_call_def call_args_def Let_def intro!: ident)
qed

lemma unary_ok_call:
  assumes "args_ok source es ss" and "begins ss (insert KW_NOT unary_start)"
  shows "unary_ok source (FuncCall f es False no_loc) ((IDENTIFIER, f) # (LPAREN, t) # ss @ [(RPAREN, u)])"
proof (rule unary_okI)
  fix toks and rest :: "token list"
  assume "map sym_of toks = (IDENTIFIER, f) # (LPAREN, t) # ss @ [(RPAREN, u)]" and rest: "rest \<noteq> []"
  then obtain a b ts c where split: "toks = a # b # ts @ [c]" "sym_of a = (IDENTIFIER, f)" "tk_kind b = LPAREN"
    "tk_kind c = RPAREN" "map sym_of ts = ss"
    by (auto simp: split_syms)
  obtain d ds where ts: "ts = d # ds" "tk_kind d \<notin> {STAR, RPAREN}"
    using assms(2) split(5) by (cases ts) (auto simp: begins_def unary_start_def sym_of_def)
  from assms(1) split(4,5) follows_RPAREN[OF split(4), of 1 rest] obtain es' N where
    es': "map strip es' = es" "\<And>n. n \<ge> N \<Longrightarrow> comma_list n (parse_call source n (Binary 1)) (ts @ c # rest) = Parsed es' (c # rest)"
    unfolding args_ok_def returns_args_def by fastforce
  let ?e = "FuncCall f es' False (combine_loc (tk_loc a) (tk_loc c))"
  have "returns source Unary (a # b # ts @ c # rest) ?e rest"
    using split rest es'(2) ts
    by (intro returns_ident[where N = N])
       (simp_all add: parse_ident_or_call_def call_args_def Let_def sym_of_def)
  then show "\<exists>e'. strip e' = FuncCall f es False no_loc \<and> returns source Unary (toks @ rest) e' rest"
    using split(1) es'(1) by (intro exI[of _ ?e]) simp
qed

lemma args_ok_last:
  assumes "expr_ok source 1 e ss"
  shows "args_ok source [e] ss"
  unfolding args_ok_def
proof (intro allI impI)
  fix toks rest
  assume toks: "map sym_of toks = ss" and rest: "follows 1 rest" "next_kind rest \<noteq> COMMA"
  from expr_ok_complete[OF _ rest(1), of source e toks] assms toks obtain e' N where
    e': "strip e' = e" "\<And>n. n \<ge> N \<Longrightarrow> parse_call source n (Binary 1) (toks @ rest) = Parsed e' rest"
    unfolding returns_def by metis
  have "comma_list n (parse_call source n (Binary 1)) (toks @ rest) = Parsed [e'] rest" if "n \<ge> Suc N" for n
    using that rest(2) e'(2)[of n] by (cases n) (simp_all add: match_kind_def)
  then show "\<exists>es'. map strip es' = [e] \<and> returns_args source (toks @ rest) es' rest"
    unfolding returns_args_def using e'(1) by (intro exI[of _ "[e']"]) auto
qed

lemma comma_list_mono:
  assumes "comma_list n p ts = Parsed xs ts'" and "n \<le> m"
  shows "comma_list m p ts = Parsed xs ts'"
  using agrees_stable[of "\<lambda>k. comma_list k p ts" n m] agrees_comma[of p p] assms by simp

lemma comma_agrees_items:
  "(\<And>ts. agrees (p ts) (p' ts)) \<Longrightarrow> agrees (comma_list n p ts) (comma_list n p' ts)"
proof (induction n arbitrary: ts)
  case (Suc n)
  then show ?case by (auto simp: match_kind_def intro!: agrees_bind)
qed simp

lemma args_ok_next:
  assumes "expr_ok source 1 e ss" and "args_ok source es us"
  shows "args_ok source (e # es) (ss @ (COMMA, t) # us)"
  unfolding args_ok_def
proof (intro allI impI)
  fix toks rest
  assume "map sym_of toks = ss @ (COMMA, t) # us" and rest: "follows 1 rest" "next_kind rest \<noteq> COMMA"
  then obtain ta c tb where split: "toks = ta @ c # tb" "map sym_of ta = ss" "tk_kind c = COMMA" "map sym_of tb = us"
    by (auto simp: split_syms)
  from expr_ok_complete[OF _ follows_COMMA[OF split(3)], of source 1 e ta "tb @ rest"] assms(1) split(2) obtain e' N where
    e': "strip e' = e" "\<And>n. n \<ge> N \<Longrightarrow> parse_call source n (Binary 1) (ta @ c # tb @ rest) = Parsed e' (c # tb @ rest)"
    unfolding returns_def by metis
  from assms(2) split(4) rest obtain es' M where es': "map strip es' = es"
    "\<And>n. n \<ge> M \<Longrightarrow> comma_list n (parse_call source n (Binary 1)) (tb @ rest) = Parsed es' rest"
    unfolding args_ok_def returns_args_def by fastforce
  have ne: "tb @ rest \<noteq> []" using rest(1) by (simp add: follows_def)
  have "comma_list n (parse_call source n (Binary 1)) (toks @ rest) = Parsed (e' # es') rest" if n: "n \<ge> Suc (max N M)" for n
  proof -
    obtain m where m: "n = Suc m" "m \<ge> M" using n by (cases n) auto
    have "comma_list m (parse_call source n (Binary 1)) (tb @ rest) = Parsed es' rest"
    proof -
      have "agrees (comma_list m (parse_call source m (Binary 1)) (tb @ rest)) (comma_list m (parse_call source n (Binary 1)) (tb @ rest))"
        using comma_agrees_items[of "parse_call source m (Binary 1)" "parse_call source n (Binary 1)" m "tb @ rest"]
          parse_call_agrees[of source m] m(1) unfolding rec_agrees_def by blast
      then show ?thesis using es'(2)[OF m(2)] by (simp add: agrees_def)
    qed
    then show ?thesis using e'(2)[of n] n split(1,3) m ne by (simp add: match_kind_def)
  qed
  then show "\<exists>es'. map strip es' = e # es \<and> returns_args source (toks @ rest) es' rest"
    unfolding returns_args_def using e'(1) es'(1) by (intro exI[of _ "e' # es'"]) auto
qed

lemma gram_parsed:
  "expr_gram p e ss \<Longrightarrow> expr_ok source p e ss"
  "unary_gram e ss \<Longrightarrow> unary_ok source e ss"
  "args_gram es ss \<Longrightarrow> args_ok source es ss"
proof (induction rule: expr_gram_unary_gram_args_gram.inducts)
  case (call es ss f t u)
  then show ?case using unary_ok_call gram_begins(3) by blast
next
  case (unary e ss)
  then show ?case using expr_ok_unary gram_begins(2) by blast
qed (blast intro: expr_ok_level expr_ok_binary expr_ok_is_null expr_ok_is_not_null expr_ok_not unary_ok_sign
    unary_ok_literal unary_ok_parens unary_ok_columns args_ok_last args_ok_next)+

section \<open>Parsing a source\<close>

lemma tokenize_front:
  assumes "tokenize src = ok toks"
  obtains front e where "toks = front @ [e]" "tk_kind e = END_OF_FILE"
  using assms by (auto simp: tokenize_def split: sum.splits)

lemma follows_EOF: "tk_kind e = END_OF_FILE \<Longrightarrow> follows p [e]"
  by (simp add: follows_def op_kinds)


lemma sample_phrase:
  "expr_gram 1 (BinaryExpr binary_op_kind.LE (ColumnName None ''a'' no_loc) (IntLit 1 no_loc) no_loc)
     [(IDENTIFIER, ''a''), (token_kind.LE, ''''), (INT_LITERAL, ''1'')]"
proof -
  have up: "expr_gram p e ss" if "expr_gram q e ss" "p \<le> q" for p q e ss
    using that(2,1) by (induction rule: inc_induct) (blast intro: level)+
  have op: "lookup_op token_kind.LE = Some (binary_info 4 binary_op_kind.LE)"
    by (simp add: lookup_op_def op_table_def)
  have prec: "oi_prec (binary_info 4 binary_op_kind.LE) = 4" by (simp add: binary_info_def)
  have l: "expr_gram 4 (ColumnName None ''a'' no_loc) [(IDENTIFIER, ''a'')]"
    by (rule up[OF unary[OF column]]) simp
  have r: "expr_gram (4 + 1) (IntLit (strtoll ''1'') no_loc) [(INT_LITERAL, ''1'')]"
    by (rule up[OF unary[OF int_lit]]) simp
  have "strtoll ''1'' = 1" by code_simp
  then show ?thesis using up[OF binary[OF op, unfolded prec, OF l r], of 1]
    by (simp add: make_binary_def binary_info_def)
qed


text \<open>
  The least 64-bit integer cannot be written: \<open>strtoll\<close> saturates before the sign is applied.
\<close>

lemma least_integer_literal:
  "parse_unary (\<lambda>c ts. Parsed (IntLit (strtoll ''9223372036854775808'') no_loc) ts)
     [\<lparr> tk_kind = MINUS, tk_loc = no_loc, tk_text = '''' \<rparr>, \<lparr> tk_kind = END_OF_FILE, tk_loc = no_loc, tk_text = '''' \<rparr>] =
   Parsed (IntLit (word_of_int (- 9223372036854775807)) no_loc)
     [\<lparr> tk_kind = END_OF_FILE, tk_loc = no_loc, tk_text = '''' \<rparr>]"
proof -
  have "strtoll ''9223372036854775808'' = 9223372036854775807" by code_simp
  then show ?thesis by (simp add: parse_unary_def negate_expr_def combine_loc_def no_loc_def)
qed

end
