(* ===== verification/Spec2Isabelle.thy ===== *)
theory Spec2Isabelle
  imports Column_File Wal Sharding Election Sort_Op Grammar
begin

text \<open>
  A verification library for nyxdb, a columnar SQL database in C++17. All file names below are
  relative to \<^verbatim>\<open>src/src/\<close>.

  \<^bold>\<open>The program.\<close> A statement is cut into tokens, parsed into a syntax tree, bound to the
  catalog and planned as a tree of operators that pull chunks of column vectors from each other.
  Tables are made of segments, a segment of one column file per column, a column file of pages of
  8 KB that are read through a buffer pool and guarded by a checksum. Every change is first
  appended to a write-ahead log. Schemas, constraints and shard maps live in small files of their
  own. A cluster elects a leader, and a shard map routes rows and queries to nodes.

  \<^bold>\<open>Conventions.\<close> \<open>Result<T>\<close> is the sum type \<open>string + 'a\<close> with \<open>ok\<close> and \<open>err\<close>. Integers are
  words of their width; signed ones are read with \<^const>\<open>sint\<close>, and overflow wraps. A double is its
  bit pattern; its arithmetic is a parameter (record \<open>fpu\<close>), its comparison is defined. Objects
  are records and methods return the new state beside their result. A system call takes its
  outcome from a script in the state, so that short writes and failures are behaviours of the
  model. In the executor \<open>None\<close> is a failed assertion, a trap, or a call that does not return
  (\<open>partial_function (option)\<close>); the theorems state that \<open>Some\<close> is returned.

  \<^bold>\<open>Storage.\<close>
  \<^item> \<open>Nyx_Prelude\<close>, \<open>Values\<close>: machine types, little-endian bytes, bit maps, blits
    (\<^verbatim>\<open>common/\<close>); types, values and schemas (\<^verbatim>\<open>storage/disk/type_id.h\<close>, \<^verbatim>\<open>value.h\<close>,
    \<^verbatim>\<open>schema.h\<close>), comparison of doubles and strings.
  \<^item> \<open>Column_Page\<close> (\<^verbatim>\<open>storage/disk/column_page.cpp\<close>): a page refines a list of values of bounded
    length under appends and truncations, values read back bit for bit, min and max bound them,
    and the capacity is exact. The locale \<open>zone_order\<close> carries the min/max argument for the three
    ordered types.
  \<^item> \<open>Xxhash\<close> (\<^verbatim>\<open>common/xxhash.h\<close>): each step is a bijection, so a changed byte of the tail
    changes the hash.
  \<^item> \<open>Disk_Manager\<close> (\<^verbatim>\<open>page.h\<close>, \<^verbatim>\<open>disk_manager.cpp\<close>): a written page reads back and no operation
    disturbs another page, whatever the system calls do.
  \<^item> \<open>Lru_K\<close>, \<open>Buffer_Pool\<close> (\<^verbatim>\<open>storage/memory/\<close>): the replacer as a locale with LRU-K as its
    interpretation; the pool is transparent, and its errors leave it as it was.
  \<^item> \<open>Column_File\<close> (\<^verbatim>\<open>column_file.cpp\<close>): appending, bulk appending with an error in the middle,
    reading, flushing and reopening, truncating, as operations on the list of values.
  \<^item> \<open>Codec\<close>, \<open>Meta_Files\<close> (\<^verbatim>\<open>schema.cpp\<close>, \<^verbatim>\<open>constraint_file.cpp\<close>, \<^verbatim>\<open>shard_map_file.cpp\<close>,
    \<^verbatim>\<open>server/wire.cpp\<close>): readers as state transformers, and the locale \<open>codec\<close> with the round trip
    of a file that is written in one piece.
  \<^item> \<open>Wal\<close> (\<^verbatim>\<open>storage/wal/\<close>): all record types, byte for byte. What is read after any run of log
    calls is what was acknowledged, or that and the record whose call failed.

  \<^bold>\<open>Cluster.\<close>
  \<^item> \<open>Sharding\<close> (\<^verbatim>\<open>shard_map_file.cpp\<close>): pruning never loses the partition that holds a row, over
    the locale \<open>value_order\<close> of the comparisons of one type.
  \<^item> \<open>Election\<close> (\<^verbatim>\<open>replication/election.cpp\<close>): the handlers on one node, and clusters as a step
    relation with timeouts, losses, delays and restarts; no term has two leaders in an odd cluster.

  \<^bold>\<open>Executor.\<close>
  \<^item> \<open>Selection_Vector\<close>, \<open>Column_Vector\<close>, \<open>Chunk\<close> (\<^verbatim>\<open>executor/selection_vector.cpp\<close>,
    \<^verbatim>\<open>column_vector.h\<close>, \<^verbatim>\<open>chunk.h\<close>): three representations of a list of rows; values as bytes and
    null bits; the rows of a chunk. Cutting at either end has one contract, the locale \<open>cut_seq\<close>.
  \<^item> \<open>Expression\<close> (\<^verbatim>\<open>expression.cpp\<close>): the vectorised kernels agree with an interpreter of
    three-valued logic on single rows, errors included, and respect static types.
  \<^item> \<open>Operators\<close> (\<^verbatim>\<open>filter.cpp\<close>, \<^verbatim>\<open>project.cpp\<close>, \<^verbatim>\<open>limit.cpp\<close>): what each operator makes of the
    stream of its child (\<open>drains\<close>), and a plan composed of all three.
  \<^item> \<open>Blocking\<close>, \<open>Sort_Op\<close> (\<^verbatim>\<open>sort.cpp\<close>): buffering, copying rows and delivering slices; the order
    of the keys is a strict weak order (locale \<open>weak_order\<close>), and the operator is a stable sort.

  \<^bold>\<open>Parser.\<close>
  \<^item> \<open>Lexer\<close> (\<^verbatim>\<open>parser/lexer.cpp\<close>): printing and lexing tokens is a round trip, and locations are in
    order and inside the source.
  \<^item> \<open>Ast\<close>, \<open>Parser\<close> (\<^verbatim>\<open>ast.h\<close>, \<^verbatim>\<open>parser.cpp\<close>): every function of the parser, with one bound for
    the depth of the recursion and the rounds of the loops.
  \<^item> \<open>Parser_Total\<close>: four times the number of tokens plus three is enough for any input, and more
    does not change the outcome.
  \<^item> \<open>Grammar\<close>: every phrase of an inductive grammar of expressions is parsed to its tree. The
    parser accepts more (\<open>a IS NULL + 1\<close>), so the converse is not claimed.

  \<^bold>\<open>Bounds.\<close> Row counts of chunks stay below \<open>2 ^ 32 - 7\<close>, since the code rounds them up to bytes
  in \<open>u32\<close>; a sort has fewer than \<open>2 ^ 32\<close> rows, since it counts chunks and rows in \<open>u32\<close>. Apart
  from the parser no definition has fuel.

  \<^bold>\<open>Not modelled.\<close> The joins and the aggregate (\<^verbatim>\<open>executor/nested_loop_join.cpp\<close>,
  \<^verbatim>\<open>hash_join.cpp\<close>, \<^verbatim>\<open>hash_aggregate.cpp\<close>), the scans, tables and segments, the B+ tree, the
  catalog, the binder and the planner are sequential code that the library does not cover so far.
  Merging, vacuuming, log shipping, snapshots, sessions and coordinators are threads and
  connections around the parts above. The QUIC transport, the programs and the logger are input
  and output. Locks are not modelled: every operation is one step.
\<close>

end
